(* ===== verification/Prelude.thy ===== *)
theory Prelude
  imports Main "HOL-Library.Word"
begin

text \<open>
  Shared vocabulary of the Sandnix kernel development: the fixed-width integer types of
  \<^verbatim>\<open>src/src/common/arch/x86/types.h\<close>, pointers (a 32-bit address, 0 is \<^verbatim>\<open>NULL\<close>), the status
  codes of \<^verbatim>\<open>hal/exception/errno.h\<close> that the modelled components return, and the generic lemmas
  on words and lists that more than one component uses.
\<close>

unbundle bit_operations_syntax

subsection \<open>Machine types\<close>

type_synonym u8 = "8 word"
type_synonym u16 = "16 word"
type_synonym u32 = "32 word"
type_synonym u64 = "64 word"

text \<open>
  \<^verbatim>\<open>address_t\<close> and \<^verbatim>\<open>size_t\<close> are 32-bit on both supported architectures, and so is every
  pointer.
\<close>

type_synonym ptr = "32 word"

abbreviation NULL :: ptr where "NULL \<equiv> 0"

named_theorems word_arith \<open>unat of the word operations, without the overflow cases removed\<close>

declare unat_word_ariths [word_arith]

subsection \<open>32-bit words as natural numbers\<close>

lemma len32: "LENGTH(32) = 32"
  by simp

lemma unat_lt_32: "unat (w :: u32) < 2 ^ 32"
  using unsigned_less [of w, where ?'a = nat] by simp

lemma unat_of_nat_less: "n < 2 ^ 32 \<Longrightarrow> unat (of_nat n :: u32) = n"
  by (simp add: unat_of_nat)

lemma unat_minus_of_nat:
  "n < 2 ^ 32 \<Longrightarrow> unat (x - of_nat n :: u32) = (if n \<le> unat x then unat x - n else unat x + 2 ^ 32 - n)"
  by (simp add: unat_sub_if' unat_of_nat_less)

subsection \<open>Masks and alignment\<close>

lemma unat_and_mask: "unat (x AND (2 ^ k - 1) :: u32) = unat x mod 2 ^ k"
proof -
  have "x AND (2 ^ k - 1) = take_bit k x"
    by (simp add: take_bit_eq_mask mask_eq_exp_minus_1)
  then show ?thesis by (simp only: unsigned_take_bit_eq) (simp only: take_bit_eq_mod)
qed

lemma unat_not_mask_and: "unat (NOT (2 ^ k - 1) AND x :: u32) = 2 ^ k * (unat x div 2 ^ k)"
proof -
  let ?m = "2 ^ k - 1 :: u32"
  have "NOT ?m AND x = x AND NOT (x AND ?m)" by (rule bit_eqI) (auto simp: bit_simps)
  also have "\<dots> = x - (x AND ?m)"
    by (rule disjunctive_diff_eq_and_not [symmetric]) (rule bit_eqI, auto simp: bit_simps)
  finally have "NOT ?m AND x = x - (x AND ?m)" .
  moreover have "x AND (2 ^ k - 1) \<le> x" by (rule word_and_le2)
  ultimately have "unat (NOT (2 ^ k - 1) AND x) = unat x - unat x mod 2 ^ k"
    by (simp only: unat_sub unat_and_mask)
  then show ?thesis by (simp add: minus_mod_eq_mult_div)
qed

lemmas unat_masks =
  unat_and_mask [of _ 1, simplified] unat_and_mask [of _ 2, simplified] unat_and_mask [of _ 3, simplified]
  unat_not_mask_and [of 1, simplified] unat_not_mask_and [of 2, simplified] unat_not_mask_and [of 3, simplified]

lemma unat_drop_bit: "unat (drop_bit k (n :: u32)) = unat n div 2 ^ k"
  by (simp only: unat_drop_bit_eq) (simp only: drop_bit_eq_div)

lemma unat_2p: "k < 32 \<Longrightarrow> unat (2 ^ k :: u32) = 2 ^ k"
  using unat_of_nat_less [of "2 ^ k"] power_strict_increasing [of k 32 "2::nat"] by simp

lemma unat_add_mod: "k \<le> 32 \<Longrightarrow> unat (x + y :: u32) mod 2 ^ k = (unat x + unat y) mod 2 ^ k"
proof -
  assume "k \<le> 32"
  then have "(2::nat) ^ k dvd 2 ^ 32" by (rule le_imp_power_dvd)
  from mod_mod_cancel [OF this] show ?thesis by (simp add: unat_word_ariths)
qed

lemma and_mask_0: "x AND (2 ^ k - 1) = 0 \<longleftrightarrow> unat (x :: u32) mod 2 ^ k = 0"
  by (metis unat_and_mask unat_eq_zero)

subsection \<open>Stores of objects\<close>

text \<open>
  Reading a field of the object at an address, and writing one given by its update function; an
  address without a live object gives \<open>None\<close>.
\<close>

definition rd :: "('n \<Rightarrow> 'a) \<Rightarrow> (ptr \<rightharpoonup> 'n) \<Rightarrow> ptr \<Rightarrow> 'a option" where
  "rd f s p = map_option f (s p)"

definition wr :: "('n \<Rightarrow> 'n) \<Rightarrow> (ptr \<rightharpoonup> 'n) \<Rightarrow> ptr \<Rightarrow> (ptr \<rightharpoonup> 'n) option" where
  "wr u s p = map_option (\<lambda>n. s(p \<mapsto> u n)) (s p)"

subsection \<open>Searching an interval\<close>

lemma find_upt_Suc:
  "find P [0..<Suc n] = (if P 0 then Some 0 else map_option Suc (find (P \<circ> Suc) [0..<n]))"
proof -
  have "[0..<Suc n] = 0 # map Suc [0..<n]" by (simp only: map_Suc_upt upt_conv_Cons [OF zero_less_Suc])
  moreover have "find P (map Suc xs) = map_option Suc (find (P \<circ> Suc) xs)" for xs
    by (induction xs) auto
  ultimately show ?thesis by simp
qed

text \<open>Bounded quantifiers at numerals, for evaluation.\<close>

lemma all_less_numeral:
  "(\<forall>i < (numeral k :: nat). P i) \<longleftrightarrow> P (pred_numeral k) \<and> (\<forall>i < pred_numeral k. P i)"
  by (auto simp: numeral_eq_Suc All_less_Suc)

lemma all_le_numeral:
  "(\<forall>i \<le> (numeral k :: nat). P i) \<longleftrightarrow> P (numeral k) \<and> (\<forall>i \<le> pred_numeral k. P i)"
  by (auto simp: numeral_eq_Suc le_Suc_eq)

lemma all_le_Suc: "(\<forall>i \<le> Suc n. P i) \<longleftrightarrow> P (Suc n) \<and> (\<forall>i \<le> n. P i)"
  by (auto simp: le_Suc_eq)

lemmas all_bounded = all_less_numeral all_le_numeral All_less_Suc all_le_Suc

end
