(* ===== verification/HalMath.thy ===== *)
theory HalMath
  imports Prelude
begin

text \<open>
  \<^verbatim>\<open>kernel/hal/rtl/math/math.c\<close>: 64- and 32-bit unsigned division and remainder by shift and
  subtract, for machines without the instruction. The four functions run the same loop over
  different widths; the loop is modelled once, at any width, with the mask of the top bit as
  an argument.
\<close>

subsection \<open>The code\<close>

text \<open>
  One iteration: the next bit of the dividend moves into the remainder, and the divisor is
  subtracted when it fits. \<open>k\<close> counts the iterations left (\<^verbatim>\<open>64 - i\<close> or \<^verbatim>\<open>32 - i\<close>).
\<close>

fun div_loop ::
  "'a::len word \<Rightarrow> nat \<Rightarrow> 'a word \<Rightarrow> 'a word \<Rightarrow> 'a word \<Rightarrow> 'a word \<Rightarrow> 'a word \<times> 'a word" where
  "div_loop msb_mask 0 dividend divisor quot remainder = (quot, remainder)"
| "div_loop msb_mask (Suc k) dividend divisor quot remainder =
     (let remainder = (if dividend AND msb_mask \<noteq> 0 then push_bit 1 remainder + 1
                       else push_bit 1 remainder)
      in if divisor \<le> remainder
         then div_loop msb_mask k (push_bit 1 dividend) divisor (push_bit 1 quot + 1)
                (remainder - divisor)
         else div_loop msb_mask k (push_bit 1 dividend) divisor (push_bit 1 quot) remainder)"

definition hal_rtl_math_div64 :: "u64 \<Rightarrow> u64 \<Rightarrow> u64" where
  "hal_rtl_math_div64 dividend divisor =
     fst (div_loop 0x8000000000000000 64 dividend divisor 0 0)"

definition hal_rtl_math_mod64 :: "u64 \<Rightarrow> u64 \<Rightarrow> u64" where
  "hal_rtl_math_mod64 dividend divisor =
     snd (div_loop 0x8000000000000000 64 dividend divisor 0 0)"

definition hal_rtl_math_div32 :: "u32 \<Rightarrow> u32 \<Rightarrow> u32" where
  "hal_rtl_math_div32 dividend divisor = fst (div_loop 0x80000000 32 dividend divisor 0 0)"

definition hal_rtl_math_mod32 :: "u32 \<Rightarrow> u32 \<Rightarrow> u32" where
  "hal_rtl_math_mod32 dividend divisor = snd (div_loop 0x80000000 32 dividend divisor 0 0)"

subsection \<open>Shifting one bit\<close>

lemma less_two_of_bool: "h < 2 \<Longrightarrow> b = odd h \<Longrightarrow> h = of_bool b" for h :: nat
  by (auto simp: less_2_cases_iff)

lemma shift_in: "a * 2 ^ Suc k + (b * 2 ^ k + s) = (2 * a + b) * 2 ^ k + s" for a b s :: nat
  by (simp add: algebra_simps)

lemma sub_scale: "v \<le> a \<Longrightarrow> (a - v) * p + s + v * p = a * p + s" for a p s v :: nat
  by (metis add.assoc add.commute add_mult_distrib le_add_diff_inverse2)

lemma pow_mult_less: "a * 2 ^ k + s < m \<Longrightarrow> a < m" for a s m :: nat
proof -
  assume less: "a * 2 ^ k + s < m"
  have "a * 1 \<le> a * 2 ^ k" by (rule mult_le_mono2) simp
  with less show "a < m" by linarith
qed

lemma unat_push_bit_1: "unat (push_bit 1 (w::'a::len word)) = 2 * unat w mod 2 ^ LENGTH('a)"
  by (metis mult.commute power_one_right push_bit_eq_mult take_bit_eq_mod unsigned_push_bit_eq)

lemma unat_shl1: "2 * unat w < 2 ^ LENGTH('a) \<Longrightarrow> unat (push_bit 1 w) = 2 * unat w"
  for w :: "'a::len word"
  by (simp only: unat_push_bit_1 mod_less)

lemma unat_shl1_inc:
  "2 * unat w + 1 < 2 ^ LENGTH('a) \<Longrightarrow> unat (push_bit 1 w + 1) = 2 * unat w + 1"
  for w :: "'a::len word"
  by (subst unat_add_lem [THEN iffD1]) (simp_all only: unat_shl1 add_lessD1 unsigned_1)

lemma bit_word_unat: "bit (w::'a::len word) n = odd (unat w div 2 ^ n)"
  by (metis bit_iff_odd bit_unsigned_iff possible_bit_nat)

lemma top_bit_value:
  "unat d div 2 ^ (LENGTH('a) - 1) = of_bool (d AND push_bit (LENGTH('a) - 1) 1 \<noteq> 0)"
  for d :: "'a::len word"
proof (rule less_two_of_bool)
  have "unat d < 2 * 2 ^ (LENGTH('a) - 1)"
    using unsigned_less [of d, where ?'a = nat] by (metis len_gt_0 power_eq_if neq0_conv)
  then show "unat d div 2 ^ (LENGTH('a) - 1) < 2" by (simp add: less_mult_imp_div_less)
  show "(d AND push_bit (LENGTH('a) - 1) 1 \<noteq> 0) = odd (unat d div 2 ^ (LENGTH('a) - 1))"
    by (metis bit_iff_and_push_bit_not_eq_0 bit_word_unat)
qed

text \<open>The next \<open>Suc k\<close> bits of the dividend are its top bit and the next \<open>k\<close> bits.\<close>

lemma next_bits_split:
  fixes d :: nat
  assumes "Suc k \<le> n"
  shows "d div 2 ^ (n - Suc k) =
         d div 2 ^ (n - 1) * 2 ^ k + (2 * d mod 2 ^ n) div 2 ^ (n - k)"
proof -
  obtain m where n: "n = Suc (k + m)" using assms by (metis add_Suc le_Suc_ex)
  have p: "(2::nat) ^ (k + m) = 2 ^ m * 2 ^ k" by (simp add: power_add)
  have e: "n - k = Suc m" "n - Suc k = m" "n - 1 = k + m" by (simp_all add: n)
  have "2 * d mod 2 ^ n = 2 * (d mod 2 ^ (k + m))"
    by (simp only: n power_Suc mod_mult_mult1)
  then have "(2 * d mod 2 ^ n) div 2 ^ (n - k) = (d mod 2 ^ (k + m)) div 2 ^ m"
    by (simp only: e power_Suc div_mult_mult1_if) simp
  also have "\<dots> = d div 2 ^ m mod 2 ^ k"
    unfolding p mod_mult2_eq by simp
  finally show ?thesis
    unfolding e p div_mult2_eq by (simp only: div_mult_mod_eq)
qed

subsection \<open>The loop computes quotient and remainder\<close>

text \<open>
  What is still to be divided when \<open>k\<close> iterations are left: the remainder so far followed
  by the \<open>k\<close> bits of the dividend not yet shifted in.
\<close>

definition pending :: "nat \<Rightarrow> 'a::len word \<Rightarrow> 'a word \<Rightarrow> nat" where
  "pending k dividend remainder =
     unat remainder * 2 ^ k + unat dividend div 2 ^ (LENGTH('a) - k)"

definition shift_remainder :: "'a::len word \<Rightarrow> 'a word \<Rightarrow> 'a word \<Rightarrow> 'a word" where
  "shift_remainder msb_mask dividend remainder =
     (if dividend AND msb_mask \<noteq> 0 then push_bit 1 remainder + 1 else push_bit 1 remainder)"

lemma div_loop_step:
  "div_loop msb_mask (Suc k) dividend divisor quot remainder =
     (if divisor \<le> shift_remainder msb_mask dividend remainder
      then div_loop msb_mask k (push_bit 1 dividend) divisor (push_bit 1 quot + 1)
             (shift_remainder msb_mask dividend remainder - divisor)
      else div_loop msb_mask k (push_bit 1 dividend) divisor (push_bit 1 quot)
             (shift_remainder msb_mask dividend remainder))"
  by (simp only: div_loop.simps Let_def shift_remainder_def)

declare div_loop.simps(2) [simp del]

lemma shift_remainder_value:
  fixes dividend remainder :: "'a::len word"
  defines "r1 \<equiv> shift_remainder (push_bit (LENGTH('a) - 1) 1) dividend remainder"
  assumes "Suc k \<le> LENGTH('a)" "pending (Suc k) dividend remainder < 2 ^ LENGTH('a)"
  shows "pending k (push_bit 1 dividend) r1 = pending (Suc k) dividend remainder"
    and "unat r1 \<le> 2 * unat remainder + 1"
proof -
  define b where "b \<longleftrightarrow> dividend AND push_bit (LENGTH('a) - 1) 1 \<noteq> 0"
  have eq: "pending (Suc k) dividend remainder =
    (2 * unat remainder + of_bool b) * 2 ^ k + unat (push_bit 1 dividend) div 2 ^ (LENGTH('a) - k)"
    unfolding pending_def next_bits_split [OF assms(2)] top_bit_value unat_push_bit_1 b_def
    by (simp only: shift_in add.assoc)
  with assms(3) have lt: "2 * unat remainder + of_bool b < 2 ^ LENGTH('a)"
    by (metis pow_mult_less)
  have r1: "unat r1 = 2 * unat remainder + of_bool b"
  proof (cases b)
    case True
    then have "r1 = push_bit 1 remainder + 1" by (simp only: r1_def shift_remainder_def b_def if_True not_False_eq_True)
    then show ?thesis using lt True by (simp only: unat_shl1_inc of_bool_eq)
  next
    case False
    then have "r1 = push_bit 1 remainder"
      by (simp only: r1_def shift_remainder_def b_def if_False not_True_eq_False)
    then show ?thesis using lt False by (simp only: unat_shl1 of_bool_eq add_0_right)
  qed
  show "pending k (push_bit 1 dividend) r1 = pending (Suc k) dividend remainder"
    unfolding eq by (simp only: pending_def r1)
  show "unat r1 \<le> 2 * unat remainder + 1" unfolding r1 by simp
qed

lemma div_loop_correct:
  fixes dividend divisor quot remainder :: "'a::len word"
  assumes "k \<le> LENGTH('a)" "pending k dividend remainder < 2 ^ LENGTH('a)" "remainder < divisor"
    and "unat quot * 2 ^ k + pending k dividend remainder div unat divisor < 2 ^ LENGTH('a)"
    and "div_loop (push_bit (LENGTH('a) - 1) 1) k dividend divisor quot remainder = (q, r)"
  shows "unat q = unat quot * 2 ^ k + pending k dividend remainder div unat divisor \<and>
         unat r = pending k dividend remainder mod unat divisor"
  using assms
proof (induction k arbitrary: dividend quot remainder)
  case 0
  then show ?case by (simp add: pending_def word_less_nat_alt)
next
  case (Suc k)
  let ?m = "push_bit (LENGTH('a) - 1) 1 :: 'a word" and ?d = "push_bit 1 dividend"
  let ?v = "unat divisor" and ?P = "pending (Suc k) dividend remainder"
  define r1 where "r1 = shift_remainder ?m dividend remainder"
  note r1 = shift_remainder_value [OF Suc.prems(1,2), folded r1_def]
  have v: "0 < ?v" "unat remainder < ?v" using Suc.prems(3) by (auto simp: word_less_nat_alt)
  have k: "k \<le> LENGTH('a)" using Suc.prems(1) by simp
  have step: "(if divisor \<le> r1 then div_loop ?m k ?d divisor (push_bit 1 quot + 1) (r1 - divisor)
       else div_loop ?m k ?d divisor (push_bit 1 quot) r1) = (q, r)"
    using Suc.prems(5) unfolding div_loop_step r1_def by simp
  show ?case
  proof (cases "divisor \<le> r1")
    case True
    let ?Y = "pending k ?d (r1 - divisor)"
    have "?Y + ?v * 2 ^ k = ?P"
      using r1(1) unfolding pending_def unat_sub [OF True]
      by (subst sub_scale) (use True in \<open>simp_all only: word_le_nat_alt\<close>)
    then have Y: "?P = ?Y + ?v * 2 ^ k" by simp
    have dm: "?P div ?v = ?Y div ?v + 2 ^ k" "?P mod ?v = ?Y mod ?v"
      unfolding Y using v(1) by simp_all
    have qb: "(2 * unat quot + 1) * 2 ^ k + ?Y div ?v < 2 ^ LENGTH('a)"
      using Suc.prems(4) unfolding dm by (simp add: algebra_simps)
    have q1: "unat (push_bit 1 quot + 1) = 2 * unat quot + 1"
      by (rule unat_shl1_inc [OF pow_mult_less [OF qb]])
    have lt: "r1 - divisor < divisor"
      using r1(2) v(2) by (simp only: word_less_nat_alt unat_sub [OF True])
    have Yb: "?Y < 2 ^ LENGTH('a)" using Suc.prems(2) unfolding Y by simp
    show ?thesis
      using Suc.IH [OF k Yb lt, of "push_bit 1 quot + 1"] qb step True unfolding q1 dm by simp
  next
    case False
    have qb: "2 * unat quot * 2 ^ k + ?P div ?v < 2 ^ LENGTH('a)"
      using Suc.prems(4) by (simp add: algebra_simps)
    have q1: "unat (push_bit 1 quot) = 2 * unat quot"
      by (rule unat_shl1 [OF pow_mult_less [OF qb]])
    show ?thesis
      using Suc.IH [of ?d r1 "push_bit 1 quot"] k Suc.prems(2) step False qb unfolding q1 r1(1)
      by simp
  qed
qed

text \<open>Division by zero does not trap: every subtraction of 0 succeeds.\<close>

lemma div_loop_zero:
  fixes dividend quot remainder :: "'a::len word"
  assumes "k \<le> LENGTH('a)" "pending k dividend remainder < 2 ^ LENGTH('a)"
    and "unat quot * 2 ^ k + 2 ^ k - 1 < 2 ^ LENGTH('a)"
    and "div_loop (push_bit (LENGTH('a) - 1) 1) k dividend 0 quot remainder = (q, r)"
  shows "unat q = unat quot * 2 ^ k + 2 ^ k - 1 \<and> unat r = pending k dividend remainder"
  using assms
proof (induction k arbitrary: dividend quot remainder)
  case 0
  then show ?case by (simp add: pending_def)
next
  case (Suc k)
  let ?m = "push_bit (LENGTH('a) - 1) 1 :: 'a word" and ?d = "push_bit 1 dividend"
  define r1 where "r1 = shift_remainder ?m dividend remainder"
  note r1 = shift_remainder_value [OF Suc.prems(1,2), folded r1_def]
  have eq: "unat quot * 2 ^ Suc k + 2 ^ Suc k - 1 = (2 * unat quot + 1) * 2 ^ k + 2 ^ k - 1"
    by (simp add: algebra_simps)
  have "(2 * unat quot + 1) * 2 ^ k + (2 ^ k - 1) < 2 ^ LENGTH('a)"
    using Suc.prems(3) unfolding eq by simp
  from unat_shl1_inc [OF pow_mult_less [OF this]]
  have q1: "unat (push_bit 1 quot + 1) = 2 * unat quot + 1" .
  have "div_loop ?m k ?d 0 (push_bit 1 quot + 1) r1 = (q, r)"
    using Suc.prems(4) by (simp add: div_loop_step r1_def)
  then show ?case
    using Suc.IH [of ?d r1 "push_bit 1 quot + 1"] Suc.prems(1-3) unfolding q1 r1(1) eq by simp
qed

lemma div_loop_full:
  fixes dividend divisor :: "'a::len word"
  shows "div_loop (push_bit (LENGTH('a) - 1) 1) LENGTH('a) dividend divisor 0 0 =
         (if divisor = 0 then - 1 else dividend div divisor, dividend mod divisor)"
proof -
  obtain q r where qr:
    "div_loop (push_bit (LENGTH('a) - 1) 1) LENGTH('a) dividend divisor 0 0 = (q, r)"
    by (metis surj_pair)
  have p: "pending LENGTH('a) dividend 0 = unat dividend" by (simp add: pending_def)
  show ?thesis
  proof (cases "divisor = 0")
    case True
    then have "unat q = 2 ^ LENGTH('a) - 1 \<and> unat r = unat dividend"
      using div_loop_zero [of "LENGTH('a)" dividend 0 0 q r] qr by (simp add: p)
    then show ?thesis using True qr
      by (simp add: word_unat_eq_iff unsigned_minus_1_eq_mask mask_eq_exp_minus_1 unat_mod)
  next
    case False
    then have pos: "0 < divisor" by (simp add: word_neq_0_conv)
    have "unat dividend div unat divisor < 2 ^ LENGTH('a)"
      by (rule le_less_trans [OF div_le_dividend]) simp
    then have "unat q = unat dividend div unat divisor \<and> unat r = unat dividend mod unat divisor"
      using div_loop_correct [OF _ _ pos, of "LENGTH('a)" dividend 0 q r] qr by (simp add: p)
    then show ?thesis using False qr
      by (simp add: word_unat_eq_iff unat_div unat_mod)
  qed
qed

lemma hal_rtl_math_mod64_eq [simp]: "hal_rtl_math_mod64 a b = a mod b"
  using div_loop_full [of a b] by (simp add: hal_rtl_math_mod64_def)

lemma hal_rtl_math_div64_eq [simp]: "hal_rtl_math_div64 a b = (if b = 0 then - 1 else a div b)"
  using div_loop_full [of a b] by (simp add: hal_rtl_math_div64_def)

subsection \<open>Properties\<close>

text \<open>
  C20. The shift-and-subtract routines are exact at both widths: they compute unsigned division
  and remainder, with no overflow of the running remainder for any operands; a zero divisor
  does not trap but yields the all-ones quotient and the dividend as remainder.
\<close>

theorem hal_rtl_math_exact:
  "hal_rtl_math_div64 a b = (if b = 0 then 0xFFFFFFFFFFFFFFFF else a div b) \<and>
   hal_rtl_math_mod64 a b = a mod b \<and>
   hal_rtl_math_div32 c d = (if d = 0 then 0xFFFFFFFF else c div d) \<and>
   hal_rtl_math_mod32 c d = c mod d"
  using div_loop_full [of c d]
  by (simp add: hal_rtl_math_div32_def hal_rtl_math_mod32_def)

end
