(* ===== verification/ByteMem.thy ===== *)
theory ByteMem
  imports Prelude
begin

text \<open>
  Byte-addressed memory and the string instructions of
  \<^verbatim>\<open>kernel/hal/rtl/string/x86/string.h\<close> (\<^verbatim>\<open>rep movs\<close> and \<^verbatim>\<open>rep stos\<close> at the unit widths 1, 2
  and 4, forwards and backwards). Memory is the kernel's flat 32-bit address space: a total map
  from addresses to bytes; addresses wrap at \<open>2 ^ 32\<close> as the registers do.
\<close>

subsection \<open>Memory\<close>

type_synonym mem = "u32 \<Rightarrow> u8"

text \<open>A little-endian 32-bit load, the access \<^verbatim>\<open>*(longword_t*)p\<close>.\<close>

definition load32 :: "mem \<Rightarrow> ptr \<Rightarrow> u32" where
  "load32 m p = word_of_nat (unat (m p) + 256 * unat (m (p + 1)) + 65536 * unat (m (p + 2))
                             + 16777216 * unat (m (p + 3)))"

text \<open>
  Copying \<open>n\<close> bytes at once: all of them are read before any is written. With \<open>n\<close> the width of
  a unit this is one \<^verbatim>\<open>movs\<close>; with \<open>n\<close> the size of a block it is what a copy routine has to do.
\<close>

definition copy_bytes :: "nat \<Rightarrow> mem \<Rightarrow> ptr \<Rightarrow> ptr \<Rightarrow> mem" where
  "copy_bytes n m d s = (\<lambda>a. if unat (a - d) < n then m (s + (a - d)) else m a)"

definition fill_bytes :: "nat \<Rightarrow> mem \<Rightarrow> ptr \<Rightarrow> u8 \<Rightarrow> mem" where
  "fill_bytes n m d v = (\<lambda>a. if unat (a - d) < n then v else m a)"

subsection \<open>The string instructions\<close>

fun rep_movs :: "nat \<Rightarrow> mem \<Rightarrow> ptr \<Rightarrow> ptr \<Rightarrow> nat \<Rightarrow> mem" where
  "rep_movs w m edi esi 0 = m"
| "rep_movs w m edi esi (Suc ecx) =
     rep_movs w (copy_bytes w m edi esi) (edi + of_nat w) (esi + of_nat w) ecx"

fun rep_movs_std :: "nat \<Rightarrow> mem \<Rightarrow> ptr \<Rightarrow> ptr \<Rightarrow> nat \<Rightarrow> mem" where
  "rep_movs_std w m edi esi 0 = m"
| "rep_movs_std w m edi esi (Suc ecx) =
     rep_movs_std w (copy_bytes w m edi esi) (edi - of_nat w) (esi - of_nat w) ecx"

fun rep_stos :: "nat \<Rightarrow> mem \<Rightarrow> ptr \<Rightarrow> u8 \<Rightarrow> nat \<Rightarrow> mem" where
  "rep_stos w m edi v 0 = m"
| "rep_stos w m edi v (Suc ecx) = rep_stos w (fill_bytes w m edi v) (edi + of_nat w) v ecx"

definition hal_rtl_string_movsb :: "mem \<Rightarrow> ptr \<Rightarrow> ptr \<Rightarrow> u32 \<Rightarrow> mem" where
  "hal_rtl_string_movsb m dest src count = rep_movs 1 m dest src (unat count)"

definition hal_rtl_string_movsw :: "mem \<Rightarrow> ptr \<Rightarrow> ptr \<Rightarrow> u32 \<Rightarrow> mem" where
  "hal_rtl_string_movsw m dest src count = rep_movs 2 m dest src (unat count)"

definition hal_rtl_string_movsl :: "mem \<Rightarrow> ptr \<Rightarrow> ptr \<Rightarrow> u32 \<Rightarrow> mem" where
  "hal_rtl_string_movsl m dest src count = rep_movs 4 m dest src (unat count)"

definition hal_rtl_string_movsq :: "mem \<Rightarrow> ptr \<Rightarrow> ptr \<Rightarrow> u32 \<Rightarrow> mem" where
  "hal_rtl_string_movsq m dest src count = rep_movs 4 m dest src (unat (count * 2))"

text \<open>
  The backward variants start at the last unit (\<^verbatim>\<open>decl\<close>, \<^verbatim>\<open>mull\<close> by the width, \<^verbatim>\<open>addl\<close>) and run
  with the direction flag set. \<^verbatim>\<open>%2\<close> is the count operand, which \<^verbatim>\<open>movsq_back\<close> passes doubled.
\<close>

definition hal_rtl_string_movsb_back :: "mem \<Rightarrow> ptr \<Rightarrow> ptr \<Rightarrow> u32 \<Rightarrow> mem" where
  "hal_rtl_string_movsb_back m dest src count =
     rep_movs_std 1 m (dest + (count - 1)) (src + (count - 1)) (unat count)"

definition hal_rtl_string_movsw_back :: "mem \<Rightarrow> ptr \<Rightarrow> ptr \<Rightarrow> u32 \<Rightarrow> mem" where
  "hal_rtl_string_movsw_back m dest src count =
     rep_movs_std 2 m (dest + (count - 1) * 2) (src + (count - 1) * 2) (unat count)"

definition hal_rtl_string_movsl_back :: "mem \<Rightarrow> ptr \<Rightarrow> ptr \<Rightarrow> u32 \<Rightarrow> mem" where
  "hal_rtl_string_movsl_back m dest src count =
     rep_movs_std 4 m (dest + (count - 1) * 4) (src + (count - 1) * 4) (unat count)"

definition hal_rtl_string_movsq_back :: "mem \<Rightarrow> ptr \<Rightarrow> ptr \<Rightarrow> u32 \<Rightarrow> mem" where
  "hal_rtl_string_movsq_back m dest src count =
     rep_movs_std 4 m (dest + (count * 2 - 1) * 4) (src + (count * 2 - 1) * 4) (unat (count * 2))"

text \<open>
  The fills replicate the byte over the accumulator (\<^verbatim>\<open>movb %al, %ah\<close>, then the shift and add),
  so one unit of any width stores the byte in each of its positions.
\<close>

definition hal_rtl_string_setsb :: "mem \<Rightarrow> ptr \<Rightarrow> u8 \<Rightarrow> u32 \<Rightarrow> mem" where
  "hal_rtl_string_setsb m dest val count = rep_stos 1 m dest val (unat count)"

definition hal_rtl_string_setsw :: "mem \<Rightarrow> ptr \<Rightarrow> u8 \<Rightarrow> u32 \<Rightarrow> mem" where
  "hal_rtl_string_setsw m dest val count = rep_stos 2 m dest val (unat count)"

definition hal_rtl_string_setsl :: "mem \<Rightarrow> ptr \<Rightarrow> u8 \<Rightarrow> u32 \<Rightarrow> mem" where
  "hal_rtl_string_setsl m dest val count = rep_stos 4 m dest val (unat count)"

definition hal_rtl_string_setsq :: "mem \<Rightarrow> ptr \<Rightarrow> u8 \<Rightarrow> u32 \<Rightarrow> mem" where
  "hal_rtl_string_setsq m dest val count = rep_stos 4 m dest val (unat (count * 2))"

subsection \<open>Unit by unit is all at once\<close>

lemma copy_bytes_0 [simp]: "copy_bytes 0 m d s = m"
  by (simp add: copy_bytes_def)

text \<open>
  Copying forwards unit by unit is safe when no byte is overwritten before it is read: the
  destination does not begin inside the source block, after its start. Backwards it is the
  other way round.
\<close>

definition fwd_safe :: "ptr \<Rightarrow> ptr \<Rightarrow> nat \<Rightarrow> bool" where
  "fwd_safe d s n \<longleftrightarrow> d = s \<or> n \<le> unat (d - s)"

lemma fwd_safe_read:
  assumes "fwd_safe d s n" "d \<noteq> s" "unat off < n"
  shows "unat off \<le> unat (s + off - d)"
proof -
  have lt: "unat off < unat (d - s)" using assms by (auto simp: fwd_safe_def)
  have "s + off - d = off - (d - s)" by simp
  then have "unat (s + off - d) = unat off + 2 ^ 32 - unat (d - s)"
    using lt by (simp only: unat_sub_if' len32) simp
  then show ?thesis using unat_lt_32 [of "d - s"] by simp
qed

lemma copy_bytes_append:
  assumes safe: "fwd_safe d s (n1 + n2)" and le: "n1 + n2 \<le> 2 ^ 32"
  shows "copy_bytes n2 (copy_bytes n1 m d s) (d + of_nat n1) (s + of_nat n1) = copy_bytes (n1 + n2) m d s"
proof (cases "n2 = 0")
  case False
  with le have n1: "n1 < 2 ^ 32" by simp
  show ?thesis
  proof (rule ext)
    fix a
    define off where "off = a - d"
    have a: "a - d = off" "a - (d + of_nat n1) = off - of_nat n1" by (simp_all add: off_def)
    have "unat (s + off - d) \<ge> n1" if "d \<noteq> s" "n1 \<le> unat off" "unat off < n1 + n2"
      using fwd_safe_read [OF safe that(1,3)] that(2) by simp
    moreover have "unat off < 2 ^ 32" by (rule unat_lt_32)
    ultimately show "copy_bytes n2 (copy_bytes n1 m d s) (d + of_nat n1) (s + of_nat n1) a =
      copy_bytes (n1 + n2) m d s a"
      using le n1 unfolding copy_bytes_def a unat_minus_of_nat [OF n1] by (cases "d = s") auto
  qed
qed simp

definition bwd_safe :: "ptr \<Rightarrow> ptr \<Rightarrow> nat \<Rightarrow> bool" where
  "bwd_safe d s n \<longleftrightarrow> d = s \<or> n \<le> unat (s - d)"

lemma bwd_safe_read:
  assumes "bwd_safe d s (n1 + n2)" "d \<noteq> s" "unat off < n1" "n1 < 2 ^ 32"
  shows "n2 \<le> unat (s + off - d - of_nat n1)"
proof -
  have S: "n1 + n2 \<le> unat (s - d)" using assms by (simp add: bwd_safe_def)
  have "s + off - d - of_nat n1 = (s - d - of_nat n1) + off" by simp
  moreover have "unat (s - d - of_nat n1) = unat (s - d) - n1"
    using S assms(4) by (simp add: unat_minus_of_nat)
  moreover have "unat (s - d) - n1 + unat off < 2 ^ 32"
    using S assms(3) unat_lt_32 [of "s - d"] by simp
  ultimately have "unat (s + off - d - of_nat n1) = unat (s - d) - n1 + unat off"
    by (simp only: unat_plus_if' len32) simp
  then show ?thesis using S by simp
qed

lemma copy_bytes_append_back:
  assumes safe: "bwd_safe d s (n1 + n2)" and le: "n1 + n2 \<le> 2 ^ 32"
  shows "copy_bytes n1 (copy_bytes n2 m (d + of_nat n1) (s + of_nat n1)) d s = copy_bytes (n1 + n2) m d s"
proof (cases "n2 = 0")
  case False
  with le have n1: "n1 < 2 ^ 32" by simp
  show ?thesis
  proof (rule ext)
    fix a
    define off where "off = a - d"
    have a: "a - d = off" "a - (d + of_nat n1) = off - of_nat n1"
      "s + off - (d + of_nat n1) = s + off - d - of_nat n1"
      "s + of_nat n1 + (off - of_nat n1) = s + off"
      by (simp_all add: off_def)
    have "n2 \<le> unat (s + off - d - of_nat n1)" if "d \<noteq> s" "unat off < n1"
      using bwd_safe_read [OF safe that n1] .
    moreover have "unat off < 2 ^ 32" by (rule unat_lt_32)
    moreover have "s + off - d - of_nat n1 = off - of_nat n1" if "d = s" using that by simp
    ultimately show "copy_bytes n1 (copy_bytes n2 m (d + of_nat n1) (s + of_nat n1)) d s a =
      copy_bytes (n1 + n2) m d s a"
      using le n1 unfolding copy_bytes_def a by (cases "d = s") (auto simp: unat_minus_of_nat [OF n1])
  qed
qed simp

lemma fill_bytes_append:
  assumes le: "n1 + n2 \<le> 2 ^ 32"
  shows "fill_bytes n2 (fill_bytes n1 m d v) (d + of_nat n1) v = fill_bytes (n1 + n2) m d v"
proof (cases "n2 = 0")
  case False
  with le have n1: "n1 < 2 ^ 32" by simp
  show ?thesis
  proof (rule ext)
    fix a
    define off where "off = a - d"
    have a: "a - d = off" "a - (d + of_nat n1) = off - of_nat n1" by (simp_all add: off_def)
    show "fill_bytes n2 (fill_bytes n1 m d v) (d + of_nat n1) v a = fill_bytes (n1 + n2) m d v a"
      using le unat_lt_32 [of off] unfolding fill_bytes_def a unat_minus_of_nat [OF n1] by auto
  qed
qed (simp add: fill_bytes_def)

lemma fwd_safe_mono: "fwd_safe d s n \<Longrightarrow> k \<le> n \<Longrightarrow> fwd_safe d s k"
  by (auto simp: fwd_safe_def)

lemma fwd_safe_shift [simp]: "fwd_safe (d + k) (s + k) n = fwd_safe d s n"
  by (simp add: fwd_safe_def)

lemma bwd_safe_mono: "bwd_safe d s n \<Longrightarrow> k \<le> n \<Longrightarrow> bwd_safe d s k"
  by (auto simp: bwd_safe_def)

lemma bwd_safe_shift [simp]: "bwd_safe (d + k) (s + k) n = bwd_safe d s n"
  by (simp add: bwd_safe_def)

lemma rep_movs_copy:
  "fwd_safe d s (w * c) \<Longrightarrow> w * c \<le> 2 ^ 32 \<Longrightarrow> rep_movs w m d s c = copy_bytes (w * c) m d s"
proof (induction c arbitrary: m d s)
  case (Suc c)
  have "fwd_safe d s (w * c)" using Suc.prems(1) by (rule fwd_safe_mono) simp
  then show ?case
    using Suc.IH [of "d + of_nat w" "s + of_nat w" "copy_bytes w m d s"] Suc.prems
    by (simp add: copy_bytes_append)
qed simp

lemma rep_movs_std_copy:
  "bwd_safe d s (w * c) \<Longrightarrow> w * c \<le> 2 ^ 32 \<Longrightarrow>
   rep_movs_std w m (d + of_nat (w * c) - of_nat w) (s + of_nat (w * c) - of_nat w) c =
   copy_bytes (w * c) m d s"
proof (induction c arbitrary: m)
  case (Suc c)
  have e: "x + of_nat (w * Suc c) - of_nat w = x + of_nat (w * c)" for x :: u32 by simp
  have "bwd_safe d s (w * c)" using Suc.prems(1) by (rule bwd_safe_mono) simp
  then have "rep_movs_std w m (d + of_nat (w * Suc c) - of_nat w) (s + of_nat (w * Suc c) - of_nat w) (Suc c)
    = copy_bytes (w * c) (copy_bytes w m (d + of_nat (w * c)) (s + of_nat (w * c))) d s"
    using Suc.IH Suc.prems unfolding e rep_movs_std.simps by simp
  also have "\<dots> = copy_bytes (w * c + w) m d s"
    using Suc.prems by (intro copy_bytes_append_back) (simp_all add: add.commute)
  finally show ?case by (simp add: add.commute)
qed simp

lemma rep_stos_fill: "w * c \<le> 2 ^ 32 \<Longrightarrow> rep_stos w m d v c = fill_bytes (w * c) m d v"
proof (induction c arbitrary: m d)
  case (Suc c)
  then show ?case
    using Suc.IH [of "fill_bytes w m d v" "d + of_nat w"] by (simp add: fill_bytes_append)
qed (simp add: fill_bytes_def)

end
