(* ===== verification/RtlMem.thy ===== *)
theory RtlMem
  imports ByteMem
begin

text \<open>
  The memory routines of \<^verbatim>\<open>kernel/core/rtl/string/string.c\<close>: \<^verbatim>\<open>core_rtl_memccpy\<close>, \<^verbatim>\<open>memchr\<close>,
  \<^verbatim>\<open>memcmp\<close>, \<^verbatim>\<open>memcpy\<close>, \<^verbatim>\<open>memmove\<close> and \<^verbatim>\<open>memset\<close>, over the memory of \<open>ByteMem\<close>.
  \<^verbatim>\<open>longword_t\<close> is the 32-bit \<^verbatim>\<open>unsigned long\<close> of both targets, so the branches for wider words
  (\<^verbatim>\<open>0xffffffffU < (longword_t) - 1\<close>) are not taken. \<^verbatim>\<open>memcpy\<close>, \<^verbatim>\<open>memmove\<close> and \<^verbatim>\<open>memset\<close> return
  their first argument; the model returns the memory they leave.
\<close>

subsection \<open>core\_rtl\_memccpy\<close>

fun memccpy_loop :: "mem \<Rightarrow> ptr \<Rightarrow> ptr \<Rightarrow> u8 \<Rightarrow> nat \<Rightarrow> mem \<times> ptr" where
  "memccpy_loop m p_dest p_src ch 0 = (m, NULL)"
| "memccpy_loop m p_dest p_src ch (Suc k) =
     (let m = m(p_dest := m p_src)
      in if m p_src = ch then (m, p_src + 1)
         else memccpy_loop m (p_dest + 1) (p_src + 1) ch k)"

definition core_rtl_memccpy :: "mem \<Rightarrow> ptr \<Rightarrow> ptr \<Rightarrow> u8 \<Rightarrow> u32 \<Rightarrow> mem \<times> ptr" where
  "core_rtl_memccpy m dest src ch sz = memccpy_loop m dest src ch (unat sz)"

subsection \<open>core\_rtl\_memchr\<close>

text \<open>
  The byte loop up to the first aligned address (\<open>Inl\<close>: returned), the word loop, which stops
  at the first word that may hold the byte, and the byte loop over what is left.
\<close>

fun memchr_align :: "mem \<Rightarrow> u8 \<Rightarrow> ptr \<Rightarrow> nat \<Rightarrow> ptr + ptr \<times> nat" where
  "memchr_align m ch char_ptr 0 = Inr (char_ptr, 0)"
| "memchr_align m ch char_ptr (Suc sz) =
     (if char_ptr mod 4 \<noteq> 0
      then if m char_ptr = ch then Inl char_ptr else memchr_align m ch (char_ptr + 1) sz
      else Inr (char_ptr, Suc sz))"

definition repeated_one :: u32 where
  "repeated_one = 0x01010101"

definition repeat_byte :: "u8 \<Rightarrow> u32" where
  "repeat_byte ch =
     (let c = ucast ch OR push_bit 8 (ucast ch) in c OR push_bit 16 c)"

definition zero_byte_test :: "u32 \<Rightarrow> u32" where
  "zero_byte_test w = ((w - repeated_one) AND NOT w) AND push_bit 7 repeated_one"

fun memchr_words :: "mem \<Rightarrow> u32 \<Rightarrow> ptr \<Rightarrow> nat \<Rightarrow> ptr \<times> nat" where
  "memchr_words m repeated_c longword_ptr sz =
     (if 4 \<le> sz
      then let longword = load32 m longword_ptr XOR repeated_c
           in if zero_byte_test longword \<noteq> 0 then (longword_ptr, sz)
              else memchr_words m repeated_c (longword_ptr + 4) (sz - 4)
      else (longword_ptr, sz))"

declare memchr_words.simps [simp del]

fun memchr_bytes :: "mem \<Rightarrow> u8 \<Rightarrow> ptr \<Rightarrow> nat \<Rightarrow> ptr" where
  "memchr_bytes m ch char_ptr 0 = NULL"
| "memchr_bytes m ch char_ptr (Suc sz) =
     (if m char_ptr = ch then char_ptr else memchr_bytes m ch (char_ptr + 1) sz)"

definition core_rtl_memchr :: "mem \<Rightarrow> ptr \<Rightarrow> u8 \<Rightarrow> u32 \<Rightarrow> ptr" where
  "core_rtl_memchr m buf ch sz =
     (case memchr_align m ch buf (unat sz) of
        Inl p \<Rightarrow> p
      | Inr (char_ptr, sz) \<Rightarrow>
          (case memchr_words m (repeat_byte ch) char_ptr sz of
             (char_ptr, sz) \<Rightarrow> memchr_bytes m ch char_ptr sz))"

subsection \<open>core\_rtl\_memcmp\<close>

text \<open>
  \<^verbatim>\<open>ret\<close> is a \<^verbatim>\<open>u8\<close>: the difference of two bytes modulo 256. A loop that ends without a
  difference is 0 here; its pointers have advanced by the number of iterations.
\<close>

fun memcmp_bytes :: "mem \<Rightarrow> ptr \<Rightarrow> ptr \<Rightarrow> nat \<Rightarrow> u8" where
  "memcmp_bytes m p_byte1 p_byte2 0 = 0"
| "memcmp_bytes m p_byte1 p_byte2 (Suc k) =
     (let ret = m p_byte1 - m p_byte2
      in if ret \<noteq> 0 then ret else memcmp_bytes m (p_byte1 + 1) (p_byte2 + 1) k)"

lemma memcmp_bytes_eq_0: "memcmp_bytes m p q k = 0 \<longleftrightarrow> (\<forall>i < k. m (p + of_nat i) = m (q + of_nat i))"
proof (induction k arbitrary: p q)
  case (Suc k)
  have "(\<forall>i < Suc k. m (p + of_nat i) = m (q + of_nat i)) \<longleftrightarrow>
    m p = m q \<and> (\<forall>i < k. m (p + 1 + of_nat i) = m (q + 1 + of_nat i))"
    by (simp add: All_less_Suc2 add.assoc)
  then show ?case using Suc.IH by (auto simp: Let_def)
qed simp

lemma load32_cong:
  "\<forall>i < 4. m (p + of_nat i) = m (q + of_nat i) \<Longrightarrow> load32 m p = load32 m q"
proof -
  assume eq: "\<forall>i < 4. m (p + of_nat i) = m (q + of_nat i)"
  have "m p = m q" "m (p + 1) = m (q + 1)" "m (p + 2) = m (q + 2)" "m (p + 3) = m (q + 3)"
    using eq [rule_format, of 0] eq [rule_format, of 1] eq [rule_format, of 2]
      eq [rule_format, of 3] by simp_all
  then show ?thesis by (simp add: load32_def)
qed

text \<open>
  The word loop. On a difference the bytes of the word are compared with the loop counter
  \<^verbatim>\<open>n\<close> reused; the branch where they are all equal is dead, which is also why the loop ends.
\<close>

function memcmp_words :: "mem \<Rightarrow> ptr \<Rightarrow> ptr \<Rightarrow> nat \<Rightarrow> nat \<Rightarrow> u8 + ptr \<times> ptr" where
  "memcmp_words m p_long1 p_long2 n len_to_cmp =
     (if n < len_to_cmp
      then if load32 m p_long1 - load32 m p_long2 \<noteq> 0
           then let ret = memcmp_bytes m p_long1 p_long2 4
                in if ret \<noteq> 0 then Inl ret
                   else memcmp_words m (p_long1 + 4) (p_long2 + 4) (4 + 4) len_to_cmp
           else memcmp_words m (p_long1 + 4) (p_long2 + 4) (n + 4) len_to_cmp
      else Inr (p_long1, p_long2))"
  by pat_completeness auto
termination
  by (relation "measure (\<lambda>(m, p, q, n, len). len - n)")
    (use load32_cong memcmp_bytes_eq_0 in auto)

declare memcmp_words.simps [simp del]

definition core_rtl_memcmp :: "mem \<Rightarrow> ptr \<Rightarrow> ptr \<Rightarrow> u32 \<Rightarrow> int" where
  "core_rtl_memcmp m buf1 buf2 sz =
     (if sz < 4 * 2 \<or> buf1 mod 4 \<noteq> buf2 mod 4
      then uint (memcmp_bytes m buf1 buf2 (unat sz))
      else let len_to_cmp = buf1 mod 4;
               sz = sz - len_to_cmp;
               ret = memcmp_bytes m buf1 buf2 (unat len_to_cmp)
           in if ret \<noteq> 0 then uint ret
              else let p_long1 = buf1 + len_to_cmp;
                       p_long2 = buf2 + len_to_cmp;
                       len_to_cmp = NOT 3 AND sz;
                       sz = sz AND 3
                   in case memcmp_words m p_long1 p_long2 0 (unat len_to_cmp) of
                        Inl ret \<Rightarrow> uint ret
                      | Inr (p_byte1, p_byte2) \<Rightarrow>
                          uint (memcmp_bytes m p_byte1 p_byte2 (unat sz)))"

subsection \<open>core\_rtl\_memcpy\<close>

text \<open>
  The routine makes the same three-part attempt at the unit widths 8, 4 and 2: when source and
  destination are equally misaligned and more than a unit is left, copy bytes up to the unit
  boundary, then as many units as fit. The state is \<open>(memory, p_dest, p_src, sz)\<close>; \<open>sh\<close> is the
  shift that divides by the width.
\<close>

definition memcpy_stage ::
  "u32 \<Rightarrow> nat \<Rightarrow> (mem \<Rightarrow> ptr \<Rightarrow> ptr \<Rightarrow> u32 \<Rightarrow> mem) \<Rightarrow> mem \<times> ptr \<times> ptr \<times> u32 \<Rightarrow> mem \<times> ptr \<times> ptr \<times> u32"
  where
  "memcpy_stage w sh mov st =
     (case st of (m, p_dest, p_src, sz) \<Rightarrow>
        if p_dest AND (w - 1) = p_src AND (w - 1) \<and> w < sz
        then let len_to_cp = w - (p_dest AND (w - 1));
                 (m, p_dest, p_src, sz) =
                   (if 0 < len_to_cp
                    then (hal_rtl_string_movsb m p_dest p_src len_to_cp,
                          p_dest + len_to_cp, p_src + len_to_cp, sz - len_to_cp)
                    else (m, p_dest, p_src, sz))
             in if w \<le> sz
                then let len_to_cp = NOT (w - 1) AND sz;
                         count = drop_bit sh len_to_cp
                     in (mov m p_dest p_src count,
                         p_dest + len_to_cp, p_src + len_to_cp, sz - len_to_cp)
                else (m, p_dest, p_src, sz)
        else (m, p_dest, p_src, sz))"

definition core_rtl_memcpy :: "mem \<Rightarrow> ptr \<Rightarrow> ptr \<Rightarrow> u32 \<Rightarrow> mem" where
  "core_rtl_memcpy m dest src sz =
     (case memcpy_stage 2 1 hal_rtl_string_movsw
             (memcpy_stage 4 2 hal_rtl_string_movsl
               (memcpy_stage 8 3 hal_rtl_string_movsq (m, dest, src, sz))) of
        (m, p_dest, p_src, sz) \<Rightarrow>
          if 1 \<le> sz then hal_rtl_string_movsb m p_dest p_src sz else m)"

subsection \<open>core\_rtl\_memmove\<close>

definition memmove_stage ::
  "u32 \<Rightarrow> nat \<Rightarrow> (mem \<Rightarrow> ptr \<Rightarrow> ptr \<Rightarrow> u32 \<Rightarrow> mem) \<Rightarrow> mem \<times> ptr \<times> ptr \<times> u32 \<Rightarrow> mem \<times> ptr \<times> ptr \<times> u32"
  where
  "memmove_stage w sh mov_back st =
     (case st of (m, p_dest, p_src, sz) \<Rightarrow>
        if p_dest AND (w - 1) = p_src AND (w - 1) \<and> w < sz
        then let len_to_cp = p_dest AND (w - 1);
                 (m, p_dest, p_src, sz) =
                   (if 0 < len_to_cp
                    then (hal_rtl_string_movsb_back m (p_dest - len_to_cp) (p_src - len_to_cp) len_to_cp,
                          p_dest - len_to_cp, p_src - len_to_cp, sz - len_to_cp)
                    else (m, p_dest, p_src, sz))
             in if w \<le> sz
                then let len_to_cp = NOT (w - 1) AND sz;
                         count = drop_bit sh len_to_cp;
                         p_dest = p_dest - len_to_cp;
                         p_src = p_src - len_to_cp
                     in (mov_back m p_dest p_src count, p_dest, p_src, sz - len_to_cp)
                else (m, p_dest, p_src, sz)
        else (m, p_dest, p_src, sz))"

definition core_rtl_memmove :: "mem \<Rightarrow> ptr \<Rightarrow> ptr \<Rightarrow> u32 \<Rightarrow> mem" where
  "core_rtl_memmove m dest src sz =
     (if dest < src then core_rtl_memcpy m dest src sz
      else if src < dest
      then (case memmove_stage 2 1 hal_rtl_string_movsw_back
                  (memmove_stage 4 2 hal_rtl_string_movsl_back
                    (memmove_stage 8 3 hal_rtl_string_movsq_back (m, dest + sz, src + sz, sz))) of
              (m, p_dest, p_src, sz) \<Rightarrow>
                let p_dest = p_dest - sz; p_src = p_src - sz
                in if 1 \<le> sz then hal_rtl_string_movsb_back m p_dest p_src sz else m)
      else m)"

subsection \<open>core\_rtl\_memset\<close>

text \<open>
  Each width first fills up to its boundary (testing \<^verbatim>\<open>p_dest\<close> but taking the distance from
  \<^verbatim>\<open>dest\<close>, and not comparing it with \<^verbatim>\<open>size\<close>), then fills whole units.
\<close>

definition memset_stage ::
  "u32 \<Rightarrow> nat \<Rightarrow> (mem \<Rightarrow> ptr \<Rightarrow> u8 \<Rightarrow> u32 \<Rightarrow> mem) \<Rightarrow> ptr \<Rightarrow> u8 \<Rightarrow> mem \<times> ptr \<times> u32 \<Rightarrow> mem \<times> ptr \<times> u32"
  where
  "memset_stage w sh sets dest value st =
     (case st of (m, p_dest, sz) \<Rightarrow>
        let (m, p_dest, sz) =
              (if p_dest AND (w - 1) \<noteq> 0
               then let len_to_set = w - (dest AND (w - 1))
                    in (hal_rtl_string_setsb m p_dest value len_to_set,
                        p_dest + len_to_set, sz - len_to_set)
               else (m, p_dest, sz))
        in if w \<le> sz
           then let len_to_set = NOT (w - 1) AND sz;
                    count = drop_bit sh len_to_set
                in (sets m p_dest value count, p_dest + len_to_set, sz - len_to_set)
           else (m, p_dest, sz))"

definition core_rtl_memset :: "mem \<Rightarrow> ptr \<Rightarrow> u8 \<Rightarrow> u32 \<Rightarrow> mem" where
  "core_rtl_memset m dest value sz =
     (case memset_stage 2 1 hal_rtl_string_setsw dest value
             (memset_stage 4 2 hal_rtl_string_setsl dest value
               (memset_stage 8 3 hal_rtl_string_setsq dest value (m, dest, sz))) of
        (m, p_dest, sz) \<Rightarrow>
          if 1 \<le> sz then hal_rtl_string_setsb m p_dest value sz else m)"

subsection \<open>The bytes of a word, and the test for a zero byte\<close>

definition byte_of :: "nat \<Rightarrow> u32 \<Rightarrow> u8" where
  "byte_of i w = ucast (drop_bit (8 * i) w)"

lemma unat_byte_of: "unat (byte_of i w) = unat w div 2 ^ (8 * i) mod 256"
  unfolding byte_of_def unsigned_ucast_eq unat_drop_bit_eq
  unfolding take_bit_eq_mod drop_bit_eq_div by simp

lemma unat_u8: "unat (v :: u8) < 256"
  using unsigned_less [of v, where ?'a = nat] by simp

lemma byte_of_xor: "byte_of i (w XOR v) = byte_of i w XOR byte_of i v"
  by (rule bit_eqI) (auto simp: byte_of_def bit_simps)

lemma bit_byte_of: "n < 8 \<Longrightarrow> i < 4 \<Longrightarrow> bit (byte_of i w) n = bit w (8 * i + n)"
  by (simp add: byte_of_def bit_simps)

lemma bit_u8_beyond: "8 \<le> n \<Longrightarrow> \<not> bit (v :: u8) n"
  by (auto dest: bit_imp_le_length)

lemma less_4_cases: "i < 4 \<Longrightarrow> i = 0 \<or> i = 1 \<or> i = 2 \<or> i = (3::nat)"
  by auto

lemma byte_of_repeat: "i < 4 \<Longrightarrow> byte_of i (repeat_byte ch) = ch"
  apply (rule bit_eqI)
  apply (drule less_4_cases)
  apply (elim disjE)
  apply (simp_all add: byte_of_def repeat_byte_def Let_def bit_simps bit_u8_beyond del: push_bit_numeral)
  done

lemma horner_div: "b < 256 \<Longrightarrow> (b + 256 * x) div 256 = (x::nat)"
  by simp
lemma horner_mod: "b < 256 \<Longrightarrow> (b + 256 * x) mod 256 = (b::nat)"
  by simp

lemma unat_load32:
  "unat (load32 m p) = unat (m p) + 256 * (unat (m (p + 1)) + 256 * (unat (m (p + 2))
     + 256 * unat (m (p + 3))))"
proof -
  show ?thesis
    using unat_u8 [of "m p"] unat_u8 [of "m (p + 1)"] unat_u8 [of "m (p + 2)"] unat_u8 [of "m (p + 3)"]
    unfolding load32_def by (subst unat_of_nat_less) simp_all
qed

lemma four_bytes:
  fixes a b c d x :: nat
  assumes "a < 256" "b < 256" "c < 256" "d < 256" and x: "x = a + 256 * (b + 256 * (c + 256 * d))"
  shows "x mod 256 = a" "x div 256 mod 256 = b" "x div 65536 mod 256 = c" "x div 16777216 mod 256 = d"
proof -
  have 1: "x div 256 = b + 256 * (c + 256 * d)" unfolding x by (rule horner_div [OF assms(1)])
  have "x div 65536 = x div 256 div 256" by (simp flip: div_mult2_eq)
  then have 2: "x div 65536 = c + 256 * d" unfolding 1 horner_div [OF assms(2)] .
  have "x div 16777216 = x div 65536 div 256" by (simp flip: div_mult2_eq)
  then have 3: "x div 16777216 = d" unfolding 2 horner_div [OF assms(3)] .
  show "x mod 256 = a" unfolding x by (rule horner_mod [OF assms(1)])
  show "x div 256 mod 256 = b" unfolding 1 by (rule horner_mod [OF assms(2)])
  show "x div 65536 mod 256 = c" unfolding 2 by (rule horner_mod [OF assms(3)])
  show "x div 16777216 mod 256 = d" unfolding 3 using assms(4) by simp
qed

lemma byte_of_load32: "i < 4 \<Longrightarrow> byte_of i (load32 m p) = m (p + of_nat i)"
  using four_bytes [OF unat_u8 unat_u8 unat_u8 unat_u8 unat_load32 [of m p]] less_4_cases [of i]
  by (auto simp add: word_unat_eq_iff unat_byte_of)

lemma horner_eq:
  "x = a + 256 * y \<Longrightarrow> y = b + 256 * z \<Longrightarrow> z = c + 256 * d \<Longrightarrow> x = a + 256 * (b + 256 * (c + 256 * d))"
  for x :: nat
  by simp

lemma unat_bytes:
  "unat w = unat (byte_of 0 w) + 256 * (unat (byte_of 1 w) + 256 * (unat (byte_of 2 w)
     + 256 * unat (byte_of 3 w)))"
proof -
  let ?x = "unat w"
  have "?x div 16777216 < 256" using unat_lt_32 [of w] by (simp add: less_mult_imp_div_less)
  then have e: "?x div 2 ^ (8 * 3) mod 256 = ?x div 256 div 256 div 256"
    "?x div 2 ^ (8 * 2) = ?x div 256 div 256" "?x div 2 ^ (8 * 1) = ?x div 256"
    "?x div 2 ^ (8 * 0) = ?x"
    by (simp_all flip: div_mult2_eq)
  have h: "y = y mod 256 + 256 * (y div 256)" for y :: nat by simp
  show ?thesis
    unfolding unat_byte_of e by (rule horner_eq [OF h h h])
qed

lemma bit_minus_one: "n < 32 \<Longrightarrow> bit (w - repeated_one) n = odd ((uint w - 16843009) div 2 ^ n)"
proof -
  assume n: "n < 32"
  have "w - repeated_one = word_of_int (uint w - 16843009)"
    unfolding word_sub_wi [of w repeated_one] by (simp add: repeated_one_def)
  then have "bit (w - repeated_one) n = bit (uint w - 16843009) n"
    using n by (simp only: bit_word_of_int_iff len32 simp_thms)
  then show ?thesis by (simp only: bit_iff_odd)
qed

lemma odd_div_step:
  fixes x :: int
  assumes "x = p * (2 * q + 1) + r" "0 \<le> r" "r < p"
  shows "odd (x div p)"
  using int_div_pos_eq [OF assms] by simp

lemma zero_byte_test_detects:
  assumes "j < 4" "byte_of j w = 0"
  shows "zero_byte_test w \<noteq> 0"
proof -
  define k where "k = (LEAST i. byte_of i w = 0)"
  have k: "byte_of k w = 0" unfolding k_def using assms(2) by (rule LeastI)
  have below: "byte_of i w \<noteq> 0" if "i < k" for i using that not_less_Least unfolding k_def by blast
  have k4: "k < 4" using assms Least_le [of "\<lambda>i. byte_of i w = 0" j] unfolding k_def by simp
  define b where "b i = uint (byte_of i w)" for i
  have b: "b i < 256" "0 \<le> b i" for i
    unfolding b_def using uint_lt2p [of "byte_of i w"] by simp_all
  have pos: "1 \<le> b i" if "i < k" for i
    using below [OF that] unfolding b_def by (simp add: word_uint_eq_iff int_one_le_iff_zero_less order_less_le)
  have bk: "b k = 0" using k by (simp add: b_def)
  have w: "uint w = b 0 + 256 * (b 1 + 256 * (b 2 + 256 * b 3))"
    using arg_cong [OF unat_bytes [of w], of int] unfolding b_def by simp
  have "odd ((uint w - 16843009) div 2 ^ (8 * k + 7))"
    using less_4_cases [OF k4] 
  proof (elim disjE)
    assume "k = 0"
    then show ?thesis using bk w
      by (intro odd_div_step [where q = "b 1 + 256 * (b 2 + 256 * b 3) - 65794" and r = 127]) simp_all
  next
    assume "k = 1"
    then show ?thesis using bk w pos [of 0] b [of 0]
      by (intro odd_div_step [where q = "b 2 + 256 * b 3 - 258" and r = "32511 + b 0"]) simp_all
  next
    assume "k = 2"
    then show ?thesis using bk w pos [of 0] pos [of 1] b [of 0] b [of 1]
      by (intro odd_div_step [where q = "b 3 - 2" and r = "8388608 - 65793 + b 0 + 256 * b 1"]) simp_all
  next
    assume "k = 3"
    then show ?thesis using bk w pos [of 0] pos [of 1] pos [of 2] b [of 0] b [of 1] b [of 2]
      by (intro odd_div_step [where q = "- 1" and r = "2147483648 - 16843009 + b 0 + 256 * b 1 + 65536 * b 2"]) simp_all
  qed
  then have "bit (w - repeated_one) (8 * k + 7)" using k4 by (subst bit_minus_one) simp_all
  moreover have "\<not> bit w (8 * k + 7)" using k k4 bit_byte_of [of 7 k w] by simp
  moreover have "bit (push_bit 7 repeated_one) (8 * k + 7)"
    using less_4_cases [OF k4] by (auto simp: repeated_one_def)
  ultimately have "bit (zero_byte_test w) (8 * k + 7)"
    using k4 by (simp add: zero_byte_test_def bit_simps)
  then show ?thesis by auto
qed

end
