(* ===== verification/RtlMemScan.thy ===== *)
theory RtlMemScan
  imports RtlMem
begin

text \<open>
  The scanning routines of \<^verbatim>\<open>string.c\<close>: \<^verbatim>\<open>core_rtl_memchr\<close> and \<^verbatim>\<open>core_rtl_memcmp\<close>, which work a word
  at a time where they can, are equal to the byte loops, and \<^verbatim>\<open>core_rtl_memccpy\<close> copies up to the
  byte it looks for.
\<close>

subsection \<open>memchr is the byte loop\<close>

lemma memchr_bytes_skip:
  "\<forall>i < k. m (p + of_nat i) \<noteq> ch \<Longrightarrow>
   memchr_bytes m ch p (k + n) = memchr_bytes m ch (p + of_nat k) n"
proof (induction k arbitrary: p)
  case (Suc k)
  have "m p \<noteq> ch" using Suc.prems [rule_format, of 0] by simp
  moreover have "\<forall>i < k. m (p + 1 + of_nat i) \<noteq> ch"
    using Suc.prems [rule_format, of "Suc i" for i] by (auto simp: add.assoc)
  ultimately show ?case using Suc.IH [of "p + 1"] by (simp add: add.assoc)
qed simp

lemma memchr_align_bytes:
  "(case memchr_align m ch p n of Inl q \<Rightarrow> q | Inr (q, k) \<Rightarrow> memchr_bytes m ch q k) =
   memchr_bytes m ch p n"
  by (induction m ch p n rule: memchr_align.induct) auto

lemma memchr_words_bytes:
  "(case memchr_words m (repeat_byte ch) p n of (q, k) \<Rightarrow> memchr_bytes m ch q k) =
   memchr_bytes m ch p n"
proof (induction m "repeat_byte ch" p n rule: memchr_words.induct)
  case (1 m p n)
  let ?w = "load32 m p XOR repeat_byte ch"
  show ?case
  proof (cases "4 \<le> n \<and> zero_byte_test ?w = 0")
    case True
    have "m (p + of_nat i) \<noteq> ch" if "i < 4" for i
      using zero_byte_test_detects [OF that, of ?w] True that
      by (auto simp: byte_of_xor byte_of_load32 byte_of_repeat)
    then have "memchr_bytes m ch p (4 + (n - 4)) = memchr_bytes m ch (p + of_nat 4) (n - 4)"
      by (intro memchr_bytes_skip) simp
    then show ?thesis using 1 True by (simp add: memchr_words.simps [of m _ p n])
  next
    case False
    then show ?thesis by (auto simp: memchr_words.simps [of m _ p n] Let_def)
  qed
qed

lemma memchr_eq_bytes: "core_rtl_memchr m buf ch sz = memchr_bytes m ch buf (unat sz)"
proof -
  have "core_rtl_memchr m buf ch sz = (case memchr_align m ch buf (unat sz) of Inl q \<Rightarrow> q
      | Inr (q, k) \<Rightarrow> memchr_bytes m ch q k)"
    unfolding core_rtl_memchr_def
    by (auto simp: memchr_words_bytes split: sum.splits prod.splits)
  then show ?thesis by (simp only: memchr_align_bytes)
qed

lemma memchr_bytes_find:
  "memchr_bytes m ch p n =
     (case find (\<lambda>i. m (p + of_nat i) = ch) [0..<n] of None \<Rightarrow> NULL | Some i \<Rightarrow> p + of_nat i)"
proof (induction n arbitrary: p)
  case (Suc n)
  have "[0..<Suc n] = 0 # map Suc [0..<n]" by (simp only: map_Suc_upt upt_conv_Cons [OF zero_less_Suc])
  moreover have "find P (map Suc xs) = map_option Suc (find (P \<circ> Suc) xs)" for P xs
    by (induction xs) auto
  ultimately show ?case
    by (auto simp: Suc.IH comp_def add.assoc split: option.split)
qed simp

subsection \<open>memcmp is the byte loop\<close>

lemma memcmp_bytes_split:
  "memcmp_bytes m p q (k + n) =
    (let ret = memcmp_bytes m p q k
     in if ret \<noteq> 0 then ret else memcmp_bytes m (p + of_nat k) (q + of_nat k) n)"
proof (induction k arbitrary: p q)
  case (Suc k)
  then show ?case by (simp add: Let_def add.assoc)
qed simp

lemma load32_eq_iff: "load32 m p = load32 m q \<longleftrightarrow> memcmp_bytes m p q 4 = 0"
proof
  assume "load32 m p = load32 m q"
  then have "m (p + of_nat i) = m (q + of_nat i)" if "i < 4" for i
    using that byte_of_load32 by metis
  then show "memcmp_bytes m p q 4 = 0" by (simp add: memcmp_bytes_eq_0)
qed (metis load32_cong memcmp_bytes_eq_0)

lemma memcmp_words_bytes:
  "4 dvd len \<Longrightarrow> 4 dvd n \<Longrightarrow> n \<le> len \<Longrightarrow>
   (case memcmp_words m p q n len of Inl ret \<Rightarrow> ret | Inr (p', q') \<Rightarrow> memcmp_bytes m p' q' k) =
   memcmp_bytes m p q (len - n + k)"
proof (induction m p q n len rule: memcmp_words.induct)
  case (1 m p q n len)
  show ?case
  proof (cases "n < len")
    case True
    then have le: "n + 4 \<le> len" using "1.prems" by (metis dvd_diffD1 dvd_imp_le less_imp_le_nat le_diff_conv2 zero_less_diff add.commute dvd_diff_nat)
    then have split: "memcmp_bytes m p q (len - n + k) = memcmp_bytes m p q (4 + (len - (n + 4) + k))"
      by simp
    show ?thesis
    proof (cases "load32 m p = load32 m q")
      case eq: True
      then have "memcmp_bytes m p q 4 = 0" by (simp only: load32_eq_iff)
      then have "memcmp_bytes m p q (4 + (len - (n + 4) + k)) = memcmp_bytes m (p + 4) (q + 4) (len - (n + 4) + k)"
        by (simp add: memcmp_bytes_split)
      then show ?thesis
        using 1(2) [OF True] eq le "1.prems" unfolding split
        by (simp add: memcmp_words.simps [of m p q n len] dvd_add True)
    next
      case False
      then have "memcmp_bytes m p q 4 \<noteq> 0" by (simp only: load32_eq_iff not_False_eq_True)
      then show ?thesis using False True unfolding split
        by (simp add: memcmp_words.simps [of m p q n len] Let_def memcmp_bytes_split)
    qed
  next
    case False
    then show ?thesis using "1.prems" by (simp add: memcmp_words.simps [of m p q len len])
  qed
qed


lemma memcmp_eq_bytes: "core_rtl_memcmp m p q sz = uint (memcmp_bytes m p q (unat sz))"
proof (cases "sz < 4 * 2 \<or> p mod 4 \<noteq> q mod 4")
  case True
  then show ?thesis unfolding core_rtl_memcmp_def by simp
next
  case False
  define a where "a = p mod 4"
  have a: "unat a < 4" unfolding a_def by (simp add: unat_mod)
  have ge: "8 \<le> unat sz" using False by (simp add: word_less_nat_alt)
  have a_le: "a \<le> sz" using a ge by (simp add: word_le_nat_alt)
  let ?n = "unat (sz - a)"
  have n: "unat sz = unat a + ?n" using a_le by (simp add: unat_sub word_le_nat_alt)
  let ?ret = "memcmp_bytes m p q (unat a)"
  have "unat sz = unat a + (4 * (?n div 4) + ?n mod 4)" using n by simp
  then have split: "memcmp_bytes m p q (unat sz) =
     (if ?ret \<noteq> 0 then ?ret
      else memcmp_bytes m (p + a) (q + a) (4 * (?n div 4) + ?n mod 4))"
    by (simp only: memcmp_bytes_split [of m p q "unat a"] Let_def) simp
  have "(case memcmp_words m (p + a) (q + a) 0 (4 * (?n div 4)) of Inl ret \<Rightarrow> ret
          | Inr (p', q') \<Rightarrow> memcmp_bytes m p' q' (?n mod 4)) =
     memcmp_bytes m (p + a) (q + a) (4 * (?n div 4) + ?n mod 4)"
    using memcmp_words_bytes [where len = "4 * (?n div 4)" and n = 0 and m = m and p = "p + a" and q = "q + a"
        and k = "?n mod 4"] by simp
  then show ?thesis
    using False unfolding split core_rtl_memcmp_def a_def [symmetric]
    by (simp add: Let_def unat_masks split: sum.splits prod.splits)
qed

subsection \<open>memccpy\<close>

lemma memccpy_frame:
  assumes "fwd_safe d s (Suc n)" "Suc n \<le> 2 ^ 32" "i < n"
  shows "(m(d := m s)) (s + of_nat (Suc i)) = m (s + of_nat (Suc i))"
proof -
  have u: "unat (of_nat (Suc i) :: u32) = Suc i" using assms by (intro unat_of_nat_less) simp
  have "s + of_nat (Suc i) \<noteq> d"
  proof
    assume "s + of_nat (Suc i) = d"
    then have "d - s = of_nat (Suc i)" by auto
    then have ds: "unat (d - s) = Suc i" using u by simp
    then have "d \<noteq> s" by auto
    then show False using assms ds by (simp add: fwd_safe_def)
  qed
  then show ?thesis by simp
qed

lemma copy_bytes_1: "copy_bytes (Suc 0) m d s = m(d := m s)"
  by (auto simp: copy_bytes_def fun_eq_iff unat_eq_zero)

lemma memccpy_loop_copies:
  "fwd_safe d s n \<Longrightarrow> n \<le> 2 ^ 32 \<Longrightarrow>
   memccpy_loop m d s ch n =
     (case find (\<lambda>i. m (s + of_nat i) = ch) [0..<n] of
        None \<Rightarrow> (copy_bytes n m d s, NULL)
      | Some i \<Rightarrow> (copy_bytes (Suc i) m d s, s + of_nat i + 1))"
proof (induction n arbitrary: m d s)
  case (Suc n)
  let ?m = "m(d := m s)"
  have ms: "?m s = m s" by simp
  have frame: "?m (s + 1 + of_nat i) = m (s + of_nat (Suc i))" if "i < n" for i
    using memccpy_frame [OF Suc.prems that, of m] by (simp add: add.assoc)
  have find_eq: "find (\<lambda>i. ?m (s + 1 + of_nat i) = ch) [0..<n] =
      find ((\<lambda>i. m (s + of_nat i) = ch) \<circ> Suc) [0..<n]"
    by (rule find_cong) (use frame in \<open>auto simp only: comp_apply set_upt atLeastLessThan_iff\<close>)
  have app: "copy_bytes k ?m (d + 1) (s + 1) = copy_bytes (Suc k) m d s" if "k \<le> n" for k
    using copy_bytes_append [of d s 1 k m] Suc.prems that
    by (simp add: copy_bytes_1 fwd_safe_mono [of d s "Suc n"])
  have safe': "fwd_safe (d + 1) (s + 1) n" and n': "n \<le> 2 ^ 32"
    using Suc.prems by (simp_all add: fwd_safe_mono [of d s "Suc n"])
  have IH: "memccpy_loop ?m (d + 1) (s + 1) ch n =
     (case find ((\<lambda>i. m (s + of_nat i) = ch) \<circ> Suc) [0..<n] of
        None \<Rightarrow> (copy_bytes n ?m (d + 1) (s + 1), NULL)
      | Some i \<Rightarrow> (copy_bytes (Suc i) ?m (d + 1) (s + 1), s + 1 + of_nat i + 1))"
    using Suc.IH [of "d + 1" "s + 1" ?m] safe' n' unfolding find_eq by blast
  have lt: "i < n" if "find ((\<lambda>i. m (s + of_nat i) = ch) \<circ> Suc) [0..<n] = Some i" for i
    using that by (auto simp: find_Some_iff)
  show ?case
    unfolding find_upt_Suc memccpy_loop.simps Let_def ms IH
    by (auto simp: copy_bytes_1 app Suc_le_eq lt add.assoc split: option.splits)
qed simp

lemma memcmp_bytes_find:
  "memcmp_bytes m p q n =
     (case find (\<lambda>i. m (p + of_nat i) \<noteq> m (q + of_nat i)) [0..<n] of
        None \<Rightarrow> 0 | Some i \<Rightarrow> m (p + of_nat i) - m (q + of_nat i))"
  by (induction n arbitrary: p q)
    (auto simp: find_upt_Suc Let_def comp_def add.assoc simp del: upt_Suc split: option.split)

subsection \<open>Properties\<close>

text \<open>
  C36. \<^verbatim>\<open>core_rtl_memchr\<close>, scanning a word at a time between unaligned ends, returns the first
  occurrence of the byte among the \<^verbatim>\<open>size\<close> bytes, and \<^verbatim>\<open>NULL\<close> when there is none, for every
  alignment of the buffer: the word test misses no occurrence and its misfires do no harm.
\<close>

theorem core_rtl_memchr_first:
  "core_rtl_memchr m buf ch sz =
     (case find (\<lambda>i. m (buf + of_nat i) = ch) [0..<unat sz] of
        None \<Rightarrow> NULL | Some i \<Rightarrow> buf + of_nat i)"
  by (simp only: memchr_eq_bytes memchr_bytes_find)

text \<open>
  C37. \<^verbatim>\<open>core_rtl_memcmp\<close> finds the first position where the blocks differ, whatever their
  alignment; its result is the difference of the two bytes there modulo 256 (\<^verbatim>\<open>ret\<close> is a
  \<^verbatim>\<open>u8\<close>), so it is 0 exactly for equal blocks but is never negative: it does not order them.
\<close>

theorem core_rtl_memcmp_first:
  "core_rtl_memcmp m p q sz =
     (case find (\<lambda>i. m (p + of_nat i) \<noteq> m (q + of_nat i)) [0..<unat sz] of
        None \<Rightarrow> 0
      | Some i \<Rightarrow> (uint (m (p + of_nat i)) - uint (m (q + of_nat i))) mod 256)"
  unfolding memcmp_eq_bytes memcmp_bytes_find
  by (auto simp: uint_word_ariths split: option.split)

text \<open>
  Where the destination does not begin inside the source block after its start,
  \<^verbatim>\<open>core_rtl_memccpy\<close> copies the block up to and including the first occurrence of the byte
  and returns the address after that occurrence in the source (not in the destination, as the
  C function of that name does); without an occurrence it copies the whole block and returns
  \<^verbatim>\<open>NULL\<close>.
\<close>

theorem core_rtl_memccpy_copies:
  assumes "dest = src \<or> unat sz \<le> unat (dest - src)"
  shows "core_rtl_memccpy m dest src ch sz =
     (case find (\<lambda>i. m (src + of_nat i) = ch) [0..<unat sz] of
        None \<Rightarrow> (copy_bytes (unat sz) m dest src, NULL)
      | Some i \<Rightarrow> (copy_bytes (Suc i) m dest src, src + of_nat i + 1))"
  using memccpy_loop_copies [of dest src "unat sz" m ch] assms unat_lt_32 [of sz]
  by (simp add: core_rtl_memccpy_def fwd_safe_def)

theorem core_rtl_memccpy_copies_witness:
  "core_rtl_memccpy (\<lambda>a. ucast a) 100 10 12 5 = (copy_bytes 3 (\<lambda>a. ucast a) 100 10, 13)"
proof -
  have "[0..<5::nat] = [0, 1, 2, 3, 4]" by code_simp
  then show ?thesis
    using core_rtl_memccpy_copies [of 100 10 5 "\<lambda>a. ucast a" 12] by (simp add: numeral_3_eq_3)
qed

end
