(* ===== verification/RtlMemCopy.thy ===== *)
theory RtlMemCopy
  imports RtlMem
begin

text \<open>
  The block routines of \<^verbatim>\<open>string.c\<close>: \<^verbatim>\<open>core_rtl_memcpy\<close>, \<^verbatim>\<open>core_rtl_memmove\<close> and
  \<^verbatim>\<open>core_rtl_memset\<close>, with their alignment prologues and their 8-, 4- and 2-byte units, refine the
  all-at-once \<open>copy_bytes\<close> and \<open>fill_bytes\<close>.
\<close>

subsection \<open>memcpy and memmove\<close>

definition is_mover :: "nat \<Rightarrow> nat \<Rightarrow> (mem \<Rightarrow> ptr \<Rightarrow> ptr \<Rightarrow> u32 \<Rightarrow> mem) \<Rightarrow> bool" where
  "is_mover w k mov \<longleftrightarrow> (\<forall>m d s n. fwd_safe d s (unat n div w * w) \<longrightarrow>
     mov m d s (drop_bit k (n :: u32)) = copy_bytes (unat n div w * w) m d s)"

lemma is_mover_exact:
  "is_mover w k mov \<Longrightarrow> w dvd unat b \<Longrightarrow> fwd_safe d s (unat b) \<Longrightarrow>
   mov m d s (drop_bit k b) = copy_bytes (unat b) m d s"
  unfolding is_mover_def by (metis dvd_div_mult_self)

lemma div_times_le_32: "unat (n :: u32) div w * w \<le> 2 ^ 32"
  using div_times_less_eq_dividend [of "unat n" w] unat_lt_32 [of n] by linarith

lemma unat_double_drop_3: "unat (2 * drop_bit 3 (n :: u32)) = 2 * (unat n div 8)"
proof -
  have "unat n div 8 * 2 < 2 ^ 32" using unat_lt_32 [of n] by simp
  then show ?thesis
    using unat_drop_bit [of 3 n] by (simp add: unat_word_ariths)
qed

lemma movsb_copy: "fwd_safe d s (unat n) \<Longrightarrow> hal_rtl_string_movsb m d s n = copy_bytes (unat n) m d s"
  using rep_movs_copy [of d s 1 "unat n" m] unat_lt_32 [of n]
  by (simp add: hal_rtl_string_movsb_def)

lemma movsw_mover: "is_mover 2 1 hal_rtl_string_movsw"
  using rep_movs_copy [of _ _ 2] div_times_le_32 [of _ 2]
  by (simp add: is_mover_def hal_rtl_string_movsw_def unat_drop_bit mult.commute)

lemma movsl_mover: "is_mover 4 2 hal_rtl_string_movsl"
  using rep_movs_copy [of _ _ 4] div_times_le_32 [of _ 4]
  by (simp add: is_mover_def hal_rtl_string_movsl_def unat_drop_bit mult.commute)

lemma movsq_mover: "is_mover 8 3 hal_rtl_string_movsq"
  unfolding is_mover_def hal_rtl_string_movsq_def
proof (intro allI impI)
  fix m and d s :: ptr and n :: u32
  assume "fwd_safe d s (unat n div 8 * 8)"
  then have "rep_movs 4 m d s (2 * (unat n div 8)) = copy_bytes (4 * (2 * (unat n div 8))) m d s"
    using div_times_le_32 [of n 8] by (intro rep_movs_copy) (simp_all add: mult.commute)
  then show "rep_movs 4 m d s (unat (drop_bit 3 n * 2)) = copy_bytes (unat n div 8 * 8) m d s"
    by (simp only: mult.commute [of _ 2] unat_double_drop_3) (simp add: mult.commute)
qed

definition copied :: "mem \<Rightarrow> ptr \<Rightarrow> ptr \<Rightarrow> nat \<Rightarrow> mem \<times> ptr \<times> ptr \<times> u32 \<Rightarrow> bool" where
  "copied m0 d0 s0 N st \<longleftrightarrow>
     (case st of (m, d, s, n) \<Rightarrow>
        unat n \<le> N \<and> m = copy_bytes (N - unat n) m0 d0 s0 \<and>
        d = d0 + of_nat (N - unat n) \<and> s = s0 + of_nat (N - unat n))"

lemma copied_advance:
  assumes c: "copied m0 d0 s0 N (m, d, s, n)" and safe: "fwd_safe d0 s0 N" and N: "N \<le> 2 ^ 32"
    and le: "unat len \<le> unat n"
  shows "fwd_safe d s (unat len)"
    and "copied m0 d0 s0 N (copy_bytes (unat len) m d s, d + len, s + len, n - len)"
proof -
  let ?k = "N - unat n"
  from c have st: "unat n \<le> N" "m = copy_bytes ?k m0 d0 s0" "d = d0 + of_nat ?k" "s = s0 + of_nat ?k"
    by (auto simp: copied_def)
  have n': "unat (n - len) = unat n - unat len" using le by (simp add: unat_sub word_le_nat_alt)
  have k': "N - unat (n - len) = ?k + unat len" using st(1) le n' by simp
  have safe': "fwd_safe d0 s0 (?k + unat len)" using safe st(1) le by (auto intro: fwd_safe_mono)
  show "fwd_safe d s (unat len)" using safe' st by (auto intro: fwd_safe_mono)
  show "copied m0 d0 s0 N (copy_bytes (unat len) m d s, d + len, s + len, n - len)"
    using copy_bytes_append [OF safe'] st le N unfolding copied_def prod.case k' by (simp add: n')
qed

lemma unat_to_boundary:
  assumes w: "w = 2 ^ k" "k < 32"
  shows "unat (w - (d AND (w - 1)) :: u32) = 2 ^ k - unat d mod 2 ^ k" 
    and "0 < w - (d AND (w - 1))"
proof -
  have uw: "unat w = 2 ^ k" using w by (simp add: unat_2p)
  have lt: "unat (d AND (w - 1)) < 2 ^ k" using w by (simp add: unat_and_mask)
  then show "unat (w - (d AND (w - 1))) = 2 ^ k - unat d mod 2 ^ k"
    using uw w by (simp add: unat_sub word_le_nat_alt unat_and_mask)
  then show "0 < w - (d AND (w - 1))"
    by (simp add: word_less_nat_alt)
qed

lemma memcpy_stage_copied:
  assumes w: "w = 2 ^ k" "k < 32" and mov: "is_mover (2 ^ k) k mov"
    and safe: "fwd_safe d0 s0 N" and N: "N \<le> 2 ^ 32" and c: "copied m0 d0 s0 N st"
  shows "copied m0 d0 s0 N (memcpy_stage w k mov st)"
proof -
  obtain m d s n where st: "st = (m, d, s, n)" by (cases st) auto
  show ?thesis
  proof (cases "d AND (w - 1) = s AND (w - 1) \<and> w < n")
    case True
    let ?a = "w - (d AND (w - 1))"
    let ?m = "hal_rtl_string_movsb m d s ?a" and ?n = "n - ?a"
    let ?b = "NOT (w - 1) AND ?n"
    have "unat ?a \<le> unat n"
      using True w unfolding unat_to_boundary(1) [OF w] by (simp add: word_less_nat_alt unat_2p) linarith
    note adv = copied_advance [OF c [unfolded st] safe N this]
    then have c1: "copied m0 d0 s0 N (?m, d + ?a, s + ?a, ?n)" by (simp add: movsb_copy)
    have b: "unat ?b = unat ?n div 2 ^ k * 2 ^ k" unfolding w by (simp add: unat_not_mask_and)
    then have "unat ?b \<le> unat ?n" by simp
    note adv2 = copied_advance [OF c1 safe N this]
    have "mov ?m (d + ?a) (s + ?a) (drop_bit k ?b) = copy_bytes (unat ?b) ?m (d + ?a) (s + ?a)"
      using mov _ adv2(1) by (rule is_mover_exact) (simp add: b)
    then have "copied m0 d0 s0 N
        (mov ?m (d + ?a) (s + ?a) (drop_bit k ?b), d + ?a + ?b, s + ?a + ?b, ?n - ?b)"
      using adv2(2) by simp
    then show ?thesis using True c1 unat_to_boundary(2) [OF w]
      by (simp add: memcpy_stage_def st Let_def)
  next
    case False
    then show ?thesis using c by (auto simp: memcpy_stage_def st)
  qed
qed

lemma memcpy_copies:
  assumes safe: "fwd_safe dest src (unat sz)"
  shows "core_rtl_memcpy m dest src sz = copy_bytes (unat sz) m dest src"
proof -
  have N: "unat sz \<le> 2 ^ 32" using unat_lt_32 [of sz] by simp
  let ?st = "memcpy_stage 2 1 hal_rtl_string_movsw
             (memcpy_stage 4 2 hal_rtl_string_movsl
               (memcpy_stage 8 3 hal_rtl_string_movsq (m, dest, src, sz)))"
  have "copied m dest src (unat sz) (m, dest, src, sz)" by (simp add: copied_def)
  then have "copied m dest src (unat sz) ?st"
    using movsw_mover movsl_mover movsq_mover
    by (intro memcpy_stage_copied [OF _ _ _ safe N]) simp_all
  moreover obtain m' d s n where st: "?st = (m', d, s, n)" by (cases ?st) auto
  ultimately have c: "copied m dest src (unat sz) (m', d, s, n)" by simp
  note adv = copied_advance [OF c safe N order_refl]
  show ?thesis
  proof (cases "1 \<le> n")
    case True
    then show ?thesis using adv unfolding core_rtl_memcpy_def st
      by (simp add: movsb_copy) (simp add: copied_def)
  next
    case False
    then have "n = 0" by (simp add: word_le_nat_alt word_unat_eq_iff)
    then show ?thesis using c unfolding core_rtl_memcpy_def st by (simp add: copied_def)
  qed
qed


definition is_back_mover :: "nat \<Rightarrow> nat \<Rightarrow> (mem \<Rightarrow> ptr \<Rightarrow> ptr \<Rightarrow> u32 \<Rightarrow> mem) \<Rightarrow> bool" where
  "is_back_mover w k mov \<longleftrightarrow> (\<forall>m d s n. bwd_safe d s (unat n div w * w) \<longrightarrow>
     mov m d s (drop_bit k (n :: u32)) = copy_bytes (unat n div w * w) m d s)"

lemma is_back_mover_exact:
  "is_back_mover w k mov \<Longrightarrow> w dvd unat b \<Longrightarrow> bwd_safe d s (unat b) \<Longrightarrow>
   mov m d s (drop_bit k b) = copy_bytes (unat b) m d s"
  unfolding is_back_mover_def by (metis dvd_div_mult_self)

lemma rep_movs_std_from_last:
  assumes "bwd_safe d s (w * c)" "w * c \<le> 2 ^ 32" "off = of_nat (w * c) - of_nat w"
  shows "rep_movs_std w m (d + off) (s + off) c = copy_bytes (w * c) m d s"
  using rep_movs_std_copy [OF assms(1,2), of m] unfolding assms(3) by (simp add: add_diff_eq)

lemma movsb_back_copy:
  "bwd_safe d s (unat n) \<Longrightarrow> hal_rtl_string_movsb_back m d s n = copy_bytes (unat n) m d s"
  using rep_movs_std_from_last [of d s 1 "unat n" "n - 1" m] unat_lt_32 [of n]
  by (simp add: hal_rtl_string_movsb_back_def)

lemma last_unit: "(of_nat c - 1) * of_nat w = (of_nat (w * c) - of_nat w :: u32)"
  by (simp add: algebra_simps)

lemma movs_back:
  assumes "bwd_safe d s (w * unat c)" "w * unat c \<le> 2 ^ 32"
  shows "rep_movs_std w m (d + (c - 1) * of_nat w) (s + (c - 1) * of_nat w) (unat c) =
    copy_bytes (w * unat c) m d s"
  using rep_movs_std_from_last [OF assms, of "(c - 1) * of_nat w" m] last_unit [of "unat c" w] by simp

lemma movsw_back_mover: "is_back_mover 2 1 hal_rtl_string_movsw_back"
  unfolding is_back_mover_def hal_rtl_string_movsw_back_def
proof (intro allI impI)
  fix m and d s :: ptr and n :: u32
  let ?c = "drop_bit 1 n"
  assume "bwd_safe d s (unat n div 2 * 2)"
  then have "rep_movs_std 2 m (d + (?c - 1) * of_nat 2) (s + (?c - 1) * of_nat 2) (unat ?c) =
      copy_bytes (2 * unat ?c) m d s"
    using div_times_le_32 [of n 2] by (intro movs_back) (simp_all add: unat_drop_bit mult.commute)
  then show "rep_movs_std 2 m (d + (?c - 1) * 2) (s + (?c - 1) * 2) (unat ?c) =
      copy_bytes (unat n div 2 * 2) m d s"
    by (simp add: unat_drop_bit mult.commute)
qed

lemma movsl_back_mover: "is_back_mover 4 2 hal_rtl_string_movsl_back"
  unfolding is_back_mover_def hal_rtl_string_movsl_back_def
proof (intro allI impI)
  fix m and d s :: ptr and n :: u32
  let ?c = "drop_bit 2 n"
  assume "bwd_safe d s (unat n div 4 * 4)"
  then have "rep_movs_std 4 m (d + (?c - 1) * of_nat 4) (s + (?c - 1) * of_nat 4) (unat ?c) =
      copy_bytes (4 * unat ?c) m d s"
    using div_times_le_32 [of n 4] by (intro movs_back) (simp_all add: unat_drop_bit mult.commute)
  then show "rep_movs_std 4 m (d + (?c - 1) * 4) (s + (?c - 1) * 4) (unat ?c) =
      copy_bytes (unat n div 4 * 4) m d s"
    by (simp add: unat_drop_bit mult.commute)
qed

lemma movsq_back_mover: "is_back_mover 8 3 hal_rtl_string_movsq_back"
  unfolding is_back_mover_def hal_rtl_string_movsq_back_def
proof (intro allI impI)
  fix m and d s :: ptr and n :: u32
  let ?c = "2 * drop_bit 3 n"
  assume "bwd_safe d s (unat n div 8 * 8)"
  then have "rep_movs_std 4 m (d + (?c - 1) * of_nat 4) (s + (?c - 1) * of_nat 4) (unat ?c) =
      copy_bytes (4 * unat ?c) m d s"
    using div_times_le_32 [of n 8] 
    by (intro movs_back) (simp_all only: unat_double_drop_3, simp_all add: mult.commute)
  then show "rep_movs_std 4 m (d + (drop_bit 3 n * 2 - 1) * 4) (s + (drop_bit 3 n * 2 - 1) * 4)
      (unat (drop_bit 3 n * 2)) = copy_bytes (unat n div 8 * 8) m d s"
    by (simp only: mult.commute [of _ 2] unat_double_drop_3) (simp add: mult.commute)
qed

text \<open>Going down, the top \<open>N - n\<close> bytes of the block are in place when \<open>n\<close> are left.\<close>

definition copied_down :: "mem \<Rightarrow> ptr \<Rightarrow> ptr \<Rightarrow> nat \<Rightarrow> mem \<times> ptr \<times> ptr \<times> u32 \<Rightarrow> bool" where
  "copied_down m0 d0 s0 N st \<longleftrightarrow>
     (case st of (m, d, s, n) \<Rightarrow>
        unat n \<le> N \<and> m = copy_bytes (N - unat n) m0 (d0 + n) (s0 + n) \<and> d = d0 + n \<and> s = s0 + n)"

lemma copied_down_retreat:
  assumes c: "copied_down m0 d0 s0 N (m, d, s, n)" and safe: "bwd_safe d0 s0 N" and N: "N \<le> 2 ^ 32"
    and le: "unat len \<le> unat n"
  shows "bwd_safe (d - len) (s - len) (unat len)"
    and "copied_down m0 d0 s0 N (copy_bytes (unat len) m (d - len) (s - len), d - len, s - len, n - len)"
proof -
  from c have st: "unat n \<le> N" "m = copy_bytes (N - unat n) m0 (d0 + n) (s0 + n)"
      "d = d0 + n" "s = s0 + n"
    by (auto simp: copied_down_def)
  have n': "unat (n - len) = unat n - unat len" using le by (simp add: unat_sub word_le_nat_alt)
  have k': "N - unat (n - len) = unat len + (N - unat n)" using st(1) le n' by simp
  have sh: "d - len = d0 + (n - len)" "s - len = s0 + (n - len)"
    "d0 + n = d0 + (n - len) + of_nat (unat len)" "s0 + n = s0 + (n - len) + of_nat (unat len)"
    using st by simp_all
  have safe': "bwd_safe (d0 + (n - len)) (s0 + (n - len)) (unat len + (N - unat n))"
    unfolding bwd_safe_shift using safe by (rule bwd_safe_mono) (use st(1) le in simp)
  then show "bwd_safe (d - len) (s - len) (unat len)" unfolding sh by (rule bwd_safe_mono) simp
  show "copied_down m0 d0 s0 N (copy_bytes (unat len) m (d - len) (s - len), d - len, s - len, n - len)"
    unfolding copied_down_def prod.case k' unfolding st(2) sh
    using copy_bytes_append_back [OF safe'] st(1) le N n' by simp
qed

lemma memmove_stage_copied:
  assumes w: "w = 2 ^ k" "k < 32" and mov: "is_back_mover (2 ^ k) k mov"
    and safe: "bwd_safe d0 s0 N" and N: "N \<le> 2 ^ 32" and c: "copied_down m0 d0 s0 N st"
  shows "copied_down m0 d0 s0 N (memmove_stage w k mov st)"
proof -
  obtain m d s n where st: "st = (m, d, s, n)" by (cases st) auto
  show ?thesis
  proof (cases "d AND (w - 1) = s AND (w - 1) \<and> w < n")
    case True
    let ?a = "d AND (w - 1)"
    have "unat ?a < 2 ^ k" using w by (simp add: unat_and_mask)
    then have "unat ?a \<le> unat n" using True w by (simp add: word_less_nat_alt unat_2p)
    note adv = copied_down_retreat [OF c [unfolded st] safe N this]
    obtain m1 d1 s1 n1 where st1: "(m1, d1, s1, n1) = (if 0 < ?a
      then (hal_rtl_string_movsb_back m (d - ?a) (s - ?a) ?a, d - ?a, s - ?a, n - ?a)
      else (m, d, s, n))" by (metis surj_pair)
    then have c1: "copied_down m0 d0 s0 N (m1, d1, s1, n1)"
      using adv c by (auto simp: movsb_back_copy st split: if_splits)
    let ?b = "NOT (w - 1) AND n1"
    have b: "unat ?b = unat n1 div 2 ^ k * 2 ^ k" unfolding w by (simp add: unat_not_mask_and)
    then have "unat ?b \<le> unat n1" by simp
    note adv2 = copied_down_retreat [OF c1 safe N this]
    have "mov m1 (d1 - ?b) (s1 - ?b) (drop_bit k ?b) = copy_bytes (unat ?b) m1 (d1 - ?b) (s1 - ?b)"
      using mov _ adv2(1) by (rule is_back_mover_exact) (simp add: b)
    then have "copied_down m0 d0 s0 N
        (mov m1 (d1 - ?b) (s1 - ?b) (drop_bit k ?b), d1 - ?b, s1 - ?b, n1 - ?b)"
      using adv2(2) by simp
    then show ?thesis using True c1
      unfolding memmove_stage_def st prod.case Let_def st1 [symmetric] by simp
  next
    case False
    then show ?thesis using c by (auto simp: memmove_stage_def st)
  qed
qed

lemma memmove_down_copies:
  assumes safe: "bwd_safe dest src (unat sz)" and lt: "src < dest"
  shows "core_rtl_memmove m dest src sz = copy_bytes (unat sz) m dest src"
proof -
  have N: "unat sz \<le> 2 ^ 32" using unat_lt_32 [of sz] by simp
  let ?st = "memmove_stage 2 1 hal_rtl_string_movsw_back
             (memmove_stage 4 2 hal_rtl_string_movsl_back
               (memmove_stage 8 3 hal_rtl_string_movsq_back (m, dest + sz, src + sz, sz)))"
  have "copied_down m dest src (unat sz) (m, dest + sz, src + sz, sz)" by (simp add: copied_down_def)
  then have "copied_down m dest src (unat sz) ?st"
    using movsw_back_mover movsl_back_mover movsq_back_mover
    by (intro memmove_stage_copied [OF _ _ _ safe N]) simp_all
  moreover obtain m' d s n where st: "?st = (m', d, s, n)" by (cases ?st) auto
  ultimately have c: "copied_down m dest src (unat sz) (m', d, s, n)" by simp
  note adv = copied_down_retreat [OF c safe N order_refl]
  show ?thesis
  proof (cases "1 \<le> n")
    case True
    from adv(2) have e: "copy_bytes (unat n) m' (d - n) (s - n) = copy_bytes (unat sz) m dest src"
      by (simp add: copied_down_def) metis
    show ?thesis using True lt less_not_sym [OF lt] unfolding core_rtl_memmove_def st
      by (simp add: movsb_back_copy [OF adv(1)] Let_def e)
  next
    case False
    then have "n = 0" by (simp add: word_le_nat_alt word_unat_eq_iff)
    then show ?thesis using c lt less_not_sym [OF lt] unfolding core_rtl_memmove_def st by (simp add: copied_down_def Let_def)
  qed
qed

lemma memmove_copies:
  assumes "unat dest + unat sz \<le> 2 ^ 32" "unat src + unat sz \<le> 2 ^ 32"
  shows "core_rtl_memmove m dest src sz = copy_bytes (unat sz) m dest src"
proof -
  consider "dest < src" | "src < dest" | "src = dest" by (metis linorder_less_linear)
  then show ?thesis
  proof cases
    case 1
    then have "fwd_safe dest src (unat sz)"
      using assms by (simp add: fwd_safe_def unat_sub_if' word_less_nat_alt) arith
    then show ?thesis using 1 by (simp add: core_rtl_memmove_def memcpy_copies)
  next
    case 2
    then have "bwd_safe dest src (unat sz)"
      using assms by (simp add: bwd_safe_def unat_sub_if' word_less_nat_alt) arith
    then show ?thesis using 2 by (rule memmove_down_copies)
  next
    case 3
    then show ?thesis by (simp add: core_rtl_memmove_def copy_bytes_def fun_eq_iff)
  qed
qed


subsection \<open>memset\<close>

definition is_setter :: "nat \<Rightarrow> nat \<Rightarrow> (mem \<Rightarrow> ptr \<Rightarrow> u8 \<Rightarrow> u32 \<Rightarrow> mem) \<Rightarrow> bool" where
  "is_setter w k sets \<longleftrightarrow> (\<forall>m d v n.
     sets m d v (drop_bit k (n :: u32)) = fill_bytes (unat n div w * w) m d v)"

lemma setsb_fill: "hal_rtl_string_setsb m d v n = fill_bytes (unat n) m d v"
  using rep_stos_fill [of 1 "unat n" m d v] unat_lt_32 [of n] by (simp add: hal_rtl_string_setsb_def)

lemma setsw_setter: "is_setter 2 1 hal_rtl_string_setsw"
  using rep_stos_fill [of 2] div_times_le_32 [of _ 2]
  by (simp add: is_setter_def hal_rtl_string_setsw_def unat_drop_bit mult.commute)

lemma setsl_setter: "is_setter 4 2 hal_rtl_string_setsl"
  using rep_stos_fill [of 4] div_times_le_32 [of _ 4]
  by (simp add: is_setter_def hal_rtl_string_setsl_def unat_drop_bit mult.commute)

lemma setsq_setter: "is_setter 8 3 hal_rtl_string_setsq"
  unfolding is_setter_def hal_rtl_string_setsq_def
proof (intro allI)
  fix m d v and n :: u32
  have "rep_stos 4 m d v (2 * (unat n div 8)) = fill_bytes (4 * (2 * (unat n div 8))) m d v"
    using div_times_le_32 [of n 8] by (intro rep_stos_fill) (simp add: mult.commute)
  then show "rep_stos 4 m d v (unat (drop_bit 3 n * 2)) = fill_bytes (unat n div 8 * 8) m d v"
    by (simp only: mult.commute [of _ 2] unat_double_drop_3) (simp add: mult.commute)
qed

definition filled :: "mem \<Rightarrow> ptr \<Rightarrow> u8 \<Rightarrow> nat \<Rightarrow> mem \<times> ptr \<times> u32 \<Rightarrow> bool" where
  "filled m0 d0 v N st \<longleftrightarrow>
     (case st of (m, d, n) \<Rightarrow>
        unat n \<le> N \<and> m = fill_bytes (N - unat n) m0 d0 v \<and> d = d0 + of_nat (N - unat n))"

lemma filled_advance:
  assumes c: "filled m0 d0 v N (m, d, n)" and N: "N \<le> 2 ^ 32" and le: "unat len \<le> unat n"
  shows "filled m0 d0 v N (fill_bytes (unat len) m d v, d + len, n - len)"
proof -
  from c have st: "unat n \<le> N" "m = fill_bytes (N - unat n) m0 d0 v" "d = d0 + of_nat (N - unat n)"
    by (auto simp: filled_def)
  have n': "unat (n - len) = unat n - unat len" using le by (simp add: unat_sub word_le_nat_alt)
  have k': "N - unat (n - len) = (N - unat n) + unat len" using st(1) le n' by simp
  have "(N - unat n) + unat len \<le> 2 ^ 32" using st(1) le N by simp
  from fill_bytes_append [OF this] show ?thesis
    using st le n' unfolding filled_def prod.case k' by simp
qed

lemma is_setter_exact:
  "is_setter w k sets \<Longrightarrow> w dvd unat b \<Longrightarrow> sets m d v (drop_bit k b) = fill_bytes (unat b) m d v"
  unfolding is_setter_def by (metis dvd_div_mult_self)

lemma boundary_reached:
  assumes "w = 2 ^ k" "k < 32"
  shows "unat (d + (w - (d AND (w - 1))) :: u32) mod 2 ^ k = 0"
proof -
  define q r where "q = unat d div 2 ^ k" and "r = unat d mod 2 ^ k"
  have "unat d = 2 ^ k * q + r" "r < 2 ^ k" by (simp_all add: q_def r_def)
  then have "unat d + (2 ^ k - unat d mod 2 ^ k) = 2 ^ k * q + 2 ^ k"
    unfolding r_def [symmetric] by linarith
  moreover have "unat (d + (w - (d AND (w - 1)))) mod 2 ^ k =
      (unat d + (2 ^ k - unat d mod 2 ^ k)) mod 2 ^ k"
    using assms(2) by (simp only: unat_add_mod unat_to_boundary(1) [OF assms] less_imp_le)
  ultimately show ?thesis by simp
qed

text \<open>From an aligned address, the units of one width fill all but a remainder below the width.\<close>

lemma memset_stage_filled:
  assumes w: "w = 2 ^ k" "k < 32" and sets: "is_setter (2 ^ k) k sets" and N: "N \<le> 2 ^ 32"
    and c: "filled m0 d0 v N (m, d, n)" and d: "unat d mod 2 ^ k = 0"
    and st': "memset_stage w k sets dest v (m, d, n) = (m', d', n')"
  shows "filled m0 d0 v N (m', d', n') \<and> unat d' mod 2 ^ k = 0"
proof -
  let ?b = "NOT (w - 1) AND n"
  have b: "unat ?b = unat n div 2 ^ k * 2 ^ k" unfolding w by (simp add: unat_not_mask_and)
  then have "unat ?b \<le> unat n" by simp
  from filled_advance [OF c N this]
  have c2: "filled m0 d0 v N (sets m d v (drop_bit k ?b), d + ?b, n - ?b)"
    using is_setter_exact [OF sets, of ?b m d v] b by simp
  have "d AND (w - 1) = 0" using d w by (simp add: and_mask_0)
  then have "(m', d', n') = (if w \<le> n then (sets m d v (drop_bit k ?b), d + ?b, n - ?b) else (m, d, n))"
    using st' by (simp add: memset_stage_def Let_def split: if_splits)
  moreover have "unat (d + ?b) mod 2 ^ k = 0"
    using d w(2) unfolding b [symmetric] by (subst unat_add_mod) (simp_all add: b mod_add_eq [symmetric])
  ultimately show ?thesis using c c2 d by (auto split: if_splits)
qed

definition memset_run :: "ptr \<Rightarrow> u8 \<Rightarrow> mem \<times> ptr \<times> u32 \<Rightarrow> mem" where
  "memset_run dest v st =
     (case memset_stage 2 1 hal_rtl_string_setsw dest v
             (memset_stage 4 2 hal_rtl_string_setsl dest v
               (memset_stage 8 3 hal_rtl_string_setsq dest v st)) of
        (m, d, n) \<Rightarrow> if 1 \<le> n then hal_rtl_string_setsb m d v n else m)"

lemma memset_run_aligned:
  assumes "unat d mod 8 = 0"
  shows "memset_run dest v (m, d, n) = fill_bytes (unat n) m d v"
proof -
  have N: "unat n \<le> 2 ^ 32" using unat_lt_32 [of n] by simp
  have c0: "filled m d v (unat n) (m, d, n)" by (simp add: filled_def fill_bytes_def)
  obtain m1 d1 n1 where s1: "memset_stage 8 3 hal_rtl_string_setsq dest v (m, d, n) = (m1, d1, n1)"
    by (metis surj_pair)
  obtain m2 d2 n2 where s2: "memset_stage 4 2 hal_rtl_string_setsl dest v (m1, d1, n1) = (m2, d2, n2)"
    by (metis surj_pair)
  obtain m3 d3 n3 where s3: "memset_stage 2 1 hal_rtl_string_setsw dest v (m2, d2, n2) = (m3, d3, n3)"
    by (metis surj_pair)
  have c1: "filled m d v (unat n) (m1, d1, n1)" "unat d1 mod 8 = 0"
    using memset_stage_filled [OF _ _ _ N c0 _ s1] setsq_setter assms by simp_all
  then have "unat d1 mod 4 = 0" by presburger
  then have c2: "filled m d v (unat n) (m2, d2, n2)" "unat d2 mod 4 = 0"
    using memset_stage_filled [OF _ _ _ N c1(1) _ s2] setsl_setter by simp_all
  then have "unat d2 mod 2 = 0" by presburger
  then have c3: "filled m d v (unat n) (m3, d3, n3)"
    using memset_stage_filled [OF _ _ _ N c2(1) _ s3] setsw_setter by simp_all
  show ?thesis
    using filled_advance [OF c3 N order_refl] unfolding memset_run_def s1 s2 s3 prod.case setsb_fill
    by (cases "n3 = 0") (auto simp: filled_def fill_bytes_def word_le_nat_alt Suc_le_eq unat_gt_0)
qed

lemma memset_run_unaligned:
  assumes "unat dest mod 8 \<noteq> 0"
  shows "memset_run dest v (m, dest, n) =
    fill_bytes (unat (n - (8 - (dest AND 7)))) (fill_bytes (8 - unat dest mod 8) m dest v)
      (dest + (8 - (dest AND 7))) v"
proof -
  let ?a = "8 - (dest AND 7)"
  have a: "dest AND 7 \<noteq> 0" "unat (dest + ?a) mod 8 = 0" "unat ?a = 8 - unat dest mod 8"
    using assms and_mask_0 [of dest 3] boundary_reached [of 8 3 dest] unat_to_boundary(1) [of 8 3 dest]
    by simp_all
  then have "(dest + ?a) AND 7 = 0" using and_mask_0 [of "dest + ?a" 3] by simp
  then have "memset_run dest v (m, dest, n) = memset_run dest v (hal_rtl_string_setsb m dest v ?a, dest + ?a, n - ?a)"
    using a(1) by (simp add: memset_run_def memset_stage_def [of 8] Let_def)
  then show ?thesis using a by (simp add: memset_run_aligned setsb_fill)
qed

subsection \<open>Properties\<close>

text \<open>
  \<^verbatim>\<open>core_rtl_memset\<close>, exactly. From a destination that is 8-byte aligned, or with at least
  as many bytes as it takes to reach the next boundary, it fills the block and nothing else.
  Otherwise the distance to the boundary exceeds \<^verbatim>\<open>size\<close>, the subtraction wraps, and the call
  overwrites the whole address space with the byte.
\<close>

theorem core_rtl_memset_exact:
  "core_rtl_memset m dest v sz =
     (if unat dest mod 8 = 0 \<or> 8 \<le> unat dest mod 8 + unat sz
      then fill_bytes (unat sz) m dest v else (\<lambda>a. v))"
proof -
  have run: "core_rtl_memset m dest v sz = memset_run dest v (m, dest, sz)"
    by (simp add: core_rtl_memset_def memset_run_def)
  let ?l = "8 - unat dest mod 8" and ?a = "8 - (dest AND 7)"
  have a1: "unat ?a = ?l" using unat_to_boundary(1) [of 8 3 dest] by simp
  have "of_nat ?l = ?a" unfolding a1 [symmetric] by simp
  note a = a1 this
  show ?thesis
  proof (cases "unat dest mod 8 = 0")
    case False
    show ?thesis
    proof (cases "8 \<le> unat dest mod 8 + unat sz")
      case True
      then have "unat (sz - ?a) = unat sz - ?l" using a by (simp add: unat_sub word_le_nat_alt)
      moreover have "?l + (unat sz - ?l) = unat sz" using True by simp
      ultimately show ?thesis
        using fill_bytes_append [of ?l "unat sz - ?l" m dest v] unat_lt_32 [of sz] a True False
        by (simp add: run memset_run_unaligned)
    next
      case wrap: False
      have n: "unat (sz - ?a) = unat sz + 2 ^ 32 - ?l"
        using wrap a by (subst unat_sub_if') simp
      have "fill_bytes (unat (sz - ?a)) (fill_bytes ?l m dest v) (dest + of_nat ?l) v x = v" for x
      proof -
        have "x - (dest + of_nat ?l) = (x - dest) - of_nat ?l" by simp
        moreover have "unat (x - dest - of_nat ?l) = unat (x - dest) - ?l" if "?l \<le> unat (x - dest)"
          using that by (subst unat_minus_of_nat) simp_all
        ultimately show ?thesis unfolding fill_bytes_def n
          using unat_lt_32 [of "x - dest"] by (cases "?l \<le> unat (x - dest)") (simp_all only: if_split, auto)
      qed
      then show ?thesis using wrap False a by (auto simp: run memset_run_unaligned)
    qed
  qed (simp add: run memset_run_aligned)
qed

text \<open>
  \<^verbatim>\<open>core_rtl_memcpy\<close>, with its alignment prologues and 8-, 4- and 2-byte units, copies the
  block as if all of it were read before any of it is written, provided the destination does
  not begin inside the source block after its start.
\<close>

theorem core_rtl_memcpy_exact:
  assumes "dest = src \<or> unat sz \<le> unat (dest - src)"
  shows "core_rtl_memcpy m dest src sz = copy_bytes (unat sz) m dest src"
  using memcpy_copies [of dest src sz m] assms by (simp add: fwd_safe_def)

theorem core_rtl_memcpy_exact_witness:
  "core_rtl_memcpy (\<lambda>a. ucast a) 5 13 22 = copy_bytes 22 (\<lambda>a. ucast a) 5 13"
  using core_rtl_memcpy_exact [of 5 13 22 "\<lambda>a. ucast a"] by simp

text \<open>
  C34. \<^verbatim>\<open>core_rtl_memmove\<close> copies correctly however source and destination overlap, in either
  direction, as long as neither block wraps around the end of the address space.
\<close>

theorem core_rtl_memmove_exact:
  assumes "unat dest + unat sz \<le> 2 ^ 32" and "unat src + unat sz \<le> 2 ^ 32"
  shows "core_rtl_memmove m dest src sz = copy_bytes (unat sz) m dest src"
  using assms by (rule memmove_copies)

theorem core_rtl_memmove_exact_witness:
  "core_rtl_memmove (\<lambda>a. ucast a) 13 5 22 = copy_bytes 22 (\<lambda>a. ucast a) 13 5"
  using core_rtl_memmove_exact [of 13 22 5 "\<lambda>a. ucast a"] by simp

end
