(* ===== verification/RtlStr.thy ===== *)
theory RtlStr
  imports RtlMem
begin

text \<open>
  The string routines of \<^verbatim>\<open>kernel/core/rtl/string/string.c\<close> (\<^verbatim>\<open>strchr\<close> to \<^verbatim>\<open>strsplit\<close>), over the
  memory of \<open>ByteMem\<close>. A loop that ends only at a NUL byte is a \<^verbatim>\<open>partial_function\<close> into
  \<open>option\<close>: \<open>None\<close> is a call that does not return. Pointers into read-only arguments are
  returned as addresses, and a written buffer as the new memory.
\<close>

subsection \<open>core\_rtl\_strchr\<close>

text \<open>\<open>Inl\<close>: returned from the byte loop; \<open>Inr\<close>: the aligned address where the word loop starts.\<close>

partial_function (option) strchr_align :: "mem \<Rightarrow> u8 \<Rightarrow> ptr \<Rightarrow> (ptr + ptr) option" where
  "strchr_align m chr char_ptr =
     (if char_ptr AND (4 - 1) \<noteq> 0
      then if m char_ptr = chr then Some (Inl char_ptr)
           else if m char_ptr = 0 then Some (Inl NULL)
           else strchr_align m chr (char_ptr + 1)
      else Some (Inr char_ptr))"

definition magic_bits :: u32 where
  "magic_bits = 0x7efefeff"

definition hole_test :: "u32 \<Rightarrow> u32" where
  "hole_test longword = ((longword + magic_bits) XOR NOT longword) AND NOT magic_bits"

partial_function (option) strchr_words :: "mem \<Rightarrow> u8 \<Rightarrow> u32 \<Rightarrow> ptr \<Rightarrow> ptr option" where
  "strchr_words m chr charmask longword_ptr =
     (let longword = load32 m longword_ptr; cp = longword_ptr
      in if hole_test longword \<noteq> 0 \<or> hole_test (longword XOR charmask) \<noteq> 0
         then if m cp = chr then Some cp
              else if m cp = 0 then Some NULL
              else if m (cp + 1) = chr then Some (cp + 1)
              else if m (cp + 1) = 0 then Some NULL
              else if m (cp + 2) = chr then Some (cp + 2)
              else if m (cp + 2) = 0 then Some NULL
              else if m (cp + 3) = chr then Some (cp + 3)
              else if m (cp + 3) = 0 then Some NULL
              else strchr_words m chr charmask (longword_ptr + 4)
         else strchr_words m chr charmask (longword_ptr + 4))"

definition core_rtl_strchr :: "mem \<Rightarrow> ptr \<Rightarrow> u8 \<Rightarrow> ptr option" where
  "core_rtl_strchr m str c =
     Option.bind (strchr_align m c str) (\<lambda>r. case r of
        Inl ret \<Rightarrow> Some ret
      | Inr longword_ptr \<Rightarrow> strchr_words m c (repeat_byte c) longword_ptr)"

subsection \<open>core\_rtl\_strcspn\<close>

partial_function (option) strcspn_loop :: "mem \<Rightarrow> ptr \<Rightarrow> ptr \<Rightarrow> u32 \<Rightarrow> u32 option" where
  "strcspn_loop m p reject ret =
     (if m p \<noteq> 0
      then Option.bind (core_rtl_strchr m reject (m p)) (\<lambda>r.
             if r = NULL then strcspn_loop m (p + 1) reject (ret + 1) else Some ret)
      else Some ret)"

definition core_rtl_strcspn :: "mem \<Rightarrow> ptr \<Rightarrow> ptr \<Rightarrow> u32 option" where
  "core_rtl_strcspn m str reject = strcspn_loop m str reject 0"

subsection \<open>core\_rtl\_strlen\<close>

partial_function (option) strlen_align :: "mem \<Rightarrow> ptr \<Rightarrow> (ptr + ptr) option" where
  "strlen_align m char_ptr =
     (if char_ptr AND (4 - 1) \<noteq> 0
      then if m char_ptr = 0 then Some (Inl char_ptr) else strlen_align m (char_ptr + 1)
      else Some (Inr char_ptr))"

definition strlen_test :: "u32 \<Rightarrow> u32" where
  "strlen_test longword = (longword - 0x01010101) AND NOT longword AND 0x80808080"

partial_function (option) strlen_words :: "mem \<Rightarrow> ptr \<Rightarrow> ptr \<Rightarrow> u32 option" where
  "strlen_words m str longword_ptr =
     (let longword = load32 m longword_ptr; cp = longword_ptr
      in if strlen_test longword \<noteq> 0
         then if m cp = 0 then Some (cp - str)
              else if m (cp + 1) = 0 then Some (cp - str + 1)
              else if m (cp + 2) = 0 then Some (cp - str + 2)
              else if m (cp + 3) = 0 then Some (cp - str + 3)
              else strlen_words m str (longword_ptr + 4)
         else strlen_words m str (longword_ptr + 4))"

definition core_rtl_strlen :: "mem \<Rightarrow> ptr \<Rightarrow> u32 option" where
  "core_rtl_strlen m str =
     Option.bind (strlen_align m str) (\<lambda>r. case r of
        Inl char_ptr \<Rightarrow> Some (char_ptr - str)
      | Inr longword_ptr \<Rightarrow> strlen_words m str longword_ptr)"

subsection \<open>core\_rtl\_strncat\<close>

definition core_rtl_strncat :: "mem \<Rightarrow> ptr \<Rightarrow> ptr \<Rightarrow> u32 \<Rightarrow> mem option" where
  "core_rtl_strncat m dest src len =
     Option.bind (core_rtl_strlen m dest) (\<lambda>n.
       let p = dest + n
       in Option.bind (core_rtl_strlen m src) (\<lambda>len_to_cp.
            let len_to_cp = (if len < len_to_cp then len else len_to_cp);
                m = m(p + len_to_cp := 0)
            in Some (core_rtl_memcpy m p src len_to_cp)))"

subsection \<open>core\_rtl\_strncmp, core\_rtl\_strcmp\<close>

text \<open>The bytes are promoted to \<^verbatim>\<open>int\<close>, so the difference is signed.\<close>

fun strncmp_loop :: "mem \<Rightarrow> ptr \<Rightarrow> ptr \<Rightarrow> nat \<Rightarrow> int" where
  "strncmp_loop m p1 p2 len =
     (if 0 < len
      then let ret = uint (m p1) - uint (m p2)
           in if ret \<noteq> 0 \<or> m p1 = 0 then ret else strncmp_loop m (p1 + 1) (p2 + 1) (len - 1)
      else 0)"

declare strncmp_loop.simps [simp del]

definition core_rtl_strncmp :: "mem \<Rightarrow> ptr \<Rightarrow> ptr \<Rightarrow> u32 \<Rightarrow> int" where
  "core_rtl_strncmp m s1 s2 len = strncmp_loop m s1 s2 (unat len)"

definition core_rtl_strcmp :: "mem \<Rightarrow> ptr \<Rightarrow> ptr \<Rightarrow> int" where
  "core_rtl_strcmp m s1 s2 = core_rtl_strncmp m s1 s2 0xFFFFFFFF"

subsection \<open>core\_rtl\_strncpy\<close>

text \<open>
  \<open>count\<close> runs up to \<open>len\<close>; what is left is the argument. After the loop the code assigns 0 to
  the local pointer \<^verbatim>\<open>p_dest\<close>, which writes no memory.
\<close>

fun strncpy_loop :: "mem \<Rightarrow> ptr \<Rightarrow> ptr \<Rightarrow> nat \<Rightarrow> mem" where
  "strncpy_loop m p_dest p_src left =
     (if 0 < left
      then let m = m(p_dest := m p_src)
           in if m p_src = 0 then m else strncpy_loop m (p_dest + 1) (p_src + 1) (left - 1)
      else m)"

declare strncpy_loop.simps [simp del]

definition core_rtl_strncpy :: "mem \<Rightarrow> ptr \<Rightarrow> ptr \<Rightarrow> u32 \<Rightarrow> mem" where
  "core_rtl_strncpy m dest src len = strncpy_loop m dest src (unat len)"

subsection \<open>core\_rtl\_strpbrk\<close>

partial_function (option) strpbrk_accept :: "mem \<Rightarrow> u8 \<Rightarrow> ptr \<Rightarrow> bool option" where
  "strpbrk_accept m c p_a =
     (if m p_a \<noteq> 0 then if c = m p_a then Some True else strpbrk_accept m c (p_a + 1)
      else Some False)"

partial_function (option) core_rtl_strpbrk :: "mem \<Rightarrow> ptr \<Rightarrow> ptr \<Rightarrow> ptr option" where
  "core_rtl_strpbrk m p_s accept =
     (if m p_s \<noteq> 0
      then Option.bind (strpbrk_accept m (m p_s) accept) (\<lambda>found.
             if found then Some p_s else core_rtl_strpbrk m (p_s + 1) accept)
      else Some NULL)"

subsection \<open>core\_rtl\_strrchr\<close>

partial_function (option) strrchr_loop :: "mem \<Rightarrow> u8 \<Rightarrow> ptr \<Rightarrow> ptr \<Rightarrow> ptr option" where
  "strrchr_loop m ch p found =
     (if m p \<noteq> 0 then strrchr_loop m ch (p + 1) (if m p = ch then p else found) else Some found)"

definition core_rtl_strrchr :: "mem \<Rightarrow> ptr \<Rightarrow> u8 \<Rightarrow> ptr option" where
  "core_rtl_strrchr m str ch =
     (if ch = 0 then core_rtl_strchr m str ch else strrchr_loop m ch str NULL)"

subsection \<open>core\_rtl\_strspn\<close>

partial_function (option) strspn_loop :: "mem \<Rightarrow> ptr \<Rightarrow> ptr \<Rightarrow> u32 \<Rightarrow> u32 option" where
  "strspn_loop m p_s p_a ret =
     (if m p_s \<noteq> 0
      then if m p_s \<noteq> m p_a then Some ret else strspn_loop m (p_s + 1) (p_a + 1) (ret + 1)
      else Some ret)"

definition core_rtl_strspn :: "mem \<Rightarrow> ptr \<Rightarrow> ptr \<Rightarrow> u32 option" where
  "core_rtl_strspn m str accept = strspn_loop m str accept 0"

subsection \<open>core\_rtl\_strstr, core\_rtl\_strsplit\<close>

text \<open>The inner \<^verbatim>\<open>while(true)\<close>: does the string at \<open>p2\<close> begin at \<open>p_tmp\<close>?\<close>

partial_function (option) strstr_match :: "mem \<Rightarrow> ptr \<Rightarrow> ptr \<Rightarrow> bool option" where
  "strstr_match m p_tmp p2 =
     (if m p2 = 0 then Some True
      else if m p_tmp \<noteq> m p2 then Some False
      else strstr_match m (p_tmp + 1) (p2 + 1))"

partial_function (option) core_rtl_strstr :: "mem \<Rightarrow> ptr \<Rightarrow> ptr \<Rightarrow> ptr option" where
  "core_rtl_strstr m p1 str2 =
     (if m p1 \<noteq> 0
      then if m p1 = m str2
           then Option.bind (strstr_match m p1 str2) (\<lambda>found.
                  if found then Some p1 else core_rtl_strstr m (p1 + 1) str2)
           else core_rtl_strstr m (p1 + 1) str2
      else Some NULL)"

definition core_rtl_strsplit :: "mem \<Rightarrow> ptr \<Rightarrow> ptr \<Rightarrow> ptr \<Rightarrow> u32 \<Rightarrow> (mem \<times> ptr) option" where
  "core_rtl_strsplit m str delim buf sz =
     Option.bind (core_rtl_strstr m str delim) (\<lambda>p.
       if p = NULL then Some (core_rtl_strncpy m buf str (sz - 1), NULL)
       else let len_to_cp = (if sz - 1 < p - str then sz - 1 else p - str);
                m = core_rtl_strncpy m buf str len_to_cp
            in Option.bind (core_rtl_strlen m delim) (\<lambda>n. Some (m, p + n)))"

end
