(* ===== verification/RtlStrProofs.thy ===== *)
theory RtlStrProofs
  imports RtlStr RtlMemCopy HalMath
begin

text \<open>
  What the string routines of \<open>RtlStr\<close> compute. A C string is a list of non-zero bytes
  (\<open>cstr\<close>); every routine is related to a function on such lists. The two word-at-a-time
  loops rest on their bit tricks: each test is non-zero for every word that holds a zero byte.
\<close>

subsection \<open>Strings in memory\<close>

fun cstr :: "mem \<Rightarrow> ptr \<Rightarrow> u8 list \<Rightarrow> bool" where
  "cstr m p [] \<longleftrightarrow> m p = 0"
| "cstr m p (c # s) \<longleftrightarrow> c \<noteq> 0 \<and> m p = c \<and> cstr m (p + 1) s"

lemma cstr_append: "cstr m p (s @ t) \<longleftrightarrow> 
  (\<forall>i < length s. s ! i \<noteq> 0 \<and> m (p + of_nat i) = s ! i) \<and> cstr m (p + of_nat (length s)) t"
proof (induction s arbitrary: p)
  case (Cons c s)
  have "(\<forall>i < length (c # s). (c # s) ! i \<noteq> 0 \<and> m (p + of_nat i) = (c # s) ! i) \<longleftrightarrow>
    (c \<noteq> 0 \<and> m p = c) \<and> (\<forall>i < length s. s ! i \<noteq> 0 \<and> m (p + 1 + of_nat i) = s ! i)"
    by (simp add: All_less_Suc2 add.assoc)
  then show ?case using Cons.IH [of "p + 1"] by (auto simp: add.assoc)
qed simp

lemma cstr_bytes: "cstr m p s \<longleftrightarrow> 
  (\<forall>i < length s. s ! i \<noteq> 0 \<and> m (p + of_nat i) = s ! i) \<and> m (p + of_nat (length s)) = 0"
  using cstr_append [of m p s "[]"] by simp

lemma cstr_length: "cstr m p s \<Longrightarrow> length s < 2 ^ 32"
proof (rule ccontr)
  assume c: "cstr m p s" and "\<not> length s < 2 ^ 32"
  then have le: "2 ^ 32 \<le> length s" by simp
  let ?i = "unat (of_nat (length s) :: u32)"
  have "?i < length s" using unat_lt_32 [of "of_nat (length s)"] le by (rule less_le_trans)
  then have "m (p + of_nat ?i) \<noteq> 0" using c by (auto simp: cstr_bytes)
  moreover have "m (p + of_nat (length s)) = 0" using c by (simp add: cstr_bytes)
  ultimately show False by simp
qed

fun by_words :: "'a list \<Rightarrow> unit" where
  "by_words (a # b # c # d # s) = by_words s"
| "by_words [a, b, c] = ()"
| "by_words [a, b] = ()"
| "by_words [a] = ()"
| "by_words [] = ()"

subsection \<open>strlen\<close>

lemma strlen_test_zero: "strlen_test w = zero_byte_test w"
  by (simp add: strlen_test_def zero_byte_test_def repeated_one_def and.assoc)

lemma strlen_align_str:
  "cstr m p s \<Longrightarrow>
   strlen_align m p = Some (Inl (p + of_nat (length s))) \<or>
   (\<exists>k \<le> length s. strlen_align m p = Some (Inr (p + of_nat k)) \<and> cstr m (p + of_nat k) (drop k s))"
proof (induction s arbitrary: p)
  case Nil
  then show ?case by (auto simp: strlen_align.simps)
next
  case (Cons c s)
  show ?case
  proof (cases "p AND (4 - 1) \<noteq> 0")
    case True
    then have e: "strlen_align m p = strlen_align m (p + 1)" using Cons.prems by (subst strlen_align.simps) auto
    have "cstr m (p + 1) s" using Cons.prems by simp
    from Cons.IH [OF this] show ?thesis
    proof (elim disjE exE conjE)
      assume "strlen_align m (p + 1) = Some (Inl (p + 1 + of_nat (length s)))"
      then show ?thesis by (simp add: e add.assoc del: of_nat_add)
    next
      fix k
      assume "k \<le> length s" "strlen_align m (p + 1) = Some (Inr (p + 1 + of_nat k))"
        "cstr m (p + 1 + of_nat k) (drop k s)"
      then show ?thesis unfolding e by (intro disjI2 exI [of _ "Suc k"]) (simp add: add.assoc)
    qed
  next
    case False
    then have "strlen_align m p = Some (Inr (p + of_nat 0))" by (subst strlen_align.simps) auto
    then show ?thesis using Cons.prems by (intro disjI2 exI [of _ 0]) simp
  qed
qed

lemma strlen_zero_found:
  "m (p + of_nat i) = 0 \<Longrightarrow> i < 4 \<Longrightarrow> strlen_test (load32 m p) \<noteq> 0"
  using zero_byte_test_detects [of i "load32 m p"] by (simp add: strlen_test_zero byte_of_load32)

lemma strlen_words_str:
  "cstr m p s \<Longrightarrow> strlen_words m str p = Some (p - str + of_nat (length s))"
proof (induction s arbitrary: p rule: by_words.induct)
  case (1 a b c d s)
  then show ?case by (subst strlen_words.simps) (simp add: Let_def add.assoc)
next
  case (2 a b c)
  then show ?case using strlen_zero_found [of m p 3] by (subst strlen_words.simps) (simp add: Let_def add.assoc)
next
  case (3 a b)
  then show ?case using strlen_zero_found [of m p 2] by (subst strlen_words.simps) (simp add: Let_def add.assoc)
next
  case (4 a)
  then show ?case using strlen_zero_found [of m p 1] by (subst strlen_words.simps) (simp add: Let_def add.assoc)
next
  case 5
  then show ?case using strlen_zero_found [of m p 0] by (subst strlen_words.simps) (simp add: Let_def)
qed

lemma strlen_str: "cstr m p s \<Longrightarrow> core_rtl_strlen m p = Some (of_nat (length s))"
  using strlen_align_str [of m p s]
  by (auto simp: core_rtl_strlen_def strlen_words_str simp flip: of_nat_add)

subsection \<open>strchr\<close>

fun find_char :: "ptr \<Rightarrow> u8 \<Rightarrow> u8 list \<Rightarrow> ptr" where
  "find_char p c [] = (if c = 0 then p else NULL)"
| "find_char p c (x # s) = (if x = c then p else find_char (p + 1) c s)"

lemma no_carry_bit:
  assumes "unat x mod 2 ^ b + unat y mod 2 ^ b < 2 ^ b" "b < 32"
  shows "bit (x + y :: u32) b \<longleftrightarrow> bit x b \<noteq> bit y b"
proof -
  have "unat (x + y) = take_bit 32 (unat x + unat y)"
    by (simp add: unat_word_ariths take_bit_eq_mod)
  then have b: "bit (x + y) b = odd ((unat x + unat y) div 2 ^ b)"
    using assms(2) by (metis bit_iff_odd bit_take_bit_iff bit_word_unat)
  have "(unat x + unat y) div 2 ^ b = unat x div 2 ^ b + unat y div 2 ^ b"
    using assms(1) by (simp add: div_add1_eq [of "unat x"])
  then show ?thesis unfolding b by (simp add: bit_word_unat)
qed

lemma hole_bit:
  assumes "unat w mod 2 ^ b + unat magic_bits mod 2 ^ b < 2 ^ b" "b < 32" "\<not> bit magic_bits b"
  shows "hole_test w \<noteq> 0"
proof -
  have "bit (hole_test w) b"
    using no_carry_bit [OF assms(1,2)] assms(2,3) unfolding hole_test_def by (simp add: bit_simps)
  then show ?thesis by auto
qed

lemma hole_test_detects:
  assumes "j < 4" "byte_of j w = 0"
  shows "hole_test w \<noteq> 0"
proof -
  have z: "unat (byte_of j w) = 0" using assms(2) by simp
  have u: "unat (byte_of i w) < 256" for i by (rule unat_u8)
  note w = unat_bytes [of w]
  show ?thesis using less_4_cases [OF assms(1)]
  proof (elim disjE)
    assume "j = 0"
    then have "unat w mod 2 ^ 8 = 0" using z by (simp add: w)
    then show ?thesis by (intro hole_bit [of w 8]) (simp_all add: magic_bits_def)
  next
    assume "j = 1"
    then have "unat w = unat (byte_of 0 w) + 2 ^ 16 * (unat (byte_of 2 w) + 256 * unat (byte_of 3 w))"
      using w z by simp
    then have "unat w mod 2 ^ 16 < 2 ^ 8" using u [of 0] by (simp only: mod_mult_self2) simp
    then show ?thesis by (intro hole_bit [of w 16]) (simp_all add: magic_bits_def)
  next
    assume "j = 2"
    have "unat w = (unat (byte_of 0 w) + 256 * unat (byte_of 1 w)) + 2 ^ 24 * unat (byte_of 3 w)"
      using w z \<open>j = 2\<close> by simp
    then have "unat w mod 2 ^ 24 < 2 ^ 16" using u [of 0] u [of 1] by simp
    then show ?thesis by (intro hole_bit [of w 24]) (simp_all add: magic_bits_def)
  next
    assume "j = 3"
    then have "unat w < 2 ^ 24" using w z u [of 0] u [of 1] u [of 2] by simp
    then show ?thesis by (intro hole_bit [of w 31]) (simp_all add: magic_bits_def)
  qed
qed

lemma hole_found:
  "i < 4 \<Longrightarrow> m (p + of_nat i) = 0 \<Longrightarrow> hole_test (load32 m p) \<noteq> 0"
  "i < 4 \<Longrightarrow> m (p + of_nat i) = c \<Longrightarrow> hole_test (load32 m p XOR repeat_byte c) \<noteq> 0"
  using hole_test_detects [of i "load32 m p"] hole_test_detects [of i "load32 m p XOR repeat_byte c"]
  by (simp_all add: byte_of_load32 byte_of_xor byte_of_repeat)

lemma strchr_align_str:
  "cstr m p s \<Longrightarrow>
   strchr_align m c p = Some (Inl (find_char p c s)) \<or>
   (\<exists>q t. strchr_align m c p = Some (Inr q) \<and> cstr m q t \<and> find_char p c s = find_char q c t)"
proof (induction s arbitrary: p)
  case Nil
  then show ?case by (subst (1 2) strchr_align.simps) (auto intro: exI [of _ "[]"])
next
  case (Cons x s)
  show ?case
  proof (cases "p AND (4 - 1) \<noteq> 0")
    case True
    then have "strchr_align m c p = (if x = c then Some (Inl p) else strchr_align m c (p + 1))"
      using Cons.prems by (subst strchr_align.simps) auto
    with Cons.IH [of "p + 1"] Cons.prems show ?thesis by auto
  next
    case False
    then have "strchr_align m c p = Some (Inr p)" by (subst strchr_align.simps) auto
    then show ?thesis using Cons.prems by metis
  qed
qed

lemma strchr_words_str:
  "cstr m p s \<Longrightarrow> strchr_words m c (repeat_byte c) p = Some (find_char p c s)"
proof (induction s arbitrary: p rule: by_words.induct)
  case (1 x0 x1 x2 x3 s)
  then show ?case using hole_found(2) [of 0 m p c] hole_found(2) [of 1 m p c] hole_found(2) [of 2 m p c] hole_found(2) [of 3 m p c]
    by (subst strchr_words.simps) (auto simp add: Let_def add.assoc)
next
  case (2 x0 x1 x2)
  then show ?case using hole_found(1) [of 3 m p] by (subst strchr_words.simps) (auto simp add: Let_def add.assoc)
next
  case (3 a b)
  then show ?case using hole_found(1) [of 2 m p] by (subst strchr_words.simps) (auto simp add: Let_def add.assoc)
next
  case (4 a)
  then show ?case using hole_found(1) [of 1 m p] by (subst strchr_words.simps) (auto simp add: Let_def add.assoc)
next
  case 5
  then show ?case using hole_found(1) [of 0 m p] by (subst strchr_words.simps) (auto simp add: Let_def)
qed

lemma strchr_str: "cstr m p s \<Longrightarrow> core_rtl_strchr m p c = Some (find_char p c s)"
  using strchr_align_str [of m p s c]
  by (auto simp: core_rtl_strchr_def strchr_words_str)

subsection \<open>strncmp, strcmp\<close>

text \<open>The first difference of two strings, the end counting as 0.\<close>

fun str_diff :: "u8 list \<Rightarrow> u8 list \<Rightarrow> int" where
  "str_diff [] [] = 0"
| "str_diff [] (b # t) = - uint b"
| "str_diff (a # s) [] = uint a"
| "str_diff (a # s) (b # t) = (if a = b then str_diff s t else uint a - uint b)"

lemma strncmp_loop_str:
  "cstr m p s \<Longrightarrow> cstr m q t \<Longrightarrow> strncmp_loop m p q n = str_diff (take n s) (take n t)"
proof (induction n arbitrary: p q s t)
  case 0
  then show ?case by (simp add: strncmp_loop.simps)
next
  case (Suc n)
  then show ?case
    by (cases s; cases t) (auto simp: strncmp_loop.simps [of m p q "Suc n"] Let_def word_uint_eq_iff)
qed

lemma strcmp_str: "cstr m p s \<Longrightarrow> cstr m q t \<Longrightarrow> core_rtl_strcmp m p q = str_diff s t"
  using cstr_length [of m p s] cstr_length [of m q t]
  by (simp add: core_rtl_strcmp_def core_rtl_strncmp_def strncmp_loop_str del: take_all_iff)
     

lemma str_diff_swap: "str_diff t s = - str_diff s t"
  by (induction s t rule: str_diff.induct) auto

abbreviation byte_less :: "(u8 \<times> u8) set" where
  "byte_less \<equiv> {(x, y). x < y}"

lemma str_diff_lexord:
  "0 \<notin> set s \<Longrightarrow> 0 \<notin> set t \<Longrightarrow> str_diff s t < 0 \<longleftrightarrow> (s, t) \<in> lexord byte_less"
  by (induction s t rule: str_diff.induct)
     (auto simp: word_less_def word_uint_eq_iff order_less_le)

lemma str_diff_0: "0 \<notin> set s \<Longrightarrow> 0 \<notin> set t \<Longrightarrow> str_diff s t = 0 \<longleftrightarrow> s = t"
  by (induction s t rule: str_diff.induct) (auto simp: word_uint_eq_iff)

lemma str_diff_trans:
  assumes "0 \<notin> set s" "0 \<notin> set t" "0 \<notin> set u" "str_diff s t < 0" "str_diff t u < 0"
  shows "str_diff s u < 0"
proof -
  have "trans byte_less" by (auto intro!: transI)
  from lexord_transI [OF this] show ?thesis
    using assms by (meson str_diff_lexord transD)
qed

lemma cstr_nonzero: "cstr m p s \<Longrightarrow> 0 \<notin> set s"
  by (auto simp: cstr_bytes in_set_conv_nth)

subsection \<open>strncpy\<close>

lemma cstr_upd: "cstr m p s \<Longrightarrow> (\<forall>i \<le> length s. a \<noteq> p + of_nat i) \<Longrightarrow> cstr (m(a := v)) p s"
  unfolding cstr_bytes by (metis fun_upd_other less_imp_le order_refl)

lemma unat_step: "w \<noteq> 0 \<Longrightarrow> unat (w :: u32) = Suc (unat (w - 1))"
  using unat_gt_0 [of w] by (simp add: unat_minus_one)

lemma unat_minus_one_u32: "unat (- 1 :: u32) = 2 ^ 32 - 1"
  using unat_minus_of_nat [of 1 0] by simp

lemma strncpy_str:
  assumes "n < 2 ^ 32" "cstr m p s" "\<And>i j. i < n \<Longrightarrow> j \<le> length s \<Longrightarrow> q + of_nat i \<noteq> p + of_nat j"
  shows "strncpy_loop m q p n = (\<lambda>a. if unat (a - q) < min n (Suc (length s))
     then (s @ [0]) ! unat (a - q) else m a)"
  using assms
proof (induction n arbitrary: m p q s)
  case 0
  then show ?case by (simp add: strncpy_loop.simps)
next
  case (Suc n)
  have far: "q \<noteq> p + of_nat j" if "j \<le> length s" for j using Suc.prems(3) [of 0 j] that by simp
  have here: "unat (a - q) = (if a = q then 0 else Suc (unat (a - (q + 1))))" for a
    using unat_step [of "a - q"] by (simp add: algebra_simps)
  have wrap: "\<not> unat (q - (q + 1)) < n" using Suc.prems(1) by (simp add: unat_minus_one_u32)
  show ?case
  proof (cases s)
    case Nil
    then have "strncpy_loop m q p (Suc n) = m(q := 0)"
      using Suc.prems(2) by (simp add: strncpy_loop.simps [of m q p] Let_def)
    then show ?thesis by (auto simp: fun_eq_iff Nil here)
  next
    case (Cons x t)
    let ?m = "m(q := x)"
    have t: "cstr ?m (p + 1) t"
      using Suc.prems(2) far [of "Suc j" for j] by (intro cstr_upd) (auto simp: Cons add.assoc)
    have "strncpy_loop m q p (Suc n) = strncpy_loop ?m (q + 1) (p + 1) n"
      using Suc.prems(2) far [of 0] by (simp add: strncpy_loop.simps [of m q p] Let_def Cons)
    also have "\<dots> = (\<lambda>a. if unat (a - (q + 1)) < min n (Suc (length t))
     then (t @ [0]) ! unat (a - (q + 1)) else ?m a)"
      using Suc.prems(1) Suc.prems(3) [of "Suc i" "Suc j" for i j]
      by (intro Suc.IH t) (auto simp: Cons add.assoc)
    finally show ?thesis using wrap by (auto simp: fun_eq_iff Cons here)
  qed
qed

subsection \<open>strcspn, strpbrk, strspn\<close>

definition str_room :: "ptr \<Rightarrow> u8 list \<Rightarrow> bool" where
  "str_room p s \<longleftrightarrow> p \<noteq> NULL \<and> unat p + length s < 2 ^ 32"

lemma str_room_Cons: "str_room p (c # s) \<Longrightarrow> str_room (p + 1) s"
  by (auto simp: str_room_def unat_word_ariths word_unat_eq_iff)

lemma find_char_NULL: "str_room p s \<Longrightarrow> find_char p c s = NULL \<longleftrightarrow> c \<noteq> 0 \<and> c \<notin> set s"
proof (induction s arbitrary: p)
  case (Cons x s)
  then show ?case using str_room_Cons [of p x s] by (auto simp: str_room_def)
qed (auto simp: str_room_def)

lemma strcspn_str:
  "cstr m p s \<Longrightarrow> cstr m r t \<Longrightarrow> str_room r t \<Longrightarrow>
   strcspn_loop m p r k = Some (k + of_nat (length (takeWhile (\<lambda>c. c \<notin> set t) s)))"
  by (induction s arbitrary: p k)
     (simp_all add: strcspn_loop.simps [of m p r] strcspn_loop.simps [of m _ r] strchr_str find_char_NULL add.assoc)

lemma strpbrk_accept_str: "cstr m r t \<Longrightarrow> strpbrk_accept m c r = Some (c \<in> set t)"
  by (induction t arbitrary: r) (auto simp: strpbrk_accept.simps)

lemma strpbrk_str:
  "cstr m p s \<Longrightarrow> cstr m r t \<Longrightarrow>
   core_rtl_strpbrk m p r = Some (if \<exists>c \<in> set s. c \<in> set t
     then p + of_nat (length (takeWhile (\<lambda>c. c \<notin> set t) s)) else NULL)"
  by (induction s arbitrary: p)
     (simp_all add: core_rtl_strpbrk.simps strpbrk_accept_str add.assoc)

lemma strspn_str:
  "cstr m p s \<Longrightarrow> cstr m r t \<Longrightarrow>
   strspn_loop m p r k = Some (k + of_nat (length (takeWhile (\<lambda>(x, y). x = y) (zip s t))))"
proof (induction s arbitrary: p r t k)
  case (Cons x s)
  then show ?case by (cases t) (auto simp: strspn_loop.simps [of m p r] add.assoc)
qed (simp add: strspn_loop.simps)

lemma strrchr_none: "cstr m p s \<Longrightarrow> c \<notin> set s \<Longrightarrow> strrchr_loop m c p f = Some f"
proof (induction s arbitrary: p)
  case (Cons x s)
  then show ?case by (subst strrchr_loop.simps) auto
qed (simp add: strrchr_loop.simps)

lemma strrchr_last:
  "cstr m p (a @ c # b) \<Longrightarrow> c \<notin> set b \<Longrightarrow> strrchr_loop m c p f = Some (p + of_nat (length a))"
proof (induction a arbitrary: p f)
  case Nil
  then show ?case using strrchr_none [of m "p + 1" b c] by (subst strrchr_loop.simps) simp
next
  case (Cons x a)
  then show ?case by (subst strrchr_loop.simps) (simp add: add.assoc)
qed

lemma find_char_end: "0 \<notin> set s \<Longrightarrow> find_char p 0 s = p + of_nat (length s)"
  by (induction s arbitrary: p) (auto simp: add.assoc)

lemma strstr_match_str:
  "cstr m p s \<Longrightarrow> cstr m r t \<Longrightarrow> strstr_match m p r = Some (take (length t) s = t)"
proof (induction t arbitrary: p r s)
  case (Cons y t)
  then show ?case by (cases s) (auto simp: strstr_match.simps)
qed (simp add: strstr_match.simps)

fun find_str :: "ptr \<Rightarrow> u8 list \<Rightarrow> u8 list \<Rightarrow> ptr" where
  "find_str p t [] = NULL"
| "find_str p t (x # s) = (if take (length t) (x # s) = t then p else find_str (p + 1) t s)"

lemma strstr_str:
  "cstr m p s \<Longrightarrow> cstr m r t \<Longrightarrow> t \<noteq> [] \<Longrightarrow> core_rtl_strstr m p r = Some (find_str p t s)"
proof (induction s arbitrary: p)
  case (Cons x s)
  then show ?case using strstr_match_str [of m p "x # s" r t]
    by (cases t) (auto simp: core_rtl_strstr.simps)
qed (simp add: core_rtl_strstr.simps)

subsection \<open>First positions\<close>

abbreviation at_index :: "ptr \<Rightarrow> nat option \<Rightarrow> ptr" where
  "at_index p r \<equiv> (case r of Some i \<Rightarrow> p + of_nat i | None \<Rightarrow> NULL)"

lemma find_char_index:
  "find_char p c s = at_index p (List.find (\<lambda>i. (s @ [0]) ! i = c) [0..<Suc (length s)])"
proof (induction s arbitrary: p)
  case (Cons x s)
  then show ?case by (simp add: find_upt_Suc [of _ "Suc (length s)"] o_def add.assoc del: upt_Suc split: option.split)
qed simp

lemma find_str_index:
  "find_str p t s = at_index p (List.find (\<lambda>i. take (length t) (drop i s) = t) [0..<length s])"
proof (induction s arbitrary: p)
  case (Cons x s)
  then show ?case by (simp add: find_upt_Suc [of _ "length s"] o_def add.assoc del: upt_Suc split: option.split)
qed simp

subsection \<open>strncat\<close>

lemma cstr_from:
  assumes "\<And>i. i \<le> length s \<Longrightarrow> m (p + of_nat i) = (s @ [0]) ! i" "0 \<notin> set s"
  shows "cstr m p s"
  using assms(1) [OF less_imp_le] assms(1) [of "length s"] assms(2)
  by (auto simp: cstr_bytes nth_append) (metis nth_mem)

lemma cstr_at: "cstr m p s \<Longrightarrow> i \<le> length s \<Longrightarrow> m (p + of_nat i) = (s @ [0]) ! i"
  by (auto simp: cstr_bytes nth_append)

lemma strncat_str:
  assumes d: "cstr m dest s" and t: "cstr m src t"
    and room: "unat dest + length s + min (unat len) (length t) < 2 ^ 32"
    and sep: "\<And>i j. i \<le> length s + min (unat len) (length t) \<Longrightarrow> j \<le> length t \<Longrightarrow>
      dest + of_nat i \<noteq> src + of_nat j"
  shows "\<exists>m'. core_rtl_strncat m dest src len = Some m' \<and> cstr m' dest (s @ take (unat len) t)"
proof -
  define n where "n = min (unat len) (length t)"
  define p where "p = dest + of_nat (length s)"
  have lt: "length t < 2 ^ 32" using t by (rule cstr_length)
  have n: "n < 2 ^ 32" using lt by (simp add: n_def)
  have cp: "(if len < of_nat (length t) then len else of_nat (length t)) = (of_nat n :: u32)"
    using lt by (auto simp: n_def min_def word_less_nat_alt unat_of_nat_less)
  let ?m = "m(p + of_nat n := 0)"
  have fwd: "fwd_safe p src n"
  proof (rule ccontr)
    assume "\<not> fwd_safe p src n"
    then have "unat (p - src) < n" by (simp add: fwd_safe_def)
    then have "dest + of_nat (length s) \<noteq> src + of_nat (unat (p - src))"
      by (intro sep) (simp_all add: n_def)
    then show False by (simp add: p_def)
  qed
  have cat: "core_rtl_strncat m dest src len = Some (copy_bytes n ?m p src)"
    using memcpy_copies [of p src "of_nat n" ?m] fwd n
    by (simp add: core_rtl_strncat_def strlen_str [OF d] strlen_str [OF t] Let_def cp unat_of_nat_less flip: p_def)
  have "copy_bytes n ?m p src (dest + of_nat i) = ((s @ take n t) @ [0]) ! i" if i: "i \<le> length s + n" for i
  proof -
    have off: "dest + of_nat i - p = of_nat i - of_nat (length s)" by (simp add: p_def)
    have i32: "i < 2 ^ 32" "length s < 2 ^ 32" using i room by (simp_all add: n_def)
    have un: "unat (dest + of_nat i - p) = (if length s \<le> i then i - length s else i + 2 ^ 32 - length s)"
      unfolding off using i32 by (simp add: unat_minus_of_nat unat_of_nat_less)
    consider "i < length s" | "length s \<le> i" "i < length s + n" | "i = length s + n" using i by linarith
    then show ?thesis
    proof cases
      case 1
      then have "\<not> unat (dest + of_nat i - p) < n" using un room unfolding n_def [symmetric] by simp
      moreover have "dest + of_nat i \<noteq> p + of_nat n"
      proof
        assume "dest + of_nat i = p + of_nat n"
        then have "unat (dest + of_nat i - p) = n" using n by (simp add: unat_of_nat_less)
        then show False using un 1 room unfolding n_def [symmetric] by simp
      qed
      ultimately show ?thesis using 1 cstr_at [OF d, of i] by (simp add: copy_bytes_def nth_append)
    next
      case 2
      have e: "src + (dest + of_nat i - p) = src + of_nat (i - length s)" using 2 by (simp add: off)
      have "p + of_nat n \<noteq> src + of_nat (i - length s)"
        using sep [of "length s + n" "i - length s"] 2 by (simp add: p_def n_def add.assoc)
      then show ?thesis using 2 un cstr_at [OF t, of "i - length s"]
        by (auto simp add: copy_bytes_def e nth_append n_def)
    next
      case 3
      moreover have "length (take n t) = n" by (simp add: n_def)
      ultimately show ?thesis using un by (simp add: copy_bytes_def p_def add.assoc nth_append)
    qed
  qed
  moreover have "take (unat len) t = take n t" by (simp add: n_def min_def)
  moreover have "length (take n t) = n" by (simp add: n_def)
  moreover have "0 \<notin> set (s @ take n t)"
    using cstr_nonzero [OF d] cstr_nonzero [OF t] in_set_takeD [of 0 n t] by auto
  ultimately show ?thesis unfolding cat by (auto intro: cstr_from)
qed

subsection \<open>Properties\<close>

text \<open>
  \<^verbatim>\<open>core_rtl_strlen\<close>, with its byte prologue and word loop, returns the number of bytes before
  the terminator.
\<close>

theorem core_rtl_strlen_counts:
  assumes "cstr m str s"
  shows "core_rtl_strlen m str = Some (of_nat (length s))"
  using assms by (rule strlen_str)

theorem core_rtl_strlen_counts_witness:
  "core_rtl_strlen ((\<lambda>_. 0)(7 := 65, 8 := 66, 9 := 67, 10 := 1, 11 := 255, 12 := 128)) 7 = Some 6"
  using core_rtl_strlen_counts [of "(\<lambda>_. 0)(7 := 65, 8 := 66, 9 := 67, 10 := 1, 11 := 255, 12 := 128)" 7
    "[65, 66, 67, 1, 255, 128]"] by simp

text \<open>
  \<^verbatim>\<open>core_rtl_strchr\<close> returns the address of the first occurrence of the character, the
  terminator included, and \<^verbatim>\<open>NULL\<close> when there is none.
\<close>

theorem core_rtl_strchr_first:
  assumes "cstr m str s"
  shows "core_rtl_strchr m str c =
    Some (case List.find (\<lambda>i. (s @ [0]) ! i = c) [0..<Suc (length s)] of
            Some i \<Rightarrow> str + of_nat i | None \<Rightarrow> NULL)"
  using strchr_str [OF assms] by (simp only: find_char_index)

theorem core_rtl_strchr_first_witness:
  "core_rtl_strchr ((\<lambda>_. 0)(7 := 65, 8 := 66, 9 := 67, 10 := 66)) 7 66 = Some 8"
  using core_rtl_strchr_first [of "(\<lambda>_. 0)(7 := 65, 8 := 66, 9 := 67, 10 := 66)" 7 "[65, 66, 67, 66]" 66]
  by simp

text \<open>
  \<^verbatim>\<open>core_rtl_strcmp\<close> is the lexicographic order on unsigned bytes: negative, zero and
  positive for smaller, equal and greater.
\<close>

theorem core_rtl_strcmp_order:
  assumes "cstr m s1 s" and "cstr m s2 t"
  shows "(core_rtl_strcmp m s1 s2 < 0 \<longleftrightarrow> (s, t) \<in> lexord {(x, y). x < y}) \<and>
    (core_rtl_strcmp m s1 s2 = 0 \<longleftrightarrow> s = t) \<and>
    (core_rtl_strcmp m s1 s2 > 0 \<longleftrightarrow> (t, s) \<in> lexord {(x, y). x < y})"
  using str_diff_lexord [of s t] str_diff_lexord [of t s] str_diff_0 [of s t] str_diff_swap [of t s]
    cstr_nonzero [OF assms(1)] cstr_nonzero [OF assms(2)]
  by (simp add: strcmp_str [OF assms])

theorem core_rtl_strcmp_order_witness:
  "core_rtl_strcmp ((\<lambda>_. 0)(7 := 65, 8 := 66, 20 := 65, 21 := 200)) 7 20 < 0"
  using core_rtl_strcmp_order [of "(\<lambda>_. 0)(7 := 65, 8 := 66, 20 := 65, 21 := 200)" 7 "[65, 66]" 20 "[65, 200]"]
  by simp

text \<open>
  \<^verbatim>\<open>core_rtl_strncpy\<close> copies at most \<open>len\<close> bytes of the string and its terminator and writes
  nothing else; so a source of \<open>len\<close> or more characters is cut without a terminator.
\<close>

theorem core_rtl_strncpy_bytes:
  assumes "cstr m src s"
    and "\<forall>i < unat len. \<forall>j \<le> length s. dest + of_nat i \<noteq> src + of_nat j"
  shows "core_rtl_strncpy m dest src len =
    (\<lambda>a. if unat (a - dest) < min (unat len) (Suc (length s)) then (s @ [0]) ! unat (a - dest) else m a)"
  unfolding core_rtl_strncpy_def using assms unat_lt_32 [of len] by (intro strncpy_str) auto

theorem core_rtl_strncpy_bytes_witness:
  "core_rtl_strncpy ((\<lambda>_. 9)(7 := 65, 8 := 66, 9 := 67, 10 := 0)) 20 7 2 22 = 9"
  using core_rtl_strncpy_bytes [of "(\<lambda>_. 9)(7 := 65, 8 := 66, 9 := 67, 10 := 0)" 7 "[65, 66, 67]" 2 20]
  by (simp add: all_bounded)

text \<open>
  \<^verbatim>\<open>core_rtl_strcspn\<close> returns the length of the longest prefix without a character of
  \<open>chars\<close>, and \<^verbatim>\<open>core_rtl_strpbrk\<close> the address of the first character of \<open>chars\<close>, or
  \<^verbatim>\<open>NULL\<close>.
\<close>

theorem core_rtl_strcspn_strpbrk:
  assumes "cstr m str s" and "cstr m chars t" and "chars \<noteq> NULL" and "unat chars + length t < 2 ^ 32"
  shows "core_rtl_strcspn m str chars = Some (of_nat (length (takeWhile (\<lambda>c. c \<notin> set t) s))) \<and>
    core_rtl_strpbrk m str chars = Some (if \<exists>c \<in> set s. c \<in> set t
      then str + of_nat (length (takeWhile (\<lambda>c. c \<notin> set t) s)) else NULL)"
  using strcspn_str [OF assms(1,2), of 0] strpbrk_str [OF assms(1,2)] assms(3,4)
  by (simp add: str_room_def core_rtl_strcspn_def)

theorem core_rtl_strcspn_strpbrk_witness:
  "core_rtl_strcspn ((\<lambda>_. 0)(7 := 65, 8 := 66, 20 := 68, 21 := 66)) 7 20 = Some 1"
  using core_rtl_strcspn_strpbrk [of "(\<lambda>_. 0)(7 := 65, 8 := 66, 20 := 68, 21 := 66)" 7 "[65, 66]" 20 "[68, 66]"]
  by simp

text \<open>
  \<^verbatim>\<open>core_rtl_strspn\<close> compares the two strings position by position: it returns the length of
  their common prefix, not of the longest prefix over the characters of \<open>accept\<close>.
\<close>

theorem core_rtl_strspn_common_prefix:
  assumes "cstr m str s" and "cstr m accept t"
  shows "core_rtl_strspn m str accept = Some (of_nat (length (takeWhile (\<lambda>(x, y). x = y) (zip s t))))"
  using strspn_str [OF assms, of 0] by (simp add: core_rtl_strspn_def)

theorem core_rtl_strspn_common_prefix_witness:
  "core_rtl_strspn ((\<lambda>_. 0)(7 := 65, 8 := 66, 20 := 66, 21 := 65)) 7 20 = Some 0"
  using core_rtl_strspn_common_prefix [of "(\<lambda>_. 0)(7 := 65, 8 := 66, 20 := 66, 21 := 65)" 7 "[65, 66]" 20 "[66, 65]"]
  by simp

text \<open>
  \<^verbatim>\<open>core_rtl_strrchr\<close> returns the address of the last occurrence of a character, the
  address of the terminator for 0, and \<^verbatim>\<open>NULL\<close> for a character that does not occur.
\<close>

theorem core_rtl_strrchr_last:
  assumes "cstr m str s"
  shows "core_rtl_strrchr m str 0 = Some (str + of_nat (length s)) \<and>
    (c \<noteq> 0 \<and> c \<notin> set s \<longrightarrow> core_rtl_strrchr m str c = Some NULL) \<and>
    (s = a @ c # b \<and> c \<notin> set b \<longrightarrow> core_rtl_strrchr m str c = Some (str + of_nat (length a)))"
proof (intro conjI impI)
  show "core_rtl_strrchr m str 0 = Some (str + of_nat (length s))"
    using strchr_str [OF assms, of 0] find_char_end [OF cstr_nonzero [OF assms]] by (simp add: core_rtl_strrchr_def)
  show "core_rtl_strrchr m str c = Some NULL" if "c \<noteq> 0 \<and> c \<notin> set s"
    using strrchr_none [OF assms] that by (simp add: core_rtl_strrchr_def)
  show "core_rtl_strrchr m str c = Some (str + of_nat (length a))" if s: "s = a @ c # b \<and> c \<notin> set b"
    using strrchr_last [of m str a c b] assms s cstr_nonzero [OF assms]
    by (auto simp add: core_rtl_strrchr_def)
qed

theorem core_rtl_strrchr_last_witness:
  "core_rtl_strrchr ((\<lambda>_. 0)(7 := 65, 8 := 66, 9 := 65, 10 := 67)) 7 65 = Some 9"
  using core_rtl_strrchr_last [of "(\<lambda>_. 0)(7 := 65, 8 := 66, 9 := 65, 10 := 67)" 7 "[65, 66, 65, 67]" 65 "[65, 66]" "[67]"]
  by simp

text \<open>
  \<^verbatim>\<open>core_rtl_strncat\<close> leaves at \<open>dest\<close> its string followed by the first \<open>len\<close>
  characters of \<open>src\<close>, terminated, when the room written does not meet the source.
\<close>

theorem core_rtl_strncat_appends:
  assumes "cstr m dest s" and "cstr m src t"
    and "unat dest + length s + min (unat len) (length t) < 2 ^ 32"
    and "\<forall>i \<le> length s + min (unat len) (length t). \<forall>j \<le> length t. dest + of_nat i \<noteq> src + of_nat j"
  shows "\<exists>m'. core_rtl_strncat m dest src len = Some m' \<and> cstr m' dest (s @ take (unat len) t)"
  using assms by (intro strncat_str) auto

theorem core_rtl_strncat_appends_witness:
  "\<exists>m'. core_rtl_strncat ((\<lambda>_. 0)(7 := 65, 8 := 66, 20 := 67, 21 := 68)) 7 20 1 = Some m' \<and> cstr m' 7 [65, 66, 67]"
  using core_rtl_strncat_appends [of "(\<lambda>_. 0)(7 := 65, 8 := 66, 20 := 67, 21 := 68)" 7 "[65, 66]" 20 "[67, 68]" 1]
  by (simp add: all_bounded)

text \<open>
  \<^verbatim>\<open>core_rtl_strstr\<close> returns the address of the first occurrence of a non-empty string, or
  \<^verbatim>\<open>NULL\<close> when there is none.
\<close>

theorem core_rtl_strstr_first:
  assumes "cstr m str1 s" and "cstr m str2 t" and "t \<noteq> []"
  shows "core_rtl_strstr m str1 str2 =
    Some (case List.find (\<lambda>i. take (length t) (drop i s) = t) [0..<length s] of
            Some i \<Rightarrow> str1 + of_nat i | None \<Rightarrow> NULL)"
  using strstr_str [OF assms] by (simp only: find_str_index)

theorem core_rtl_strstr_first_witness:
  "core_rtl_strstr ((\<lambda>_. 0)(7 := 65, 8 := 65, 9 := 66, 20 := 65, 21 := 66)) 7 20 = Some 8"
  using core_rtl_strstr_first [of "(\<lambda>_. 0)(7 := 65, 8 := 65, 9 := 66, 20 := 65, 21 := 66)" 7 "[65, 65, 66]" 20 "[65, 66]"]
  by simp

end
