(* ===== verification/RtlConv.thy ===== *)
theory RtlConv
  imports RtlStrProofs
begin

text \<open>
  The number conversions of \<^verbatim>\<open>kernel/core/rtl/string/string.c\<close>: \<^verbatim>\<open>core_rtl_itoa\<close>,
  \<^verbatim>\<open>core_rtl_htoa\<close>, \<^verbatim>\<open>core_rtl_otoa\<close> (digits written backwards into the buffer, then reversed in
  place, over the 64-bit division of \<open>HalMath\<close>) and \<^verbatim>\<open>core_rtl_atoi\<close>. The lemmas relate them to
  digit lists; the properties say what text is written and that reading it back gives the number.
\<close>


lemma unat_succ_less: "unat (p :: u32) < unat (q :: u32) \<Longrightarrow> unat (p + 1) = Suc (unat p)"
  using unat_lt_32 [of q] by (simp add: unat_word_ariths)

lemma unat_pred: "unat (p :: u32) < unat (q :: u32) \<Longrightarrow> unat (q - 1) = unat q - 1"
  by (cases "q = 0") (simp_all add: unat_step [of q])

subsection \<open>core\_rtl\_itoa, core\_rtl\_htoa, core\_rtl\_otoa\<close>

text \<open>The digit loops write the least significant digit first; the result is the memory and \<open>p\<close>.\<close>

function itoa_loop :: "mem \<Rightarrow> u64 \<Rightarrow> ptr \<Rightarrow> mem \<times> ptr" where
  "itoa_loop m n p =
     (if n \<noteq> 0
      then itoa_loop (m(p := ucast (hal_rtl_math_mod64 n 10 + 0x30))) (hal_rtl_math_div64 n 10) (p + 1)
      else (m, p))"
  by pat_completeness auto
termination
  by (relation "measure (\<lambda>(m, n, p). unat n)") (auto simp: unat_div unat_gt_0)

definition htoa_char :: "bool \<Rightarrow> u8 \<Rightarrow> u8" where
  "htoa_char capital_flag t =
     (if t < 0x0A then t + 0x30
      else if capital_flag then t - 0x0A + 0x41
      else t - 0x0A + 0x61)"

function htoa_loop :: "mem \<Rightarrow> u64 \<Rightarrow> bool \<Rightarrow> ptr \<Rightarrow> mem \<times> ptr" where
  "htoa_loop m n capital_flag p =
     (if n \<noteq> 0
      then htoa_loop (m(p := htoa_char capital_flag (ucast (n mod 0x10)))) (n div 0x10) capital_flag (p + 1)
      else (m, p))"
  by pat_completeness auto
termination
  by (relation "measure (\<lambda>(m, n, f, p). unat n)") (auto simp: unat_div unat_gt_0)

function otoa_loop :: "mem \<Rightarrow> u64 \<Rightarrow> ptr \<Rightarrow> mem \<times> ptr" where
  "otoa_loop m n p =
     (if n \<noteq> 0 then otoa_loop (m(p := ucast (n mod 8 + 0x30))) (n div 8) (p + 1) else (m, p))"
  by pat_completeness auto
termination
  by (relation "measure (\<lambda>(m, n, p). unat n)") (auto simp: unat_div unat_gt_0)

function reverse_loop :: "mem \<Rightarrow> ptr \<Rightarrow> ptr \<Rightarrow> mem" where
  "reverse_loop m p1 p2 =
     (if p1 < p2
      then let t = m p1; m = m(p1 := m p2); m = m(p2 := t) in reverse_loop m (p1 + 1) (p2 - 1)
      else m)"
  by pat_completeness auto
termination
proof (relation "measure (\<lambda>(m, p1, p2). unat p2 - unat p1)")
qed (auto simp: word_less_nat_alt unat_succ_less unat_pred)

declare itoa_loop.simps [simp del] htoa_loop.simps [simp del] otoa_loop.simps [simp del]
  reverse_loop.simps [simp del]

definition core_rtl_itoa :: "mem \<Rightarrow> ptr \<Rightarrow> u64 \<Rightarrow> mem" where
  "core_rtl_itoa m buf num =
     (if num = 0 then m(buf := 0x30, buf + 1 := 0)
      else let (m, p) = itoa_loop m num buf; m = reverse_loop m buf (p - 1) in m(p := 0))"

definition core_rtl_htoa :: "mem \<Rightarrow> ptr \<Rightarrow> u64 \<Rightarrow> bool \<Rightarrow> mem" where
  "core_rtl_htoa m buf num capital_flag =
     (if num = 0 then m(buf := 0x30, buf + 1 := 0)
      else let (m, p) = htoa_loop m num capital_flag buf; m = reverse_loop m buf (p - 1)
           in m(p := 0))"

definition core_rtl_otoa :: "mem \<Rightarrow> ptr \<Rightarrow> u64 \<Rightarrow> mem" where
  "core_rtl_otoa m buf num =
     (if num = 0 then m(buf := 0x30, buf + 1 := 0)
      else let (m, p) = otoa_loop m num buf; m = reverse_loop m buf (p - 1) in m(p := 0))"

subsection \<open>core\_rtl\_atoi\<close>

text \<open>
  The value of a character, or \<open>None\<close> where the loop returns. \<open>num_sys\<close> is the C \<^verbatim>\<open>int\<close>; the
  comparisons are in \<^verbatim>\<open>int\<close>, the accumulation in \<^verbatim>\<open>u32\<close>. 
\<close>

definition atoi_char :: "int \<Rightarrow> u8 \<Rightarrow> u32 option" where
  "atoi_char num_sys c =
     (if 0x30 \<le> sint c \<and> sint c \<le> 0x39 \<and> sint c \<le> 0x30 + num_sys then Some (scast c - 0x30)
      else if 16 \<le> num_sys
      then if 0x61 \<le> sint c \<and> sint c \<le> 0x61 + num_sys - 0x0A then Some (scast c - 0x61 + 0x0A)
           else if 0x41 \<le> sint c \<and> sint c \<le> 0x41 + num_sys - 0x0A then Some (scast c - 0x41 + 0x0A)
           else None
      else None)"

function atoi_loop :: "mem \<Rightarrow> int \<Rightarrow> ptr \<Rightarrow> ptr \<Rightarrow> u32 \<Rightarrow> u32" where
  "atoi_loop m num_sys p end_ptr ret =
     (if p < end_ptr
      then case atoi_char num_sys (m p) of
             Some num \<Rightarrow> atoi_loop m num_sys (p + 1) end_ptr (ret * of_int num_sys + num)
           | None \<Rightarrow> ret
      else ret)"
  by pat_completeness auto
termination
proof (relation "measure (\<lambda>(m, num_sys, p, e, ret). unat e - unat p)")
qed (auto simp: word_less_nat_alt unat_succ_less)

declare atoi_loop.simps [simp del]

definition core_rtl_atoi :: "mem \<Rightarrow> ptr \<Rightarrow> int \<Rightarrow> u32 option" where
  "core_rtl_atoi m str num_sys =
     Option.bind (core_rtl_strlen m str) (\<lambda>len.
       if 36 < num_sys then Some 0 else Some (atoi_loop m num_sys str (str + len) 0))"


subsection \<open>The digit loops\<close>

function digits :: "nat \<Rightarrow> nat \<Rightarrow> nat list" where
  "digits b n = (if n = 0 \<or> b < 2 then [] else n mod b # digits b (n div b))"
  by pat_completeness auto
termination by (relation "measure snd") auto

declare digits.simps [simp del]

fun put_bytes :: "mem \<Rightarrow> ptr \<Rightarrow> u8 list \<Rightarrow> mem" where
  "put_bytes m p [] = m"
| "put_bytes m p (x # xs) = put_bytes (m(p := x)) (p + 1) xs"

definition digit_char :: "bool \<Rightarrow> nat \<Rightarrow> u8" where
  "digit_char capital d = of_nat (if d < 10 then 48 + d else if capital then 55 + d else 87 + d)"

lemma less_16_cases: "d < 16 \<Longrightarrow> d \<in> {0,1,2,3,4,5,6,7,8,9,10,11,12,13,14,15::nat}"
  by (auto simp add: numeral_eq_Suc less_Suc_eq)

lemma mod_word_nat: "n mod b = (of_nat (unat n mod unat b) :: u64)"
  by (simp flip: unat_mod)

lemma digit_of_word:
  "k < 16 \<Longrightarrow> htoa_char c (ucast (of_nat k :: u64)) = digit_char c k"
  "k < 10 \<Longrightarrow> ucast (of_nat k + 48 :: u64) = digit_char c k"
  using less_16_cases [of k] by (auto simp: htoa_char_def digit_char_def)

lemma itoa_loop_digits:
  "itoa_loop m n p = (let ds = digits 10 (unat n)
     in (put_bytes m p (map (digit_char c) ds), p + of_nat (length ds)))"
proof (induction m n p rule: itoa_loop.induct)
  case (1 m n p)
  have "(ucast (n mod 10 + 0x30) :: u8) = digit_char c (unat n mod 10)"
    using digit_of_word(2) [of "unat n mod 10" c] by (simp add: mod_word_nat [of n])
  then show ?case using 1 unfolding itoa_loop.simps [of m n p] digits.simps [of 10 "unat n"]
    by (auto simp: Let_def unat_div unat_eq_zero add.assoc fun_upd_def)
qed

lemma otoa_loop_digits:
  "otoa_loop m n p = (let ds = digits 8 (unat n)
     in (put_bytes m p (map (digit_char c) ds), p + of_nat (length ds)))"
proof (induction m n p rule: otoa_loop.induct)
  case (1 m n p)
  have "(ucast (n mod 8 + 0x30) :: u8) = digit_char c (unat n mod 8)"
    using digit_of_word(2) [of "unat n mod 8" c] by (simp add: mod_word_nat [of n])
  then show ?case using 1 unfolding otoa_loop.simps [of m n p] digits.simps [of 8 "unat n"]
    by (auto simp: Let_def unat_div unat_eq_zero add.assoc fun_upd_def)
qed

lemma htoa_loop_digits:
  "htoa_loop m n c p = (let ds = digits 16 (unat n)
     in (put_bytes m p (map (digit_char c) ds), p + of_nat (length ds)))"
proof (induction m n c p rule: htoa_loop.induct)
  case (1 m n c p)
  have "htoa_char c (ucast (n mod 0x10)) = digit_char c (unat n mod 16)"
    using digit_of_word(1) [of "unat n mod 16" c] by (simp add: mod_word_nat [of n])
  then show ?case using 1 unfolding htoa_loop.simps [of m n c p] digits.simps [of 16 "unat n"]
    by (auto simp: Let_def unat_div unat_eq_zero add.assoc fun_upd_def)
qed

lemma put_bytes_at:
  "length xs \<le> 2 ^ 32 \<Longrightarrow> put_bytes m p xs = (\<lambda>a. if unat (a - p) < length xs then xs ! unat (a - p) else m a)"
proof (induction xs arbitrary: m p)
  case (Cons x xs)
  have here: "unat (a - p) = (if a = p then 0 else Suc (unat (a - (p + 1))))" for a
    using unat_step [of "a - p"] by (simp add: algebra_simps)
  have "\<not> unat (p - (p + 1)) < length xs" using Cons.prems by (simp add: unat_minus_one_u32)
  then show ?case using Cons by (auto simp: fun_eq_iff here)
qed simp

lemma reverse_loop_rev:
  "unat p + n \<le> 2 ^ 32 \<Longrightarrow> n \<noteq> 0 \<or> p \<noteq> 0 \<Longrightarrow>
   reverse_loop m p (p + of_nat n - 1) =
     (\<lambda>a. if unat (a - p) < n then m (p + of_nat n - 1 - (a - p)) else m a)"
proof (induction n arbitrary: m p rule: less_induct)
  case (less n)
  consider "n = 0" | "n = 1" | k where "n = Suc (Suc k)" by (metis One_nat_def not0_implies_Suc)
  then show ?case
  proof cases
    case 1
    then have "\<not> p < p - 1" using less.prems(2) unat_step [of p] by (simp add: word_less_nat_alt)
    then show ?thesis using 1 by (subst reverse_loop.simps) simp
  next
    case 2
    then show ?thesis by (subst reverse_loop.simps) (auto simp: fun_eq_iff unat_eq_zero)
  next
    case 3
    let ?q = "p + of_nat n - 1" and ?m = "m(p := m (p + of_nat n - 1), p + of_nat n - 1 := m p)"
    have q: "unat ?q = unat p + n - 1"
    proof -
      have "?q = p + of_nat (n - 1)" using 3 by simp
      moreover have "unat (of_nat (n - 1) :: u32) = n - 1" using less.prems(1) 3 by (intro unat_of_nat_less) simp
      ultimately show ?thesis using less.prems(1) 3 by (simp only: unat_word_ariths) simp
    qed
    have p1: "unat (p + 1) = Suc (unat p)"
      using less.prems(1) 3 by (simp add: unat_word_ariths)
    have "p < ?q" using q 3 by (simp add: word_less_nat_alt)
    then have "reverse_loop m p ?q = reverse_loop ?m (p + 1) (p + 1 + of_nat k - 1)"
      by (subst reverse_loop.simps) (simp add: Let_def 3)
    also have "\<dots> = (\<lambda>a. if unat (a - (p + 1)) < k then ?m (p + 1 + of_nat k - 1 - (a - (p + 1))) else ?m a)"
      using p1 less.prems(1) 3 by (intro less.IH) (auto simp flip: unat_eq_zero)
    also have "\<dots> = (\<lambda>a. if unat (a - p) < n then m (?q - (a - p)) else m a)"
    proof
      fix a
      have d: "unat (a - (p + 1)) = (if a = p then 2 ^ 32 - 1 else unat (a - p) - 1)"
        using unat_step [of "a - p"] by (simp add: unat_minus_one_u32 algebra_simps)
      have "?q - p = of_nat (Suc k)" by (simp add: 3)
      then have dq: "unat (?q - p) = Suc k" using less.prems(1) 3 by (simp only: unat_of_nat_less)
      have aq: "a = ?q \<longleftrightarrow> unat (a - p) = Suc k" unfolding dq [symmetric] word_unat_eq_iff [symmetric] by (auto simp: algebra_simps)
      have ap: "a = p \<longleftrightarrow> unat (a - p) = 0" by (simp add: unat_eq_zero)
      have mid: "?q - (a - p) = ?q \<longleftrightarrow> a = p" "?q - (a - p) = p \<longleftrightarrow> a = ?q" by (auto simp: algebra_simps)
      have e: "p + 1 + of_nat k - 1 - (a - (p + 1)) = ?q - (a - p)" by (simp add: 3)
      show "(if unat (a - (p + 1)) < k then ?m (p + 1 + of_nat k - 1 - (a - (p + 1))) else ?m a) =
         (if unat (a - p) < n then m (?q - (a - p)) else m a)"
      proof (cases "a = p \<or> a = ?q")
        case True
        then show ?thesis using d ap aq less.prems(1) 3 mid by (auto simp: e ac_simps)
      next
        case False
        then have "unat (a - (p + 1)) < k \<longleftrightarrow> unat (a - p) < n" using d ap aq 3 by auto
        then show ?thesis using False mid unfolding e by simp
      qed
    qed
    finally show ?thesis .
  qed
qed

subsection \<open>Reading back\<close>

fun atoi_list :: "int \<Rightarrow> u8 list \<Rightarrow> u32 \<Rightarrow> u32" where
  "atoi_list ns [] r = r"
| "atoi_list ns (c # s) r =
     (case atoi_char ns c of Some v \<Rightarrow> atoi_list ns s (r * of_int ns + v) | None \<Rightarrow> r)"

lemma atoi_loop_list:
  "cstr m p s \<Longrightarrow> unat p + length s < 2 ^ 32 \<Longrightarrow>
   atoi_loop m ns p (p + of_nat (length s)) r = atoi_list ns s r"
proof (induction s arbitrary: p r)
  case Nil
  then show ?case by (simp add: atoi_loop.simps)
next
  case (Cons c s)
  have u: "unat (p + 1) = Suc (unat p)" using Cons.prems by (simp add: unat_word_ariths)
  have "p < p + of_nat (length (c # s))" using Cons.prems unat_of_nat_less [of "length (c # s)"] 
    by (simp add: word_less_nat_alt unat_word_ariths del: of_nat_Suc)
  then show ?case using Cons.IH [of "p + 1"] Cons.prems u
    by (subst atoi_loop.simps) (auto simp: add.assoc split: option.split)
qed

lemma atoi_str:
  assumes "cstr m p s" "unat p + length s < 2 ^ 32" "ns \<le> 36"
  shows "core_rtl_atoi m p ns = Some (atoi_list ns s 0)"
  using atoi_loop_list [OF assms(1,2)] assms(3) by (simp add: core_rtl_atoi_def strlen_str [OF assms(1)])

lemma atoi_list_append:
  "\<forall>c \<in> set s. atoi_char ns c \<noteq> None \<Longrightarrow> atoi_list ns (s @ t) r = atoi_list ns t (atoi_list ns s r)"
  by (induction s arbitrary: r) (auto split: option.split)

lemma atoi_digit_char:
  assumes "d < b" "b \<in> {8, 10, 16}"
  shows "atoi_char (int b) (digit_char c d) = Some (of_nat d)"
proof -
  have "d < 16" using assms by auto
  from less_16_cases [OF this] show ?thesis using assms
    apply (simp only: insert_iff empty_iff simp_thms)
    apply (elim disjE)
    apply (simp_all add: atoi_char_def digit_char_def)
    done
qed

lemma digits_less: "d \<in> set (digits b n) \<Longrightarrow> d < b"
  by (induction b n rule: digits.induct) (subst (asm) (2) digits.simps, auto split: if_splits)

lemma atoi_digits:
  assumes "b \<in> {8, 10, 16}"
  shows "atoi_list (int b) (map (digit_char c) (rev (digits b n))) 0 = of_nat n"
  using assms
proof (induction b n rule: digits.induct)
  case (1 b n)
  show ?case
  proof (cases "n = 0")
    case True then show ?thesis by (simp add: digits.simps)
  next
    case False
    then have b: "2 \<le> b" "digits b n = n mod b # digits b (n div b)" using 1 by (auto simp: digits.simps [of b n])
    have "of_nat (n div b) * of_nat b + of_nat (n mod b) = (of_nat n :: u32)" by (simp flip: of_nat_mult of_nat_add)
    then show ?thesis using 1 False b digits_less [of _ b] atoi_digit_char [of _ b c]
      by (subst b(2)) (simp add: atoi_list_append)
  qed
qed

lemma digits_length: "n < b ^ k \<Longrightarrow> length (digits b n) \<le> k"
proof (induction k arbitrary: n)
  case (Suc k)
  then have "n div b < b ^ k" by (simp add: less_mult_imp_div_less mult.commute)
  then show ?case using Suc.IH [of "n div b"] by (subst digits.simps) simp
qed (simp add: digits.simps)

definition digit_string :: "bool \<Rightarrow> nat \<Rightarrow> nat \<Rightarrow> u8 list" where
  "digit_string capital b n = (if n = 0 then [digit_char capital 0] else map (digit_char capital) (rev (digits b n)))"

lemma digit_string_length: "n < b ^ k \<Longrightarrow> 0 < k \<Longrightarrow> length (digit_string c b n) \<le> k"
  using digits_length [of n b k] by (simp add: digit_string_def)

lemma digit_char_nonzero: "d < 16 \<Longrightarrow> digit_char c d \<noteq> 0"
  using less_16_cases [of d] by (auto simp: digit_char_def)

lemma conv_finish:
  assumes "L = (put_bytes m buf (map (digit_char c) ds), buf + of_nat (length ds))"
    and "ds \<noteq> []" "unat buf + length ds < 2 ^ 32" "\<forall>d \<in> set ds. d < 16"
  shows "cstr (let (m', p) = L in (reverse_loop m' buf (p - 1))(p := 0)) buf (map (digit_char c) (rev ds))"
proof -
  obtain m' p where L: "L = (m', p)" by (cases L)
  define n where "n = length ds"
  define xs where "xs = map (digit_char c) ds"
  have n: "length xs = n" "n \<noteq> 0" "unat buf + n < 2 ^ 32" using assms by (simp_all add: xs_def n_def)
  have m': "m' = (\<lambda>a. if unat (a - buf) < n then xs ! unat (a - buf) else m a)"
    and p: "p = buf + of_nat n"
    using assms(1) L put_bytes_at [of xs m buf] n by (simp_all add: xs_def n_def)
  have r: "reverse_loop m' buf (p - 1) = (\<lambda>a. if unat (a - buf) < n then m' (p - 1 - (a - buf)) else m' a)"
    using reverse_loop_rev [of buf n m'] n unfolding p by simp
  have "reverse_loop m' buf (p - 1) (buf + of_nat i) = rev xs ! i" if i: "i < n" for i
  proof -
    have "p - 1 - of_nat i - buf = of_nat (n - Suc i)" using i by (simp add: p of_nat_diff)
    then have "unat (p - 1 - of_nat i - buf) = n - Suc i" using n by (simp add: unat_of_nat_less)
    then show ?thesis using i n unfolding r by (simp add: m' unat_of_nat_less rev_nth)
  qed
  moreover have "buf + of_nat i \<noteq> p" if "i < n" for i
    using that n unat_of_nat_less [of i] unat_of_nat_less [of n] by (auto simp: p)
  moreover have "rev xs ! i \<noteq> 0" if "i < n" for i
    using that n nth_mem [of i "rev xs"] assms(4) by (auto simp: xs_def digit_char_nonzero)
  moreover have "map (digit_char c) (rev ds) = rev xs" by (simp add: xs_def rev_map)
  ultimately show ?thesis using n unfolding L by (auto simp: cstr_bytes p)
qed

lemma digits_nonempty: "2 \<le> b \<Longrightarrow> n \<noteq> 0 \<Longrightarrow> digits b n \<noteq> []"
  by (subst digits.simps) simp

lemma conv_zero: "cstr (m(buf := 0x30, buf + 1 := 0)) buf (digit_string c b 0)"
  by (simp add: digit_string_def digit_char_def)

lemma unat_u64_less: "unat (n :: u64) < 2 ^ 64"
  using unsigned_less [of n, where ?'a = nat] by simp

lemma conv_string:
  assumes "L = (let ds = digits b (unat (num :: u64))
     in (put_bytes m buf (map (digit_char c) ds), buf + of_nat (length ds)))"
    and "unat num < b ^ k" "2 \<le> b" "b \<le> 16" "unat buf + k < 2 ^ 32" "num \<noteq> 0"
  shows "cstr (let (m', p) = L in (reverse_loop m' buf (p - 1))(p := 0)) buf
    (digit_string c b (unat num))"
proof -
  let ?ds = "digits b (unat num)"
  have "length ?ds \<le> k" using assms(2) by (rule digits_length)
  moreover have "\<forall>d \<in> set ?ds. d < 16" using assms(4) by (auto dest!: digits_less)
  moreover have "?ds \<noteq> []" using assms(3,6) by (simp add: digits_nonempty unat_eq_zero)
  moreover have "L = (put_bytes m buf (map (digit_char c) ?ds), buf + of_nat (length ?ds))"
    by (simp add: assms(1) Let_def)
  ultimately have "cstr (let (m', p) = L in (reverse_loop m' buf (p - 1))(p := 0)) buf
    (map (digit_char c) (rev ?ds))"
    using assms(5) conv_finish [of L m buf c ?ds] by simp
  then show ?thesis using assms(6) by (simp add: digit_string_def unat_eq_zero)
qed

lemma conv_strings:
  "unat buf + 20 < 2 ^ 32 \<Longrightarrow> cstr (core_rtl_itoa m buf num) buf (digit_string c 10 (unat num))"
  "unat buf + 16 < 2 ^ 32 \<Longrightarrow> cstr (core_rtl_htoa m buf num c) buf (digit_string c 16 (unat num))"
  "unat buf + 22 < 2 ^ 32 \<Longrightarrow> cstr (core_rtl_otoa m buf num) buf (digit_string c 8 (unat num))"
  using conv_string [OF itoa_loop_digits, where num = num and k = 20 and buf = buf and m = m] conv_string [OF htoa_loop_digits, where num = num and k = 16 and buf = buf and m = m]
    conv_string [OF otoa_loop_digits, where num = num and k = 22 and buf = buf and m = m] unat_u64_less [of num] conv_zero [of m buf]
  by (cases "num = 0"; simp add: core_rtl_itoa_def core_rtl_htoa_def core_rtl_otoa_def Let_def)+

lemma read_back:
  assumes "cstr m buf (digit_string c b n)" "b \<in> {8, 10, 16}" "unat buf + k < 2 ^ 32" "n < b ^ k" "0 < k"
  shows "core_rtl_atoi m buf (int b) = Some (of_nat n)"
proof -
  have "unat buf + length (digit_string c b n) < 2 ^ 32" using digit_string_length [OF assms(4,5), of c] assms(3) by simp
  moreover have "atoi_list (int b) (digit_string c b n) 0 = of_nat n"
    using atoi_digits [OF assms(2), of c n] atoi_digit_char [of 0 b c] assms(2)
    by (auto simp: digit_string_def)
  ultimately show ?thesis using atoi_str [OF assms(1), of "int b"] assms(2) by auto
qed

text \<open>
  The decimal, hexadecimal (either case) and octal texts of a 64-bit number are the digits of
  the number, most significant first and terminated.
\<close>

theorem core_rtl_number_strings:
  assumes "unat buf + 22 < 2 ^ 32"
  shows "cstr (core_rtl_itoa m buf num) buf (digit_string c 10 (unat num)) \<and>
    cstr (core_rtl_htoa m buf num c) buf (digit_string c 16 (unat num)) \<and>
    cstr (core_rtl_otoa m buf num) buf (digit_string c 8 (unat num))"
  using assms by (intro conjI conv_strings) simp_all

theorem core_rtl_number_strings_witness:
  "cstr (core_rtl_htoa (\<lambda>_. 0) 7 0xBEEF True) 7 [0x42, 0x45, 0x45, 0x46]"
  using core_rtl_number_strings [of 7 "\<lambda>_. 0" "0xBEEF" True]
  by (simp add: digit_string_def digits.simps digit_char_def)

text \<open>
  C39. Reading back with \<^verbatim>\<open>core_rtl_atoi\<close> what \<^verbatim>\<open>core_rtl_itoa\<close>, \<^verbatim>\<open>core_rtl_htoa\<close> and
  \<^verbatim>\<open>core_rtl_otoa\<close> wrote gives the number modulo \<open>2 ^ 32\<close>, for a buffer that ends below the top of the
  address space.
\<close>

theorem core_rtl_atoi_roundtrip:
  assumes "unat buf + 22 < 2 ^ 32"
  shows "core_rtl_atoi (core_rtl_itoa m buf num) buf 10 = Some (ucast num) \<and>
    core_rtl_atoi (core_rtl_htoa m buf num c) buf 16 = Some (ucast num) \<and>
    core_rtl_atoi (core_rtl_otoa m buf num) buf 8 = Some (ucast num)"
proof -
  have "(of_nat (unat num) :: u32) = ucast num" by simp
  then show ?thesis using assms unat_u64_less [of num]
      read_back [OF conv_strings(1), of buf 20 num m] read_back [OF conv_strings(2), of buf 16 num m c]
      read_back [OF conv_strings(3), of buf 22 num m] by simp
qed

theorem core_rtl_atoi_roundtrip_witness:
  "core_rtl_atoi (core_rtl_itoa (\<lambda>_. 0) 7 12345678901) 7 10 = Some (3755744309)"
  using core_rtl_atoi_roundtrip [of 7 "\<lambda>_. 0" 12345678901 True] by simp

text \<open>
  C40. The digit test of \<^verbatim>\<open>core_rtl_atoi\<close> includes the base itself: below ten, the character
  whose value is the base is read as a digit (\<^verbatim>\<open>8\<close> in base 8 is 8), where the call should stop.
\<close>

theorem core_rtl_atoi_accepts_base:
  assumes "cstr m str [0x30 + of_int b]" and "2 \<le> b" and "b \<le> 9" and "unat str + 1 < 2 ^ 32"
  shows "core_rtl_atoi m str b = Some (of_int b)"
proof -
  have "b \<in> {2, 3, 4, 5, 6, 7, 8, 9}" using assms(2,3) by auto
  then have "atoi_char b (0x30 + of_int b) = Some (of_int b)" by (auto simp: atoi_char_def)
  then show ?thesis using atoi_str [OF assms(1), of b] assms(3,4) by simp
qed

theorem core_rtl_atoi_accepts_base_witness:
  "core_rtl_atoi ((\<lambda>_. 0)(7 := 0x38)) 7 8 = Some 8"
  using core_rtl_atoi_accepts_base [of "(\<lambda>_. 0)(7 := 0x38)" 7 8] by simp

end
