(* ===== verification/RtlList.thy ===== *)
theory RtlList
  imports Prelude "HOL-Library.Monad_Syntax"
begin

text \<open>
  The circular doubly linked list of \<^verbatim>\<open>kernel/core/rtl/container/list/list.c\<close> on a store of
  nodes. A \<^verbatim>\<open>list_t\<close> is the address of the first node (or \<^verbatim>\<open>NULL\<close>); an operation takes the store
  and the value of \<^verbatim>\<open>*p_list\<close> and returns both. Reading or writing a field of an address that
  is not a live node is \<open>None\<close>, so a result \<open>Some\<close> includes memory safety. What
  \<^verbatim>\<open>core_mm_heap_alloc\<close> returns is an argument: \<^verbatim>\<open>NULL\<close>, or the address of a node that is not
  live. A callback is given by the trace of its calls.
\<close>

subsection \<open>Nodes\<close>

record list_node =
  p_prev :: ptr
  p_next :: ptr
  p_item :: ptr

type_synonym nodes = "ptr \<rightharpoonup> list_node"

definition get_prev :: "nodes \<Rightarrow> ptr \<Rightarrow> ptr option" where
  "get_prev s p = map_option p_prev (s p)"

definition get_next :: "nodes \<Rightarrow> ptr \<Rightarrow> ptr option" where
  "get_next s p = map_option p_next (s p)"

definition get_item :: "nodes \<Rightarrow> ptr \<Rightarrow> ptr option" where
  "get_item s p = map_option p_item (s p)"

definition set_prev :: "nodes \<Rightarrow> ptr \<Rightarrow> ptr \<Rightarrow> nodes option" where
  "set_prev s p v = map_option (\<lambda>n. s(p \<mapsto> n\<lparr>p_prev := v\<rparr>)) (s p)"

definition set_next :: "nodes \<Rightarrow> ptr \<Rightarrow> ptr \<Rightarrow> nodes option" where
  "set_next s p v = map_option (\<lambda>n. s(p \<mapsto> n\<lparr>p_next := v\<rparr>)) (s p)"

definition set_item :: "nodes \<Rightarrow> ptr \<Rightarrow> ptr \<Rightarrow> nodes option" where
  "set_item s p v = map_option (\<lambda>n. s(p \<mapsto> n\<lparr>p_item := v\<rparr>)) (s p)"

text \<open>A fresh node; its contents are overwritten before they are read.\<close>

definition alloc_node :: "nodes \<Rightarrow> ptr \<Rightarrow> nodes" where
  "alloc_node s p = s(p \<mapsto> \<lparr>p_prev = NULL, p_next = NULL, p_item = NULL\<rparr>)"

definition free_node :: "nodes \<Rightarrow> ptr \<Rightarrow> nodes option" where
  "free_node s p = map_option (\<lambda>n. s(p := None)) (s p)"

subsection \<open>core\_rtl\_list\_insert\_before, core\_rtl\_list\_insert\_node\_before\<close>

definition core_rtl_list_insert_before ::
    "nodes \<Rightarrow> ptr \<Rightarrow> ptr \<Rightarrow> ptr \<Rightarrow> ptr \<Rightarrow> (nodes \<times> ptr \<times> ptr) option" where
  "core_rtl_list_insert_before s pos lst item p_new_node =
     (if p_new_node = NULL then Some (s, lst, NULL)
      else let s = alloc_node s p_new_node
      in if pos = NULL
      then if lst = NULL
           then do {
             s \<leftarrow> set_prev s p_new_node p_new_node;
             s \<leftarrow> set_next s p_new_node p_new_node;
             s \<leftarrow> set_item s p_new_node item;
             Some (s, p_new_node, p_new_node) }
           else do {
             prev \<leftarrow> get_prev s lst;
             s \<leftarrow> set_prev s p_new_node prev;
             prev \<leftarrow> get_prev s lst;
             s \<leftarrow> set_next s prev p_new_node;
             s \<leftarrow> set_prev s lst p_new_node;
             s \<leftarrow> set_next s p_new_node lst;
             s \<leftarrow> set_item s p_new_node item;
             Some (s, p_new_node, p_new_node) }
      else do {
             prev \<leftarrow> get_prev s pos;
             s \<leftarrow> set_prev s p_new_node prev;
             prev \<leftarrow> get_prev s pos;
             s \<leftarrow> set_next s prev p_new_node;
             s \<leftarrow> set_prev s pos p_new_node;
             s \<leftarrow> set_next s p_new_node pos;
             s \<leftarrow> set_item s p_new_node item;
             Some (s, if pos = lst then p_new_node else lst, p_new_node) })"

definition core_rtl_list_insert_node_before ::
    "nodes \<Rightarrow> ptr \<Rightarrow> ptr \<Rightarrow> ptr \<Rightarrow> (nodes \<times> ptr \<times> ptr) option" where
  "core_rtl_list_insert_node_before s pos lst p_node =
     (if pos = NULL
      then if lst = NULL
           then do {
             s \<leftarrow> set_prev s p_node p_node;
             s \<leftarrow> set_next s p_node p_node;
             Some (s, p_node, p_node) }
           else do {
             prev \<leftarrow> get_prev s lst;
             s \<leftarrow> set_prev s p_node prev;
             prev \<leftarrow> get_prev s lst;
             s \<leftarrow> set_next s prev p_node;
             s \<leftarrow> set_prev s lst p_node;
             s \<leftarrow> set_next s p_node lst;
             Some (s, p_node, p_node) }
      else do {
             prev \<leftarrow> get_prev s pos;
             s \<leftarrow> set_prev s p_node prev;
             prev \<leftarrow> get_prev s pos;
             s \<leftarrow> set_next s prev p_node;
             s \<leftarrow> set_prev s pos p_node;
             s \<leftarrow> set_next s p_node pos;
             Some (s, if pos = lst then p_node else lst, p_node) })"

subsection \<open>core\_rtl\_list\_insert\_after, core\_rtl\_list\_insert\_node\_after\<close>

definition core_rtl_list_insert_after ::
    "nodes \<Rightarrow> ptr \<Rightarrow> ptr \<Rightarrow> ptr \<Rightarrow> ptr \<Rightarrow> (nodes \<times> ptr \<times> ptr) option" where
  "core_rtl_list_insert_after s pos lst item p_new_node =
     (if p_new_node = NULL then Some (s, lst, NULL)
      else let s = alloc_node s p_new_node
      in if pos = NULL
      then if lst = NULL
           then do {
             s \<leftarrow> set_prev s p_new_node p_new_node;
             s \<leftarrow> set_next s p_new_node p_new_node;
             s \<leftarrow> set_item s p_new_node item;
             Some (s, p_new_node, p_new_node) }
           else do {
             prev \<leftarrow> get_prev s lst;
             s \<leftarrow> set_prev s p_new_node prev;
             prev \<leftarrow> get_prev s lst;
             s \<leftarrow> set_next s prev p_new_node;
             s \<leftarrow> set_prev s lst p_new_node;
             s \<leftarrow> set_next s p_new_node lst;
             s \<leftarrow> set_item s p_new_node item;
             Some (s, lst, p_new_node) }
      else do {
             s \<leftarrow> set_prev s p_new_node pos;
             nxt \<leftarrow> get_next s pos;
             s \<leftarrow> set_next s p_new_node nxt;
             prev \<leftarrow> get_prev s p_new_node;
             s \<leftarrow> set_next s prev p_new_node;
             nxt \<leftarrow> get_next s p_new_node;
             s \<leftarrow> set_prev s nxt p_new_node;
             s \<leftarrow> set_item s p_new_node item;
             Some (s, lst, p_new_node) })"

definition core_rtl_list_insert_node_after ::
    "nodes \<Rightarrow> ptr \<Rightarrow> ptr \<Rightarrow> ptr \<Rightarrow> (nodes \<times> ptr \<times> ptr) option" where
  "core_rtl_list_insert_node_after s pos lst p_node =
     (if pos = NULL
      then if lst = NULL
           then do {
             s \<leftarrow> set_prev s p_node p_node;
             s \<leftarrow> set_next s p_node p_node;
             Some (s, p_node, p_node) }
           else do {
             prev \<leftarrow> get_prev s lst;
             s \<leftarrow> set_prev s p_node prev;
             prev \<leftarrow> get_prev s lst;
             s \<leftarrow> set_next s prev p_node;
             s \<leftarrow> set_prev s lst p_node;
             s \<leftarrow> set_next s p_node lst;
             Some (s, lst, p_node) }
      else do {
             s \<leftarrow> set_prev s p_node pos;
             nxt \<leftarrow> get_next s pos;
             s \<leftarrow> set_next s p_node nxt;
             prev \<leftarrow> get_prev s p_node;
             s \<leftarrow> set_next s prev p_node;
             nxt \<leftarrow> get_next s p_node;
             s \<leftarrow> set_prev s nxt p_node;
             Some (s, lst, p_node) })"

subsection \<open>core\_rtl\_list\_remove, core\_rtl\_list\_node\_remove\<close>

definition core_rtl_list_node_remove :: "nodes \<Rightarrow> ptr \<Rightarrow> ptr \<Rightarrow> (nodes \<times> ptr \<times> ptr) option" where
  "core_rtl_list_node_remove s pos lst =
     (if pos = NULL then Some (s, lst, NULL)
      else do {
        ret \<leftarrow> get_item s pos;
        prev \<leftarrow> get_prev s pos;
        if prev = pos then Some (s, NULL, ret)
        else do {
          lst \<leftarrow> (if lst = pos then get_next s pos else Some lst);
          nxt \<leftarrow> get_next s pos;
          s \<leftarrow> set_next s prev nxt;
          nxt \<leftarrow> get_next s pos;
          prev \<leftarrow> get_prev s pos;
          s \<leftarrow> set_prev s nxt prev;
          Some (s, lst, ret) } })"

definition core_rtl_list_remove :: "nodes \<Rightarrow> ptr \<Rightarrow> ptr \<Rightarrow> (nodes \<times> ptr \<times> ptr) option" where
  "core_rtl_list_remove s pos lst =
     (if pos = NULL then Some (s, lst, NULL)
      else do {
        ret \<leftarrow> get_item s pos;
        prev \<leftarrow> get_prev s pos;
        (s, lst) \<leftarrow> (if prev = pos then Some (s, NULL)
        else do {
          lst \<leftarrow> (if lst = pos then get_next s pos else Some lst);
          nxt \<leftarrow> get_next s pos;
          s \<leftarrow> set_next s prev nxt;
          nxt \<leftarrow> get_next s pos;
          prev \<leftarrow> get_prev s pos;
          s \<leftarrow> set_prev s nxt prev;
          Some (s, lst) });
        s \<leftarrow> free_node s pos;
        Some (s, lst, ret) })"

subsection \<open>core\_rtl\_list\_destroy, core\_rtl\_list\_join\<close>

text \<open>The last component is the trace of the calls of \<^verbatim>\<open>destroier\<close>, none when it is \<^verbatim>\<open>NULL\<close>.\<close>

partial_function (option) list_destroy_loop ::
    "nodes \<Rightarrow> ptr \<Rightarrow> ptr \<Rightarrow> bool \<Rightarrow> ptr list \<Rightarrow> (nodes \<times> ptr list) option" where
  "list_destroy_loop s lst p_node has_destroier calls =
     do {
       let p_remove_node = p_node;
       p_node \<leftarrow> get_next s p_node;
       item \<leftarrow> get_item s p_remove_node;
       let calls = (if has_destroier then calls @ [item] else calls);
       s \<leftarrow> free_node s p_remove_node;
       if p_node \<noteq> lst then list_destroy_loop s lst p_node has_destroier calls else Some (s, calls)
     }"

definition core_rtl_list_destroy :: "nodes \<Rightarrow> ptr \<Rightarrow> bool \<Rightarrow> (nodes \<times> ptr \<times> ptr list) option" where
  "core_rtl_list_destroy s lst has_destroier =
     (if lst = NULL then Some (s, lst, [])
      else do {
        (s, calls) \<leftarrow> list_destroy_loop s lst lst has_destroier [];
        Some (s, NULL, calls) })"

text \<open>
  \<open>allocs\<close> are the results of the allocations, one for each round. The head of the destination
  comes last in the result.
\<close>

fun core_rtl_list_join :: "nodes \<Rightarrow> ptr \<Rightarrow> ptr \<Rightarrow> ptr list \<Rightarrow> (nodes \<times> ptr \<times> ptr) option" where
  "core_rtl_list_join s src dest allocs =
     (if src \<noteq> NULL
      then (case allocs of [] \<Rightarrow> None
            | p_new_node # allocs \<Rightarrow> do {
                (s, src, item) \<leftarrow> core_rtl_list_remove s src src;
                (s, dest, _) \<leftarrow> core_rtl_list_insert_after s NULL dest item p_new_node;
                core_rtl_list_join s src dest allocs })
      else Some (s, src, dest))"

declare core_rtl_list_join.simps [simp del]

subsection \<open>The macros of list.h\<close>

definition core_rtl_list_prev :: "nodes \<Rightarrow> ptr \<Rightarrow> ptr \<Rightarrow> ptr option" where
  "core_rtl_list_prev s pos lst = (if pos = lst then Some NULL else get_prev s pos)"

definition core_rtl_list_next :: "nodes \<Rightarrow> ptr \<Rightarrow> ptr \<Rightarrow> ptr option" where
  "core_rtl_list_next s pos lst =
     do { last_node \<leftarrow> get_prev s lst;
          if pos = last_node then Some NULL else get_next s pos }"

subsection \<open>core\_rtl\_list\_qsort\<close>

text \<open>
  \<open>compare\<close> is the callback, its result a C \<^verbatim>\<open>int\<close> of 32 bits; \<open>b2s\<close> negates it at that width, so that the
  least \<^verbatim>\<open>int\<close> stays what it is, and the loops test the sign. The inner loops return the position where they
  stop, the recursion the store.
\<close>

definition cmp_b2s :: "(ptr \<Rightarrow> ptr \<Rightarrow> u32) \<Rightarrow> bool \<Rightarrow> ptr \<Rightarrow> ptr \<Rightarrow> int" where
  "cmp_b2s compare b2s x y = (let cmp_result = compare x y in sint (if b2s then - cmp_result else cmp_result))"

partial_function (option) qsort_back ::
    "nodes \<Rightarrow> (ptr \<Rightarrow> ptr \<Rightarrow> int) \<Rightarrow> ptr \<Rightarrow> ptr \<Rightarrow> ptr \<Rightarrow> ptr option" where
  "qsort_back s cmp p_key p_front p_back =
     (if p_front \<noteq> p_back
      then do {
        item \<leftarrow> get_item s p_back;
        if cmp item p_key < 0 then Some p_back
        else do { p_back \<leftarrow> get_prev s p_back; qsort_back s cmp p_key p_front p_back } }
      else Some p_back)"

partial_function (option) qsort_front ::
    "nodes \<Rightarrow> (ptr \<Rightarrow> ptr \<Rightarrow> int) \<Rightarrow> ptr \<Rightarrow> ptr \<Rightarrow> ptr \<Rightarrow> ptr option" where
  "qsort_front s cmp p_key p_front p_back =
     (if p_front \<noteq> p_back
      then do {
        item \<leftarrow> get_item s p_front;
        if cmp item p_key > 0 then Some p_front
        else do { p_front \<leftarrow> get_next s p_front; qsort_front s cmp p_key p_front p_back } }
      else Some p_front)"

definition swap_items :: "nodes \<Rightarrow> ptr \<Rightarrow> ptr \<Rightarrow> nodes option" where
  "swap_items s p_front p_back =
     do {
       tmp \<leftarrow> get_item s p_front;
       item \<leftarrow> get_item s p_back;
       s \<leftarrow> set_item s p_front item;
       set_item s p_back tmp }"

partial_function (option) qsort_partition ::
    "nodes \<Rightarrow> (ptr \<Rightarrow> ptr \<Rightarrow> int) \<Rightarrow> ptr \<Rightarrow> ptr \<Rightarrow> ptr \<Rightarrow> (nodes \<times> ptr \<times> ptr) option" where
  "qsort_partition s cmp p_key p_front p_back =
     (if p_front \<noteq> p_back
      then do {
        p_back \<leftarrow> qsort_back s cmp p_key p_front p_back;
        s \<leftarrow> swap_items s p_front p_back;
        p_front \<leftarrow> qsort_front s cmp p_key p_front p_back;
        s \<leftarrow> swap_items s p_front p_back;
        qsort_partition s cmp p_key p_front p_back }
      else Some (s, p_front, p_back))"

partial_function (option) qsort_adjust ::
    "nodes \<Rightarrow> (ptr \<Rightarrow> ptr \<Rightarrow> int) \<Rightarrow> ptr \<Rightarrow> ptr \<Rightarrow> nodes option" where
  "qsort_adjust s cmp begin_node end_node =
     do {
       p_key \<leftarrow> get_item s begin_node;
       (s, p_front, p_back) \<leftarrow> qsort_partition s cmp p_key begin_node end_node;
       prev \<leftarrow> get_prev s p_front;
       s \<leftarrow> (if begin_node \<noteq> prev \<and> begin_node \<noteq> p_front
            then qsort_adjust s cmp begin_node prev else Some s);
       nxt \<leftarrow> get_next s p_back;
       if end_node \<noteq> nxt \<and> end_node \<noteq> p_back
       then qsort_adjust s cmp nxt end_node else Some s }"

definition core_rtl_list_qsort :: "nodes \<Rightarrow> ptr \<Rightarrow> (ptr \<Rightarrow> ptr \<Rightarrow> u32) \<Rightarrow> bool \<Rightarrow> nodes option" where
  "core_rtl_list_qsort s lst compare b2s =
     do {
       last_node \<leftarrow> get_prev s lst;
       if lst \<noteq> last_node then qsort_adjust s (cmp_b2s compare b2s) lst last_node else Some s }"

end
