(* ===== verification/RtlListProofs.thy ===== *)
theory RtlListProofs
  imports RtlList
begin

text \<open>
  Correctness of the list operations of \<open>RtlList\<close>. \<open>ring s lst ns\<close> says that the nodes \<open>ns\<close> form
  a circular doubly linked list in the store with head \<open>lst\<close>; every operation is related to the
  list of its nodes and of its items, and leaves the other nodes of the store alone.
\<close>

subsection \<open>Rings of nodes\<close>


abbreviation nx :: "nodes \<Rightarrow> ptr \<Rightarrow> ptr" where "nx s p \<equiv> p_next (the (s p))"
abbreviation pv :: "nodes \<Rightarrow> ptr \<Rightarrow> ptr" where "pv s p \<equiv> p_prev (the (s p))"
abbreviation it :: "nodes \<Rightarrow> ptr \<Rightarrow> ptr" where "it s p \<equiv> p_item (the (s p))"

definition linked :: "nodes \<Rightarrow> ptr \<Rightarrow> ptr \<Rightarrow> bool" where
  "linked s p q \<longleftrightarrow> nx s p = q \<and> pv s q = p"

definition cyc :: "nodes \<Rightarrow> ptr list \<Rightarrow> bool" where
  "cyc s ns \<longleftrightarrow> distinct ns \<and> NULL \<notin> set ns \<and> set ns \<subseteq> dom s \<and> successively (linked s) ns \<and>
     (ns = [] \<or> linked s (last ns) (hd ns))"

definition ring :: "nodes \<Rightarrow> ptr \<Rightarrow> ptr list \<Rightarrow> bool" where
  "ring s lst ns \<longleftrightarrow> cyc s ns \<and> lst = (case ns of [] \<Rightarrow> NULL | x # _ \<Rightarrow> x)"

definition list_items :: "nodes \<Rightarrow> ptr list \<Rightarrow> ptr list" where
  "list_items s ns = map (it s) ns"

lemmas field_defs = get_prev_def get_next_def get_item_def set_prev_def set_next_def set_item_def
  alloc_node_def free_node_def

lemma cyc_rotate: "cyc s (a @ b) \<Longrightarrow> cyc s (b @ a)"
  by (cases "a = []"; cases "b = []") (auto simp: cyc_def successively_append_iff)

lemma cyc_head:
  assumes "cyc s (x # xs)"
  shows "linked s (last (x # xs)) x" "x \<in> dom s" "last (x # xs) \<in> dom s" "x \<noteq> NULL"
  using assms last_in_set [of "x # xs"] unfolding cyc_def by (auto simp del: last.simps)

lemma cyc_middle:
  assumes "cyc s (a @ x # b)"
  shows "linked s (last (x # b @ a)) x" "x \<in> dom s" "last (x # b @ a) \<in> dom s" "x \<noteq> NULL"
  using cyc_head [of s x "b @ a"] cyc_rotate [of s a "x # b"] assms by simp_all

lemma cyc_cong: "(\<And>p. p \<in> set ns \<Longrightarrow> s' p = s p) \<Longrightarrow> cyc s' ns \<longleftrightarrow> cyc s ns"
proof -
  assume eq: "\<And>p. p \<in> set ns \<Longrightarrow> s' p = s p"
  have "successively (linked s') ns \<longleftrightarrow> successively (linked s) ns"
    using eq by (intro successively_cong) (auto simp: linked_def)
  moreover have "ns = [] \<or> linked s' (last ns) (hd ns) \<longleftrightarrow> ns = [] \<or> linked s (last ns) (hd ns)"
    using eq by (auto simp: linked_def)
  moreover have "set ns \<subseteq> dom s' \<longleftrightarrow> set ns \<subseteq> dom s" using eq by (auto simp: dom_def subset_eq)
  ultimately show ?thesis by (simp add: cyc_def)
qed

text \<open>The store after \<open>new\<close> has been linked in before \<open>pos\<close>.\<close>

definition spliced :: "nodes \<Rightarrow> ptr \<Rightarrow> ptr \<Rightarrow> ptr \<Rightarrow> nodes \<Rightarrow> bool" where
  "spliced s prev new pos s' \<longleftrightarrow> dom s' = insert new (dom s) \<and>
     (\<forall>p. nx s' p = (if p = new then pos else if p = prev then new else nx s p)) \<and>
     (\<forall>p. pv s' p = (if p = new then prev else if p = pos then new else pv s p)) \<and>
     (\<forall>p. p \<notin> {prev, new, pos} \<longrightarrow> s' p = s p) \<and> (\<forall>p. p \<noteq> new \<longrightarrow> it s' p = it s p)"

lemma cyc_splice:
  assumes c: "cyc s (x # xs)" and new: "new \<notin> set (x # xs)" "new \<noteq> NULL" and sp: "spliced s (last (x # xs)) new x s'"
  shows "cyc s' (x # xs @ [new])"
proof -
  let ?l = "last (x # xs)"
  from c have d: "distinct (x # xs)" and sq: "successively (linked s) (x # xs)"
    unfolding cyc_def by (auto simp: successively_Cons)
  have "successively (linked s') (x # xs)"
    unfolding successively_conv_nth
  proof (intro allI impI)
    fix i assume i: "Suc i < length (x # xs)"
    let ?p = "(x # xs) ! i" and ?q = "(x # xs) ! Suc i"
    have "linked s ?p ?q" using sq i by (simp add: successively_conv_nth)
    moreover have "?p \<noteq> ?l" "?q \<noteq> x"
      using d i nth_eq_iff_index_eq [OF d, of i "length (x # xs) - 1"] nth_eq_iff_index_eq [OF d, of "Suc i" 0]
      by (auto simp: last_conv_nth simp del: last.simps)
    moreover have "?p \<noteq> new" "?q \<noteq> new" using new nth_mem [of i "x # xs"] nth_mem [of "Suc i" "x # xs"] i by auto
    ultimately show "linked s' ?p ?q" using sp by (simp add: linked_def spliced_def)
  qed
  moreover have "linked s' ?l new" "linked s' new x"
    using sp new last_in_set [of "x # xs"] by (auto simp: linked_def spliced_def simp del: last.simps)
  ultimately have "successively (linked s') (x # xs @ [new])"
    "linked s' (last (x # xs @ [new])) (hd (x # xs @ [new]))"
    using successively_append_iff [of "linked s'" "x # xs" "[new]"] by simp_all
  moreover have "distinct (x # xs @ [new])" using d new by auto
  moreover have "NULL \<notin> set (x # xs @ [new])" using c new by (auto simp: cyc_def)
  moreover have "set (x # xs @ [new]) \<subseteq> dom s'" using c sp by (auto simp: cyc_def spliced_def)
  ultimately show ?thesis by (simp add: cyc_def)
qed

text \<open>The store after \<open>pos\<close> has been taken out between \<open>prev\<close> and \<open>nxt\<close>.\<close>

definition unlinked :: "nodes \<Rightarrow> ptr \<Rightarrow> ptr \<Rightarrow> nodes \<Rightarrow> bool" where
  "unlinked s prev nxt s' \<longleftrightarrow> dom s' = dom s \<and>
     (\<forall>p. nx s' p = (if p = prev then nxt else nx s p)) \<and>
     (\<forall>p. pv s' p = (if p = nxt then prev else pv s p)) \<and>
     (\<forall>p. p \<notin> {prev, nxt} \<longrightarrow> s' p = s p) \<and> (\<forall>p. it s' p = it s p)"

lemma cyc_unlink:
  assumes c: "cyc s (pos # x # xs)" and un: "unlinked s (last (x # xs)) x s'"
  shows "cyc s' (x # xs)"
proof -
  let ?l = "last (x # xs)"
  from c have d: "distinct (x # xs)" and sq: "successively (linked s) (x # xs)"
    unfolding cyc_def by (auto simp: successively_Cons)
  have "successively (linked s') (x # xs)"
    unfolding successively_conv_nth
  proof (intro allI impI)
    fix i assume i: "Suc i < length (x # xs)"
    let ?p = "(x # xs) ! i" and ?q = "(x # xs) ! Suc i"
    have "linked s ?p ?q" using sq i by (simp add: successively_conv_nth)
    moreover have "?p \<noteq> ?l" "?q \<noteq> x"
      using d i nth_eq_iff_index_eq [OF d, of i "length (x # xs) - 1"] nth_eq_iff_index_eq [OF d, of "Suc i" 0]
      by (auto simp: last_conv_nth simp del: last.simps)
    ultimately show "linked s' ?p ?q" using un by (simp add: linked_def unlinked_def)
  qed
  moreover have "linked s' ?l x" using un by (auto simp: linked_def unlinked_def simp del: last.simps)
  moreover have "set (x # xs) \<subseteq> dom s'" using c un by (auto simp: cyc_def unlinked_def)
  ultimately show ?thesis using c by (simp add: cyc_def del: last.simps)
qed

subsection \<open>The operations\<close>

abbreviation target :: "ptr \<Rightarrow> ptr \<Rightarrow> ptr" where
  "target pos lst \<equiv> (if pos = NULL then lst else pos)"

lemma insert_before_spliced:
  assumes "q = target pos lst" "q \<noteq> NULL" "q \<in> dom s" "pv s q \<in> dom s" "new \<notin> dom s" "new \<noteq> NULL"
  shows "\<exists>s'. core_rtl_list_insert_before s pos lst item new = Some (s', if q = lst then new else lst, new) \<and>
    spliced s (pv s q) new q s' \<and> it s' new = item"
  using assms
  by (cases "pv s q = q"; cases "pos = NULL")
    (auto simp: core_rtl_list_insert_before_def spliced_def field_defs Let_def split: if_splits)

lemma insert_after_end_spliced:
  assumes "lst \<noteq> NULL" "lst \<in> dom s" "pv s lst \<in> dom s" "new \<notin> dom s" "new \<noteq> NULL"
  shows "\<exists>s'. core_rtl_list_insert_after s NULL lst item new = Some (s', lst, new) \<and>
    spliced s (pv s lst) new lst s' \<and> it s' new = item"
  using assms
  by (cases "pv s lst = lst")
    (auto simp: core_rtl_list_insert_after_def spliced_def field_defs Let_def split: if_splits)

lemma insert_after_spliced:
  assumes "pos \<noteq> NULL" "pos \<in> dom s" "nx s pos \<in> dom s" "new \<notin> dom s" "new \<noteq> NULL"
  shows "\<exists>s'. core_rtl_list_insert_after s pos lst item new = Some (s', lst, new) \<and>
    spliced s pos new (nx s pos) s' \<and> it s' new = item"
  using assms
  by (cases "nx s pos = pos")
    (auto simp: core_rtl_list_insert_after_def spliced_def field_defs Let_def split: if_splits)

lemma insert_node_before_spliced:
  assumes "q = target pos lst" "q \<noteq> NULL" "q \<in> dom s" "pv s q \<in> dom s" "new \<in> dom s" "new \<noteq> q" "new \<noteq> pv s q"
  shows "\<exists>s'. core_rtl_list_insert_node_before s pos lst new = Some (s', if q = lst then new else lst, new) \<and>
    spliced s (pv s q) new q s' \<and> it s' new = it s new"
  using assms
  by (cases "pv s q = q"; cases "pos = NULL")
    (auto simp: core_rtl_list_insert_node_before_def spliced_def field_defs Let_def split: if_splits)

lemma insert_node_after_end_spliced:
  assumes "lst \<noteq> NULL" "lst \<in> dom s" "pv s lst \<in> dom s" "new \<in> dom s" "new \<noteq> lst" "new \<noteq> pv s lst"
  shows "\<exists>s'. core_rtl_list_insert_node_after s NULL lst new = Some (s', lst, new) \<and>
    spliced s (pv s lst) new lst s' \<and> it s' new = it s new"
  using assms
  by (cases "pv s lst = lst")
    (auto simp: core_rtl_list_insert_node_after_def spliced_def field_defs Let_def split: if_splits)

lemma insert_node_after_spliced:
  assumes "pos \<noteq> NULL" "pos \<in> dom s" "nx s pos \<in> dom s" "new \<in> dom s" "new \<noteq> pos" "new \<noteq> nx s pos"
  shows "\<exists>s'. core_rtl_list_insert_node_after s pos lst new = Some (s', lst, new) \<and>
    spliced s pos new (nx s pos) s' \<and> it s' new = it s new"
  using assms
  by (cases "nx s pos = pos")
    (auto simp: core_rtl_list_insert_node_after_def spliced_def field_defs Let_def split: if_splits)

lemma node_remove_unlinked:
  assumes "pos \<noteq> NULL" "pos \<in> dom s" "pv s pos \<in> dom s" "nx s pos \<in> dom s" "pv s pos \<noteq> pos" "nx s pos \<noteq> pos"
  shows "\<exists>s'. core_rtl_list_node_remove s pos lst =
      Some (s', if lst = pos then nx s pos else lst, it s pos) \<and> unlinked s (pv s pos) (nx s pos) s'"
  using assms
  by (cases "pv s pos = nx s pos")
    (auto simp: core_rtl_list_node_remove_def unlinked_def field_defs Let_def split: if_splits)

lemma remove_node_remove:
  "core_rtl_list_remove s pos lst =
     (if pos = NULL then Some (s, lst, NULL)
      else do { (s, lst, ret) \<leftarrow> core_rtl_list_node_remove s pos lst; s \<leftarrow> free_node s pos; Some (s, lst, ret) })"
  by (auto simp: core_rtl_list_remove_def core_rtl_list_node_remove_def split: Option.bind_splits)

lemma cyc_ends:
  assumes "cyc s (a @ b)" "b @ a \<noteq> []"
  shows "linked s (last (b @ a)) (hd (b @ a))" "hd (b @ a) \<in> dom s" "last (b @ a) \<in> dom s"
    "hd (b @ a) \<noteq> NULL" "last (b @ a) \<noteq> NULL"
proof -
  have c: "cyc s (b @ a)" using assms(1) by (rule cyc_rotate)
  note m = hd_in_set [OF assms(2)] last_in_set [OF assms(2)]
  show "linked s (last (b @ a)) (hd (b @ a))" using c assms(2) unfolding cyc_def by blast
  show "hd (b @ a) \<in> dom s" "last (b @ a) \<in> dom s" "hd (b @ a) \<noteq> NULL" "last (b @ a) \<noteq> NULL"
    using c m unfolding cyc_def by (metis subsetD)+
qed

lemma cyc_splice_at:
  assumes "cyc s (a @ b)" "b @ a \<noteq> []" "new \<notin> set (a @ b)" "new \<noteq> NULL"
    "spliced s (last (b @ a)) new (hd (b @ a)) s'"
  shows "cyc s' (a @ new # b)"
proof -
  obtain x xs where x: "b @ a = x # xs" using assms(2) by (meson neq_Nil_conv)
  have "cyc s (x # xs)" using cyc_rotate [OF assms(1)] by (simp only: x)
  moreover have "new \<notin> set (x # xs)" using assms(3) unfolding x [symmetric] by auto
  ultimately have "cyc s' (x # xs @ [new])" using assms(4,5) by (intro cyc_splice) (simp_all add: x)
  then have "cyc s' (b @ a @ [new])" using x by (metis append_Cons append_assoc)
  then show ?thesis using cyc_rotate [of s' b "a @ [new]"] by simp
qed

text \<open>\<open>new\<close> has been put between \<open>a\<close> and \<open>b\<close> with an item, and nothing else has changed.\<close>

definition inserted :: "nodes \<Rightarrow> ptr list \<Rightarrow> ptr \<Rightarrow> ptr \<Rightarrow> ptr list \<Rightarrow> nodes \<Rightarrow> ptr \<Rightarrow> bool" where
  "inserted s a new item b s' lst' \<longleftrightarrow> ring s' lst' (a @ new # b) \<and>
     list_items s' (a @ new # b) = list_items s a @ item # list_items s b \<and>
     dom s' = insert new (dom s) \<and> (\<forall>p. p \<notin> set (a @ new # b) \<longrightarrow> s' p = s p)"

lemma inserted_spliced:
  assumes r: "ring s lst (a @ b)" and ne: "b @ a \<noteq> []" and new: "new \<notin> set (a @ b)" "new \<noteq> NULL"
    and sp: "spliced s (last (b @ a)) new (hd (b @ a)) s'" "it s' new = item"
    and l: "lst' = hd (a @ new # b)"
  shows "inserted s a new item b s' lst'"
proof -
  have c: "cyc s (a @ b)" using r by (simp add: ring_def)
  have "hd (b @ a) \<in> set (a @ b)" "last (b @ a) \<in> set (a @ b)"
    using hd_in_set [OF ne] last_in_set [OF ne] by auto
  then show ?thesis using cyc_splice_at [OF c ne new sp(1)] sp l new
    by (cases a) (auto simp: inserted_def ring_def list_items_def spliced_def)
qed

lemma ring_lst: "ring s lst (a @ b) \<Longrightarrow> b @ a \<noteq> [] \<Longrightarrow> lst = hd (a @ b)"
  by (cases a; cases b) (auto simp: ring_def)

lemma hd_append_mid: "hd (b @ a) = hd (a @ b) \<Longrightarrow> distinct (a @ b) \<Longrightarrow> a = [] \<or> b = []"
  by (cases a; cases b) auto

lemma insert_before_ring:
  assumes r: "ring s lst (a @ b)" and pos: "pos = NULL \<and> a = [] \<or> b \<noteq> [] \<and> pos = hd b"
    and new: "new \<notin> dom s" "new \<noteq> NULL"
  shows "\<exists>s' lst'. core_rtl_list_insert_before s pos lst item new = Some (s', lst', new) \<and>
    inserted s a new item b s' lst'"
proof (cases "b @ a = []")
  case True
  then show ?thesis using assms
    by (auto simp: core_rtl_list_insert_before_def field_defs Let_def inserted_def ring_def cyc_def linked_def list_items_def)
next
  case False
  have c: "cyc s (a @ b)" using r by (simp add: ring_def)
  note e = cyc_ends [OF c False]
  have lst: "lst = hd (a @ b)" using ring_lst [OF r False] .
  let ?q = "hd (b @ a)"
  have q: "?q = target pos lst"
    using pos lst False e by (auto simp: hd_append)
  have new': "new \<notin> set (a @ b)" using c new by (auto simp: cyc_def)
  have pv: "pv s ?q = last (b @ a)" using e(1) by (simp add: linked_def)
  obtain s' where s': "core_rtl_list_insert_before s pos lst item new = Some (s', if ?q = lst then new else lst, new)"
    "spliced s (last (b @ a)) new ?q s'" "it s' new = item"
    using insert_before_spliced [OF q e(4) e(2), of new item] e new unfolding pv by auto
  have "inserted s a new item b s' (if ?q = lst then new else lst)"
    using pos lst c hd_append_mid [of b a] by (intro inserted_spliced [OF r False new' new(2) s'(2,3)]) 
      (auto simp: cyc_def hd_append)
  then show ?thesis using s'(1) by blast
qed


lemma insert_after_ring:
  assumes r: "ring s lst (a @ b)" and pos: "pos = NULL \<and> b = [] \<or> a \<noteq> [] \<and> pos = last a"
    and new: "new \<notin> dom s" "new \<noteq> NULL"
  shows "\<exists>s' lst'. core_rtl_list_insert_after s pos lst item new = Some (s', lst', new) \<and>
    inserted s a new item b s' lst'"
proof (cases "b @ a = []")
  case True
  then show ?thesis using assms
    by (auto simp: core_rtl_list_insert_after_def field_defs Let_def inserted_def ring_def cyc_def linked_def list_items_def)
next
  case False
  have c: "cyc s (a @ b)" using r by (simp add: ring_def)
  note e = cyc_ends [OF c False]
  have a: "a \<noteq> []" using pos False by auto
  have lst: "lst = hd a" using ring_lst [OF r False] a by simp
  have new': "new \<notin> set (a @ b)" using c new by (auto simp: cyc_def)
  have pv: "pv s (hd (b @ a)) = last (b @ a)" and nx: "nx s (last (b @ a)) = hd (b @ a)"
    using e(1) by (simp_all add: linked_def)
  have "\<exists>s'. core_rtl_list_insert_after s pos lst item new = Some (s', lst, new) \<and>
    spliced s (last (b @ a)) new (hd (b @ a)) s' \<and> it s' new = item"
  proof (cases "pos = NULL")
    case True
    with pos e a have "b = []" by auto
    then show ?thesis using True insert_after_end_spliced [of lst s new item] e lst pv new by simp
  next
    case F: False
    with pos have "pos = last (b @ a)" using a by simp
    then show ?thesis using F insert_after_spliced [of pos s new lst item] e nx new by simp
  qed
  then obtain s' where s': "core_rtl_list_insert_after s pos lst item new = Some (s', lst, new)"
    "spliced s (last (b @ a)) new (hd (b @ a)) s'" "it s' new = item" by blast
  have "inserted s a new item b s' lst" using a lst
    by (intro inserted_spliced [OF r False new' new(2) s'(2,3)]) simp
  then show ?thesis using s'(1) by blast
qed

lemma insert_node_before_ring:
  assumes r: "ring s lst (a @ b)" and pos: "pos = NULL \<and> a = [] \<or> b \<noteq> [] \<and> pos = hd b"
    and new: "new \<in> dom s" "new \<notin> set (a @ b)" "new \<noteq> NULL"
  shows "\<exists>s' lst'. core_rtl_list_insert_node_before s pos lst new = Some (s', lst', new) \<and>
    inserted s a new (it s new) b s' lst'"
proof (cases "b @ a = []")
  case True
  then show ?thesis using assms
    by (auto simp: core_rtl_list_insert_node_before_def field_defs Let_def inserted_def ring_def cyc_def linked_def list_items_def)
next
  case False
  have c: "cyc s (a @ b)" using r by (simp add: ring_def)
  note e = cyc_ends [OF c False]
  have lst: "lst = hd (a @ b)" using ring_lst [OF r False] .
  let ?q = "hd (b @ a)"
  have q: "?q = target pos lst"
    using pos lst False e by (auto simp: hd_append)
  have ne: "new \<noteq> ?q" "new \<noteq> last (b @ a)" using new(2) hd_in_set [OF False] last_in_set [OF False] by auto
  have pv: "pv s ?q = last (b @ a)" using e(1) by (simp add: linked_def)
  obtain s' where s': "core_rtl_list_insert_node_before s pos lst new = Some (s', if ?q = lst then new else lst, new)"
    "spliced s (last (b @ a)) new ?q s'" "it s' new = it s new"
    using insert_node_before_spliced [OF q e(4) e(2), of new] e new ne unfolding pv by auto
  have "inserted s a new (it s new) b s' (if ?q = lst then new else lst)"
    using pos lst c hd_append_mid [of b a] by (intro inserted_spliced [OF r False new(2,3) s'(2,3)]) 
      (auto simp: cyc_def hd_append)
  then show ?thesis using s'(1) by blast
qed

lemma insert_node_after_ring:
  assumes r: "ring s lst (a @ b)" and pos: "pos = NULL \<and> b = [] \<or> a \<noteq> [] \<and> pos = last a"
    and new: "new \<in> dom s" "new \<notin> set (a @ b)" "new \<noteq> NULL"
  shows "\<exists>s' lst'. core_rtl_list_insert_node_after s pos lst new = Some (s', lst', new) \<and>
    inserted s a new (it s new) b s' lst'"
proof (cases "b @ a = []")
  case True
  then show ?thesis using assms
    by (auto simp: core_rtl_list_insert_node_after_def field_defs Let_def inserted_def ring_def cyc_def linked_def list_items_def)
next
  case False
  have c: "cyc s (a @ b)" using r by (simp add: ring_def)
  note e = cyc_ends [OF c False]
  have a: "a \<noteq> []" using pos False by auto
  have lst: "lst = hd a" using ring_lst [OF r False] a by simp
  have ne: "new \<noteq> hd (b @ a)" "new \<noteq> last (b @ a)" using new(2) hd_in_set [OF False] last_in_set [OF False] by auto
  have pv: "pv s (hd (b @ a)) = last (b @ a)" and nx: "nx s (last (b @ a)) = hd (b @ a)"
    using e(1) by (simp_all add: linked_def)
  have "\<exists>s'. core_rtl_list_insert_node_after s pos lst new = Some (s', lst, new) \<and>
    spliced s (last (b @ a)) new (hd (b @ a)) s' \<and> it s' new = it s new"
  proof (cases "pos = NULL")
    case True
    with pos e a have "b = []" by auto
    then show ?thesis using True insert_node_after_end_spliced [of lst s new] e lst pv new ne by simp
  next
    case F: False
    with pos have "pos = last (b @ a)" using a by simp
    then show ?thesis using F insert_node_after_spliced [of pos s new lst] e nx new ne by simp
  qed
  then obtain s' where s': "core_rtl_list_insert_node_after s pos lst new = Some (s', lst, new)"
    "spliced s (last (b @ a)) new (hd (b @ a)) s'" "it s' new = it s new" by blast
  have "inserted s a new (it s new) b s' lst" using a lst
    by (intro inserted_spliced [OF r False new(2,3) s'(2,3)]) simp
  then show ?thesis using s'(1) by blast
qed

text \<open>\<open>pos\<close> has been taken out between \<open>a\<close> and \<open>b\<close>; its node is still there or freed.\<close>

definition taken_out :: "nodes \<Rightarrow> ptr list \<Rightarrow> ptr \<Rightarrow> ptr list \<Rightarrow> nodes \<Rightarrow> ptr \<Rightarrow> bool" where
  "taken_out s a pos b s' lst' \<longleftrightarrow> ring s' lst' (a @ b) \<and> list_items s' (a @ b) = list_items s (a @ b) \<and>
     (\<forall>p. p \<notin> set (a @ pos # b) \<longrightarrow> s' p = s p)"

lemma node_remove_ring:
  assumes r: "ring s lst (a @ pos # b)"
  shows "\<exists>s' lst'. core_rtl_list_node_remove s pos lst = Some (s', lst', it s pos) \<and>
    taken_out s a pos b s' lst' \<and> dom s' = dom s"
proof (cases "b @ a = []")
  case True
  then show ?thesis using assms
    by (auto simp: core_rtl_list_node_remove_def field_defs taken_out_def ring_def cyc_def linked_def list_items_def)
next
  case False
  then obtain x xs where x: "b @ a = x # xs" by (meson neq_Nil_conv)
  have c: "cyc s (pos # x # xs)" using r cyc_rotate [of s a "pos # b"] by (simp add: ring_def x)
  then have l: "nx s pos = x" "pv s pos = last (x # xs)" "pos \<in> dom s" "x \<in> dom s" "last (x # xs) \<in> dom s" "pos \<noteq> NULL"
    "x \<noteq> pos" "last (x # xs) \<noteq> pos" "last (x # xs) \<in> set (x # xs)"
    using last_in_set [of "x # xs"] last_ConsR [of "x # xs" pos] unfolding cyc_def
    by (auto simp: linked_def simp del: last.simps)
  have "\<exists>s'. core_rtl_list_node_remove s pos lst =
      Some (s', if lst = pos then x else lst, it s pos) \<and> unlinked s (last (x # xs)) x s'"
    using node_remove_unlinked [of pos s lst, unfolded l(1,2)] l by (simp del: last.simps)
  then obtain s' where s': "core_rtl_list_node_remove s pos lst = Some (s', if lst = pos then x else lst, it s pos)"
    "unlinked s (last (x # xs)) x s'" by blast
  have "cyc s' (x # xs)" using c s'(2) by (rule cyc_unlink)
  then have "cyc s' (a @ b)" using cyc_rotate [of s' b a] by (simp add: x)
  moreover have "(if lst = pos then x else lst) = hd (a @ b)"
    using r x by (cases a) (auto simp: ring_def cyc_def)
  ultimately have rg: "ring s' (if lst = pos then x else lst) (a @ b)"
    using False by (cases a; cases b) (auto simp: ring_def)
  have its: "list_items s' (a @ b) = list_items s (a @ b)" using s'(2) by (simp add: list_items_def unlinked_def)
  have m: "set (x # xs) = set (a @ b)" unfolding x [symmetric] by auto
  have "s' p = s p" if "p \<notin> set (a @ pos # b)" for p
  proof -
    have "p \<notin> set (x # xs)" using that unfolding m by simp
    then have "p \<noteq> x" "p \<noteq> last (x # xs)" using l(9) by (meson list.set_intros(1))+
    then show ?thesis using s'(2) by (simp add: unlinked_def del: last.simps)
  qed
  then have "taken_out s a pos b s' (if lst = pos then x else lst)"
    unfolding taken_out_def using rg its by blast
  moreover have "dom s' = dom s" using s'(2) by (simp add: unlinked_def)
  ultimately show ?thesis using s'(1) by blast
qed

lemma remove_ring:
  assumes r: "ring s lst (a @ pos # b)"
  shows "\<exists>s' lst'. core_rtl_list_remove s pos lst = Some (s', lst', it s pos) \<and>
    taken_out s a pos b s' lst' \<and> dom s' = dom s - {pos}"
proof -
  obtain s' lst' where s': "core_rtl_list_node_remove s pos lst = Some (s', lst', it s pos)"
    "taken_out s a pos b s' lst'" "dom s' = dom s"
    using node_remove_ring [OF r] by blast
  have pos: "pos \<in> dom s" "pos \<noteq> NULL" "pos \<notin> set (a @ b)" using r by (auto simp: ring_def cyc_def)
  have "free_node s' pos = Some (s'(pos := None))" using pos s'(3) by (auto simp: free_node_def)
  moreover have "taken_out s a pos b (s'(pos := None)) lst'"
    using s'(2) pos cyc_cong [of "a @ b" "s'(pos := None)" s', OF fun_upd_other] by (auto simp: taken_out_def ring_def list_items_def)
  ultimately show ?thesis using s' pos by (auto simp: remove_node_remove)
qed

subsection \<open>Destroying and joining\<close>

lemma list_destroy_loop_frees:
  assumes "successively (linked s) (p # r)" "nx s (last (p # r)) = lst" "lst \<notin> set r" "distinct (p # r)"
    "set (p # r) \<subseteq> dom s" "\<And>q. q \<in> set (p # r) \<Longrightarrow> t q = s q"
  shows "list_destroy_loop t lst p d calls =
    Some (\<lambda>q. if q \<in> set (p # r) then None else t q, calls @ (if d then list_items s (p # r) else []))"
  using assms
proof (induction r arbitrary: p t calls)
  case Nil
  then obtain n where n: "t p = Some n" "s p = Some n" by force
  then have "p_next n = lst" using Nil by simp
  then show ?case using n
    by (subst list_destroy_loop.simps) (auto simp: field_defs list_items_def fun_eq_iff)
next
  case (Cons p' r)
  then obtain n where n: "t p = Some n" "s p = Some n" by force
  have nx: "p_next n = p'" using Cons.prems(1) n by (simp add: linked_def)
  let ?t = "t(p := None)" and ?calls = "if d then calls @ [p_item n] else calls"
  have IH: "list_destroy_loop ?t lst p' d ?calls =
    Some (\<lambda>q. if q \<in> set (p' # r) then None else ?t q, ?calls @ (if d then list_items s (p' # r) else []))"
    using Cons.prems by (intro Cons.IH) auto
  have "list_destroy_loop t lst p d calls = list_destroy_loop ?t lst p' d ?calls"
    using n nx Cons.prems(3) by (subst list_destroy_loop.simps) (auto simp: field_defs Let_def)
  also note IH
  finally show ?case using n by (auto simp: list_items_def fun_eq_iff)
qed

lemma list_destroy_ring:
  assumes "ring s lst ns"
  shows "core_rtl_list_destroy s lst d =
    Some (\<lambda>q. if q \<in> set ns then None else s q, NULL, if d then list_items s ns else [])"
proof (cases ns)
  case Nil
  then show ?thesis using assms by (simp add: ring_def core_rtl_list_destroy_def list_items_def)
next
  case (Cons x xs)
  have "list_destroy_loop s lst x d [] =
    Some (\<lambda>q. if q \<in> set (x # xs) then None else s q, [] @ (if d then list_items s (x # xs) else []))"
    using assms unfolding ring_def cyc_def Cons
    by (intro list_destroy_loop_frees) (auto simp: linked_def simp del: last.simps)
  then show ?thesis using assms by (auto simp: Cons ring_def cyc_def core_rtl_list_destroy_def)
qed

text \<open>What the allocator may return in the rounds of a join: \<^verbatim>\<open>NULL\<close> or a node that is not live.\<close>

fun join_allocs :: "ptr set \<Rightarrow> ptr list \<Rightarrow> ptr list \<Rightarrow> bool" where
  "join_allocs live [] al \<longleftrightarrow> True"
| "join_allocs live (n # ns) [] \<longleftrightarrow> False"
| "join_allocs live (n # ns) (a # al) \<longleftrightarrow>
     (a = NULL \<or> a \<notin> live - {n}) \<and> join_allocs (if a = NULL then live - {n} else insert a (live - {n})) ns al"

definition joined_items :: "ptr list \<Rightarrow> ptr list \<Rightarrow> ptr list" where
  "joined_items xs allocs = [x. (x, a) \<leftarrow> zip xs allocs, a \<noteq> NULL]"

lemma ring_frame: "ring s lst ns \<Longrightarrow> (\<And>p. p \<in> set ns \<Longrightarrow> s' p = s p) \<Longrightarrow> ring s' lst ns \<and> list_items s' ns = list_items s ns"
  using cyc_cong [of ns s' s] by (auto simp: ring_def list_items_def)

lemma ring_dom: "ring s lst ns \<Longrightarrow> set ns \<subseteq> dom s"
  by (simp add: ring_def cyc_def)

lemma list_join_ring:
  assumes "ring s src ns" "ring s dest ds" "set ns \<inter> set ds = {}" "join_allocs (dom s) ns allocs"
  shows "\<exists>s' dest' ds'. core_rtl_list_join s src dest allocs = Some (s', NULL, dest') \<and> ring s' dest' ds' \<and>
    list_items s' ds' = list_items s ds @ joined_items (list_items s ns) allocs"
  using assms
proof (induction ns arbitrary: s src dest ds allocs)
  case Nil
  then show ?case by (subst core_rtl_list_join.simps) (auto simp: ring_def list_items_def joined_items_def)
next
  case (Cons n ns)
  have src: "src = n" "n \<noteq> NULL" using Cons.prems(1) by (auto simp: ring_def cyc_def)
  obtain a al where al: "allocs = a # al" using Cons.prems(4) by (cases allocs) auto
  obtain s1 src1 where s1: "core_rtl_list_remove s n src = Some (s1, src1, it s n)"
    "taken_out s [] n ns s1 src1" "dom s1 = dom s - {n}"
    using remove_ring [of s src "[]" n ns] Cons.prems(1) by auto
  have r1: "ring s1 src1 ns" "list_items s1 ns = list_items s ns" using s1(2) by (simp_all add: taken_out_def)
  have "s1 p = s p" if "p \<in> set ds" for p
    using s1(2) Cons.prems(3) that by (auto simp: taken_out_def)
  with Cons.prems(2) have d1: "ring s1 dest ds" "list_items s1 ds = list_items s ds"
    using ring_frame by blast+
  show ?case
  proof (cases "a = NULL")
    case True
    then have "core_rtl_list_join s src dest allocs = core_rtl_list_join s1 src1 dest al"
      using s1(1) src by (subst core_rtl_list_join.simps) (simp add: al core_rtl_list_insert_after_def)
    moreover have "joined_items (list_items s (n # ns)) allocs = joined_items (list_items s1 ns) al"
      by (simp add: True al joined_items_def r1(2)) (simp add: list_items_def True)
    ultimately show ?thesis using Cons.IH [OF r1(1) d1(1), of al] Cons.prems(3,4) True s1(3) d1(2)
      by (simp add: al)
  next
    case False
    then have a: "a \<notin> dom s1" using Cons.prems(4) s1(3) by (auto simp: al)
    obtain s2 dest2 where s2: "core_rtl_list_insert_after s1 NULL dest (it s n) a = Some (s2, dest2, a)"
      "inserted s1 ds a (it s n) [] s2 dest2"
      using insert_after_ring [of s1 dest ds "[]" NULL a "it s n"] d1 a False by auto
    have "a \<notin> set ns" using a ring_dom [OF r1(1)] by auto
    then have "s2 p = s1 p" if "p \<in> set ns" for p
      using s2(2) Cons.prems(3) that by (auto simp: inserted_def)
    with r1 have r2: "ring s2 src1 ns" "list_items s2 ns = list_items s ns"
      using ring_frame by metis+
    have "core_rtl_list_join s src dest allocs = core_rtl_list_join s2 src1 dest2 al"
      using s1(1) s2(1) src by (subst core_rtl_list_join.simps) (simp add: al)
    moreover have "\<exists>s' dest' ds'. core_rtl_list_join s2 src1 dest2 al = Some (s', NULL, dest') \<and> ring s' dest' ds' \<and>
      list_items s' ds' = list_items s2 (ds @ [a]) @ joined_items (list_items s2 ns) al"
      using s2(2) Cons.prems(3,4) False s1(3) \<open>a \<notin> set ns\<close>
      by (intro Cons.IH [OF r2(1)]) (auto simp: al inserted_def)
    moreover have "list_items s2 (ds @ [a]) = list_items s ds @ [it s n]"
      using s2(2) d1(2) by (simp add: inserted_def) (simp add: list_items_def)
    moreover have "joined_items (list_items s (n # ns)) allocs = it s n # joined_items (list_items s2 ns) al"
      by (simp add: False al joined_items_def r2(2)) (simp add: list_items_def False)
    ultimately show ?thesis by simp
  qed
qed


subsection \<open>Properties\<close>

text \<open>
  \<^verbatim>\<open>core_rtl_list_insert_before\<close> puts the new node before \<open>pos\<close>, or in front of the list for
  \<^verbatim>\<open>NULL\<close>, keeps the ring and the items of the other nodes and touches no other node; with a failed
  allocation it returns \<^verbatim>\<open>NULL\<close> and changes nothing. \<^verbatim>\<open>core_rtl_list_insert_node_before\<close> does the
  same with a node of the caller, whose item it keeps.
\<close>

theorem core_rtl_list_insert_before_inserts:
  assumes "ring s lst (a @ b)" and "pos = NULL \<and> a = [] \<or> b \<noteq> [] \<and> pos = hd b"
  shows "core_rtl_list_insert_before s pos lst item NULL = Some (s, lst, NULL) \<and>
    (new \<noteq> NULL \<and> new \<notin> dom s \<longrightarrow>
      (\<exists>s' lst'. core_rtl_list_insert_before s pos lst item new = Some (s', lst', new) \<and>
        inserted s a new item b s' lst')) \<and>
    (new \<noteq> NULL \<and> new \<in> dom s \<and> new \<notin> set (a @ b) \<longrightarrow>
      (\<exists>s' lst'. core_rtl_list_insert_node_before s pos lst new = Some (s', lst', new) \<and>
        inserted s a new (p_item (the (s new))) b s' lst'))"
  using insert_before_ring [OF assms] insert_node_before_ring [OF assms]
  by (simp add: core_rtl_list_insert_before_def)

theorem core_rtl_list_insert_before_inserts_witness:
  "\<exists>s' lst'. core_rtl_list_insert_before [8 \<mapsto> \<lparr>p_prev = 8, p_next = 8, p_item = 1\<rparr>] 8 8 2 16 = Some (s', lst', 16) \<and>
    ring s' lst' [16, 8] \<and> list_items s' [16, 8] = [2, 1]"
  using core_rtl_list_insert_before_inserts [of "[8 \<mapsto> \<lparr>p_prev = 8, p_next = 8, p_item = 1\<rparr>]" 8 "[]" "[8]" 8 2 16]
  by (auto simp: ring_def cyc_def linked_def inserted_def list_items_def)

text \<open>
  \<^verbatim>\<open>core_rtl_list_insert_after\<close> puts the new node after \<open>pos\<close>, or at the end of the list for
  \<^verbatim>\<open>NULL\<close>, with the same guarantees, and so does \<^verbatim>\<open>core_rtl_list_insert_node_after\<close>.
\<close>

theorem core_rtl_list_insert_after_inserts:
  assumes "ring s lst (a @ b)" and "pos = NULL \<and> b = [] \<or> a \<noteq> [] \<and> pos = last a"
  shows "core_rtl_list_insert_after s pos lst item NULL = Some (s, lst, NULL) \<and>
    (new \<noteq> NULL \<and> new \<notin> dom s \<longrightarrow>
      (\<exists>s' lst'. core_rtl_list_insert_after s pos lst item new = Some (s', lst', new) \<and>
        inserted s a new item b s' lst')) \<and>
    (new \<noteq> NULL \<and> new \<in> dom s \<and> new \<notin> set (a @ b) \<longrightarrow>
      (\<exists>s' lst'. core_rtl_list_insert_node_after s pos lst new = Some (s', lst', new) \<and>
        inserted s a new (p_item (the (s new))) b s' lst'))"
  using insert_after_ring [OF assms] insert_node_after_ring [OF assms]
  by (simp add: core_rtl_list_insert_after_def)

theorem core_rtl_list_insert_after_inserts_witness:
  "\<exists>s' lst'. core_rtl_list_insert_after [8 \<mapsto> \<lparr>p_prev = 8, p_next = 8, p_item = 1\<rparr>] 8 8 2 16 = Some (s', lst', 16) \<and>
    ring s' lst' [8, 16] \<and> list_items s' [8, 16] = [1, 2]"
  using core_rtl_list_insert_after_inserts [of "[8 \<mapsto> \<lparr>p_prev = 8, p_next = 8, p_item = 1\<rparr>]" 8 "[8]" "[]" 8 2 16]
  by (auto simp: ring_def cyc_def linked_def inserted_def list_items_def)

text \<open>
  C38. \<^verbatim>\<open>core_rtl_list_remove\<close> takes the node out of the ring, returns its item, frees it and leaves
  the rest as it was; \<^verbatim>\<open>core_rtl_list_node_remove\<close> does not free it.
\<close>

theorem core_rtl_list_remove_removes:
  assumes "ring s lst (a @ pos # b)"
  shows "(\<exists>s' lst'. core_rtl_list_remove s pos lst = Some (s', lst', p_item (the (s pos))) \<and>
      taken_out s a pos b s' lst' \<and> dom s' = dom s - {pos}) \<and>
    (\<exists>s' lst'. core_rtl_list_node_remove s pos lst = Some (s', lst', p_item (the (s pos))) \<and>
      taken_out s a pos b s' lst' \<and> dom s' = dom s)"
  using remove_ring [OF assms] node_remove_ring [OF assms] by blast

theorem core_rtl_list_remove_removes_witness:
  "\<exists>s' lst'. core_rtl_list_remove [8 \<mapsto> \<lparr>p_prev = 16, p_next = 16, p_item = 1\<rparr>, 16 \<mapsto> \<lparr>p_prev = 8, p_next = 8, p_item = 2\<rparr>] 8 8 =
    Some (s', lst', 1) \<and> ring s' lst' [16]"
  using core_rtl_list_remove_removes [of "[8 \<mapsto> \<lparr>p_prev = 16, p_next = 16, p_item = 1\<rparr>, 16 \<mapsto> \<lparr>p_prev = 8, p_next = 8, p_item = 2\<rparr>]" 8 "[]" 8 "[16]"]
  by (auto simp: ring_def cyc_def linked_def taken_out_def list_items_def)

text \<open>
  \<^verbatim>\<open>core_rtl_list_destroy\<close> returns, frees every node of the list and no other, empties the list
  and calls the destroyer on the items in order.
\<close>

theorem core_rtl_list_destroy_frees:
  assumes "ring s lst ns"
  shows "core_rtl_list_destroy s lst has_destroier =
    Some (\<lambda>q. if q \<in> set ns then None else s q, NULL, if has_destroier then list_items s ns else [])"
  using assms by (rule list_destroy_ring)

theorem core_rtl_list_destroy_frees_witness:
  "\<exists>s'. core_rtl_list_destroy [8 \<mapsto> \<lparr>p_prev = 16, p_next = 16, p_item = 1\<rparr>, 16 \<mapsto> \<lparr>p_prev = 8, p_next = 8, p_item = 2\<rparr>] 8 True =
    Some (s', NULL, [1, 2])"
  using core_rtl_list_destroy_frees [of "[8 \<mapsto> \<lparr>p_prev = 16, p_next = 16, p_item = 1\<rparr>, 16 \<mapsto> \<lparr>p_prev = 8, p_next = 8, p_item = 2\<rparr>]" 8 "[8, 16]" True]
  by (simp add: ring_def cyc_def linked_def list_items_def)

text \<open>
  \<^verbatim>\<open>core_rtl_list_join\<close> returns with the source empty and its items appended to the destination
  in order; an item for which no node could be allocated is in neither list afterwards.
\<close>

theorem core_rtl_list_join_appends:
  assumes "ring s src ns" and "ring s dest ds" and "set ns \<inter> set ds = {}" and "join_allocs (dom s) ns allocs"
  shows "\<exists>s' dest' ds'. core_rtl_list_join s src dest allocs = Some (s', NULL, dest') \<and> ring s' dest' ds' \<and>
    list_items s' ds' = list_items s ds @ [x. (x, a) \<leftarrow> zip (list_items s ns) allocs, a \<noteq> NULL]"
  using list_join_ring [OF assms] by (simp add: joined_items_def)

theorem core_rtl_list_join_appends_witness:
  "\<exists>s' dest' ds'. core_rtl_list_join [8 \<mapsto> \<lparr>p_prev = 8, p_next = 8, p_item = 1\<rparr>, 16 \<mapsto> \<lparr>p_prev = 16, p_next = 16, p_item = 2\<rparr>] 8 16 [24] =
    Some (s', NULL, dest') \<and> ring s' dest' ds' \<and> list_items s' ds' = [2, 1]"
  using core_rtl_list_join_appends [of "[8 \<mapsto> \<lparr>p_prev = 8, p_next = 8, p_item = 1\<rparr>, 16 \<mapsto> \<lparr>p_prev = 16, p_next = 16, p_item = 2\<rparr>]" 8 "[8]" 16 "[16]" "[24]"]
  by (simp add: ring_def cyc_def linked_def list_items_def)

end
