(* ===== verification/ItemCompare.thy ===== *)
theory ItemCompare
  imports RtlStrProofs
begin

text \<open>
  The contract of an \<^verbatim>\<open>item_compare_t\<close> callback (\<^verbatim>\<open>kernel/core/rtl/container/container_defs.h\<close>):
  its sign is a total preorder on the items it is used for. The sorting of lists and the maps
  are proved inside this contract; \<^verbatim>\<open>core_rtl_strcmp\<close> fulfils it on C strings.
\<close>

subsection \<open>The contract of a compare callback\<close>

locale item_compare =
  fixes carrier :: "ptr set" and compare :: "ptr \<Rightarrow> ptr \<Rightarrow> int"
  assumes compare_swap: "x \<in> carrier \<Longrightarrow> y \<in> carrier \<Longrightarrow> compare x y < 0 \<longleftrightarrow> compare y x > 0"
    and compare_trans: "x \<in> carrier \<Longrightarrow> y \<in> carrier \<Longrightarrow> z \<in> carrier \<Longrightarrow>
      compare x y \<le> 0 \<Longrightarrow> compare y z \<le> 0 \<Longrightarrow> compare x z \<le> 0"
begin

lemma compare_refl: "x \<in> carrier \<Longrightarrow> compare x x = 0"
  using compare_swap [of x x] by linarith

lemma compare_ge: "x \<in> carrier \<Longrightarrow> y \<in> carrier \<Longrightarrow> 0 \<le> compare x y \<longleftrightarrow> compare y x \<le> 0"
  using compare_swap [of x y] by linarith

lemma compare_le: "x \<in> carrier \<Longrightarrow> y \<in> carrier \<Longrightarrow> compare x y \<le> 0 \<longleftrightarrow> 0 \<le> compare y x"
  using compare_swap [of y x] by linarith

lemma compare_b2s: "item_compare carrier (\<lambda>x y. if b then - compare x y else compare x y)"
proof (cases b)
  case True
  show ?thesis
  proof
    fix x y z assume m: "x \<in> carrier" "y \<in> carrier" "z \<in> carrier"
    show "(if b then - compare x y else compare x y) < 0 \<longleftrightarrow> 0 < (if b then - compare y x else compare y x)"
      using compare_swap [of y x] m True by simp
    assume "(if b then - compare x y else compare x y) \<le> 0" "(if b then - compare y z else compare y z) \<le> 0"
    then have "compare z y \<le> 0" "compare y x \<le> 0" using m True by (simp_all add: compare_ge)
    then show "(if b then - compare x z else compare x z) \<le> 0"
      using compare_trans [of z y x] m True by (simp add: compare_ge)
  qed
next
  case False
  then show ?thesis using item_compare_axioms by simp
qed

end

lemma item_compare_cong:
  assumes "item_compare A f" "\<And>x y. x \<in> A \<Longrightarrow> y \<in> A \<Longrightarrow> g x y = f x y"
  shows "item_compare A g"
proof
  fix x y z assume m: "x \<in> A" "y \<in> A" "z \<in> A"
  show "g x y < 0 \<longleftrightarrow> 0 < g y x" using item_compare.compare_swap [OF assms(1)] assms(2) m by simp
  assume "g x y \<le> 0" "g y z \<le> 0"
  then show "g x z \<le> 0" using item_compare.compare_trans [OF assms(1) m] assms(2) m by simp
qed

subsection \<open>core\_rtl\_strcmp as a callback\<close>

interpretation string_order: item_compare "{p. \<exists>s. cstr m p s}" "core_rtl_strcmp m" for m
proof
  fix p q
  assume "p \<in> {p. \<exists>s. cstr m p s}" "q \<in> {p. \<exists>s. cstr m p s}"
  then obtain s t where "cstr m p s" "cstr m q t" by blast
  then show "core_rtl_strcmp m p q < 0 \<longleftrightarrow> 0 < core_rtl_strcmp m q p"
    using str_diff_swap [of s t] by (simp add: strcmp_str)
next
  fix p q r
  assume "p \<in> {p. \<exists>s. cstr m p s}" "q \<in> {p. \<exists>s. cstr m p s}" "r \<in> {p. \<exists>s. cstr m p s}"
  then obtain s t u where c: "cstr m p s" "cstr m q t" "cstr m r u" by blast
  assume "core_rtl_strcmp m p q \<le> 0" "core_rtl_strcmp m q r \<le> 0"
  then show "core_rtl_strcmp m p r \<le> 0"
    using str_diff_trans [of s t u] str_diff_0 [of s t] str_diff_0 [of t u] c [THEN cstr_nonzero]
    by (auto simp: strcmp_str [OF c(1,2)] strcmp_str [OF c(2,3)] strcmp_str [OF c(1,3)] le_less)
qed

end
