(* ===== verification/RtlListSort.thy ===== *)
theory RtlListSort
  imports RtlListProofs ItemCompare "HOL-Library.Multiset"
begin

text \<open>
  \<^verbatim>\<open>core_rtl_list_qsort\<close> sorts. The nodes of the list stay where they are and the items move
  (\<open>items_at\<close>); the two inner loops, the partition and the recursion are each characterised by
  positions in the ring.
\<close>

subsection \<open>The items of a ring, by position\<close>

definition items_at :: "nodes \<Rightarrow> ptr list \<Rightarrow> ptr list \<Rightarrow> nodes \<Rightarrow> bool" where
  "items_at s0 ns xs s \<longleftrightarrow> length xs = length ns \<and> dom s = dom s0 \<and>
     (\<forall>p. nx s p = nx s0 p) \<and> (\<forall>p. pv s p = pv s0 p) \<and> (\<forall>i < length ns. it s (ns ! i) = xs ! i) \<and>
     (\<forall>p. p \<notin> set ns \<longrightarrow> s p = s0 p)"

lemma cyc_nth:
  assumes "cyc s ns"
  shows "i < length ns \<Longrightarrow> ns ! i \<in> dom s" "Suc i < length ns \<Longrightarrow> nx s (ns ! i) = ns ! Suc i"
    "Suc i < length ns \<Longrightarrow> pv s (ns ! Suc i) = ns ! i" "i < length ns \<Longrightarrow> nx s (ns ! i) \<in> dom s"
    "i < length ns \<Longrightarrow> pv s (ns ! i) \<in> dom s" "i < length ns \<Longrightarrow> j < length ns \<Longrightarrow> ns ! i = ns ! j \<longleftrightarrow> i = j"
proof -
  have sub: "ns ! k \<in> dom s" if "k < length ns" for k using assms that unfolding cyc_def by (meson nth_mem subsetD)
  have suc: "linked s (ns ! k) (ns ! Suc k)" if "Suc k < length ns" for k
    using assms that unfolding cyc_def successively_conv_nth by blast
  have ends: "linked s (ns ! (length ns - 1)) (ns ! 0)" if "ns \<noteq> []"
    using assms that by (simp add: cyc_def last_conv_nth hd_conv_nth)
  show "i < length ns \<Longrightarrow> ns ! i \<in> dom s" by (rule sub)
  show "Suc i < length ns \<Longrightarrow> nx s (ns ! i) = ns ! Suc i" "Suc i < length ns \<Longrightarrow> pv s (ns ! Suc i) = ns ! i"
    using suc by (simp_all add: linked_def)
  show "nx s (ns ! i) \<in> dom s" if i: "i < length ns"
  proof (cases "Suc i < length ns")
    case True then show ?thesis using suc sub by (simp add: linked_def)
  next
    case False
    then have "i = length ns - 1" "ns \<noteq> []" using i by auto
    then show ?thesis using ends sub [of 0] by (simp add: linked_def)
  qed
  show "pv s (ns ! i) \<in> dom s" if i: "i < length ns"
  proof (cases i)
    case (Suc k) then show ?thesis using suc [of k] sub [of k] i by (simp add: linked_def)
  next
    case 0
    then have "ns \<noteq> []" using i by auto
    then show ?thesis using 0 ends sub [of "length ns - 1"] by (simp add: linked_def)
  qed
  show "i < length ns \<Longrightarrow> j < length ns \<Longrightarrow> ns ! i = ns ! j \<longleftrightarrow> i = j"
    using assms by (simp add: cyc_def nth_eq_iff_index_eq)
qed

lemma items_at_get:
  assumes "cyc s0 ns" "items_at s0 ns xs s" "i < length ns"
  shows "get_item s (ns ! i) = Some (xs ! i)" "get_next s (ns ! i) = Some (nx s0 (ns ! i))"
    "get_prev s (ns ! i) = Some (pv s0 (ns ! i))"
proof -
  have "ns ! i \<in> dom s" using cyc_nth(1) [OF assms(1,3)] assms(2) by (simp add: items_at_def)
  then obtain n where n: "s (ns ! i) = Some n" by blast
  have "p_item n = xs ! i" "p_next n = nx s0 (ns ! i)" "p_prev n = pv s0 (ns ! i)"
    using assms(2,3) n unfolding items_at_def by (metis option.sel)+
  with n show "get_item s (ns ! i) = Some (xs ! i)" "get_next s (ns ! i) = Some (nx s0 (ns ! i))"
    "get_prev s (ns ! i) = Some (pv s0 (ns ! i))" by (simp_all add: field_defs)
qed

lemma set_item_at:
  assumes "cyc s0 ns" "items_at s0 ns xs s" "i < length ns"
  shows "\<exists>s'. set_item s (ns ! i) v = Some s' \<and> items_at s0 ns (xs[i := v]) s'"
proof -
  have "ns ! i \<in> dom s" using cyc_nth(1) [OF assms(1,3)] assms(2) by (simp add: items_at_def)
  then obtain n where n: "s (ns ! i) = Some n" by blast
  have "items_at s0 ns (xs[i := v]) (s(ns ! i \<mapsto> n\<lparr>p_item := v\<rparr>))"
    using assms(2,3) n cyc_nth(6) [OF assms(1)] unfolding items_at_def
    by (auto simp: nth_list_update) (metis option.sel)+
  with n show ?thesis by (simp add: set_item_def)
qed

lemma swap_items_at:
  assumes "cyc s0 ns" "items_at s0 ns xs s" "i < length ns" "j < length ns"
  shows "\<exists>s'. swap_items s (ns ! i) (ns ! j) = Some s' \<and> items_at s0 ns (xs[i := xs ! j, j := xs ! i]) s'"
proof -
  obtain s1 where s1: "set_item s (ns ! i) (xs ! j) = Some s1" "items_at s0 ns (xs[i := xs ! j]) s1"
    using set_item_at [OF assms(1-3)] by blast
  then show ?thesis using set_item_at [OF assms(1) s1(2) assms(4), of "xs ! i"] items_at_get(1) [OF assms(1,2)] assms(3,4)
    by (simp add: swap_items_def)
qed

lemma qsort_back_at:
  assumes "cyc s0 ns" "items_at s0 ns xs s" "i \<le> j" "j < length ns"
  shows "\<exists>k. i \<le> k \<and> k \<le> j \<and> qsort_back s cmp key (ns ! i) (ns ! j) = Some (ns ! k) \<and>
    (\<forall>m. k < m \<and> m \<le> j \<longrightarrow> 0 \<le> cmp (xs ! m) key) \<and> (k = i \<or> cmp (xs ! k) key < 0)"
  using assms(3,4)
proof (induction "j - i" arbitrary: j)
  case 0
  then have "i = j" by simp
  then show ?case by (subst qsort_back.simps) auto
next
  case (Suc d)
  then obtain j' where j': "j = Suc j'" "i \<le> j'" "d = j' - i" by (cases j) auto
  note g = items_at_get [OF assms(1,2) Suc.prems(2)]
  have "pv s0 (ns ! j) = ns ! j'" using cyc_nth(3) [OF assms(1), of j'] Suc.prems j' by simp
  then have step: "qsort_back s cmp key (ns ! i) (ns ! j) =
      (if cmp (xs ! j) key < 0 then Some (ns ! j) else qsort_back s cmp key (ns ! i) (ns ! j'))"
    using g j' Suc.prems cyc_nth(6) [OF assms(1), of i j] by (subst qsort_back.simps) auto
  show ?case
  proof (cases "cmp (xs ! j) key < 0")
    case True
    then show ?thesis using step Suc.prems by auto
  next
    case False
    obtain k where "i \<le> k" "k \<le> j'" "qsort_back s cmp key (ns ! i) (ns ! j') = Some (ns ! k)"
      "\<forall>m. k < m \<and> m \<le> j' \<longrightarrow> 0 \<le> cmp (xs ! m) key" "k = i \<or> cmp (xs ! k) key < 0"
      using Suc.hyps(1) [OF j'(3)] j' Suc.prems by auto
    then show ?thesis using False step j'(1) by (intro exI [of _ k]) (auto simp: le_Suc_eq)
  qed
qed

lemma qsort_front_at:
  assumes "cyc s0 ns" "items_at s0 ns xs s" "i \<le> j" "j < length ns"
  shows "\<exists>k. i \<le> k \<and> k \<le> j \<and> qsort_front s cmp key (ns ! i) (ns ! j) = Some (ns ! k) \<and>
    (\<forall>m. i \<le> m \<and> m < k \<longrightarrow> cmp (xs ! m) key \<le> 0) \<and> (k = j \<or> 0 < cmp (xs ! k) key)"
  using assms(3)
proof (induction "j - i" arbitrary: i)
  case 0
  then have "i = j" by simp
  then show ?case by (subst qsort_front.simps) auto
next
  case (Suc d)
  then have i: "d = j - Suc i" "Suc i \<le> j" "i < length ns" "Suc i < length ns" using assms(4) by auto
  note g = items_at_get [OF assms(1,2) i(3)]
  have "nx s0 (ns ! i) = ns ! Suc i" using cyc_nth(2) [OF assms(1) i(4)] .
  then have step: "qsort_front s cmp key (ns ! i) (ns ! j) =
      (if 0 < cmp (xs ! i) key then Some (ns ! i) else qsort_front s cmp key (ns ! Suc i) (ns ! j))"
    using g i assms(4) cyc_nth(6) [OF assms(1), of i j] by (subst qsort_front.simps) auto
  show ?case
  proof (cases "0 < cmp (xs ! i) key")
    case True
    then show ?thesis using step Suc.prems by auto
  next
    case False
    obtain k where "Suc i \<le> k" "k \<le> j" "qsort_front s cmp key (ns ! Suc i) (ns ! j) = Some (ns ! k)"
      "\<forall>m. Suc i \<le> m \<and> m < k \<longrightarrow> cmp (xs ! m) key \<le> 0" "k = j \<or> 0 < cmp (xs ! k) key"
      using Suc.hyps(1) [OF i(1,2)] by blast
    moreover have "cmp (xs ! m) key \<le> 0" if "i \<le> m" "m < k" for m
      using False calculation(4) that by (cases "m = i") auto
    ultimately show ?thesis using False step by (intro exI [of _ k]) auto
  qed
qed

text \<open>A rearrangement of positions \<open>i\<close> to \<open>j\<close> only.\<close>

definition rearranged :: "nat \<Rightarrow> nat \<Rightarrow> ptr list \<Rightarrow> ptr list \<Rightarrow> bool" where
  "rearranged i j xs ys \<longleftrightarrow> mset xs = mset ys \<and> (\<forall>m. m < i \<or> j < m \<longrightarrow> ys ! m = xs ! m)"

lemma rearranged_refl: "rearranged i j xs xs"
  by (simp add: rearranged_def)

lemma rearranged_trans:
  "rearranged i j xs ys \<Longrightarrow> rearranged i' j' ys zs \<Longrightarrow> i \<le> i' \<Longrightarrow> j' \<le> j \<Longrightarrow> rearranged i j xs zs"
  by (auto simp: rearranged_def)

lemma rearranged_swap:
  "i \<le> k \<Longrightarrow> k \<le> j \<Longrightarrow> i \<le> l \<Longrightarrow> l \<le> j \<Longrightarrow> j < length xs \<Longrightarrow> rearranged i j xs (xs[k := xs ! l, l := xs ! k])"
  by (auto simp: rearranged_def mset_swap nth_list_update)

lemma rearranged_set:
  assumes "rearranged i j xs ys" "j < length xs" "i \<le> m" "m \<le> j"
  shows "\<exists>m'. i \<le> m' \<and> m' \<le> j \<and> ys ! m = xs ! m'"
proof -
  have len: "length ys = length xs" using assms(1) unfolding rearranged_def by (metis mset_eq_length)
  have split: "zs = take i zs @ drop i (take (Suc j) zs) @ drop (Suc j) zs" for zs :: "ptr list"
  proof -
    have "take (Suc j) zs = take i zs @ drop i (take (Suc j) zs)"
      using assms(3,4) append_take_drop_id [of i "take (Suc j) zs"] by (simp add: min_def)
    then show ?thesis using append_take_drop_id [of "Suc j" zs] by (metis append_assoc)
  qed
  have "take i ys = take i xs" "drop (Suc j) ys = drop (Suc j) xs"
    using assms len by (auto simp: rearranged_def intro!: nth_equalityI)
  moreover have "mset (take i xs @ drop i (take (Suc j) xs) @ drop (Suc j) xs) =
      mset (take i ys @ drop i (take (Suc j) ys) @ drop (Suc j) ys)"
    using assms(1) by (simp only: split [symmetric] rearranged_def)
  ultimately have "mset (drop i (take (Suc j) xs)) = mset (drop i (take (Suc j) ys))"
    by (simp only: mset_append add_left_cancel add_right_cancel)
  then have "set (drop i (take (Suc j) xs)) = set (drop i (take (Suc j) ys))" by (rule mset_eq_setD)
  moreover have "ys ! m \<in> set (drop i (take (Suc j) ys))"
    using assms len by (auto simp: in_set_conv_nth intro!: exI [of _ "m - i"])
  ultimately obtain m' where "m' < length (drop i (take (Suc j) xs))" "drop i (take (Suc j) xs) ! m' = ys ! m"
    by (metis in_set_conv_nth)
  then show ?thesis using assms(2-4) by (intro exI [of _ "i + m'"]) auto
qed

lemma qsort_partition_at:
  assumes "cyc s0 ns" "items_at s0 ns xs s" "i \<le> j" "j < length ns" "xs ! i = key" "cmp key key = 0"
  shows "\<exists>k s' ys. i \<le> k \<and> k \<le> j \<and> qsort_partition s cmp key (ns ! i) (ns ! j) = Some (s', ns ! k, ns ! k) \<and>
    items_at s0 ns ys s' \<and> rearranged i j xs ys \<and> ys ! k = key \<and>
    (\<forall>m. i \<le> m \<and> m < k \<longrightarrow> cmp (ys ! m) key \<le> 0) \<and> (\<forall>m. k < m \<and> m \<le> j \<longrightarrow> 0 \<le> cmp (ys ! m) key)"
  using assms(2-5)
proof (induction "j - i" arbitrary: i j xs s rule: less_induct)
  case less
  show ?case
  proof (cases "i = j")
    case True
    then have "qsort_partition s cmp key (ns ! i) (ns ! j) = Some (s, ns ! i, ns ! i)"
      by (subst qsort_partition.simps) simp
    then show ?thesis using less.prems True rearranged_refl [of i j xs]
      by (intro exI [of _ i] exI [of _ s] exI [of _ xs]) auto
  next
    case False
    note c = cyc_nth [OF assms(1)]
    obtain b where b: "i \<le> b" "b \<le> j" "qsort_back s cmp key (ns ! i) (ns ! j) = Some (ns ! b)"
      "\<And>m. b < m \<Longrightarrow> m \<le> j \<Longrightarrow> 0 \<le> cmp (xs ! m) key" "b = i \<or> cmp (xs ! b) key < 0"
      using qsort_back_at [OF assms(1) less.prems(1-3)] by blast
    define xs1 where "xs1 = xs[i := xs ! b, b := xs ! i]"
    have len: "length xs = length ns" using less.prems(1) by (simp add: items_at_def)
    obtain s1 where s1: "swap_items s (ns ! i) (ns ! b) = Some s1" "items_at s0 ns xs1 s1"
      using swap_items_at [OF assms(1) less.prems(1), of i b] b less.prems by (auto simp: xs1_def)
    have key1: "xs1 ! b = key" using less.prems b len by (auto simp: xs1_def nth_list_update)
    have bl: "b < length ns" using b less.prems by simp
    obtain f where f: "i \<le> f" "f \<le> b" "qsort_front s1 cmp key (ns ! i) (ns ! b) = Some (ns ! f)"
      "\<And>m. i \<le> m \<Longrightarrow> m < f \<Longrightarrow> cmp (xs1 ! m) key \<le> 0" "f = b \<or> 0 < cmp (xs1 ! f) key"
      using qsort_front_at [OF assms(1) s1(2) b(1) bl] by blast
    define xs2 where "xs2 = xs1[f := xs1 ! b, b := xs1 ! f]"
    obtain s2 where s2: "swap_items s1 (ns ! f) (ns ! b) = Some s2" "items_at s0 ns xs2 s2"
      using swap_items_at [OF assms(1) s1(2), of f b] f bl by (auto simp: xs2_def)
    have step: "qsort_partition s cmp key (ns ! i) (ns ! j) = qsort_partition s2 cmp key (ns ! f) (ns ! b)"
      using False c(6) [of i j] less.prems b(3) s1(1) f(3) s2(1) by (subst qsort_partition.simps) simp
    have r2: "rearranged i j xs xs2"
      using rearranged_swap [of i i j b xs] rearranged_swap [of i f j b xs1] b f less.prems len
      by (auto simp: xs1_def xs2_def intro: rearranged_trans)
    have low: "cmp (xs2 ! m) key \<le> 0" if "i \<le> m" "m < f" for m
      using f(2,4) that by (simp add: xs2_def)
    have high: "0 \<le> cmp (xs2 ! m) key" if "b < m" "m \<le> j" for m
      using b(1,4) f(2) that by (simp add: xs2_def xs1_def)
    have "xs1 ! i = xs ! b" if "i \<noteq> b" using less.prems len that by (simp add: xs1_def)
    then have "\<not> (b = j \<and> f = i)" using b(5) f(5) False by auto
    then have prog: "b - f < j - i" using b(1,2) f(1,2) by linarith
    have "xs2 ! f = key" using key1 f(2) bl len by (auto simp: xs2_def xs1_def nth_list_update)
    then obtain k s' ys where k: "f \<le> k" "k \<le> b" "qsort_partition s2 cmp key (ns ! f) (ns ! b) = Some (s', ns ! k, ns ! k)"
      "items_at s0 ns ys s'" "rearranged f b xs2 ys" "ys ! k = key"
      "\<forall>m. f \<le> m \<and> m < k \<longrightarrow> cmp (ys ! m) key \<le> 0" "\<forall>m. k < m \<and> m \<le> b \<longrightarrow> 0 \<le> cmp (ys ! m) key"
      using less.hyps [OF prog s2(2) f(2) bl] by blast
    have "rearranged i j xs ys" using r2 k(5) f(1) b(2) by (rule rearranged_trans)
    moreover have "cmp (ys ! m) key \<le> 0" if "i \<le> m" "m < k" for m
      using k(5,7) low [of m] that by (cases "m < f") (auto simp: rearranged_def)
    moreover have "0 \<le> cmp (ys ! m) key" if "k < m" "m \<le> j" for m
      using k(5,8) high [of m] that by (cases "b < m") (auto simp: rearranged_def)
    ultimately show ?thesis using k(1-4,6) f(1) b(2) unfolding step
      by (intro exI [of _ k] exI [of _ s'] exI [of _ ys]) auto
  qed
qed


lemma qsort_adjust_step:
  assumes c: "cyc s0 ns" and k: "i \<le> k" "k \<le> j" "i < j" "j < length ns" and s: "items_at s0 ns xs s"
    and p: "qsort_partition s cmp (xs ! i) (ns ! i) (ns ! j) = Some (s1, ns ! k, ns ! k)" "items_at s0 ns y1 s1"
    and l: "(if i < k - 1 then qsort_adjust s1 cmp (ns ! i) (ns ! (k - 1)) else Some s1) = Some s2" "items_at s0 ns y2 s2"
    and r: "(if Suc k < j then qsort_adjust s2 cmp (ns ! Suc k) (ns ! j) else Some s2) = Some s3"
  shows "qsort_adjust s cmp (ns ! i) (ns ! j) = Some s3"
proof -
  note g = items_at_get [OF c s, of i] items_at_get [OF c p(2), of k] items_at_get [OF c l(2), of k]
  have less: "i < length ns" "k < length ns" using k by auto
  have left: "(if ns ! i \<noteq> pv s0 (ns ! k) \<and> ns ! i \<noteq> ns ! k then qsort_adjust s1 cmp (ns ! i) (pv s0 (ns ! k)) else Some s1) = Some s2"
  proof (cases k)
    case 0
    then show ?thesis using l(1) k by simp
  next
    case (Suc k')
    then have "pv s0 (ns ! k) = ns ! (k - 1)" using cyc_nth(3) [OF c, of k'] less by simp
    moreover have "ns ! i \<noteq> ns ! (k - 1) \<and> ns ! i \<noteq> ns ! k \<longleftrightarrow> i < k - 1"
      using cyc_nth(6) [OF c, of i "k - 1"] cyc_nth(6) [OF c, of i k] less k Suc by auto
    ultimately show ?thesis using l(1) by (simp split: if_splits)
  qed
  have right: "(if ns ! j \<noteq> nx s0 (ns ! k) \<and> ns ! j \<noteq> ns ! k then qsort_adjust s2 cmp (nx s0 (ns ! k)) (ns ! j) else Some s2) = Some s3"
  proof (cases "k = j")
    case True
    then show ?thesis using r by simp
  next
    case False
    then have "nx s0 (ns ! k) = ns ! Suc k" using cyc_nth(2) [OF c, of k] k by simp
    moreover have "ns ! j \<noteq> ns ! Suc k \<and> ns ! j \<noteq> ns ! k \<longleftrightarrow> Suc k < j"
      using cyc_nth(6) [OF c, of j "Suc k"] cyc_nth(6) [OF c, of j k] less k False by auto
    ultimately show ?thesis using r by (simp split: if_splits)
  qed
  show ?thesis using g less p(1) left right by (subst qsort_adjust.simps) simp
qed

context item_compare
begin

text \<open>The recursion, guarded as the code guards it: nothing is done for fewer than two positions.\<close>

lemma qsort_adjust_at:
  assumes "cyc s0 ns" and "items_at s0 ns xs s" and "j < length ns" and "set xs \<subseteq> carrier"
  shows "\<exists>s' ys. (if i < j then qsort_adjust s compare (ns ! i) (ns ! j) else Some s) = Some s' \<and>
    items_at s0 ns ys s' \<and> rearranged i j xs ys \<and>
    (\<forall>m m'. i \<le> m \<and> m < m' \<and> m' \<le> j \<longrightarrow> compare (ys ! m) (ys ! m') \<le> 0)"
  using assms(2-4)
proof (induction "j - i" arbitrary: i j xs s rule: less_induct)
  case less
  show ?case
  proof (cases "i < j")
    case False
    then show ?thesis using less.prems(1) rearranged_refl by auto
  next
    case True
    note c = cyc_nth [OF assms(1)]
    define key where "key = xs ! i"
    have len: "length xs = length ns" using less.prems(1) by (simp add: items_at_def)
    then have "key \<in> set xs" using less.prems(2) True by (simp add: key_def)
    then have key: "key \<in> carrier" "compare key key = 0" using less.prems(3) compare_refl by auto
    obtain k s1 y1 where k: "i \<le> k" "k \<le> j" and
      p: "qsort_partition s compare key (ns ! i) (ns ! j) = Some (s1, ns ! k, ns ! k)"
      "items_at s0 ns y1 s1" "rearranged i j xs y1" "y1 ! k = key"
      "\<And>m. i \<le> m \<Longrightarrow> m < k \<Longrightarrow> compare (y1 ! m) key \<le> 0" "\<And>m. k < m \<Longrightarrow> m \<le> j \<Longrightarrow> 0 \<le> compare (y1 ! m) key"
      using qsort_partition_at [where cmp = compare, OF assms(1) less.prems(1) less_imp_le [OF True] less.prems(2) key_def [symmetric] key(2)]
      by blast
    have sub1: "set y1 \<subseteq> carrier" using p(3) less.prems(3) unfolding rearranged_def by (metis mset_eq_setD)
    have len1: "length y1 = length ns" using p(2) by (simp add: items_at_def)
    have "k - 1 - i < j - i" "k - 1 < length ns" using k True less.prems(2) by auto
    from less.hyps [OF this(1) p(2) this(2) sub1] obtain s2 y2 where
      l: "(if i < k - 1 then qsort_adjust s1 compare (ns ! i) (ns ! (k - 1)) else Some s1) = Some s2"
      "items_at s0 ns y2 s2" "rearranged i (k - 1) y1 y2"
      "\<And>m m'. i \<le> m \<Longrightarrow> m < m' \<Longrightarrow> m' \<le> k - 1 \<Longrightarrow> compare (y2 ! m) (y2 ! m') \<le> 0" by blast
    have len2: "length y2 = length ns" using l(2) by (simp add: items_at_def)
    have sub2: "set y2 \<subseteq> carrier" using l(3) sub1 unfolding rearranged_def by (metis mset_eq_setD)
    have "j - Suc k < j - i" using k True by auto
    from less.hyps [OF this l(2) less.prems(2) sub2] obtain s3 y3 where
      r: "(if Suc k < j then qsort_adjust s2 compare (ns ! Suc k) (ns ! j) else Some s2) = Some s3"
      "items_at s0 ns y3 s3" "rearranged (Suc k) j y2 y3"
      "\<And>m m'. Suc k \<le> m \<Longrightarrow> m < m' \<Longrightarrow> m' \<le> j \<Longrightarrow> compare (y3 ! m) (y3 ! m') \<le> 0" by blast
    have low: "compare (y3 ! m) key \<le> 0" if "i \<le> m" "m < k" for m
    proof -
      have "k - 1 < length y1" "m \<le> k - 1" using that k len1 less.prems(2) by auto
      from rearranged_set [OF l(3) this(1) that(1) this(2)]
      obtain m' where "i \<le> m'" "m' \<le> k - 1" "y2 ! m = y1 ! m'" by blast
      then show ?thesis using p(5) [of m'] r(3) that by (auto simp: rearranged_def)
    qed
    have high: "0 \<le> compare (y3 ! m) key" if "k < m" "m \<le> j" for m
    proof -
      have "j < length y2" "Suc k \<le> m" using that len2 less.prems(2) by auto
      from rearranged_set [OF r(3) this that(2)]
      obtain m' where m': "Suc k \<le> m'" "m' \<le> j" "y3 ! m = y2 ! m'" by blast
      then have "y2 ! m' = y1 ! m'" using l(3) by (auto simp: rearranged_def)
      then show ?thesis using p(6) [of m'] m' by simp
    qed
    have mem: "y3 ! m \<in> carrier" if "m \<le> j" for m
      using sub2 r(2,3) that less.prems(2) unfolding rearranged_def items_at_def
      by (metis mset_eq_setD nth_mem order_le_less_trans subsetD)
    have ne: "k - 1 < length y1" using len1 k less.prems(2) by auto
    have mid: "y3 ! k = key"
    proof (cases k)
      case 0
      then show ?thesis using r(3) p(4) k rearranged_set [OF l(3) ne, of 0] by (auto simp: rearranged_def)
    next
      case (Suc n)
      then show ?thesis using r(3) l(3) p(4) by (auto simp: rearranged_def)
    qed
    have sorted: "compare (y3 ! m) (y3 ! m') \<le> 0" if "i \<le> m" "m < m'" "m' \<le> j" for m m'
    proof -
      consider "m' < k" | "k < m" | "m = k" | "m < k" "k \<le> m'" using that by linarith
      then show ?thesis
      proof cases
        case 1
        then show ?thesis using l(4) [of m m'] r(3) that by (simp add: rearranged_def)
      next
        case 2
        then show ?thesis using r(4) that by simp
      next
        case 3
        then show ?thesis using high [of m'] that mem [of m'] key(1) by (simp add: mid compare_ge)
      next
        case 4
        have "compare key (y3 ! m') \<le> 0"
          using 4 high [of m'] mid key mem [of m'] that by (cases "m' = k") (simp_all add: compare_ge)
        then show ?thesis using compare_trans [of "y3 ! m" key "y3 ! m'"] low [of m] 4 that mem key(1) by simp
      qed
    qed
    have "qsort_adjust s compare (ns ! i) (ns ! j) = Some s3"
      using qsort_adjust_step [OF assms(1) k True less.prems(2,1) p(1) [unfolded key_def] p(2) l(1,2) r(1)] .
    moreover have "rearranged i j xs y3"
      using p(3) l(3) r(3) k by (meson rearranged_trans diff_le_self le_trans le_SucI order_refl)
    ultimately show ?thesis using True r(2) sorted by auto
  qed
qed

end

lemma items_at_ring:
  assumes "ring s0 lst ns" "items_at s0 ns ys s"
  shows "ring s lst ns" "list_items s ns = ys"
proof -
  have "linked s p q \<longleftrightarrow> linked s0 p q" for p q using assms(2) by (simp add: linked_def items_at_def)
  then have "linked s = linked s0" by (intro ext)
  then show "ring s lst ns" using assms by (simp add: ring_def cyc_def items_at_def)
  show "list_items s ns = ys" using assms(2) by (auto simp: list_items_def items_at_def intro: nth_equalityI)
qed

lemma items_at_start: "items_at s ns (list_items s ns) s"
  by (simp add: items_at_def list_items_def)

context item_compare
begin

lemma qsort_adjust_sorts:
  assumes "ring s lst ns" "2 \<le> length ns" "set (list_items s ns) \<subseteq> carrier"
  shows "\<exists>s' ys. qsort_adjust s compare lst (last ns) = Some s' \<and> items_at s ns ys s' \<and>
    mset ys = mset (list_items s ns) \<and> sorted_wrt (\<lambda>x y. compare x y \<le> 0) ys"
proof -
  have c: "cyc s ns" using assms(1) by (simp add: ring_def)
  have ends: "lst = ns ! 0" "last ns = ns ! (length ns - 1)" "0 < length ns - 1"
    using assms(1,2) by (auto simp: ring_def last_conv_nth split: list.splits)
  obtain s' ys where "qsort_adjust s compare (ns ! 0) (ns ! (length ns - 1)) = Some s'" "items_at s ns ys s'"
    "rearranged 0 (length ns - 1) (list_items s ns) ys"
    "\<forall>m m'. 0 \<le> m \<and> m < m' \<and> m' \<le> length ns - 1 \<longrightarrow> compare (ys ! m) (ys ! m') \<le> 0"
    using qsort_adjust_at [OF c items_at_start _ assms(3), of "length ns - 1" 0] ends(3)
    unfolding if_P [OF ends(3)] by fastforce
  then show ?thesis unfolding ends(1,2)
    by (intro exI [of _ s'] exI [of _ ys]) (auto simp: rearranged_def sorted_wrt_iff_nth_less items_at_def)
qed

end

subsection \<open>The whole list\<close>

text \<open>Negating a C \<^verbatim>\<open>int\<close> reverses its sign unless it is the least one.\<close>

lemma sint_neg:
  assumes "w \<noteq> (0x80000000 :: u32)"
  shows "sint (- w) = - sint w"
proof -
  have "sint w \<noteq> - (2 ^ 31)"
  proof
    assume "sint w = - (2 ^ 31)"
    then have "word_of_int (sint w) = (word_of_int (- (2 ^ 31)) :: u32)" by simp
    then show False using assms by simp
  qed
  moreover have "- (2 ^ 31) \<le> sint w" "sint w < 2 ^ 31" using sint_greater_eq [of w] sint_less [of w] by simp_all
  ultimately have "signed_take_bit 31 (- sint w) = - sint w" by (intro signed_take_bit_int_eq_self) auto
  then show ?thesis by (simp add: sint_word_ariths)
qed

lemma cmp_b2s_neg: "b2s \<longrightarrow> compare x y \<noteq> 0x80000000 \<Longrightarrow> cmp_b2s compare b2s x y = (if b2s then - sint (compare x y) else sint (compare x y))"
  by (simp add: cmp_b2s_def sint_neg)

lemma list_qsort_sorts:
  assumes "item_compare A (\<lambda>x y. sint (compare x y))" "ring s lst ns" "ns \<noteq> []" "set (list_items s ns) \<subseteq> A"
    and least: "b2s \<longrightarrow> (\<forall>x \<in> A. \<forall>y \<in> A. compare x y \<noteq> 0x80000000)"
  shows "\<exists>s'. core_rtl_list_qsort s lst compare b2s = Some s' \<and> ring s' lst ns \<and>
    mset (list_items s' ns) = mset (list_items s ns) \<and>
    sorted_wrt (\<lambda>x y. cmp_b2s compare b2s x y \<le> 0) (list_items s' ns) \<and>
    (\<forall>p. p \<notin> set ns \<longrightarrow> s' p = s p)"
proof -
  have c: "cyc s ns" and lst: "lst = hd ns" "lst = ns ! 0" using assms(2,3) by (auto simp: ring_def split: list.splits)
  have "linked s (last ns) lst" "lst \<in> dom s" using c assms(3) unfolding cyc_def lst(1) by (auto intro: hd_in_set)
  then have prev: "get_prev s lst = Some (last ns)" by (auto simp: field_defs linked_def)
  have cmp: "item_compare A (cmp_b2s compare b2s)"
    using item_compare.compare_b2s [OF assms(1), of b2s] by (rule item_compare_cong) (rule cmp_b2s_neg, use least in blast)
  show ?thesis
  proof (cases "lst = last ns")
    case True
    have "length ns - 1 = 0"
      using cyc_nth(6) [OF c, of 0 "length ns - 1"] True lst(2) assms(3) by (simp add: last_conv_nth)
    then have "length ns = 1" using assms(3) by (cases ns) auto
    then have "sorted_wrt (\<lambda>x y. cmp_b2s compare b2s x y \<le> 0) (list_items s ns)"
      by (auto simp: length_Suc_conv list_items_def)
    then show ?thesis using True prev assms(2) by (simp add: core_rtl_list_qsort_def)
  next
    case False
    then have "2 \<le> length ns" using lst(1) assms(3) by (cases ns rule: remdups_adj.cases) auto
    then obtain s' ys where "qsort_adjust s (cmp_b2s compare b2s) lst (last ns) = Some s'" "items_at s ns ys s'"
      "mset ys = mset (list_items s ns)" "sorted_wrt (\<lambda>x y. cmp_b2s compare b2s x y \<le> 0) ys"
      using item_compare.qsort_adjust_sorts [OF cmp assms(2) _ assms(4)] by blast
    then show ?thesis using False prev items_at_ring [OF assms(2)]
      by (intro exI [of _ s']) (auto simp: core_rtl_list_qsort_def items_at_def)
  qed
qed

subsection \<open>Properties\<close>

text \<open>
  C21. \<^verbatim>\<open>core_rtl_list_qsort\<close> on a non-empty list returns, keeps the ring and the other nodes, permutes the
  items and leaves them in the order of the callback, or in the opposite order for \<open>b2s\<close> (the comment in
  \<^verbatim>\<open>list.h\<close> says it the other way round), for every callback whose sign is a total preorder on the items. With
  \<open>b2s\<close> the callback never returns the least \<^verbatim>\<open>int\<close>, which negation does not reverse.
\<close>

theorem core_rtl_list_qsort_sorts:
  assumes "ring s lst ns" and "ns \<noteq> []" and "set (list_items s ns) \<subseteq> A"
    and "\<forall>x \<in> A. \<forall>y \<in> A. sint (compare x y) < 0 \<longleftrightarrow> sint (compare y x) > 0"
    and "\<forall>x \<in> A. \<forall>y \<in> A. \<forall>z \<in> A. sint (compare x y) \<le> 0 \<longrightarrow> sint (compare y z) \<le> 0 \<longrightarrow> sint (compare x z) \<le> 0"
    and "b2s \<longrightarrow> (\<forall>x \<in> A. \<forall>y \<in> A. compare x y \<noteq> 0x80000000)"
  shows "\<exists>s'. core_rtl_list_qsort s lst compare b2s = Some s' \<and> ring s' lst ns \<and>
    mset (list_items s' ns) = mset (list_items s ns) \<and>
    sorted_wrt (\<lambda>x y. if b2s then sint (compare y x) \<le> 0 else sint (compare x y) \<le> 0) (list_items s' ns) \<and>
    (\<forall>p. p \<notin> set ns \<longrightarrow> s' p = s p)"
proof -
  have c: "item_compare A (\<lambda>x y. sint (compare x y))" using assms(4,5) by unfold_locales blast+
  from list_qsort_sorts [OF c assms(1-3,6)] obtain s' where s': "core_rtl_list_qsort s lst compare b2s = Some s'"
    "ring s' lst ns" "mset (list_items s' ns) = mset (list_items s ns)"
    "sorted_wrt (\<lambda>x y. cmp_b2s compare b2s x y \<le> 0) (list_items s' ns)" "\<forall>p. p \<notin> set ns \<longrightarrow> s' p = s p" by blast
  have A: "set (list_items s' ns) \<subseteq> A" using s'(3) assms(3) by (metis mset_eq_setD)
  have "if b2s then sint (compare y x) \<le> 0 else sint (compare x y) \<le> 0"
    if "x \<in> A" "y \<in> A" "cmp_b2s compare b2s x y \<le> 0" for x y
    using that assms(6) item_compare.compare_ge [OF c that(1,2)] cmp_b2s_neg [of b2s compare x y] by auto
  then have "sorted_wrt (\<lambda>x y. if b2s then sint (compare y x) \<le> 0 else sint (compare x y) \<le> 0) (list_items s' ns)"
    using s'(4) A by (elim sorted_wrt_mono_rel [rotated]) blast
  then show ?thesis using s' by blast
qed

theorem core_rtl_list_qsort_sorts_witness:
  "\<exists>s'. core_rtl_list_qsort [8 \<mapsto> \<lparr>p_prev = 16, p_next = 16, p_item = 5\<rparr>, 16 \<mapsto> \<lparr>p_prev = 8, p_next = 8, p_item = 2\<rparr>]
      8 (\<lambda>x y. if x = y then 0 else if x < y then - 1 else 1) True = Some s' \<and> mset (list_items s' [8, 16]) = {#2, 5#}"
proof -
  let ?s = "[8 \<mapsto> \<lparr>p_prev = 16, p_next = 16, p_item = 5\<rparr>, 16 \<mapsto> \<lparr>p_prev = 8, p_next = 8, p_item = 2\<rparr>] :: nodes"
  let ?cmp = "\<lambda>x y :: ptr. if x = y then 0 else if x < y then - 1 else 1 :: u32"
  have "ring ?s 8 [8, 16]" "[8, 16 :: ptr] \<noteq> []" "set (list_items ?s [8, 16]) \<subseteq> UNIV"
    "\<forall>x \<in> UNIV. \<forall>y \<in> UNIV. sint (?cmp x y) < 0 \<longleftrightarrow> sint (?cmp y x) > 0"
    "\<forall>x \<in> UNIV. \<forall>y \<in> UNIV. \<forall>z \<in> UNIV. sint (?cmp x y) \<le> 0 \<longrightarrow> sint (?cmp y z) \<le> 0 \<longrightarrow> sint (?cmp x z) \<le> 0"
    "True \<longrightarrow> (\<forall>x \<in> UNIV. \<forall>y \<in> UNIV. ?cmp x y \<noteq> 0x80000000)"
    by (auto simp: ring_def cyc_def linked_def)
  from core_rtl_list_qsort_sorts [OF this] show ?thesis by (auto simp: list_items_def add_mset_commute)
qed

text \<open>
  Sorting a list of C strings with \<^verbatim>\<open>core_rtl_strcmp\<close> puts them in the lexicographic order of
  their bytes.
\<close>

lemma str_diff_small: "\<bar>str_diff s t\<bar> < 256"
proof (induction s t rule: str_diff.induct)
  case (2 b t)
  show ?case using uint_lt2p [of b] by simp
next
  case (3 a s)
  show ?case using uint_lt2p [of a] by simp
next
  case (4 a s b t)
  have "uint a < 256" "uint b < 256" using uint_lt2p [of a] uint_lt2p [of b] by simp_all
  then have "\<bar>uint a - uint b\<bar> < 256" using uint_ge_0 [of a] uint_ge_0 [of b] by linarith
  then show ?case using 4 by simp
qed simp

lemma strcmp_sint:
  assumes "cstr m p s" "cstr m q t"
  shows "sint (word_of_int (core_rtl_strcmp m p q) :: u32) = core_rtl_strcmp m p q"
proof -
  have "- (2 ^ 31) \<le> core_rtl_strcmp m p q" "core_rtl_strcmp m p q < 2 ^ 31" using str_diff_small [of s t] strcmp_str [OF assms] by auto
  then show ?thesis by (simp add: signed_take_bit_int_eq_self signed_of_int)
qed

theorem core_rtl_list_qsort_strings:
  assumes "ring s lst ns" and "ns \<noteq> []" and "\<forall>p \<in> set (list_items s ns). cstr m p (text_of p)"
  shows "\<exists>s'. core_rtl_list_qsort s lst (\<lambda>p q. word_of_int (core_rtl_strcmp m p q)) False = Some s' \<and> ring s' lst ns \<and>
    mset (list_items s' ns) = mset (list_items s ns) \<and>
    sorted_wrt (\<lambda>p q. text_of p = text_of q \<or> (text_of p, text_of q) \<in> lexord {(x, y). x < y}) (list_items s' ns)"
proof -
  let ?cmp = "\<lambda>p q. word_of_int (core_rtl_strcmp m p q) :: u32"
  have "item_compare {p. \<exists>t. cstr m p t} (\<lambda>p q. sint (?cmp p q))"
    by (rule item_compare_cong [OF string_order.item_compare_axioms]) (auto intro: strcmp_sint)
  note c = this
  have "set (list_items s ns) \<subseteq> {p. \<exists>t. cstr m p t}" using assms(3) by auto
  from list_qsort_sorts [OF c assms(1,2) this, of False] obtain s' where s': "core_rtl_list_qsort s lst ?cmp False = Some s'" "ring s' lst ns"
    "mset (list_items s' ns) = mset (list_items s ns)"
    "sorted_wrt (\<lambda>p q. sint (?cmp p q) \<le> 0) (list_items s' ns)" by (auto simp: cmp_b2s_def)
  have t: "cstr m p (text_of p)" if "p \<in> set (list_items s' ns)" for p
    using that s'(3) assms(3) by (metis mset_eq_setD)
  have less: "text_of p = text_of q \<or> (text_of p, text_of q) \<in> lexord byte_less"
    if "p \<in> set (list_items s' ns)" "q \<in> set (list_items s' ns)" "sint (?cmp p q) \<le> 0" for p q
    using that(3) strcmp_sint [OF t [OF that(1)] t [OF that(2)]] str_diff_lexord [of "text_of p" "text_of q"] str_diff_0 [of "text_of p" "text_of q"]
      t [OF that(1), THEN cstr_nonzero] t [OF that(2), THEN cstr_nonzero]
    by (auto simp: strcmp_str [OF t [OF that(1)] t [OF that(2)]] le_less)
  have "sorted_wrt (\<lambda>p q. text_of p = text_of q \<or> (text_of p, text_of q) \<in> lexord byte_less) (list_items s' ns)"
    using s'(4) by (rule sorted_wrt_mono_rel [rotated]) (rule less)
  then show ?thesis using s'(1-3) by blast
qed

theorem core_rtl_list_qsort_strings_witness:
  "\<exists>s'. core_rtl_list_qsort [8 \<mapsto> \<lparr>p_prev = 16, p_next = 16, p_item = 50\<rparr>, 16 \<mapsto> \<lparr>p_prev = 8, p_next = 8, p_item = 60\<rparr>]
      8 (\<lambda>p q. word_of_int (core_rtl_strcmp ((\<lambda>_. 0)(50 := 66, 60 := 65)) p q)) False = Some s' \<and> mset (list_items s' [8, 16]) = {#50, 60#}"
  using core_rtl_list_qsort_strings [of "[8 \<mapsto> \<lparr>p_prev = 16, p_next = 16, p_item = 50\<rparr>, 16 \<mapsto> \<lparr>p_prev = 8, p_next = 8, p_item = 60\<rparr>]"
    8 "[8, 16]" "(\<lambda>_. 0)(50 := 66, 60 := 65)" "\<lambda>p. if p = 50 then [66] else [65]"]
  by (auto simp: ring_def cyc_def linked_def list_items_def)

end
