(* ===== verification/RtlQueue.thy ===== *)
theory RtlQueue
  imports RtlListProofs
begin

text \<open>
  The queue of \<^verbatim>\<open>kernel/core/rtl/container/queue/queue.c\<close> and the stack macros of
  \<^verbatim>\<open>kernel/core/rtl/container/stack/stack.h\<close>, both thin layers over the circular list. One
  contract (\<open>linear_container\<close>) covers both: a client's sequence of pushes and pops is proved
  once against a list, and the queue and the stack differ in the end a pop takes from.
\<close>


subsection \<open>queue.c\<close>

record queue =
  data_list :: ptr
  queue_heap :: ptr

definition core_rtl_queue_init :: "queue \<Rightarrow> ptr \<Rightarrow> queue" where
  "core_rtl_queue_init p_queue heap = p_queue\<lparr>queue_heap := heap, data_list := NULL\<rparr>"

definition core_rtl_queue_push :: "nodes \<Rightarrow> queue \<Rightarrow> ptr \<Rightarrow> ptr \<Rightarrow> (nodes \<times> queue \<times> bool) option" where
  "core_rtl_queue_push s p_queue item p_new_node =
     do {
       (s, lst, ret) \<leftarrow> core_rtl_list_insert_after s NULL (data_list p_queue) item p_new_node;
       Some (s, p_queue\<lparr>data_list := lst\<rparr>, ret \<noteq> NULL) }"

definition core_rtl_queue_pop :: "nodes \<Rightarrow> queue \<Rightarrow> (nodes \<times> queue \<times> ptr) option" where
  "core_rtl_queue_pop s p_queue =
     (if data_list p_queue = NULL then Some (s, p_queue, NULL)
      else do {
        ret \<leftarrow> get_item s (data_list p_queue);
        (s, lst, _) \<leftarrow> core_rtl_list_remove s (data_list p_queue) (data_list p_queue);
        Some (s, p_queue\<lparr>data_list := lst\<rparr>, ret) })"

definition core_rtl_queue_front :: "nodes \<Rightarrow> queue \<Rightarrow> ptr option" where
  "core_rtl_queue_front s p_queue =
     (if data_list p_queue = NULL then Some NULL else get_item s (data_list p_queue))"

definition core_rtl_queue_end :: "nodes \<Rightarrow> queue \<Rightarrow> ptr option" where
  "core_rtl_queue_end s p_queue =
     (if data_list p_queue = NULL then Some NULL
      else do { prev \<leftarrow> get_prev s (data_list p_queue); get_item s prev })"

definition core_rtl_queue_destroy :: "nodes \<Rightarrow> queue \<Rightarrow> bool \<Rightarrow> (nodes \<times> queue \<times> ptr list) option" where
  "core_rtl_queue_destroy s p_queue has_destroier =
     do {
       (s, lst, calls) \<leftarrow> core_rtl_list_destroy s (data_list p_queue) has_destroier;
       Some (s, p_queue\<lparr>data_list := lst\<rparr>, calls) }"

subsection \<open>The macros of stack.h\<close>

definition core_rtl_stack_push :: "nodes \<Rightarrow> ptr \<Rightarrow> ptr \<Rightarrow> ptr \<Rightarrow> (nodes \<times> ptr \<times> ptr) option" where
  "core_rtl_stack_push s p_stack item p_new_node =
     core_rtl_list_insert_after s NULL p_stack item p_new_node"

definition core_rtl_stack_pop :: "nodes \<Rightarrow> ptr \<Rightarrow> (nodes \<times> ptr \<times> ptr) option" where
  "core_rtl_stack_pop s p_stack =
     (if p_stack = NULL then Some (s, p_stack, NULL)
      else do { prev \<leftarrow> get_prev s p_stack; core_rtl_list_remove s prev p_stack })"

definition core_rtl_stack_top :: "nodes \<Rightarrow> ptr \<Rightarrow> ptr option" where
  "core_rtl_stack_top s p_stack =
     (if p_stack = NULL then Some NULL
      else do { prev \<leftarrow> get_prev s p_stack; get_item s prev })"

subsection \<open>The contract of a linear container\<close>

text \<open>
  The client's view: \<open>contents st xs\<close> relates a state to the list of its items, \<open>push\<close> is given
  what the allocator returned, \<open>pop\<close> takes the item that \<open>take_out\<close> picks. An allocation that
  is not \<open>failed\<close> is of an address that is not \<open>live\<close>.
\<close>

datatype container_op = Push ptr | Pop

datatype container_out = Pushed bool | Popped ptr

fun container_run ::
    "('st \<Rightarrow> ptr \<Rightarrow> ptr \<Rightarrow> ('st \<times> bool) option) \<Rightarrow> ('st \<Rightarrow> ('st \<times> ptr) option) \<Rightarrow> ('st \<Rightarrow> ptr) \<Rightarrow>
     'st \<Rightarrow> container_op list \<Rightarrow> ('st \<times> container_out list) option" where
  "container_run push pop alloc st [] = Some (st, [])"
| "container_run push pop alloc st (Push x # ops) =
     do { (st, ok) \<leftarrow> push st x (alloc st); (st, out) \<leftarrow> container_run push pop alloc st ops;
          Some (st, Pushed ok # out) }"
| "container_run push pop alloc st (Pop # ops) =
     do { (st, x) \<leftarrow> pop st; (st, out) \<leftarrow> container_run push pop alloc st ops;
          Some (st, Popped x # out) }"

text \<open>What the outputs may be, with the items left: a push may fail, a pop may not lie.\<close>

fun container_trace :: "(ptr list \<Rightarrow> ptr \<times> ptr list) \<Rightarrow> ptr list \<Rightarrow> container_op list \<Rightarrow> container_out list \<Rightarrow> ptr list option" where
  "container_trace take_out xs [] [] = Some xs"
| "container_trace take_out xs (Push x # ops) (Pushed ok # out) =
     container_trace take_out (if ok then xs @ [x] else xs) ops out"
| "container_trace take_out xs (Pop # ops) (Popped y # out) =
     (case xs of [] \<Rightarrow> if y = NULL then container_trace take_out [] ops out else None
      | _ \<Rightarrow> if y = fst (take_out xs) then container_trace take_out (snd (take_out xs)) ops out else None)"
| "container_trace take_out xs _ _ = None"

locale linear_container =
  fixes contents :: "'st \<Rightarrow> ptr list \<Rightarrow> bool"
    and live :: "'st \<Rightarrow> ptr set"
    and push :: "'st \<Rightarrow> ptr \<Rightarrow> ptr \<Rightarrow> ('st \<times> bool) option"
    and pop :: "'st \<Rightarrow> ('st \<times> ptr) option"
    and take_out :: "ptr list \<Rightarrow> ptr \<times> ptr list"
  assumes push_ok: "contents st xs \<Longrightarrow> a \<noteq> NULL \<Longrightarrow> a \<notin> live st \<Longrightarrow>
      \<exists>st'. push st x a = Some (st', True) \<and> contents st' (xs @ [x])"
    and push_failed: "contents st xs \<Longrightarrow> push st x NULL = Some (st, False)"
    and pop_some: "contents st xs \<Longrightarrow> xs \<noteq> [] \<Longrightarrow>
      \<exists>st'. pop st = Some (st', fst (take_out xs)) \<and> contents st' (snd (take_out xs))"
    and pop_none: "contents st [] \<Longrightarrow> pop st = Some (st, NULL)"
begin

lemma run_traces:
  assumes alloc: "\<And>st. alloc st = NULL \<or> alloc st \<notin> live st"
  shows "contents st xs \<Longrightarrow> \<exists>st' out xs'. container_run push pop alloc st ops = Some (st', out) \<and>
    container_trace take_out xs ops out = Some xs' \<and> contents st' xs'"
proof (induction ops arbitrary: st xs)
  case (Cons op ops)
  show ?case
  proof (cases op)
    case (Push x)
    show ?thesis
    proof (cases "alloc st = NULL")
      case True
      then show ?thesis using Cons.IH [OF Cons.prems] push_failed [OF Cons.prems, of x] Push by fastforce
    next
      case False
      then obtain st1 where "push st x (alloc st) = Some (st1, True)" "contents st1 (xs @ [x])"
        using push_ok [OF Cons.prems, of "alloc st" x] alloc [of st] by blast
      then show ?thesis using Cons.IH [of st1 "xs @ [x]"] Push by fastforce
    qed
  next
    case Pop
    show ?thesis
    proof (cases "xs = []")
      case True
      then show ?thesis using Cons.IH [OF Cons.prems] pop_none [of st] Cons.prems Pop by fastforce
    next
      case False
      then obtain st1 where "pop st = Some (st1, fst (take_out xs))" "contents st1 (snd (take_out xs))"
        using pop_some [OF Cons.prems] by blast
      then show ?thesis using Cons.IH [of st1 "snd (take_out xs)"] Pop False by (fastforce split: list.split)
    qed
  qed
qed simp

end

subsection \<open>The queue and the stack fulfil it\<close>

definition queue_contents :: "nodes \<times> queue \<Rightarrow> ptr list \<Rightarrow> bool" where
  "queue_contents st xs \<longleftrightarrow> (\<exists>ns. ring (fst st) (data_list (snd st)) ns \<and> list_items (fst st) ns = xs)"

definition stack_contents :: "nodes \<times> ptr \<Rightarrow> ptr list \<Rightarrow> bool" where
  "stack_contents st xs \<longleftrightarrow> (\<exists>ns. ring (fst st) (snd st) ns \<and> list_items (fst st) ns = xs)"

definition queue_push :: "nodes \<times> queue \<Rightarrow> ptr \<Rightarrow> ptr \<Rightarrow> ((nodes \<times> queue) \<times> bool) option" where
  "queue_push st item a = do { (s, q, ok) \<leftarrow> core_rtl_queue_push (fst st) (snd st) item a; Some ((s, q), ok) }"

definition queue_pop :: "nodes \<times> queue \<Rightarrow> ((nodes \<times> queue) \<times> ptr) option" where
  "queue_pop st = do { (s, q, x) \<leftarrow> core_rtl_queue_pop (fst st) (snd st); Some ((s, q), x) }"

definition stack_push :: "nodes \<times> ptr \<Rightarrow> ptr \<Rightarrow> ptr \<Rightarrow> ((nodes \<times> ptr) \<times> bool) option" where
  "stack_push st item a = do { (s, p, r) \<leftarrow> core_rtl_stack_push (fst st) (snd st) item a; Some ((s, p), r \<noteq> NULL) }"

definition stack_pop :: "nodes \<times> ptr \<Rightarrow> ((nodes \<times> ptr) \<times> ptr) option" where
  "stack_pop st = do { (s, p, x) \<leftarrow> core_rtl_stack_pop (fst st) (snd st); Some ((s, p), x) }"

lemma ring_head: "ring s lst (n # ns) \<Longrightarrow> lst = n \<and> n \<noteq> NULL \<and> get_item s n = Some (it s n) \<and>
    get_prev s n = Some (last (n # ns)) \<and> get_item s (last (n # ns)) = Some (it s (last (n # ns)))"
  using cyc_head [of s n ns] by (auto simp: ring_def field_defs linked_def simp del: last.simps)

lemma ring_Nil: "ring s lst [] \<longleftrightarrow> lst = NULL"
  by (simp add: ring_def cyc_def)

interpretation rtl_queue: linear_container queue_contents "\<lambda>st. dom (fst st)" queue_push queue_pop "\<lambda>xs. (hd xs, tl xs)"
proof
  fix st :: "nodes \<times> queue" and xs :: "ptr list" and a x :: ptr
  assume c: "queue_contents st xs" and a: "a \<noteq> NULL" "a \<notin> dom (fst st)"
  then obtain ns where "ring (fst st) (data_list (snd st)) (ns @ [])" "list_items (fst st) ns = xs"
    by (auto simp: queue_contents_def)
  then show "\<exists>st'. queue_push st x a = Some (st', True) \<and> queue_contents st' (xs @ [x])"
    using insert_after_ring [of "fst st" "data_list (snd st)" ns "[]" NULL a x] a
    by (fastforce simp: queue_push_def core_rtl_queue_push_def queue_contents_def inserted_def list_items_def)
next
  fix st :: "nodes \<times> queue" and xs :: "ptr list" and x :: ptr
  show "queue_push st x NULL = Some (st, False)"
    by (simp add: queue_push_def core_rtl_queue_push_def core_rtl_list_insert_after_def)
next
  fix st :: "nodes \<times> queue" and xs :: "ptr list"
  assume c: "queue_contents st xs" and "xs \<noteq> []"
  from c obtain ms where ms: "ring (fst st) (data_list (snd st)) ms" "list_items (fst st) ms = xs"
    by (auto simp: queue_contents_def)
  with \<open>xs \<noteq> []\<close> obtain n ns where "ms = n # ns" by (cases ms) (simp_all add: list_items_def)
  with ms have r: "ring (fst st) (data_list (snd st)) ([] @ n # ns)" "list_items (fst st) (n # ns) = xs" by simp_all
  then show "\<exists>st'. queue_pop st = Some (st', fst (hd xs, tl xs)) \<and> queue_contents st' (snd (hd xs, tl xs))"
    using remove_ring [OF r(1)] ring_head [of "fst st" "data_list (snd st)" n ns]
    by (fastforce simp: queue_pop_def core_rtl_queue_pop_def queue_contents_def taken_out_def list_items_def)
next
  fix st :: "nodes \<times> queue"
  assume "queue_contents st []"
  then show "queue_pop st = Some (st, NULL)"
    by (auto simp: queue_contents_def list_items_def ring_Nil queue_pop_def core_rtl_queue_pop_def)
qed

interpretation rtl_stack: linear_container stack_contents "\<lambda>st. dom (fst st)" stack_push stack_pop "\<lambda>xs. (last xs, butlast xs)"
proof
  fix st :: "nodes \<times> ptr" and xs :: "ptr list" and a x :: ptr
  assume c: "stack_contents st xs" and a: "a \<noteq> NULL" "a \<notin> dom (fst st)"
  then obtain ns where "ring (fst st) (snd st) (ns @ [])" "list_items (fst st) ns = xs"
    by (auto simp: stack_contents_def)
  then show "\<exists>st'. stack_push st x a = Some (st', True) \<and> stack_contents st' (xs @ [x])"
    using insert_after_ring [of "fst st" "snd st" ns "[]" NULL a x] a
    by (fastforce simp: stack_push_def core_rtl_stack_push_def stack_contents_def inserted_def list_items_def)
next
  fix st :: "nodes \<times> ptr" and xs :: "ptr list" and x :: ptr
  show "stack_push st x NULL = Some (st, False)"
    by (simp add: stack_push_def core_rtl_stack_push_def core_rtl_list_insert_after_def)
next
  fix st :: "nodes \<times> ptr" and xs :: "ptr list"
  assume c: "stack_contents st xs" and ne: "xs \<noteq> []"
  then obtain ns where r: "ring (fst st) (snd st) ns" "list_items (fst st) ns = xs" "ns \<noteq> []"
    unfolding stack_contents_def list_items_def by auto
  then have e: "ns = butlast ns @ [last ns]" "snd st \<noteq> NULL" "get_prev (fst st) (snd st) = Some (last ns)"
    using ring_head [of "fst st" "snd st" "hd ns" "tl ns"] by (simp_all del: last.simps)
  have "ring (fst st) (snd st) (butlast ns @ last ns # [])" using r(1) e(1) by simp
  then obtain s' lst' where "core_rtl_list_remove (fst st) (last ns) (snd st) = Some (s', lst', it (fst st) (last ns))"
    "taken_out (fst st) (butlast ns) (last ns) [] s' lst'" using remove_ring by blast
  moreover have "it (fst st) (last ns) = last xs" "list_items (fst st) (butlast ns) = butlast xs"
    using r(2,3) by (auto simp: list_items_def last_map map_butlast)
  ultimately show "\<exists>st'. stack_pop st = Some (st', fst (last xs, butlast xs)) \<and> stack_contents st' (snd (last xs, butlast xs))"
    using e by (auto simp: stack_pop_def core_rtl_stack_pop_def stack_contents_def taken_out_def)
next
  fix st :: "nodes \<times> ptr"
  assume "stack_contents st []"
  then show "stack_pop st = Some (st, NULL)"
    by (cases st) (auto simp: stack_contents_def list_items_def ring_Nil stack_pop_def core_rtl_stack_pop_def)
qed

subsection \<open>Properties\<close>

text \<open>
  C35. Every sequence of \<^verbatim>\<open>core_rtl_queue_push\<close> and \<^verbatim>\<open>core_rtl_queue_pop\<close> on a queue returns, and
  returns what a FIFO list would: a pop gives the oldest item, or \<^verbatim>\<open>NULL\<close> when there is none, and
  a push that reports failure leaves the queue unchanged. The allocator is any function of the
  state that returns \<^verbatim>\<open>NULL\<close> or an address without a live node.
\<close>

theorem core_rtl_queue_fifo:
  assumes "\<forall>st. alloc st = NULL \<or> alloc st \<notin> dom (fst st)" and "queue_contents st xs"
  shows "\<exists>st' out xs'. container_run queue_push queue_pop alloc st ops = Some (st', out) \<and>
    container_trace (\<lambda>xs. (hd xs, tl xs)) xs ops out = Some xs' \<and> queue_contents st' xs'"
  using assms by (intro rtl_queue.run_traces) blast+

theorem core_rtl_queue_fifo_witness:
  "\<exists>st' out xs'. container_run queue_push queue_pop (\<lambda>st. if fst st 8 = None then 8 else NULL)
      (Map.empty, core_rtl_queue_init \<lparr>data_list = 3, queue_heap = 0\<rparr> 5) [Push 1, Push 2, Pop, Pop] = Some (st', out) \<and>
    container_trace (\<lambda>xs. (hd xs, tl xs)) [] [Push 1, Push 2, Pop, Pop] out = Some xs' \<and> queue_contents st' xs'"
  by (rule core_rtl_queue_fifo) (auto simp: queue_contents_def list_items_def ring_Nil core_rtl_queue_init_def)

text \<open>
  Every sequence of \<^verbatim>\<open>core_rtl_stack_push\<close> and \<^verbatim>\<open>core_rtl_stack_pop\<close> returns what a LIFO list
  would, with the same treatment of an empty stack and of a failed allocation.
\<close>

theorem core_rtl_stack_lifo:
  assumes "\<forall>st. alloc st = NULL \<or> alloc st \<notin> dom (fst st)" and "stack_contents st xs"
  shows "\<exists>st' out xs'. container_run stack_push stack_pop alloc st ops = Some (st', out) \<and>
    container_trace (\<lambda>xs. (last xs, butlast xs)) xs ops out = Some xs' \<and> stack_contents st' xs'"
  using assms by (intro rtl_stack.run_traces) blast+

theorem core_rtl_stack_lifo_witness:
  "\<exists>st' out xs'. container_run stack_push stack_pop (\<lambda>st. if fst st 8 = None then 8 else NULL) (Map.empty, NULL)
      [Push 1, Push 2, Pop, Pop] = Some (st', out) \<and>
    container_trace (\<lambda>xs. (last xs, butlast xs)) [] [Push 1, Push 2, Pop, Pop] out = Some xs' \<and> stack_contents st' xs'"
  by (rule core_rtl_stack_lifo) (auto simp: stack_contents_def list_items_def ring_Nil)

text \<open>
  \<^verbatim>\<open>core_rtl_queue_front\<close> and \<^verbatim>\<open>core_rtl_queue_end\<close> give the oldest and the youngest item without
  changing anything, \<^verbatim>\<open>core_rtl_stack_top\<close> the item of the next pop, and
  \<^verbatim>\<open>core_rtl_queue_destroy\<close> empties the queue and hands every item to the destroyer.
\<close>

theorem core_rtl_queue_ends:
  assumes "ring s (data_list q) ns"
  shows "core_rtl_queue_front s q = Some (case list_items s ns of [] \<Rightarrow> NULL | x # _ \<Rightarrow> x) \<and>
    core_rtl_queue_end s q = Some (if ns = [] then NULL else last (list_items s ns)) \<and>
    core_rtl_stack_top s (data_list q) = Some (if ns = [] then NULL else last (list_items s ns)) \<and>
    (\<exists>s'. core_rtl_queue_destroy s q True = Some (s', q\<lparr>data_list := NULL\<rparr>, list_items s ns) \<and>
      (\<forall>n \<in> set ns. s' n = None))"
proof (cases ns)
  case Nil
  then show ?thesis using assms
    by (simp add: ring_Nil core_rtl_queue_front_def core_rtl_queue_end_def core_rtl_stack_top_def list_items_def
      core_rtl_queue_destroy_def core_rtl_list_destroy_def)
next
  case (Cons n ns')
  have "it s (last (n # ns')) = last (map (it s) (n # ns'))" by (simp add: last_map)
  then show ?thesis using Cons assms ring_head [of s "data_list q" n ns'] list_destroy_ring [OF assms, of True]
    by (auto simp: core_rtl_queue_front_def core_rtl_queue_end_def core_rtl_stack_top_def list_items_def
      core_rtl_queue_destroy_def simp del: last.simps)
qed

theorem core_rtl_queue_ends_witness:
  "core_rtl_queue_end [8 \<mapsto> \<lparr>p_prev = 16, p_next = 16, p_item = 5\<rparr>, 16 \<mapsto> \<lparr>p_prev = 8, p_next = 8, p_item = 2\<rparr>]
     \<lparr>data_list = 8, queue_heap = 0\<rparr> = Some 2"
  using core_rtl_queue_ends [of "[8 \<mapsto> \<lparr>p_prev = 16, p_next = 16, p_item = 5\<rparr>, 16 \<mapsto> \<lparr>p_prev = 8, p_next = 8, p_item = 2\<rparr>]"
    "\<lparr>data_list = 8, queue_heap = 0\<rparr>" "[8, 16]"]
  by (simp add: ring_def cyc_def linked_def list_items_def)

end
