(* ===== verification/RtlMap.thy ===== *)
theory RtlMap
  imports Prelude "HOL-Library.Monad_Syntax"
begin

text \<open>
  The map of \<^verbatim>\<open>kernel/core/rtl/container/map/map.c\<close>: a red-black tree of nodes with parent
  pointers, on a store of nodes. The functions take the store and the root (\<^verbatim>\<open>p_map->p_tree\<close>) and
  return both; access to an address without a live node is \<open>None\<close>, and so is a loop that does not
  end. The compare callback is an argument, what the allocator returns too (\<^verbatim>\<open>NULL\<close> or an address
  without a live node), and destroyers are given by the trace of their calls.
\<close>

subsection \<open>Nodes\<close>

record rbtree_node =
  p_parent :: ptr
  p_lchild :: ptr
  p_rchild :: ptr
  color :: u32
  p_key :: ptr
  p_value :: ptr

type_synonym rbnodes = "ptr \<rightharpoonup> rbtree_node"

abbreviation BLACK :: u32 where "BLACK \<equiv> 0"

abbreviation RED :: u32 where "RED \<equiv> 1"

abbreviation set_parent where "set_parent v \<equiv> wr (p_parent_update (\<lambda>_. v))"
abbreviation set_lchild where "set_lchild v \<equiv> wr (p_lchild_update (\<lambda>_. v))"
abbreviation set_rchild where "set_rchild v \<equiv> wr (p_rchild_update (\<lambda>_. v))"
abbreviation set_color where "set_color v \<equiv> wr (color_update (\<lambda>_. v))"
abbreviation set_key where "set_key v \<equiv> wr (p_key_update (\<lambda>_. v))"
abbreviation set_value where "set_value v \<equiv> wr (p_value_update (\<lambda>_. v))"

text \<open>The macro \<^verbatim>\<open>color(p)\<close> of \<^verbatim>\<open>remove_rebalance\<close>.\<close>

definition color_of :: "rbnodes \<Rightarrow> ptr \<Rightarrow> u32 option" where
  "color_of s p =
     (if p = NULL then Some BLACK
      else do { c \<leftarrow> rd color s p; Some (if c = BLACK then BLACK else RED) })"

subsection \<open>get\_node, prev\_node, next\_node\<close>

partial_function (option) get_node :: "rbnodes \<Rightarrow> (ptr \<Rightarrow> ptr \<Rightarrow> int) \<Rightarrow> ptr \<Rightarrow> ptr \<Rightarrow> ptr option" where
  "get_node s compare_func key p_node =
     (if p_node \<noteq> NULL
      then do {
        k \<leftarrow> rd p_key s p_node;
        let cmp_result = compare_func key k;
        if 0 < cmp_result then do { c \<leftarrow> rd p_rchild s p_node; get_node s compare_func key c }
        else if cmp_result = 0 then Some p_node
        else do { c \<leftarrow> rd p_lchild s p_node; get_node s compare_func key c } }
      else Some p_node)"

partial_function (option) leftmost :: "rbnodes \<Rightarrow> ptr \<Rightarrow> ptr option" where
  "leftmost s p_node =
     do { c \<leftarrow> rd p_lchild s p_node; if c \<noteq> NULL then leftmost s c else Some p_node }"

partial_function (option) rightmost :: "rbnodes \<Rightarrow> ptr \<Rightarrow> ptr option" where
  "rightmost s p_node =
     do { c \<leftarrow> rd p_rchild s p_node; if c \<noteq> NULL then rightmost s c else Some p_node }"

partial_function (option) climb_left :: "rbnodes \<Rightarrow> ptr \<Rightarrow> ptr option" where
  "climb_left s p_node =
     do {
       parent \<leftarrow> rd p_parent s p_node;
       if parent = NULL then Some NULL
       else do {
         c \<leftarrow> rd p_rchild s parent;
         if p_node = c then Some parent else climb_left s parent } }"

partial_function (option) climb_right :: "rbnodes \<Rightarrow> ptr \<Rightarrow> ptr option" where
  "climb_right s p_node =
     do {
       parent \<leftarrow> rd p_parent s p_node;
       if parent = NULL then Some NULL
       else do {
         c \<leftarrow> rd p_lchild s parent;
         if p_node = c then Some parent else climb_right s parent } }"

definition prev_node :: "rbnodes \<Rightarrow> ptr \<Rightarrow> ptr option" where
  "prev_node s p_node =
     do {
       l \<leftarrow> rd p_lchild s p_node;
       parent \<leftarrow> rd p_parent s p_node;
       if l \<noteq> NULL then rightmost s l
       else if parent = NULL then Some NULL
       else do {
         c \<leftarrow> rd p_rchild s parent;
         if p_node = c then Some parent else climb_left s p_node } }"

definition next_node :: "rbnodes \<Rightarrow> ptr \<Rightarrow> ptr option" where
  "next_node s p_node =
     do {
       r \<leftarrow> rd p_rchild s p_node;
       parent \<leftarrow> rd p_parent s p_node;
       if r \<noteq> NULL then leftmost s r
       else if parent = NULL then Some NULL
       else do {
         c \<leftarrow> rd p_lchild s parent;
         if p_node = c then Some parent else climb_right s p_node } }"

subsection \<open>l\_rotate, r\_rotate\<close>

definition l_rotate :: "rbnodes \<Rightarrow> ptr \<Rightarrow> ptr \<Rightarrow> (rbnodes \<times> ptr \<times> ptr) option" where
  "l_rotate s p_tree p_node =
     do {
       p_new_parent \<leftarrow> rd p_rchild s p_node;
       parent \<leftarrow> rd p_parent s p_node;
       s \<leftarrow> set_parent parent s p_new_parent;
       parent \<leftarrow> rd p_parent s p_node;
       (s, p_tree) \<leftarrow>
         (if parent = NULL then Some (s, p_new_parent)
          else do {
            c \<leftarrow> rd p_lchild s parent;
            s \<leftarrow> (if p_node = c then set_lchild p_new_parent s parent
                   else set_rchild p_new_parent s parent);
            Some (s, p_tree) });
       c \<leftarrow> rd p_lchild s p_new_parent;
       s \<leftarrow> set_rchild c s p_node;
       c \<leftarrow> rd p_rchild s p_node;
       s \<leftarrow> (if c \<noteq> NULL then set_parent p_node s c else Some s);
       s \<leftarrow> set_lchild p_node s p_new_parent;
       s \<leftarrow> set_parent p_new_parent s p_node;
       Some (s, p_tree, p_new_parent) }"

definition r_rotate :: "rbnodes \<Rightarrow> ptr \<Rightarrow> ptr \<Rightarrow> (rbnodes \<times> ptr \<times> ptr) option" where
  "r_rotate s p_tree p_node =
     do {
       p_new_parent \<leftarrow> rd p_lchild s p_node;
       parent \<leftarrow> rd p_parent s p_node;
       s \<leftarrow> set_parent parent s p_new_parent;
       parent \<leftarrow> rd p_parent s p_node;
       (s, p_tree) \<leftarrow>
         (if parent = NULL then Some (s, p_new_parent)
          else do {
            c \<leftarrow> rd p_lchild s parent;
            s \<leftarrow> (if p_node = c then set_lchild p_new_parent s parent
                   else set_rchild p_new_parent s parent);
            Some (s, p_tree) });
       c \<leftarrow> rd p_rchild s p_new_parent;
       s \<leftarrow> set_lchild c s p_node;
       c \<leftarrow> rd p_lchild s p_node;
       s \<leftarrow> (if c \<noteq> NULL then set_parent p_node s c else Some s);
       s \<leftarrow> set_rchild p_node s p_new_parent;
       s \<leftarrow> set_parent p_new_parent s p_node;
       Some (s, p_tree, p_new_parent) }"

subsection \<open>insert\_node\<close>

text \<open>The descent that links the new node in; \<open>p_node\<close> is the node to insert.\<close>

partial_function (option) insert_link ::
    "rbnodes \<Rightarrow> (ptr \<Rightarrow> ptr \<Rightarrow> int) \<Rightarrow> ptr \<Rightarrow> ptr \<Rightarrow> rbnodes option" where
  "insert_link s compare_func p_node p_insert_node =
     do {
       key \<leftarrow> rd p_key s p_node;
       k \<leftarrow> rd p_key s p_insert_node;
       if compare_func key k \<le> 0
       then do {
         c \<leftarrow> rd p_lchild s p_insert_node;
         if c = NULL
         then do { s \<leftarrow> set_lchild p_node s p_insert_node; set_parent p_insert_node s p_node }
         else insert_link s compare_func p_node c }
       else do {
         c \<leftarrow> rd p_rchild s p_insert_node;
         if c = NULL
         then do { s \<leftarrow> set_rchild p_node s p_insert_node; set_parent p_insert_node s p_node }
         else insert_link s compare_func p_node c } }"

text \<open>
  One round of the repair loop below a red parent. The two halves of the code differ in the
  direction; \<open>Inl\<close> goes on with \<^verbatim>\<open>p_z\<close>, \<open>Inr\<close> is the \<^verbatim>\<open>break\<close>.
\<close>

definition insert_fix_left :: "rbnodes \<Rightarrow> ptr \<Rightarrow> ptr \<Rightarrow> (rbnodes \<times> ptr \<times> (ptr + unit)) option" where
  "insert_fix_left s p_tree p_z =
     do {
       parent \<leftarrow> rd p_parent s p_z;
       grand \<leftarrow> rd p_parent s parent;
       p_y \<leftarrow> rd p_rchild s grand;
       cy \<leftarrow> (if p_y \<noteq> NULL then rd color s p_y else Some BLACK);
       if p_y \<noteq> NULL \<and> cy = RED
       then do {
         s \<leftarrow> set_color BLACK s parent;
         s \<leftarrow> set_color BLACK s p_y;
         s \<leftarrow> set_color RED s grand;
         Some (s, p_tree, Inl grand) }
       else do {
         c \<leftarrow> rd p_rchild s parent;
         (s, p_tree, p_z) \<leftarrow>
           (if p_z = c
            then do { (s, p_tree, _) \<leftarrow> l_rotate s p_tree parent; Some (s, p_tree, parent) }
            else Some (s, p_tree, p_z));
         parent \<leftarrow> rd p_parent s p_z;
         grand \<leftarrow> (if parent \<noteq> NULL then rd p_parent s parent else Some NULL);
         if parent \<noteq> NULL \<and> grand \<noteq> NULL
         then do {
           s \<leftarrow> set_color BLACK s parent;
           s \<leftarrow> set_color RED s grand;
           (s, p_tree, _) \<leftarrow> r_rotate s p_tree grand;
           Some (s, p_tree, Inr ()) }
         else Some (s, p_tree, Inl p_z) } }"

definition insert_fix_right :: "rbnodes \<Rightarrow> ptr \<Rightarrow> ptr \<Rightarrow> (rbnodes \<times> ptr \<times> (ptr + unit)) option" where
  "insert_fix_right s p_tree p_z =
     do {
       parent \<leftarrow> rd p_parent s p_z;
       grand \<leftarrow> rd p_parent s parent;
       p_y \<leftarrow> rd p_lchild s grand;
       cy \<leftarrow> (if p_y \<noteq> NULL then rd color s p_y else Some BLACK);
       if p_y \<noteq> NULL \<and> cy = RED
       then do {
         s \<leftarrow> set_color BLACK s parent;
         s \<leftarrow> set_color BLACK s p_y;
         s \<leftarrow> set_color RED s grand;
         Some (s, p_tree, Inl grand) }
       else do {
         c \<leftarrow> rd p_lchild s parent;
         (s, p_tree, p_z) \<leftarrow>
           (if p_z = c
            then do { (s, p_tree, _) \<leftarrow> r_rotate s p_tree parent; Some (s, p_tree, parent) }
            else Some (s, p_tree, p_z));
         parent \<leftarrow> rd p_parent s p_z;
         grand \<leftarrow> (if parent \<noteq> NULL then rd p_parent s parent else Some NULL);
         if parent \<noteq> NULL \<and> grand \<noteq> NULL
         then do {
           s \<leftarrow> set_color BLACK s parent;
           s \<leftarrow> set_color RED s grand;
           (s, p_tree, _) \<leftarrow> l_rotate s p_tree grand;
           Some (s, p_tree, Inr ()) }
         else Some (s, p_tree, Inl p_z) } }"

partial_function (option) insert_fix :: "rbnodes \<Rightarrow> ptr \<Rightarrow> ptr \<Rightarrow> (rbnodes \<times> ptr) option" where
  "insert_fix s p_tree p_z =
     do {
       parent \<leftarrow> rd p_parent s p_z;
       cp \<leftarrow> (if parent \<noteq> NULL then rd color s parent else Some BLACK);
       if parent \<noteq> NULL \<and> cp = RED
       then do {
         grand \<leftarrow> rd p_parent s parent;
         l \<leftarrow> rd p_lchild s grand;
         (s, p_tree, r) \<leftarrow>
           (if parent = l then insert_fix_left s p_tree p_z else insert_fix_right s p_tree p_z);
         (case r of Inl p_z \<Rightarrow> insert_fix s p_tree p_z | Inr _ \<Rightarrow> Some (s, p_tree)) }
       else Some (s, p_tree) }"

definition new_node :: "ptr \<Rightarrow> ptr \<Rightarrow> rbtree_node" where
  "new_node key val = \<lparr>p_parent = NULL, p_lchild = NULL, p_rchild = NULL, color = BLACK, p_key = key, p_value = val\<rparr>"

text \<open>\<open>p_node\<close> is what the allocator returned; its colour is written before it is read.\<close>

definition insert_node ::
    "rbnodes \<Rightarrow> ptr \<Rightarrow> (ptr \<Rightarrow> ptr \<Rightarrow> int) \<Rightarrow> ptr \<Rightarrow> ptr \<Rightarrow> ptr \<Rightarrow> (rbnodes \<times> ptr \<times> ptr) option" where
  "insert_node s p_tree compare_func key val p_node =
     (if p_node = NULL then Some (s, p_tree, NULL)
      else let s = s(p_node \<mapsto> new_node key val)
      in if p_tree = NULL
      then do { s \<leftarrow> set_color BLACK s p_node; Some (s, p_node, p_node) }
      else do {
        s \<leftarrow> insert_link s compare_func p_node p_tree;
        s \<leftarrow> set_color RED s p_node;
        (s, p_tree) \<leftarrow> insert_fix s p_tree p_node;
        s \<leftarrow> set_color BLACK s p_tree;
        Some (s, p_tree, p_node) })"

subsection \<open>remove\_rebalance\<close>

text \<open>The conditions of the cases, read in the order of the code.\<close>

definition both_black :: "rbnodes \<Rightarrow> ptr \<Rightarrow> bool option" where
  "both_black s p_sibling =
     do {
       c \<leftarrow> rd color s p_sibling;
       if c \<noteq> BLACK then Some False
       else do {
         l \<leftarrow> rd p_lchild s p_sibling;
         cl \<leftarrow> color_of s l;
         if cl \<noteq> BLACK then Some False
         else do { r \<leftarrow> rd p_rchild s p_sibling; cr \<leftarrow> color_of s r; Some (cr = BLACK) } } }"

definition child_red :: "(rbtree_node \<Rightarrow> ptr) \<Rightarrow> rbnodes \<Rightarrow> ptr \<Rightarrow> bool option" where
  "child_red child s p_sibling =
     do {
       c \<leftarrow> color_of s p_sibling;
       if c = BLACK then do { p \<leftarrow> rd child s p_sibling; cp \<leftarrow> color_of s p; Some (cp = RED) }
       else Some False }"

definition blacken :: "rbnodes \<Rightarrow> ptr \<Rightarrow> rbnodes option" where
  "blacken s p = (if p \<noteq> NULL then set_color BLACK s p else Some s)"

text \<open>
  One round for a node that is a left (right) child: \<open>Inl\<close> goes on with \<^verbatim>\<open>p_node\<close>, either moved up
  to the parent or unchanged, \<open>Inr\<close> is the \<^verbatim>\<open>break\<close>. Case 1 comes first; the rest of the round is a
  definition of its own.
\<close>

definition rebalance_left_rest ::
    "rbnodes \<Rightarrow> ptr \<Rightarrow> ptr \<Rightarrow> ptr \<Rightarrow> (rbnodes \<times> ptr \<times> (ptr + unit)) option" where
  "rebalance_left_rest s p_tree p_node parent =
     do {
       p_sibling \<leftarrow> rd p_rchild s parent;
       case2 \<leftarrow> both_black s p_sibling;
       if case2
       then do { s \<leftarrow> set_color RED s p_sibling; Some (s, p_tree, Inl parent) }
       else do {
         case3 \<leftarrow> child_red p_lchild s p_sibling;
         (s, p_tree, p_sibling) \<leftarrow>
           (if case3
            then do {
              s \<leftarrow> set_color RED s p_sibling;
              l \<leftarrow> rd p_lchild s p_sibling;
              s \<leftarrow> set_color BLACK s l;
              (s, p_tree, _) \<leftarrow> r_rotate s p_tree p_sibling;
              p_sibling \<leftarrow> rd p_rchild s parent;
              Some (s, p_tree, p_sibling) }
            else Some (s, p_tree, p_sibling));
         case4 \<leftarrow> child_red p_rchild s p_sibling;
         if case4
         then do {
           (s, p_tree, _) \<leftarrow> l_rotate s p_tree parent;
           c \<leftarrow> rd color s parent;
           s \<leftarrow> set_color c s p_sibling;
           l \<leftarrow> rd p_lchild s p_sibling;
           s \<leftarrow> blacken s l;
           r \<leftarrow> rd p_rchild s p_sibling;
           s \<leftarrow> blacken s r;
           Some (s, p_tree, Inr ()) }
         else Some (s, p_tree, Inl p_node) } }"

definition rebalance_left ::
    "rbnodes \<Rightarrow> ptr \<Rightarrow> ptr \<Rightarrow> ptr \<Rightarrow> (rbnodes \<times> ptr \<times> (ptr + unit)) option" where
  "rebalance_left s p_tree p_node parent =
     do {
       p_sibling \<leftarrow> rd p_rchild s parent;
       c \<leftarrow> rd color s p_sibling;
       (s, p_tree) \<leftarrow>
         (if c = RED
          then do {
            s \<leftarrow> set_color BLACK s p_sibling;
            s \<leftarrow> set_color RED s parent;
            (s, p_tree, _) \<leftarrow> l_rotate s p_tree parent;
            Some (s, p_tree) }
          else Some (s, p_tree));
       rebalance_left_rest s p_tree p_node parent }"

definition rebalance_right_rest ::
    "rbnodes \<Rightarrow> ptr \<Rightarrow> ptr \<Rightarrow> ptr \<Rightarrow> (rbnodes \<times> ptr \<times> (ptr + unit)) option" where
  "rebalance_right_rest s p_tree p_node parent =
     do {
       p_sibling \<leftarrow> rd p_lchild s parent;
       case2 \<leftarrow> both_black s p_sibling;
       if case2
       then do { s \<leftarrow> set_color RED s p_sibling; Some (s, p_tree, Inl parent) }
       else do {
         case3 \<leftarrow> child_red p_rchild s p_sibling;
         (s, p_tree, p_sibling) \<leftarrow>
           (if case3
            then do {
              s \<leftarrow> set_color RED s p_sibling;
              r \<leftarrow> rd p_rchild s p_sibling;
              s \<leftarrow> set_color BLACK s r;
              (s, p_tree, _) \<leftarrow> l_rotate s p_tree p_sibling;
              p_sibling \<leftarrow> rd p_lchild s parent;
              Some (s, p_tree, p_sibling) }
            else Some (s, p_tree, p_sibling));
         case4 \<leftarrow> child_red p_lchild s p_sibling;
         if case4
         then do {
           (s, p_tree, _) \<leftarrow> r_rotate s p_tree parent;
           c \<leftarrow> rd color s parent;
           s \<leftarrow> set_color c s p_sibling;
           l \<leftarrow> rd p_lchild s p_sibling;
           s \<leftarrow> blacken s l;
           r \<leftarrow> rd p_rchild s p_sibling;
           s \<leftarrow> blacken s r;
           Some (s, p_tree, Inr ()) }
         else Some (s, p_tree, Inl p_node) } }"

definition rebalance_right ::
    "rbnodes \<Rightarrow> ptr \<Rightarrow> ptr \<Rightarrow> ptr \<Rightarrow> (rbnodes \<times> ptr \<times> (ptr + unit)) option" where
  "rebalance_right s p_tree p_node parent =
     do {
       p_sibling \<leftarrow> rd p_lchild s parent;
       c \<leftarrow> rd color s p_sibling;
       (s, p_tree) \<leftarrow>
         (if c = RED
          then do {
            s \<leftarrow> set_color BLACK s p_sibling;
            s \<leftarrow> set_color RED s parent;
            (s, p_tree, _) \<leftarrow> r_rotate s p_tree parent;
            Some (s, p_tree) }
          else Some (s, p_tree));
       rebalance_right_rest s p_tree p_node parent }"

partial_function (option) remove_rebalance :: "rbnodes \<Rightarrow> ptr \<Rightarrow> ptr \<Rightarrow> ptr \<Rightarrow> (rbnodes \<times> ptr) option" where
  "remove_rebalance s p_tree p_node parent =
     do {
       parent \<leftarrow> (if p_node \<noteq> NULL then rd p_parent s p_node else Some parent);
       c \<leftarrow> color_of s p_node;
       if c = RED then do { s \<leftarrow> set_color BLACK s p_node; Some (s, p_tree) }
       else if p_node = p_tree then Some (s, p_tree)
       else do {
         l \<leftarrow> rd p_lchild s parent;
         (s, p_tree, r) \<leftarrow>
           (if l = p_node then rebalance_left s p_tree p_node parent
            else rebalance_right s p_tree p_node parent);
         (case r of
            Inl p_node \<Rightarrow> remove_rebalance s p_tree p_node parent
          | Inr _ \<Rightarrow> Some (s, p_tree)) } }"

subsection \<open>remove\_node\<close>

text \<open>\<^verbatim>\<open>p_parent->p_lchild = c\<close> or \<^verbatim>\<open>p_parent->p_rchild = c\<close>, by the side of \<open>p_node\<close>.\<close>

definition replace_child :: "rbnodes \<Rightarrow> ptr \<Rightarrow> ptr \<Rightarrow> rbnodes option" where
  "replace_child s p_node c =
     do {
       parent \<leftarrow> rd p_parent s p_node;
       l \<leftarrow> rd p_lchild s parent;
       if l = p_node then set_lchild c s parent else set_rchild c s parent }"

definition swap_contents :: "rbnodes \<Rightarrow> ptr \<Rightarrow> ptr \<Rightarrow> rbnodes option" where
  "swap_contents s p_tmp_node p_node =
     do {
       tmp \<leftarrow> rd p_key s p_tmp_node;
       k \<leftarrow> rd p_key s p_node;
       s \<leftarrow> set_key k s p_tmp_node;
       s \<leftarrow> set_key tmp s p_node;
       tmp \<leftarrow> rd p_value s p_tmp_node;
       v \<leftarrow> rd p_value s p_node;
       s \<leftarrow> set_value v s p_tmp_node;
       set_value tmp s p_node }"

text \<open>
  \<^verbatim>\<open>p_parent\<close> is uninitialised where \<^verbatim>\<open>p_x\<close> is a node; \<^verbatim>\<open>remove_rebalance\<close> then sets it before it
  reads it, and the model passes \<^verbatim>\<open>NULL\<close>.
\<close>

definition unlink_node :: "rbnodes \<Rightarrow> ptr \<Rightarrow> ptr \<Rightarrow> (rbnodes \<times> ptr) option" where
  "unlink_node s p_tree p_node =
     do {
       c \<leftarrow> rd color s p_node;
       l \<leftarrow> rd p_lchild s p_node;
       r \<leftarrow> rd p_rchild s p_node;
       parent \<leftarrow> rd p_parent s p_node;
       if c = RED
       then if l \<noteq> NULL
            then do { s \<leftarrow> replace_child s p_node l; s \<leftarrow> set_parent parent s l; Some (s, p_tree) }
            else do { s \<leftarrow> replace_child s p_node NULL; Some (s, p_tree) }
       else if p_node = p_tree
       then do {
         (s, p_tree) \<leftarrow>
           (if l = NULL \<and> r = NULL then Some (s, NULL)
            else if l \<noteq> NULL then do { s \<leftarrow> set_parent NULL s l; Some (s, l) }
            else do { s \<leftarrow> set_parent NULL s r; Some (s, r) });
         s \<leftarrow> (if p_tree \<noteq> NULL then set_color BLACK s p_tree else Some s);
         Some (s, p_tree) }
       else if l \<noteq> NULL
       then do {
         s \<leftarrow> replace_child s p_node l;
         s \<leftarrow> set_parent parent s l;
         remove_rebalance s p_tree l NULL }
       else if r \<noteq> NULL
       then do {
         s \<leftarrow> replace_child s p_node r;
         s \<leftarrow> set_parent parent s r;
         remove_rebalance s p_tree r NULL }
       else do {
         s \<leftarrow> replace_child s p_node NULL;
         remove_rebalance s p_tree NULL parent } }"

definition remove_node :: "rbnodes \<Rightarrow> ptr \<Rightarrow> ptr \<Rightarrow> (rbnodes \<times> ptr \<times> ptr) option" where
  "remove_node s p_tree p_node =
     do {
       l \<leftarrow> rd p_lchild s p_node;
       r \<leftarrow> rd p_rchild s p_node;
       (s, p_node) \<leftarrow>
         (if l \<noteq> NULL \<and> r \<noteq> NULL
          then do {
            p_tmp_node \<leftarrow> rightmost s l;
            s \<leftarrow> swap_contents s p_tmp_node p_node;
            Some (s, p_tmp_node) }
          else Some (s, p_node));
       (s, p_tree) \<leftarrow> unlink_node s p_tree p_node;
       Some (s, p_tree, p_node) }"

subsection \<open>The interface\<close>

record rtl_map =
  p_tree :: ptr
  compare_func :: "ptr \<Rightarrow> ptr \<Rightarrow> int"
  p_heap :: ptr

definition core_rtl_map_init :: "rtl_map \<Rightarrow> (ptr \<Rightarrow> ptr \<Rightarrow> int) \<Rightarrow> ptr \<Rightarrow> rtl_map" where
  "core_rtl_map_init p_map compare heap =
     p_map\<lparr>p_tree := NULL, p_heap := heap, compare_func := compare\<rparr>"

definition core_rtl_map_set ::
    "rbnodes \<Rightarrow> rtl_map \<Rightarrow> ptr \<Rightarrow> ptr \<Rightarrow> ptr \<Rightarrow> (rbnodes \<times> rtl_map \<times> ptr) option" where
  "core_rtl_map_set s p_map key val p_new =
     do {
       p_node \<leftarrow> get_node s (compare_func p_map) key (p_tree p_map);
       if val = NULL
       then if p_node \<noteq> NULL
            then do {
              ret \<leftarrow> rd p_value s p_node;
              (s, root, p_node) \<leftarrow> remove_node s (p_tree p_map) p_node;
              Some (s(p_node := None), p_map\<lparr>p_tree := root\<rparr>, ret) }
            else Some (s, p_map, NULL)
       else if p_node = NULL
       then do {
         (s, root, p_node) \<leftarrow> insert_node s (p_tree p_map) (compare_func p_map) key val p_new;
         Some (s, p_map\<lparr>p_tree := root\<rparr>, if p_node \<noteq> NULL then val else NULL) }
       else do {
         ret \<leftarrow> rd p_value s p_node;
         s \<leftarrow> set_value val s p_node;
         Some (s, p_map, ret) } }"

definition core_rtl_map_get :: "rbnodes \<Rightarrow> rtl_map \<Rightarrow> ptr \<Rightarrow> ptr option" where
  "core_rtl_map_get s p_map key =
     do {
       p_node \<leftarrow> get_node s (compare_func p_map) key (p_tree p_map);
       if p_node = NULL then Some NULL else rd p_value s p_node }"

definition core_rtl_map_prev :: "rbnodes \<Rightarrow> rtl_map \<Rightarrow> ptr \<Rightarrow> ptr option" where
  "core_rtl_map_prev s p_map key =
     (if key = NULL
      then if p_tree p_map = NULL then Some NULL
           else do { p_node \<leftarrow> rightmost s (p_tree p_map); rd p_key s p_node }
      else do {
        p_node \<leftarrow> get_node s (compare_func p_map) key (p_tree p_map);
        if p_node = NULL then Some NULL
        else do {
          p_node \<leftarrow> prev_node s p_node;
          if p_node = NULL then Some NULL else rd p_key s p_node } })"

definition core_rtl_map_next :: "rbnodes \<Rightarrow> rtl_map \<Rightarrow> ptr \<Rightarrow> ptr option" where
  "core_rtl_map_next s p_map key =
     (if key = NULL
      then if p_tree p_map = NULL then Some NULL
           else do { p_node \<leftarrow> leftmost s (p_tree p_map); rd p_key s p_node }
      else do {
        p_node \<leftarrow> get_node s (compare_func p_map) key (p_tree p_map);
        if p_node = NULL then Some NULL
        else do {
          p_node \<leftarrow> next_node s p_node;
          if p_node = NULL then Some NULL else rd p_key s p_node } })"

text \<open>\<^verbatim>\<open>search_func\<close> gets the key and the value of a node; the condition and the argument are fixed.\<close>

partial_function (option) map_search_loop ::
    "rbnodes \<Rightarrow> (ptr \<Rightarrow> ptr \<Rightarrow> int) \<Rightarrow> ptr \<Rightarrow> ptr option" where
  "map_search_loop s search_func p_node =
     (if p_node \<noteq> NULL
      then do {
        k \<leftarrow> rd p_key s p_node;
        v \<leftarrow> rd p_value s p_node;
        let compare_result = search_func k v;
        if 0 < compare_result then do { c \<leftarrow> rd p_rchild s p_node; map_search_loop s search_func c }
        else if compare_result = 0 then Some k
        else do { c \<leftarrow> rd p_lchild s p_node; map_search_loop s search_func c } }
      else Some NULL)"

definition core_rtl_map_search :: "rbnodes \<Rightarrow> rtl_map \<Rightarrow> (ptr \<Rightarrow> ptr \<Rightarrow> int) \<Rightarrow> ptr option" where
  "core_rtl_map_search s p_map search_func = map_search_loop s search_func (p_tree p_map)"

text \<open>
  The trace has \<open>Inl\<close> the keys and \<open>Inr\<close> the values handed to the destroyers. The code does not
  write \<^verbatim>\<open>p_map->p_tree\<close>.
\<close>

partial_function (option) map_destroy_loop ::
    "rbnodes \<Rightarrow> bool \<Rightarrow> bool \<Rightarrow> ptr \<Rightarrow> (ptr + ptr) list \<Rightarrow> (rbnodes \<times> (ptr + ptr) list) option" where
  "map_destroy_loop s key_destroier value_destroier p_node calls =
     (if p_node \<noteq> NULL
      then do {
        l \<leftarrow> rd p_lchild s p_node;
        r \<leftarrow> rd p_rchild s p_node;
        if l \<noteq> NULL then map_destroy_loop s key_destroier value_destroier l calls
        else if r \<noteq> NULL then map_destroy_loop s key_destroier value_destroier r calls
        else do {
          let p_remove_node = p_node;
          parent \<leftarrow> rd p_parent s p_node;
          s \<leftarrow> (if parent \<noteq> NULL
                then do {
                  c \<leftarrow> rd p_lchild s parent;
                  if p_remove_node = c then set_lchild NULL s parent else set_rchild NULL s parent }
                else Some s);
          k \<leftarrow> rd p_key s p_remove_node;
          v \<leftarrow> rd p_value s p_remove_node;
          map_destroy_loop (s(p_remove_node := None)) key_destroier value_destroier parent
            (calls @ (if key_destroier then [Inl k] else []) @ (if value_destroier then [Inr v] else [])) } }
      else Some (s, calls))"

definition core_rtl_map_destroy ::
    "rbnodes \<Rightarrow> rtl_map \<Rightarrow> bool \<Rightarrow> bool \<Rightarrow> (rbnodes \<times> (ptr + ptr) list) option" where
  "core_rtl_map_destroy s p_map key_destroier value_destroier =
     (if p_tree p_map = NULL then Some (s, [])
      else map_destroy_loop s key_destroier value_destroier (p_tree p_map) [])"

end
