(* ===== verification/RtlMapHeap.thy ===== *)
theory RtlMapHeap
  imports RtlMap
begin

text \<open>
  What the pointer operations of \<open>RtlMap\<close> do to trees. \<open>foc s0 s root t x\<close> says that the store holds
  the tree \<open>plug t x\<close>, seen at its subtree \<open>t\<close>, with parent pointers, distinct live nodes and
  \<open>root\<close> as its root, and that outside the tree it is \<open>s0\<close>. A rotation, a recolouring, a descent
  step and so on are each a step from one such focus to another.
\<close>


subsection \<open>Trees and contexts\<close>

datatype rbt = Tip | Nd ptr u32 ptr ptr rbt rbt

datatype rbctx = Top | Lc ptr u32 ptr ptr rbctx rbt | Rc ptr u32 ptr ptr rbt rbctx

fun addr :: "rbt \<Rightarrow> ptr" where
  "addr Tip = NULL"
| "addr (Nd a c k v l r) = a"

fun caddr :: "rbctx \<Rightarrow> ptr" where
  "caddr Top = NULL"
| "caddr (Lc a c k v x r) = a"
| "caddr (Rc a c k v l x) = a"

fun plug :: "rbt \<Rightarrow> rbctx \<Rightarrow> rbt" where
  "plug t Top = t"
| "plug t (Lc a c k v x r) = plug (Nd a c k v t r) x"
| "plug t (Rc a c k v l x) = plug (Nd a c k v l t) x"

fun tnodes :: "rbt \<Rightarrow> ptr list" where
  "tnodes Tip = []"
| "tnodes (Nd a c k v l r) = a # tnodes l @ tnodes r"

fun cnodes :: "rbctx \<Rightarrow> ptr list" where
  "cnodes Top = []"
| "cnodes (Lc a c k v x r) = a # cnodes x @ tnodes r"
| "cnodes (Rc a c k v l x) = a # tnodes l @ cnodes x"

text \<open>The store holds a tree below a parent, and a context around a hole.\<close>

fun tr :: "rbnodes \<Rightarrow> ptr \<Rightarrow> rbt \<Rightarrow> bool" where
  "tr s par Tip \<longleftrightarrow> True"
| "tr s par (Nd a c k v l r) \<longleftrightarrow> a \<noteq> NULL \<and>
     s a = Some \<lparr>p_parent = par, p_lchild = addr l, p_rchild = addr r, color = c, p_key = k, p_value = v\<rparr> \<and>
     tr s a l \<and> tr s a r"

fun cx :: "rbnodes \<Rightarrow> ptr \<Rightarrow> rbctx \<Rightarrow> bool" where
  "cx s h Top \<longleftrightarrow> True"
| "cx s h (Lc a c k v x r) \<longleftrightarrow> a \<noteq> NULL \<and>
     s a = Some \<lparr>p_parent = caddr x, p_lchild = h, p_rchild = addr r, color = c, p_key = k, p_value = v\<rparr> \<and>
     tr s a r \<and> cx s a x"
| "cx s h (Rc a c k v l x) \<longleftrightarrow> a \<noteq> NULL \<and>
     s a = Some \<lparr>p_parent = caddr x, p_lchild = addr l, p_rchild = h, color = c, p_key = k, p_value = v\<rparr> \<and>
     tr s a l \<and> cx s a x"

definition foc :: "rbnodes \<Rightarrow> rbnodes \<Rightarrow> ptr \<Rightarrow> rbt \<Rightarrow> rbctx \<Rightarrow> bool" where
  "foc s0 s root t x \<longleftrightarrow> tr s (caddr x) t \<and> cx s (addr t) x \<and> distinct (tnodes t @ cnodes x) \<and>
     root = addr (plug t x) \<and> (\<forall>a. a \<notin> set (tnodes t @ cnodes x) \<longrightarrow> s a = s0 a)"

lemma tr_upd [simp]: "a \<notin> set (tnodes t) \<Longrightarrow> tr (s(a := n)) par t = tr s par t"
  by (induction t arbitrary: par) auto

lemma cx_upd [simp]: "a \<notin> set (cnodes x) \<Longrightarrow> cx (s(a := n)) h x = cx s h x"
  by (induction x arbitrary: h) auto

lemma addr_NULL [simp]: "tr s par t \<Longrightarrow> addr t = NULL \<longleftrightarrow> t = Tip"
  by (cases t) auto

lemma caddr_NULL [simp]: "cx s h x \<Longrightarrow> caddr x = NULL \<longleftrightarrow> x = Top"
  by (cases x) auto

lemma addr_neq [simp]: "a \<notin> set (tnodes t) \<Longrightarrow> a \<noteq> NULL \<Longrightarrow> addr t \<noteq> a" "a \<notin> set (tnodes t) \<Longrightarrow> a \<noteq> NULL \<Longrightarrow> a \<noteq> addr t"
  by (cases t; auto)+

lemma caddr_neq [simp]: "a \<notin> set (cnodes x) \<Longrightarrow> a \<noteq> NULL \<Longrightarrow> caddr x \<noteq> a" "a \<notin> set (cnodes x) \<Longrightarrow> a \<noteq> NULL \<Longrightarrow> a \<noteq> caddr x"
  by (cases x; auto)+

fun croot :: "rbctx \<Rightarrow> ptr" where
  "croot Top = NULL"
| "croot (Lc a c k v x r) = (if x = Top then a else croot x)"
| "croot (Rc a c k v l x) = (if x = Top then a else croot x)"

lemma addr_plug: "addr (plug t x) = (if x = Top then addr t else croot x)"
  by (induction x arbitrary: t) auto

lemma foc_Lc: "foc s0 s root t (Lc a c k v x r) \<longleftrightarrow> foc s0 s root (Nd a c k v t r) x"
  by (auto simp: foc_def)

lemma foc_Rc: "foc s0 s root t (Rc a c k v l x) \<longleftrightarrow> foc s0 s root (Nd a c k v l t) x"
  by (auto simp: foc_def)

lemma foc_plug: "foc s0 s root t x \<longleftrightarrow> foc s0 s root (plug t x) Top"
  by (induction x arbitrary: t) (auto simp: foc_Lc foc_Rc)

lemma l_rotate_foc:
  assumes "foc s0 s root (Nd a c k v l (Nd b c' k' v' m r)) x"
  shows "\<exists>s' root'. l_rotate s root a = Some (s', root', b) \<and>
    foc s0 s' root' (Nd b c' k' v' (Nd a c k v l m) r) x"
  using assms
  by (cases x; cases m) (auto simp: foc_def l_rotate_def rd_def wr_def addr_plug)

lemma r_rotate_foc:
  assumes "foc s0 s root (Nd a c k v (Nd b c' k' v' l m) r) x"
  shows "\<exists>s' root'. r_rotate s root a = Some (s', root', b) \<and>
    foc s0 s' root' (Nd b c' k' v' l (Nd a c k v m r)) x"
  using assms
  by (cases x; cases m) (auto simp: foc_def r_rotate_def rd_def wr_def addr_plug)

end
