(* ===== verification/RtlMapInsert.thy ===== *)
theory RtlMapInsert
  imports RtlMapHeap ItemCompare
begin

text \<open>
  Balance of the trees of \<open>RtlMapHeap\<close> and the repair after an insertion. \<open>rbs t n\<close> is the red-black
  condition with black height \<open>n\<close>, \<open>cok x n\<close> the same for a context. Each case of the loop is one
  lemma from focus to focus; the loop ends because it moves up two levels or stops.
\<close>


subsection \<open>Single steps\<close>

abbreviation tcol :: "rbt \<Rightarrow> u32" where
  "tcol t \<equiv> (case t of Tip \<Rightarrow> BLACK | Nd a c k v l r \<Rightarrow> c)"

lemma foc_rd:
  assumes "foc s0 s root (Nd a c k v l r) x"
  shows "rd p_parent s a = Some (caddr x)" "rd p_lchild s a = Some (addr l)" "rd p_rchild s a = Some (addr r)"
    "rd color s a = Some c" "rd p_key s a = Some k" "rd p_value s a = Some v" "a \<noteq> NULL"
    "addr l = NULL \<longleftrightarrow> l = Tip" "addr r = NULL \<longleftrightarrow> r = Tip" "caddr x = NULL \<longleftrightarrow> x = Top"
  using assms by (auto simp: foc_def rd_def)

lemma tr_col: "tr s par t \<Longrightarrow> (if addr t \<noteq> NULL then rd color s (addr t) else Some BLACK) = Some (tcol t)"
  by (cases t) (auto simp: rd_def)

lemma foc_col:
  assumes "foc s0 s root (Nd a c k v l r) x"
  shows "(if addr l \<noteq> NULL then rd color s (addr l) else Some BLACK) = Some (tcol l)"
    "(if addr r \<noteq> NULL then rd color s (addr r) else Some BLACK) = Some (tcol r)"
proof -
  have "tr s a l" "tr s a r" using assms by (auto simp: foc_def)
  from this [THEN tr_col] show "(if addr l \<noteq> NULL then rd color s (addr l) else Some BLACK) = Some (tcol l)"
    "(if addr r \<noteq> NULL then rd color s (addr r) else Some BLACK) = Some (tcol r)" .
qed

lemma foc_siblings:
  assumes "foc s0 s root (Nd a c k v l r) x"
  shows "l \<noteq> Tip \<Longrightarrow> addr l \<noteq> addr r" "r \<noteq> Tip \<Longrightarrow> addr r \<noteq> addr l"
  using assms by (cases l; cases r; auto simp: foc_def)+

lemma foc_color:
  assumes "foc s0 s root (Nd a c k v l r) x"
  obtains s' where "wr (color_update (\<lambda>_. c')) s a = Some s'" "foc s0 s' root (Nd a c' k v l r) x"
  using assms by (auto simp: foc_def wr_def addr_plug)

lemma foc_color_left:
  assumes "foc s0 s root (Nd a c k v (Nd b d k' v' l m) r) x"
  obtains s' where "wr (color_update (\<lambda>_. c')) s b = Some s'" "foc s0 s' root (Nd a c k v (Nd b c' k' v' l m) r) x"
  using assms foc_color [of s0 s root b d k' v' l m "Lc a c k v x r" c'] by (auto simp: foc_Lc)

lemma foc_color_right:
  assumes "foc s0 s root (Nd a c k v l (Nd b d k' v' m r)) x"
  obtains s' where "wr (color_update (\<lambda>_. c')) s b = Some s'" "foc s0 s' root (Nd a c k v l (Nd b c' k' v' m r)) x"
  using assms foc_color [of s0 s root b d k' v' m r "Rc a c k v l x" c'] by (auto simp: foc_Rc)

text \<open>Case 1: a red uncle.\<close>

lemma fix_left_recolor:
  assumes fg: "foc s0 s root (Nd g cg gk gv (Nd p cp pk pv t1 t2) (Nd u RED uk uv ul ur)) x"
    and a: "rd p_parent s a = Some p"
  obtains s' where "insert_fix_left s root a = Some (s', root, Inl g)"
    "foc s0 s' root (Nd g RED gk gv (Nd p BLACK pk pv t1 t2) (Nd u BLACK uk uv ul ur)) x"
proof -
  have "rd p_parent s p = Some g" using fg foc_rd(1) [of s0 s root p cp pk pv t1 t2 "Lc g cg gk gv x (Nd u RED uk uv ul ur)"] 
    by (simp add: foc_Lc)
  moreover obtain s1 where s1: "set_color BLACK s p = Some s1"
    "foc s0 s1 root (Nd g cg gk gv (Nd p BLACK pk pv t1 t2) (Nd u RED uk uv ul ur)) x" by (rule foc_color_left [OF fg])
  moreover obtain s2 where s2: "set_color BLACK s1 u = Some s2"
    "foc s0 s2 root (Nd g cg gk gv (Nd p BLACK pk pv t1 t2) (Nd u BLACK uk uv ul ur)) x" by (rule foc_color_right [OF s1(2)])
  moreover obtain s3 where s3: "set_color RED s2 g = Some s3"
    "foc s0 s3 root (Nd g RED gk gv (Nd p BLACK pk pv t1 t2) (Nd u BLACK uk uv ul ur)) x" by (rule foc_color [OF s2(2)])
  ultimately have "insert_fix_left s root a = Some (s3, root, Inl g)"
    using a foc_rd [OF fg] foc_col [OF fg] by (simp add: insert_fix_left_def split: if_splits)
  then show ?thesis using s3(2) that by blast
qed

lemma fix_right_recolor:
  assumes fg: "foc s0 s root (Nd g cg gk gv (Nd u RED uk uv ul ur) (Nd p cp pk pv t1 t2)) x"
    and a: "rd p_parent s a = Some p"
  obtains s' where "insert_fix_right s root a = Some (s', root, Inl g)"
    "foc s0 s' root (Nd g RED gk gv (Nd u BLACK uk uv ul ur) (Nd p BLACK pk pv t1 t2)) x"
proof -
  have "rd p_parent s p = Some g" using fg foc_rd(1) [of s0 s root p cp pk pv t1 t2 "Rc g cg gk gv (Nd u RED uk uv ul ur) x"] 
    by (simp add: foc_Rc)
  moreover obtain s1 where s1: "set_color BLACK s p = Some s1"
    "foc s0 s1 root (Nd g cg gk gv (Nd u RED uk uv ul ur) (Nd p BLACK pk pv t1 t2)) x" by (rule foc_color_right [OF fg])
  moreover obtain s2 where s2: "set_color BLACK s1 u = Some s2"
    "foc s0 s2 root (Nd g cg gk gv (Nd u BLACK uk uv ul ur) (Nd p BLACK pk pv t1 t2)) x" by (rule foc_color_left [OF s1(2)])
  moreover obtain s3 where s3: "set_color RED s2 g = Some s3"
    "foc s0 s3 root (Nd g RED gk gv (Nd u BLACK uk uv ul ur) (Nd p BLACK pk pv t1 t2)) x" by (rule foc_color [OF s2(2)])
  ultimately have "insert_fix_right s root a = Some (s3, root, Inl g)"
    using a foc_rd [OF fg] foc_col [OF fg] by (simp add: insert_fix_right_def split: if_splits)
  then show ?thesis using s3(2) that by blast
qed

text \<open>Case 2: the node is on the outside and the uncle is black.\<close>

lemma fix_left_outer:
  assumes f: "foc s0 s root (Nd a c k v l r) (Lc p cp pk pv (Lc g cg gk gv x u) sb)" and u: "tcol u \<noteq> RED"
  obtains s' root' where "insert_fix_left s root a = Some (s', root', Inr ())"
    "foc s0 s' root' (Nd p BLACK pk pv (Nd a c k v l r) (Nd g RED gk gv sb u)) x"
proof -
  let ?z = "Nd a c k v l r"
  have fp: "foc s0 s root (Nd p cp pk pv ?z sb) (Lc g cg gk gv x u)" using f by (simp add: foc_Lc)
  have fg: "foc s0 s root (Nd g cg gk gv (Nd p cp pk pv ?z sb) u) x" using fp by (simp add: foc_Lc)
  obtain s1 where s1: "set_color BLACK s p = Some s1" "foc s0 s1 root (Nd g cg gk gv (Nd p BLACK pk pv ?z sb) u) x"
    by (rule foc_color_left [OF fg])
  obtain s2 where s2: "set_color RED s1 g = Some s2" "foc s0 s2 root (Nd g RED gk gv (Nd p BLACK pk pv ?z sb) u) x"
    by (rule foc_color [OF s1(2)])
  from r_rotate_foc [OF s2(2)] obtain s3 root3 where s3: "r_rotate s2 root g = Some (s3, root3, p)"
    "foc s0 s3 root3 (Nd p BLACK pk pv ?z (Nd g RED gk gv sb u)) x" by blast
  have "insert_fix_left s root a = Some (s3, root3, Inr ())"
    using foc_rd [OF f] foc_rd [OF fp] foc_rd [OF fg] foc_col [OF fg] foc_siblings [OF fp] u s1(1) s2(1) s3(1)
    by (simp add: insert_fix_left_def)
  then show ?thesis using s3(2) that by blast
qed


lemma fix_right_outer:
  assumes f: "foc s0 s root (Nd a c k v l r) (Rc p cp pk pv sb (Rc g cg gk gv u x))" and u: "tcol u \<noteq> RED"
  obtains s' root' where "insert_fix_right s root a = Some (s', root', Inr ())"
    "foc s0 s' root' (Nd p BLACK pk pv (Nd g RED gk gv u sb) (Nd a c k v l r)) x"
proof -
  let ?z = "Nd a c k v l r"
  have fp: "foc s0 s root (Nd p cp pk pv sb ?z) (Rc g cg gk gv u x)" using f by (simp add: foc_Rc)
  have fg: "foc s0 s root (Nd g cg gk gv u (Nd p cp pk pv sb ?z)) x" using fp by (simp add: foc_Rc)
  obtain s1 where s1: "set_color BLACK s p = Some s1" "foc s0 s1 root (Nd g cg gk gv u (Nd p BLACK pk pv sb ?z)) x"
    by (rule foc_color_right [OF fg])
  obtain s2 where s2: "set_color RED s1 g = Some s2" "foc s0 s2 root (Nd g RED gk gv u (Nd p BLACK pk pv sb ?z)) x"
    by (rule foc_color [OF s1(2)])
  from l_rotate_foc [OF s2(2)] obtain s3 root3 where s3: "l_rotate s2 root g = Some (s3, root3, p)"
    "foc s0 s3 root3 (Nd p BLACK pk pv (Nd g RED gk gv u sb) ?z) x" by blast
  have "insert_fix_right s root a = Some (s3, root3, Inr ())"
    using foc_rd [OF f] foc_rd [OF fp] foc_rd [OF fg] foc_col [OF fg] foc_siblings [OF fp] u s1(1) s2(1) s3(1)
    by (simp add: insert_fix_right_def)
  then show ?thesis using s3(2) that by blast
qed

text \<open>Case 3, followed by case 2: the node is on the inside.\<close>

lemma fix_left_inner:
  assumes f: "foc s0 s root (Nd a c k v l r) (Rc p cp pk pv sb (Lc g cg gk gv x u))" and u: "tcol u \<noteq> RED"
  obtains s' root' where "insert_fix_left s root a = Some (s', root', Inr ())"
    "foc s0 s' root' (Nd a BLACK k v (Nd p cp pk pv sb l) (Nd g RED gk gv r u)) x"
proof -
  have fp: "foc s0 s root (Nd p cp pk pv sb (Nd a c k v l r)) (Lc g cg gk gv x u)" using f by (simp add: foc_Rc)
  have fg: "foc s0 s root (Nd g cg gk gv (Nd p cp pk pv sb (Nd a c k v l r)) u) x" using fp by (simp add: foc_Lc)
  from l_rotate_foc [OF fp] obtain s1 root1 where s1: "l_rotate s root p = Some (s1, root1, a)"
    "foc s0 s1 root1 (Nd a c k v (Nd p cp pk pv sb l) r) (Lc g cg gk gv x u)" by blast
  then have f1: "foc s0 s1 root1 (Nd p cp pk pv sb l) (Lc a c k v (Lc g cg gk gv x u) r)"
    "foc s0 s1 root1 (Nd g cg gk gv (Nd a c k v (Nd p cp pk pv sb l) r) u) x" by (simp_all add: foc_Lc)
  obtain s2 where s2: "set_color BLACK s1 a = Some s2"
    "foc s0 s2 root1 (Nd g cg gk gv (Nd a BLACK k v (Nd p cp pk pv sb l) r) u) x" by (rule foc_color_left [OF f1(2)])
  obtain s3 where s3: "set_color RED s2 g = Some s3"
    "foc s0 s3 root1 (Nd g RED gk gv (Nd a BLACK k v (Nd p cp pk pv sb l) r) u) x" by (rule foc_color [OF s2(2)])
  from r_rotate_foc [OF s3(2)] obtain s4 root4 where s4: "r_rotate s3 root1 g = Some (s4, root4, a)"
    "foc s0 s4 root4 (Nd a BLACK k v (Nd p cp pk pv sb l) (Nd g RED gk gv r u)) x" by blast
  have "insert_fix_left s root a = Some (s4, root4, Inr ())"
    using foc_rd [OF f] foc_rd [OF fp] foc_rd [OF fg] foc_col [OF fg] foc_rd [OF s1(2)] foc_rd [OF f1(1)] u
      s1(1) s2(1) s3(1) s4(1)
    by (simp add: insert_fix_left_def)
  then show ?thesis using s4(2) that by blast
qed

lemma fix_right_inner:
  assumes f: "foc s0 s root (Nd a c k v l r) (Lc p cp pk pv (Rc g cg gk gv u x) sb)" and u: "tcol u \<noteq> RED"
  obtains s' root' where "insert_fix_right s root a = Some (s', root', Inr ())"
    "foc s0 s' root' (Nd a BLACK k v (Nd g RED gk gv u l) (Nd p cp pk pv r sb)) x"
proof -
  have fp: "foc s0 s root (Nd p cp pk pv (Nd a c k v l r) sb) (Rc g cg gk gv u x)" using f by (simp add: foc_Lc)
  have fg: "foc s0 s root (Nd g cg gk gv u (Nd p cp pk pv (Nd a c k v l r) sb)) x" using fp by (simp add: foc_Rc)
  from r_rotate_foc [OF fp] obtain s1 root1 where s1: "r_rotate s root p = Some (s1, root1, a)"
    "foc s0 s1 root1 (Nd a c k v l (Nd p cp pk pv r sb)) (Rc g cg gk gv u x)" by blast
  then have f1: "foc s0 s1 root1 (Nd p cp pk pv r sb) (Rc a c k v l (Rc g cg gk gv u x))"
    "foc s0 s1 root1 (Nd g cg gk gv u (Nd a c k v l (Nd p cp pk pv r sb))) x" by (simp_all add: foc_Rc)
  obtain s2 where s2: "set_color BLACK s1 a = Some s2"
    "foc s0 s2 root1 (Nd g cg gk gv u (Nd a BLACK k v l (Nd p cp pk pv r sb))) x" by (rule foc_color_right [OF f1(2)])
  obtain s3 where s3: "set_color RED s2 g = Some s3"
    "foc s0 s3 root1 (Nd g RED gk gv u (Nd a BLACK k v l (Nd p cp pk pv r sb))) x" by (rule foc_color [OF s2(2)])
  from l_rotate_foc [OF s3(2)] obtain s4 root4 where s4: "l_rotate s3 root1 g = Some (s4, root4, a)"
    "foc s0 s4 root4 (Nd a BLACK k v (Nd g RED gk gv u l) (Nd p cp pk pv r sb)) x" by blast
  have "insert_fix_right s root a = Some (s4, root4, Inr ())"
    using foc_rd [OF f] foc_rd [OF fp] foc_rd [OF fg] foc_col [OF fg] foc_rd [OF s1(2)] foc_rd [OF f1(1)] u
      s1(1) s2(1) s3(1) s4(1)
    by (simp add: insert_fix_right_def)
  then show ?thesis using s4(2) that by blast
qed

subsection \<open>Balance and contents\<close>

text \<open>\<open>rbs t n\<close>: no red node has a red child, and every path has \<open>n\<close> black nodes.\<close>

fun rbs :: "rbt \<Rightarrow> nat \<Rightarrow> bool" where
  "rbs Tip n \<longleftrightarrow> n = 0"
| "rbs (Nd a c k v l r) n \<longleftrightarrow>
     (if c = RED then tcol l = BLACK \<and> tcol r = BLACK \<and> rbs l n \<and> rbs r n
      else c = BLACK \<and> (\<exists>m. n = Suc m \<and> rbs l m \<and> rbs r m))"

abbreviation ccol :: "rbctx \<Rightarrow> u32" where
  "ccol x \<equiv> (case x of Top \<Rightarrow> BLACK | Lc a c k v y r \<Rightarrow> c | Rc a c k v l y \<Rightarrow> c)"

text \<open>A context for a subtree of black height \<open>n\<close>. A red node of a context is not the root.\<close>

fun cok :: "rbctx \<Rightarrow> nat \<Rightarrow> bool" where
  "cok Top n \<longleftrightarrow> True"
| "cok (Lc a c k v x r) n \<longleftrightarrow>
     (if c = RED then x \<noteq> Top \<and> ccol x = BLACK \<and> tcol r = BLACK \<and> rbs r n \<and> cok x n
      else c = BLACK \<and> rbs r n \<and> cok x (Suc n))"
| "cok (Rc a c k v l x) n \<longleftrightarrow>
     (if c = RED then x \<noteq> Top \<and> ccol x = BLACK \<and> tcol l = BLACK \<and> rbs l n \<and> cok x n
      else c = BLACK \<and> rbs l n \<and> cok x (Suc n))"

lemma rbs_plug: "rbs t n \<Longrightarrow> cok x n \<Longrightarrow> tcol t = BLACK \<or> ccol x = BLACK \<Longrightarrow> \<exists>N. rbs (plug t x) N"
proof (induction x arbitrary: t n)
  case (Lc a c k v x r)
  then show ?case using Lc.IH [of "Nd a c k v t r" n] Lc.IH [of "Nd a c k v t r" "Suc n"] by (cases "c = RED") auto
next
  case (Rc a c k v l x)
  then show ?case using Rc.IH [of "Nd a c k v l t" n] Rc.IH [of "Nd a c k v l t" "Suc n"] by (cases "c = RED") auto
qed auto

lemma plug_rbs:
  "rbs (plug t x) N \<Longrightarrow> tcol (plug t x) = BLACK \<Longrightarrow> \<exists>n. rbs t n \<and> cok x n \<and> (x \<noteq> Top \<longrightarrow> tcol t = BLACK \<or> ccol x = BLACK)"
proof (induction x arbitrary: t)
  case (Lc a c k v x r)
  obtain n where n: "rbs (Nd a c k v t r) n" "cok x n" "x \<noteq> Top \<longrightarrow> c = BLACK \<or> ccol x = BLACK"
    using Lc.IH [of "Nd a c k v t r"] Lc.prems by auto
  show ?case
  proof (cases "c = RED")
    case True
    then show ?thesis using n Lc.prems by (cases "x = Top") auto
  next
    case False
    then show ?thesis using n by auto
  qed
next
  case (Rc a c k v l x)
  obtain n where n: "rbs (Nd a c k v l t) n" "cok x n" "x \<noteq> Top \<longrightarrow> c = BLACK \<or> ccol x = BLACK"
    using Rc.IH [of "Nd a c k v l t"] Rc.prems by auto
  show ?case
  proof (cases "c = RED")
    case True
    then show ?thesis using n Rc.prems by (cases "x = Top") auto
  next
    case False
    then show ?thesis using n by auto
  qed
qed auto

fun inorder :: "rbt \<Rightarrow> (ptr \<times> ptr) list" where
  "inorder Tip = []"
| "inorder (Nd a c k v l r) = inorder l @ (k, v) # inorder r"

lemma inorder_plug: "inorder t = inorder t' \<Longrightarrow> inorder (plug t x) = inorder (plug t' x)"
  by (induction x arbitrary: t t') auto

lemma set_tnodes_plug: "set (tnodes (plug t x)) = set (tnodes t) \<union> set (cnodes x)"
  by (induction x arbitrary: t) auto

lemma col_cases: "rbs t n \<Longrightarrow> tcol t \<noteq> RED \<Longrightarrow> tcol t = BLACK"
  by (cases t) (auto split: if_splits)

text \<open>What the repair leaves: the same contents and nodes, balanced.\<close>

definition repaired :: "rbt \<Rightarrow> rbt \<Rightarrow> bool" where
  "repaired t t' \<longleftrightarrow> inorder t' = inorder t \<and> set (tnodes t') = set (tnodes t) \<and> (\<exists>N. rbs t' N)"

lemma foc_parent_col:
  assumes "foc s0 s root t x"
  shows "(if caddr x \<noteq> NULL then rd color s (caddr x) else Some BLACK) = Some (ccol x)"
  using assms by (cases x) (auto simp: foc_def rd_def)

lemma insert_fix_stop:
  assumes "foc s0 s root (Nd a c k v l r) x" "ccol x \<noteq> RED"
  shows "insert_fix s root a = Some (s, root)"
  using foc_rd [OF assms(1)] foc_parent_col [OF assms(1)] assms(2) by (subst insert_fix.simps) simp

lemma insert_fix_round:
  assumes f: "foc s0 s root (Nd a c k v l r) x" and x: "ccol x = RED" "caddr x = p"
    and y: "x = Lc p cp pk pv y sb \<or> x = Rc p cp pk pv sb y" "y = Lc g cg gk gv x' u \<or> y = Rc g cg gk gv u x'"
  shows "insert_fix s root a =
    do { (s, root, r) \<leftarrow> (if y = Lc g cg gk gv x' u then insert_fix_left s root a else insert_fix_right s root a);
         (case r of Inl z \<Rightarrow> insert_fix s root z | Inr _ \<Rightarrow> Some (s, root)) }"
proof -
  obtain t where fp: "foc s0 s root (Nd p cp pk pv (fst t) (snd t)) y"
    using y(1) f by (auto simp: foc_Lc foc_Rc intro: that [of "(Nd a c k v l r, sb)"] that [of "(sb, Nd a c k v l r)"])
  have g: "rd p_lchild s g = Some (if y = Lc g cg gk gv x' u then p else addr u)" "g \<noteq> NULL" "addr u \<noteq> p"
    using y(2) fp foc_rd [of s0 s root g cg gk gv "Nd p cp pk pv (fst t) (snd t)" u x']
      foc_rd [of s0 s root g cg gk gv u "Nd p cp pk pv (fst t) (snd t)" x']
      foc_siblings [of s0 s root g cg gk gv "Nd p cp pk pv (fst t) (snd t)" u x']
      foc_siblings [of s0 s root g cg gk gv u "Nd p cp pk pv (fst t) (snd t)" x']
    by (auto simp: foc_Lc foc_Rc)
  have "caddr y = g" using y(2) by auto
  then show ?thesis using foc_rd [OF f] foc_rd [OF fp] foc_parent_col [OF f] x g
    by (subst insert_fix.simps) (auto split: if_splits)
qed

lemma insert_fix_done:
  assumes "insert_fix s root a = Some (s', root')" "foc s0 s' root' t' x'" "cok x' n" "rbs t' n" "tcol t' = BLACK"
    "inorder t' = inorder t" "set (tnodes t') = set (tnodes t)"
  shows "\<exists>s' root' t''. insert_fix s root a = Some (s', root') \<and> foc s0 s' root' t'' Top \<and>
    repaired (plug t x') t''"
  using assms rbs_plug [of t' n x'] inorder_plug [of t' t x'] foc_plug [of s0 s' root' t' x']
  by (auto simp: repaired_def set_tnodes_plug)

lemma repaired_via:
  "repaired (plug t' x) t'' \<Longrightarrow> inorder t' = inorder t \<Longrightarrow> set (tnodes t') = set (tnodes t) \<Longrightarrow> repaired (plug t x) t''"
  using inorder_plug [of t' t x] by (auto simp: repaired_def set_tnodes_plug)

definition fixable :: "rbnodes \<Rightarrow> rbnodes \<Rightarrow> ptr \<Rightarrow> rbt \<Rightarrow> rbctx \<Rightarrow> bool" where
  "fixable s0 s root z x \<longleftrightarrow> (\<exists>s' root' t'. insert_fix s root (addr z) = Some (s', root') \<and>
     foc s0 s' root' t' Top \<and> repaired (plug z x) t')"

lemma fix_left_left:
  assumes f: "foc s0 s root z x" and z: "z = Nd a RED k v l r" and x: "x = Lc p cp pk pv y sb" "y = Lc g cg gk gv x' u"
    and ok: "rbs z n" "cok x n" "ccol x = RED"
    and step: "\<And>s1 z1. foc s0 s1 root z1 x' \<Longrightarrow> addr z1 = g \<Longrightarrow> tcol z1 = RED \<Longrightarrow> rbs z1 (Suc n) \<Longrightarrow> cok x' (Suc n) \<Longrightarrow>
      fixable s0 s1 root z1 x'"
  shows "fixable s0 s root z x"
proof -
  have c: "cp = RED" "cg = BLACK" "rbs u n" "cok x' (Suc n)" "rbs sb n" "tcol sb = BLACK"
    using ok by (auto simp: x z split: if_splits)
  have orig: "plug z x = plug (Nd g cg gk gv (Nd p cp pk pv z sb) u) x'" by (simp add: x)
  note round = insert_fix_round [OF f [unfolded z], of p cp pk pv y sb g cg gk gv x' u]
  show ?thesis
  proof (cases "tcol u = RED")
    case True
    then obtain b uk uv ul ur where u: "u = Nd b RED uk uv ul ur" by (cases u) auto
    obtain s1 where s1: "insert_fix_left s root a = Some (s1, root, Inl g)" "foc s0 s1 root (Nd g RED gk gv (Nd p BLACK pk pv z sb) (Nd b BLACK uk uv ul ur)) x'"
      using fix_left_recolor [of s0 s root g cg gk gv p cp pk pv z sb b uk uv ul ur x' a] f foc_rd(1) [OF f [unfolded z]]
      by (auto simp: x u z foc_Lc)
    have "fixable s0 s1 root (Nd g RED gk gv (Nd p BLACK pk pv z sb) (Nd b BLACK uk uv ul ur)) x'"
      using c ok(1) by (intro step [OF s1(2)]) (auto simp: u z)
    moreover have "insert_fix s root a = insert_fix s1 root g" using round s1(1) c by (simp add: x)
    ultimately show ?thesis using repaired_via [of "Nd g RED gk gv (Nd p BLACK pk pv z sb) (Nd b BLACK uk uv ul ur)" x' _ "Nd g cg gk gv (Nd p cp pk pv z sb) u"]
      unfolding fixable_def orig by (auto simp: z u)
  next
    case False
    obtain s1 root1 where s1: "insert_fix_left s root a = Some (s1, root1, Inr ())" "foc s0 s1 root1 (Nd p BLACK pk pv z (Nd g RED gk gv sb u)) x'"
      by (rule fix_left_outer [OF f [unfolded z x] False]) (auto simp: z intro: that)
    then have "insert_fix s root a = Some (s1, root1)" using round c by (simp add: x)
    from insert_fix_done [OF this s1(2) c(4), of "Nd g cg gk gv (Nd p cp pk pv z sb) u"] show ?thesis
      using c ok(1) False col_cases [of u n] unfolding fixable_def orig by (auto simp: z split: if_splits)
  qed
qed

lemma fix_left_right:
  assumes f: "foc s0 s root z x" and z: "z = Nd a RED k v l r" and x: "x = Rc p cp pk pv sb y" "y = Lc g cg gk gv x' u"
    and ok: "rbs z n" "cok x n" "ccol x = RED"
    and step: "\<And>s1 z1. foc s0 s1 root z1 x' \<Longrightarrow> addr z1 = g \<Longrightarrow> tcol z1 = RED \<Longrightarrow> rbs z1 (Suc n) \<Longrightarrow> cok x' (Suc n) \<Longrightarrow>
      fixable s0 s1 root z1 x'"
  shows "fixable s0 s root z x"
proof -
  have c: "cp = RED" "cg = BLACK" "rbs u n" "cok x' (Suc n)" "rbs sb n" "tcol sb = BLACK"
    using ok by (auto simp: x z split: if_splits)
  have orig: "plug z x = plug (Nd g cg gk gv (Nd p cp pk pv sb z) u) x'" by (simp add: x)
  note round = insert_fix_round [OF f [unfolded z], of p cp pk pv y sb g cg gk gv x' u]
  show ?thesis
  proof (cases "tcol u = RED")
    case True
    then obtain b uk uv ul ur where u: "u = Nd b RED uk uv ul ur" by (cases u) auto
    obtain s1 where s1: "insert_fix_left s root a = Some (s1, root, Inl g)" "foc s0 s1 root (Nd g RED gk gv (Nd p BLACK pk pv sb z) (Nd b BLACK uk uv ul ur)) x'"
      using fix_left_recolor [of s0 s root g cg gk gv p cp pk pv sb z b uk uv ul ur x' a] f foc_rd(1) [OF f [unfolded z]]
      by (auto simp: x u z foc_Lc foc_Rc)
    have "fixable s0 s1 root (Nd g RED gk gv (Nd p BLACK pk pv sb z) (Nd b BLACK uk uv ul ur)) x'"
      using c ok(1) by (intro step [OF s1(2)]) (auto simp: u z)
    moreover have "insert_fix s root a = insert_fix s1 root g" using round s1(1) c by (simp add: x)
    ultimately show ?thesis using repaired_via [of "Nd g RED gk gv (Nd p BLACK pk pv sb z) (Nd b BLACK uk uv ul ur)" x' _ "Nd g cg gk gv (Nd p cp pk pv sb z) u"]
      unfolding fixable_def orig by (auto simp: z u)
  next
    case False
    obtain s1 root1 where s1: "insert_fix_left s root a = Some (s1, root1, Inr ())" "foc s0 s1 root1 (Nd a BLACK k v (Nd p cp pk pv sb l) (Nd g RED gk gv r u)) x'"
      by (rule fix_left_inner [OF f [unfolded z x] False]) (auto simp: z intro: that)
    then have "insert_fix s root a = Some (s1, root1)" using round c by (simp add: x)
    from insert_fix_done [OF this s1(2) c(4), of "Nd g cg gk gv (Nd p cp pk pv sb z) u"] show ?thesis
      using c ok(1) False col_cases [of u n] unfolding fixable_def orig by (auto simp: z split: if_splits)
  qed
qed

lemma fix_right_right:
  assumes f: "foc s0 s root z x" and z: "z = Nd a RED k v l r" and x: "x = Rc p cp pk pv sb y" "y = Rc g cg gk gv u x'"
    and ok: "rbs z n" "cok x n" "ccol x = RED"
    and step: "\<And>s1 z1. foc s0 s1 root z1 x' \<Longrightarrow> addr z1 = g \<Longrightarrow> tcol z1 = RED \<Longrightarrow> rbs z1 (Suc n) \<Longrightarrow> cok x' (Suc n) \<Longrightarrow>
      fixable s0 s1 root z1 x'"
  shows "fixable s0 s root z x"
proof -
  have c: "cp = RED" "cg = BLACK" "rbs u n" "cok x' (Suc n)" "rbs sb n" "tcol sb = BLACK"
    using ok by (auto simp: x z split: if_splits)
  have orig: "plug z x = plug (Nd g cg gk gv u (Nd p cp pk pv sb z)) x'" by (simp add: x)
  note round = insert_fix_round [OF f [unfolded z], of p cp pk pv y sb g cg gk gv x' u]
  show ?thesis
  proof (cases "tcol u = RED")
    case True
    then obtain b uk uv ul ur where u: "u = Nd b RED uk uv ul ur" by (cases u) auto
    obtain s1 where s1: "insert_fix_right s root a = Some (s1, root, Inl g)" "foc s0 s1 root (Nd g RED gk gv (Nd b BLACK uk uv ul ur) (Nd p BLACK pk pv sb z)) x'"
      using fix_right_recolor [of s0 s root g cg gk gv b uk uv ul ur p cp pk pv sb z x' a] f foc_rd(1) [OF f [unfolded z]]
      by (auto simp: x u z foc_Rc)
    have "fixable s0 s1 root (Nd g RED gk gv (Nd b BLACK uk uv ul ur) (Nd p BLACK pk pv sb z)) x'"
      using c ok(1) by (intro step [OF s1(2)]) (auto simp: u z)
    moreover have "insert_fix s root a = insert_fix s1 root g" using round s1(1) c by (simp add: x)
    ultimately show ?thesis using repaired_via [of "Nd g RED gk gv (Nd b BLACK uk uv ul ur) (Nd p BLACK pk pv sb z)" x' _ "Nd g cg gk gv u (Nd p cp pk pv sb z)"]
      unfolding fixable_def orig by (auto simp: z u)
  next
    case False
    obtain s1 root1 where s1: "insert_fix_right s root a = Some (s1, root1, Inr ())" "foc s0 s1 root1 (Nd p BLACK pk pv (Nd g RED gk gv u sb) z) x'"
      by (rule fix_right_outer [OF f [unfolded z x] False]) (auto simp: z intro: that)
    then have "insert_fix s root a = Some (s1, root1)" using round c by (simp add: x)
    from insert_fix_done [OF this s1(2) c(4), of "Nd g cg gk gv u (Nd p cp pk pv sb z)"] show ?thesis
      using c ok(1) False col_cases [of u n] unfolding fixable_def orig by (auto simp: z split: if_splits)
  qed
qed

lemma fix_right_left:
  assumes f: "foc s0 s root z x" and z: "z = Nd a RED k v l r" and x: "x = Lc p cp pk pv y sb" "y = Rc g cg gk gv u x'"
    and ok: "rbs z n" "cok x n" "ccol x = RED"
    and step: "\<And>s1 z1. foc s0 s1 root z1 x' \<Longrightarrow> addr z1 = g \<Longrightarrow> tcol z1 = RED \<Longrightarrow> rbs z1 (Suc n) \<Longrightarrow> cok x' (Suc n) \<Longrightarrow>
      fixable s0 s1 root z1 x'"
  shows "fixable s0 s root z x"
proof -
  have c: "cp = RED" "cg = BLACK" "rbs u n" "cok x' (Suc n)" "rbs sb n" "tcol sb = BLACK"
    using ok by (auto simp: x z split: if_splits)
  have orig: "plug z x = plug (Nd g cg gk gv u (Nd p cp pk pv z sb)) x'" by (simp add: x)
  note round = insert_fix_round [OF f [unfolded z], of p cp pk pv y sb g cg gk gv x' u]
  show ?thesis
  proof (cases "tcol u = RED")
    case True
    then obtain b uk uv ul ur where u: "u = Nd b RED uk uv ul ur" by (cases u) auto
    obtain s1 where s1: "insert_fix_right s root a = Some (s1, root, Inl g)" "foc s0 s1 root (Nd g RED gk gv (Nd b BLACK uk uv ul ur) (Nd p BLACK pk pv z sb)) x'"
      using fix_right_recolor [of s0 s root g cg gk gv b uk uv ul ur p cp pk pv z sb x' a] f foc_rd(1) [OF f [unfolded z]]
      by (auto simp: x u z foc_Lc foc_Rc)
    have "fixable s0 s1 root (Nd g RED gk gv (Nd b BLACK uk uv ul ur) (Nd p BLACK pk pv z sb)) x'"
      using c ok(1) by (intro step [OF s1(2)]) (auto simp: u z)
    moreover have "insert_fix s root a = insert_fix s1 root g" using round s1(1) c by (simp add: x)
    ultimately show ?thesis using repaired_via [of "Nd g RED gk gv (Nd b BLACK uk uv ul ur) (Nd p BLACK pk pv z sb)" x' _ "Nd g cg gk gv u (Nd p cp pk pv z sb)"]
      unfolding fixable_def orig by (auto simp: z u)
  next
    case False
    obtain s1 root1 where s1: "insert_fix_right s root a = Some (s1, root1, Inr ())" "foc s0 s1 root1 (Nd a BLACK k v (Nd g RED gk gv u l) (Nd p cp pk pv r sb)) x'"
      by (rule fix_right_inner [OF f [unfolded z x] False]) (auto simp: z intro: that)
    then have "insert_fix s root a = Some (s1, root1)" using round c by (simp add: x)
    from insert_fix_done [OF this s1(2) c(4), of "Nd g cg gk gv u (Nd p cp pk pv z sb)"] show ?thesis
      using c ok(1) False col_cases [of u n] unfolding fixable_def orig by (auto simp: z split: if_splits)
  qed
qed

lemma insert_fix_repairs:
  assumes "foc s0 s root z x" "rbs z n" "cok x n" "tcol z = RED"
  shows "fixable s0 s root z x"
  using assms
proof (induction "size x" arbitrary: s root z x n rule: less_induct)
  case less
  note f = less.prems(1)
  obtain a k v l r where z: "z = Nd a RED k v l r" using less.prems(4) by (cases z) auto
  show ?case
  proof (cases "ccol x = RED")
    case False
    then have "ccol x = BLACK" using less.prems(3) by (cases x) (auto split: if_splits)
    then show ?thesis using insert_fix_stop [OF f [unfolded z]] rbs_plug [OF less.prems(2,3)] f foc_plug [of s0 s root z x]
      by (auto simp: repaired_def fixable_def z)
  next
    case True
    consider p cp pk pv y sb where "x = Lc p cp pk pv y sb" "y \<noteq> Top" | p cp pk pv y sb where "x = Rc p cp pk pv sb y" "y \<noteq> Top"
      using True less.prems(3) by (cases x) auto
    then show ?thesis
    proof cases
      case (1 p cp pk pv y sb)
      show ?thesis
      proof (cases y)
        case (Lc g cg gk gv x' u)
        show ?thesis by (rule fix_left_left [OF f z 1(1) Lc less.prems(2,3) True]) (rule less.hyps, simp_all add: 1(1) Lc)
      next
        case (Rc g cg gk gv u x')
        show ?thesis by (rule fix_right_left [OF f z 1(1) Rc less.prems(2,3) True]) (rule less.hyps, simp_all add: 1(1) Rc)
      qed (use 1 in simp)
    next
      case (2 p cp pk pv y sb)
      show ?thesis
      proof (cases y)
        case (Lc g cg gk gv x' u)
        show ?thesis by (rule fix_left_right [OF f z 2(1) Lc less.prems(2,3) True]) (rule less.hyps, simp_all add: 2(1) Lc)
      next
        case (Rc g cg gk gv u x')
        show ?thesis by (rule fix_right_right [OF f z 2(1) Rc less.prems(2,3) True]) (rule less.hyps, simp_all add: 2(1) Rc)
      qed (use 2 in simp)
    qed
  qed
qed

subsection \<open>Lookup\<close>

fun cl :: "rbctx \<Rightarrow> (ptr \<times> ptr) list" where
  "cl Top = []"
| "cl (Lc a c k v x r) = cl x"
| "cl (Rc a c k v l x) = cl x @ inorder l @ [(k, v)]"

fun cr :: "rbctx \<Rightarrow> (ptr \<times> ptr) list" where
  "cr Top = []"
| "cr (Lc a c k v x r) = (k, v) # inorder r @ cr x"
| "cr (Rc a c k v l x) = cr x"

lemma inorder_plug_ctx: "inorder (plug t x) = cl x @ inorder t @ cr x"
  by (induction x arbitrary: t) auto

definition ordered :: "(ptr \<Rightarrow> ptr \<Rightarrow> int) \<Rightarrow> (ptr \<times> ptr) list \<Rightarrow> bool" where
  "ordered cmp kvs \<longleftrightarrow> sorted_wrt (\<lambda>x y. cmp (fst x) (fst y) < 0) kvs"

lemma ordered_append:
  "ordered cmp (xs @ ys) \<longleftrightarrow> ordered cmp xs \<and> ordered cmp ys \<and> (\<forall>x \<in> set xs. \<forall>y \<in> set ys. cmp (fst x) (fst y) < 0)"
  by (auto simp: ordered_def sorted_wrt_append)

lemma ordered_Cons:
  "ordered cmp (x # xs) \<longleftrightarrow> ordered cmp xs \<and> (\<forall>y \<in> set xs. cmp (fst x) (fst y) < 0)"
  by (auto simp: ordered_def)

context item_compare
begin

lemma compare_lt_trans:
  assumes "x \<in> carrier" "y \<in> carrier" "z \<in> carrier"
  shows "compare x y \<le> 0 \<Longrightarrow> compare y z < 0 \<Longrightarrow> compare x z < 0"
    and "compare x y < 0 \<Longrightarrow> compare y z \<le> 0 \<Longrightarrow> compare x z < 0"
proof -
  assume 1: "compare x y \<le> 0" and 2: "compare y z < 0"
  show "compare x z < 0"
  proof (rule ccontr)
    assume "\<not> compare x z < 0"
    then have "compare z x \<le> 0" using assms compare_ge [of x z] by simp
    then have "compare z y \<le> 0" using compare_trans [of z x y] assms 1 by simp
    then show False using 2 assms compare_le [of z y] by simp
  qed
next
  assume 1: "compare x y < 0" and 2: "compare y z \<le> 0"
  show "compare x z < 0"
  proof (rule ccontr)
    assume "\<not> compare x z < 0"
    then have "compare z x \<le> 0" using assms compare_ge [of x z] by simp
    then have "compare y x \<le> 0" using compare_trans [of y z x] assms 2 by simp
    then show False using 1 assms compare_le [of y x] by simp
  qed
qed

lemma get_node_foc:
  assumes "foc s0 s root t x" "ordered compare (inorder t)" "key \<in> carrier" "fst ` set (inorder t) \<subseteq> carrier"
  shows "get_node s compare key (addr t) = Some NULL \<and> (\<forall>kv \<in> set (inorder t). compare key (fst kv) \<noteq> 0) \<or>
    (\<exists>a c k v l r y. get_node s compare key (addr t) = Some a \<and> foc s0 s root (Nd a c k v l r) y \<and>
      plug (Nd a c k v l r) y = plug t x \<and> compare key k = 0)"
  using assms
proof (induction t arbitrary: x)
  case Tip
  then show ?case by (simp add: get_node.simps)
next
  case (Nd a c k v l r)
  note rd = foc_rd [OF Nd.prems(1)]
  have mem: "k \<in> carrier" using Nd.prems(4) by auto
  consider "0 < compare key k" | "compare key k = 0" | "compare key k < 0" by linarith
  then show ?case
  proof cases
    case 1
    have no: "compare key (fst kv) \<noteq> 0" if "kv \<in> set (inorder l)" for kv
    proof -
      have "compare (fst kv) k < 0" "fst kv \<in> carrier" using that Nd.prems(2,4) by (auto simp: ordered_append ordered_Cons)
      then show ?thesis using 1 compare_lt_trans(1) [of key "fst kv" k] mem Nd.prems(3) by force
    qed
    have "get_node s compare key a = get_node s compare key (addr r)"
      using 1 rd by (subst get_node.simps) simp
    then show ?thesis
      using Nd.IH(2) [of "Rc a c k v l x"] Nd.prems no 1 by (auto simp: foc_Rc ordered_append ordered_Cons)
  next
    case 2
    have "get_node s compare key a = Some a" using 2 rd by (subst get_node.simps) simp
    then show ?thesis using Nd.prems(1) 2 by (intro disjI2) fastforce
  next
    case 3
    have no: "compare key (fst kv) \<noteq> 0" if "kv \<in> set (inorder r)" for kv
    proof -
      have "compare k (fst kv) < 0" "fst kv \<in> carrier" using that Nd.prems(2,4) by (auto simp: ordered_append ordered_Cons)
      then show ?thesis using 3 compare_lt_trans(1) [of key k "fst kv"] mem Nd.prems(3) by force
    qed
    have "get_node s compare key a = get_node s compare key (addr l)"
      using 3 rd by (subst get_node.simps) simp
    then show ?thesis
      using Nd.IH(1) [of "Lc a c k v x r"] Nd.prems no 3 by (auto simp: foc_Lc ordered_append ordered_Cons)
  qed
qed

end

subsection \<open>Linking a new node in\<close>

fun ins_ctx :: "(ptr \<Rightarrow> ptr \<Rightarrow> int) \<Rightarrow> ptr \<Rightarrow> rbt \<Rightarrow> rbctx \<Rightarrow> rbctx" where
  "ins_ctx cmp key Tip x = x"
| "ins_ctx cmp key (Nd a c k v l r) x =
     (if cmp key k \<le> 0 then ins_ctx cmp key l (Lc a c k v x r) else ins_ctx cmp key r (Rc a c k v l x))"

lemma plug_ins_ctx: "plug Tip (ins_ctx cmp key t x) = plug t x"
  by (induction t arbitrary: x) auto

lemma link_left:
  assumes "foc s0 s root (Nd a c k v Tip r) x" "s new = Some ((new_node key val)\<lparr>color := cn\<rparr>)" "new \<noteq> NULL" "new \<notin> set (a # tnodes r @ cnodes x)"
  shows "\<exists>s'. do { s \<leftarrow> set_lchild new s a; set_parent a s new } = Some s' \<and>
    foc s0 s' root (Nd new cn key val Tip Tip) (Lc a c k v x r)"
  using assms by (auto simp: foc_def wr_def new_node_def addr_plug)

lemma link_right:
  assumes "foc s0 s root (Nd a c k v l Tip) x" "s new = Some ((new_node key val)\<lparr>color := cn\<rparr>)" "new \<noteq> NULL" "new \<notin> set (a # tnodes l @ cnodes x)"
  shows "\<exists>s'. do { s \<leftarrow> set_rchild new s a; set_parent a s new } = Some s' \<and>
    foc s0 s' root (Nd new cn key val Tip Tip) (Rc a c k v l x)"
  using assms by (auto simp: foc_def wr_def new_node_def addr_plug)

lemma insert_link_foc:
  assumes "foc s0 s root t x" "t \<noteq> Tip" "s new = Some ((new_node key val)\<lparr>color := cn\<rparr>)" "new \<noteq> NULL" "new \<notin> set (tnodes t @ cnodes x)"
  shows "\<exists>s'. insert_link s cmp new (addr t) = Some s' \<and>
    foc s0 s' root (Nd new cn key val Tip Tip) (ins_ctx cmp key t x)"
  using assms
proof (induction t arbitrary: x)
  case (Nd a c k v l r)
  note rd = foc_rd [OF Nd.prems(1)]
  have key: "rd p_key s new = Some key" using Nd.prems(3) by (simp add: rd_def new_node_def)
  show ?case
  proof (cases "cmp key k \<le> 0")
    case True
    have e: "insert_link s cmp new a = (if l = Tip then do { s \<leftarrow> set_lchild new s a; set_parent a s new }
        else insert_link s cmp new (addr l))"
      using rd key True by (subst insert_link.simps) simp
    show ?thesis
    proof (cases "l = Tip")
      case l: True
      then show ?thesis using link_left [of s0 s root a c k v r x new cn key val] Nd.prems True e by simp
    next
      case False
      then show ?thesis using Nd.IH(1) [of "Lc a c k v x r"] Nd.prems True e by (simp add: foc_Lc)
    qed
  next
    case False
    have e: "insert_link s cmp new a = (if r = Tip then do { s \<leftarrow> set_rchild new s a; set_parent a s new }
        else insert_link s cmp new (addr r))"
      using rd key False by (subst insert_link.simps) simp
    show ?thesis
    proof (cases "r = Tip")
      case r: True
      then show ?thesis using link_right [of s0 s root a c k v l x new cn key val] Nd.prems False e by simp
    next
      case F: False
      then show ?thesis using Nd.IH(2) [of "Rc a c k v l x"] Nd.prems False e by (simp add: foc_Rc)
    qed
  qed
qed simp

subsection \<open>The map as an ordered association list\<close>

fun kv_insert :: "(ptr \<Rightarrow> ptr \<Rightarrow> int) \<Rightarrow> ptr \<Rightarrow> ptr \<Rightarrow> (ptr \<times> ptr) list \<Rightarrow> (ptr \<times> ptr) list" where
  "kv_insert cmp key val [] = [(key, val)]"
| "kv_insert cmp key val ((k, v) # kvs) =
     (if 0 < cmp key k then (k, v) # kv_insert cmp key val kvs
      else if cmp key k = 0 then (k, val) # kvs
      else (key, val) # (k, v) # kvs)"

lemma kv_insert_below:
  "cmp key k < 0 \<Longrightarrow> kv_insert cmp key val (xs @ (k, v) # ys) = kv_insert cmp key val xs @ (k, v) # ys"
  by (induction xs) auto

lemma kv_insert_above:
  "(\<forall>kv \<in> set xs. 0 < cmp key (fst kv)) \<Longrightarrow> kv_insert cmp key val (xs @ ys) = xs @ kv_insert cmp key val ys"
  by (induction xs) auto

lemma kv_insert_hit:
  "(\<forall>kv \<in> set xs. 0 < cmp key (fst kv)) \<Longrightarrow> cmp key k = 0 \<Longrightarrow>
   kv_insert cmp key val (xs @ (k, v) # ys) = xs @ (k, val) # ys"
  by (simp add: kv_insert_above)

context item_compare
begin

lemma before_smaller:
  assumes "ordered compare (xs @ (k, v) # ys)" "insert key (fst ` set (xs @ (k, v) # ys)) \<subseteq> carrier" "0 \<le> compare key k"
  shows "\<forall>kv \<in> set xs. 0 < compare key (fst kv)"
proof
  fix kv assume "kv \<in> set xs"
  then have "compare (fst kv) k < 0" "fst kv \<in> carrier" "k \<in> carrier" "key \<in> carrier"
    using assms(1,2) by (auto simp: ordered_append)
  then show "0 < compare key (fst kv)"
    using compare_lt_trans(2) [of "fst kv" k key] compare_ge [of key k] assms(3) compare_swap [of "fst kv" key] by simp
qed

lemma inorder_ins_ctx:
  assumes "ordered compare (inorder t)" "insert key (fst ` set (inorder t)) \<subseteq> carrier"
    "\<forall>kv \<in> set (inorder t). compare key (fst kv) \<noteq> 0"
  shows "inorder (plug (Nd a c key val Tip Tip) (ins_ctx compare key t x)) = cl x @ kv_insert compare key val (inorder t) @ cr x"
  using assms
proof (induction t arbitrary: x)
  case Tip
  then show ?case by (simp add: inorder_plug_ctx)
next
  case (Nd b c' k v l r)
  show ?case
  proof (cases "compare key k \<le> 0")
    case True
    then have "compare key k < 0" using Nd.prems(3) by force
    moreover have "inorder (plug (Nd a c key val Tip Tip) (ins_ctx compare key l (Lc b c' k v x r))) =
        cl (Lc b c' k v x r) @ kv_insert compare key val (inorder l) @ cr (Lc b c' k v x r)"
      using Nd.prems by (intro Nd.IH(1)) (auto simp: ordered_append)
    ultimately show ?thesis using True by (simp add: kv_insert_below)
  next
    case False
    have "\<forall>kv \<in> set (inorder l). 0 < compare key (fst kv)"
      using before_smaller [of "inorder l" k v "inorder r" key] Nd.prems False by simp
    moreover have "inorder (plug (Nd a c key val Tip Tip) (ins_ctx compare key r (Rc b c' k v l x))) =
        cl (Rc b c' k v l x) @ kv_insert compare key val (inorder r) @ cr (Rc b c' k v l x)"
      using Nd.prems by (intro Nd.IH(2)) (auto simp: ordered_append ordered_Cons)
    ultimately show ?thesis using False by (simp add: kv_insert_above)
  qed
qed

lemma ordered_kv_insert:
  "ordered compare kvs \<Longrightarrow> insert key (fst ` set kvs) \<subseteq> carrier \<Longrightarrow> ordered compare (kv_insert compare key val kvs)"
proof (induction kvs)
  case Nil
  then show ?case by (simp add: ordered_def)
next
  case (Cons kv kvs)
  obtain k v where kv: "kv = (k, v)" by (cases kv)
  have mem: "key \<in> carrier" "k \<in> carrier" "\<And>y. y \<in> set kvs \<Longrightarrow> fst y \<in> carrier" using Cons.prems(2) by (auto simp: kv)
  have lt: "compare k (fst y) < 0" if "y \<in> set kvs" for y using Cons.prems(1) that by (simp add: ordered_Cons kv)
  have sub: "fst ` set (kv_insert compare key val kvs) \<subseteq> insert key (fst ` set kvs)"
    by (induction kvs rule: kv_insert.induct [of _ compare key val]) auto
  consider "0 < compare key k" | "compare key k = 0" | "compare key k < 0" by linarith
  then show ?case
  proof cases
    case 1
    then have "compare k key < 0" using compare_swap mem by blast
    then have "\<forall>y \<in> set (kv_insert compare key val kvs). compare k (fst y) < 0" using sub lt by fastforce
    then show ?thesis using 1 Cons by (simp add: kv ordered_Cons)
  next
    case 2
    then show ?thesis using Cons.prems(1) by (simp add: kv ordered_Cons)
  next
    case 3
    then have "\<forall>y \<in> set kvs. compare key (fst y) < 0" using compare_lt_trans(1) [of key k] lt mem by auto
    then show ?thesis using 3 Cons.prems(1) by (simp add: kv ordered_Cons)
  qed
qed

end

end
