(* ===== verification/RtlMapTree.thy ===== *)
theory RtlMapTree
  imports RtlMapInsert
begin

text \<open>
  Maps as ordered association lists. \<open>map_is s m t\<close> ties a map to its tree; \<open>insert_node\<close> and the
  assignment to a found value are steps between such trees. \<open>kv_insert\<close>, \<open>kv_delete\<close> and
  \<open>kv_lookup\<close> are what a finite map does, up to keys that compare equal.
\<close>

subsection \<open>Insertion and update\<close>

definition rb_tree :: "rbnodes \<Rightarrow> rbnodes \<Rightarrow> ptr \<Rightarrow> rbt \<Rightarrow> bool" where
  "rb_tree s0 s root t \<longleftrightarrow> foc s0 s root t Top \<and> (\<exists>N. rbs t N) \<and> tcol t = BLACK"

definition map_is :: "rbnodes \<Rightarrow> rtl_map \<Rightarrow> rbt \<Rightarrow> bool" where
  "map_is s m t \<longleftrightarrow> rb_tree s s (p_tree m) t \<and> ordered (compare_func m) (inorder t)"

lemma foc_rebase: "foc s0 s root t x \<Longrightarrow> foc s s root t x"
  by (simp add: foc_def)

lemma foc_frame: "foc s0 s root t Top \<Longrightarrow> a \<notin> set (tnodes t) \<Longrightarrow> s a = s0 a"
  by (simp add: foc_def)

lemma blacken_root:
  assumes "foc s0 s root t Top" "rbs t N" "t \<noteq> Tip"
  obtains s' t' where "set_color BLACK s root = Some s'" "rb_tree s0 s' root t'" "inorder t' = inorder t"
    "tnodes t' = tnodes t"
proof -
  obtain a c k v l r where t: "t = Nd a c k v l r" using assms(3) by (cases t) auto
  have "root = a" using assms(1) by (simp add: t foc_def)
  obtain s' where s': "set_color BLACK s a = Some s'" "foc s0 s' root (Nd a BLACK k v l r) Top"
    using foc_color [OF assms(1) [unfolded t]] .
  have "\<exists>N. rbs (Nd a BLACK k v l r) N" using assms(2) by (auto simp: t split: if_splits)
  then have "rb_tree s0 s' root (Nd a BLACK k v l r)" using s'(2) by (simp add: rb_tree_def)
  with s'(1) show ?thesis using \<open>root = a\<close> by (intro that [of s' "Nd a BLACK k v l r"]) (simp_all add: t)
qed

lemma insert_linked:
  assumes f: "foc s s root t Top" and N: "rbs t N" "tcol t = BLACK" "t \<noteq> Tip"
    and new: "s new = Some ((new_node key val)\<lparr>color := cn\<rparr>)" "new \<noteq> NULL" "new \<notin> set (tnodes t)"
  shows "\<exists>s' root' t'. do {
      s \<leftarrow> insert_link s cmp new root;
      s \<leftarrow> set_color RED s new;
      (s, root) \<leftarrow> insert_fix s root new;
      s \<leftarrow> set_color BLACK s root;
      Some (s, root) } = Some (s', root') \<and>
    rb_tree s s' root' t' \<and> inorder t' = inorder (plug (Nd new BLACK key val Tip Tip) (ins_ctx cmp key t Top)) \<and>
    set (tnodes t') = insert new (set (tnodes t))"
proof -
  let ?y = "ins_ctx cmp key t Top"
  have root: "root = addr t" using f by (simp add: foc_def)
  obtain s1 where s1: "insert_link s cmp new root = Some s1" "foc s s1 root (Nd new cn key val Tip Tip) ?y"
    using insert_link_foc [OF f N(3), of new cn key val cmp] new root by auto
  obtain s2 where s2: "set_color RED s1 new = Some s2" "foc s s2 root (Nd new RED key val Tip Tip) ?y"
    using foc_color [OF s1(2)] .
  have "\<exists>n. rbs Tip n \<and> cok ?y n \<and> (?y \<noteq> Top \<longrightarrow> tcol Tip = BLACK \<or> ccol ?y = BLACK)"
    using N by (intro plug_rbs) (auto simp: plug_ins_ctx)
  then have "cok ?y 0" by auto
  then have "fixable s s2 root (Nd new RED key val Tip Tip) ?y"
    using s2(2) by (intro insert_fix_repairs [of _ _ _ _ _ 0]) auto
  then obtain s3 root3 t3 where s3: "insert_fix s2 root new = Some (s3, root3)" "foc s s3 root3 t3 Top"
    "repaired (plug (Nd new RED key val Tip Tip) ?y) t3" by (auto simp: fixable_def)
  have nodes: "set (tnodes t3) = insert new (set (tnodes t))"
    using s3(3) arg_cong [OF plug_ins_ctx [of cmp key t Top], of "\<lambda>t. set (tnodes t)"]
    by (auto simp: repaired_def set_tnodes_plug)
  obtain N3 where N3: "rbs t3 N3" using s3(3) by (auto simp: repaired_def)
  have "t3 \<noteq> Tip" using nodes by auto
  from blacken_root [OF s3(2) N3 this] obtain s4 t4 where s4: "set_color BLACK s3 root3 = Some s4"
    "rb_tree s s4 root3 t4" "inorder t4 = inorder t3" "tnodes t4 = tnodes t3" .
  have "inorder t4 = inorder (plug (Nd new BLACK key val Tip Tip) ?y)"
    using s3(3) s4(3) inorder_plug [of "Nd new RED key val Tip Tip" "Nd new BLACK key val Tip Tip" ?y]
    by (simp add: repaired_def)
  then show ?thesis using s1(1) s2(1) s3(1) s4(1,2,4) nodes
    by (intro exI [of _ s4] exI [of _ root3] exI [of _ t4]) simp
qed

lemma insert_node_tree:
  assumes t: "rb_tree s s root t" and new: "new \<noteq> NULL" "new \<notin> set (tnodes t)"
  shows "\<exists>s' root' t'. insert_node s root cmp key val new = Some (s', root', new) \<and>
    rb_tree s' s' root' t' \<and> inorder t' = inorder (plug (Nd new BLACK key val Tip Tip) (ins_ctx cmp key t Top)) \<and>
    set (tnodes t') = insert new (set (tnodes t)) \<and> (\<forall>a. a \<notin> insert new (set (tnodes t)) \<longrightarrow> s' a = s a)"
proof -
  let ?s = "s(new \<mapsto> new_node key val)"
  have f: "foc ?s ?s root t Top" using t new by (auto simp: rb_tree_def foc_def)
  have root: "root = addr t" using f by (simp add: foc_def)
  obtain N where N: "rbs t N" "tcol t = BLACK" using t by (auto simp: rb_tree_def)
  show ?thesis
  proof (cases "t = Tip")
    case True
    then have "insert_node s root cmp key val new = Some (?s, new, new)"
      using new root by (auto simp: insert_node_def wr_def new_node_def fun_eq_iff)
    moreover have "rb_tree ?s ?s new (Nd new BLACK key val Tip Tip)"
      using new by (auto simp: rb_tree_def foc_def new_node_def)
    ultimately show ?thesis using True by (intro exI [of _ ?s] exI [of _ new] exI [of _ "Nd new BLACK key val Tip Tip"]) auto
  next
    case False
    have "?s new = Some ((new_node key val)\<lparr>color := BLACK\<rparr>)" by (simp add: new_node_def)
    from insert_linked [OF f N False this new, of cmp] obtain s' root' t' where s': "do {
        s \<leftarrow> insert_link ?s cmp new root;
        s \<leftarrow> set_color RED s new;
        (s, root) \<leftarrow> insert_fix s root new;
        s \<leftarrow> set_color BLACK s root;
        Some (s, root) } = Some (s', root')"
      "rb_tree ?s s' root' t'" "inorder t' = inorder (plug (Nd new BLACK key val Tip Tip) (ins_ctx cmp key t Top))"
      "set (tnodes t') = insert new (set (tnodes t))" by blast
    have "root \<noteq> NULL" using f False by (auto simp: foc_def)
    then have "insert_node s root cmp key val new = Some (s', root', new)"
      using s'(1) new by (auto simp: insert_node_def bind_eq_Some_conv)
    moreover have "\<forall>a. a \<notin> insert new (set (tnodes t)) \<longrightarrow> s' a = s a"
      using foc_frame [of ?s s' root' t'] s'(2,4) by (simp add: rb_tree_def)
    moreover have "rb_tree s' s' root' t'" using s'(2) foc_rebase [of ?s s' root' t' Top] by (simp add: rb_tree_def)
    ultimately show ?thesis using s'(3,4) by blast
  qed
qed

lemma foc_value:
  assumes "foc s0 s root (Nd a c k v l r) x"
  obtains s' where "wr (p_value_update (\<lambda>_. v')) s a = Some s'" "foc s0 s' root (Nd a c k v' l r) x"
proof (rule that)
  show "wr (p_value_update (\<lambda>_. v')) s a = Some (s(a \<mapsto>
      \<lparr>p_parent = caddr x, p_lchild = addr l, p_rchild = addr r, color = c, p_key = k, p_value = v'\<rparr>))"
    using assms by (simp add: foc_def wr_def)
  show "foc s0 (s(a \<mapsto> \<lparr>p_parent = caddr x, p_lchild = addr l, p_rchild = addr r, color = c, p_key = k, p_value = v'\<rparr>))
      root (Nd a c k v' l r) x"
    using assms by (auto simp: foc_def addr_plug)
qed

lemma tcol_plug: "tcol t = tcol t' \<Longrightarrow> tcol (plug t x) = tcol (plug t' x)"
  by (induction x arbitrary: t t') auto

lemma tnodes_plug_value: "tnodes (plug (Nd a c k v l r) x) = tnodes (plug (Nd a c k' v' l r) x)"
proof -
  have "tnodes t = tnodes t' \<Longrightarrow> tnodes (plug t x) = tnodes (plug t' x)" for t t'
    by (induction x arbitrary: t t') auto
  then show ?thesis by simp
qed

lemma rb_relabel:
  assumes "\<exists>N. rbs (plug (Nd a c k v l r) x) N" "tcol (plug (Nd a c k v l r) x) = BLACK"
  shows "\<exists>N. rbs (plug (Nd a' c k' v' l r) x) N" "tcol (plug (Nd a' c k' v' l r) x) = BLACK"
proof -
  show "tcol (plug (Nd a' c k' v' l r) x) = BLACK"
    using assms(2) tcol_plug [of "Nd a c k v l r" "Nd a' c k' v' l r" x] by simp
  obtain n where "rbs (Nd a c k v l r) n" "cok x n" "x \<noteq> Top \<longrightarrow> c = BLACK \<or> ccol x = BLACK"
    using assms plug_rbs [of "Nd a c k v l r" x] by auto
  then show "\<exists>N. rbs (plug (Nd a' c k' v' l r) x) N"
    by (intro rbs_plug [of _ n]) (auto split: rbctx.splits if_splits)
qed

lemma rb_plug_label:
  assumes "rb_tree s s root (plug (Nd a c k v l r) x)" "foc s s' root (Nd a c k' v' l r) x"
  shows "rb_tree s' s' root (plug (Nd a c k' v' l r) x)"
  using assms rb_relabel [of a c k v l r x a k' v']
    foc_rebase [of s s' root "plug (Nd a c k' v' l r) x" Top] foc_plug [of s s' root "Nd a c k' v' l r" x]
  by (simp add: rb_tree_def)

subsection \<open>Lookup in the ordered list\<close>

definition kv_lookup :: "(ptr \<Rightarrow> ptr \<Rightarrow> int) \<Rightarrow> ptr \<Rightarrow> (ptr \<times> ptr) list \<Rightarrow> ptr" where
  "kv_lookup cmp key kvs = (case List.find (\<lambda>kv. cmp key (fst kv) = 0) kvs of Some kv \<Rightarrow> snd kv | None \<Rightarrow> NULL)"

definition kv_delete :: "(ptr \<Rightarrow> ptr \<Rightarrow> int) \<Rightarrow> ptr \<Rightarrow> (ptr \<times> ptr) list \<Rightarrow> (ptr \<times> ptr) list" where
  "kv_delete cmp key kvs = filter (\<lambda>kv. cmp key (fst kv) \<noteq> 0) kvs"

lemma kv_lookup_absent: "\<forall>kv \<in> set kvs. cmp key (fst kv) \<noteq> 0 \<Longrightarrow> kv_lookup cmp key kvs = NULL"
  by (induction kvs) (auto simp: kv_lookup_def)

lemma kv_lookup_skip:
  "\<forall>kv \<in> set xs. cmp key (fst kv) \<noteq> 0 \<Longrightarrow> kv_lookup cmp key (xs @ kvs) = kv_lookup cmp key kvs"
  by (induction xs) (auto simp: kv_lookup_def)

lemma kv_lookup_Cons: "kv_lookup cmp key ((k, v) # kvs) = (if cmp key k = 0 then v else kv_lookup cmp key kvs)"
  by (simp add: kv_lookup_def)

lemma kv_lookup_Nil: "kv_lookup cmp key [] = NULL"
  by (simp add: kv_lookup_def)

context item_compare
begin

lemma compare_eq_sym: "x \<in> carrier \<Longrightarrow> y \<in> carrier \<Longrightarrow> compare x y = 0 \<longleftrightarrow> compare y x = 0"
  using compare_swap [of x y] compare_swap [of y x] by linarith

lemma compare_eq_left:
  assumes "x \<in> carrier" "y \<in> carrier" "z \<in> carrier" "compare x y = 0"
  shows "compare x z = 0 \<longleftrightarrow> compare y z = 0"
proof -
  have e: "compare y x = 0" using assms compare_eq_sym by blast
  have "compare x z \<le> 0 \<longleftrightarrow> compare y z \<le> 0"
    using assms e compare_trans [of x y z] compare_trans [of y x z] by auto
  moreover have "compare z x \<le> 0 \<longleftrightarrow> compare z y \<le> 0"
    using assms e compare_trans [of z x y] compare_trans [of z y x] by auto
  moreover have "0 \<le> compare x z \<longleftrightarrow> compare z x \<le> 0" "0 \<le> compare y z \<longleftrightarrow> compare z y \<le> 0"
    using assms by (simp_all add: compare_ge)
  ultimately show ?thesis by linarith
qed

lemma ordered_hit:
  assumes "ordered compare (xs @ (k, v) # ys)" "insert key (fst ` set (xs @ (k, v) # ys)) \<subseteq> carrier" "compare key k = 0"
  shows "\<forall>kv \<in> set xs. 0 < compare key (fst kv)" "\<forall>kv \<in> set ys. compare key (fst kv) < 0"
proof -
  show "\<forall>kv \<in> set xs. 0 < compare key (fst kv)" using assms by (intro before_smaller) auto
  show "\<forall>kv \<in> set ys. compare key (fst kv) < 0"
  proof
    fix kv assume "kv \<in> set ys"
    then have "compare k (fst kv) < 0" "fst kv \<in> carrier" "k \<in> carrier" "key \<in> carrier"
      using assms(1,2) by (auto simp: ordered_append ordered_Cons)
    then show "compare key (fst kv) < 0" using compare_lt_trans(1) [of key k "fst kv"] assms(3) by simp
  qed
qed

lemma kv_hit:
  assumes "ordered compare (xs @ (k, v) # ys)" "insert key (fst ` set (xs @ (k, v) # ys)) \<subseteq> carrier" "compare key k = 0"
  shows "kv_lookup compare key (xs @ (k, v) # ys) = v"
    "kv_insert compare key val (xs @ (k, v) # ys) = xs @ (k, val) # ys"
    "kv_delete compare key (xs @ (k, v) # ys) = xs @ ys"
proof -
  note hit = ordered_hit [OF assms]
  show "kv_lookup compare key (xs @ (k, v) # ys) = v" using hit assms(3) by (subst kv_lookup_skip) (auto simp: kv_lookup_Cons)
  show "kv_insert compare key val (xs @ (k, v) # ys) = xs @ (k, val) # ys" using hit(1) assms(3) by (rule kv_insert_hit)
  show "kv_delete compare key (xs @ (k, v) # ys) = xs @ ys"
  proof -
    have "filter (\<lambda>kv. compare key (fst kv) \<noteq> 0) xs = xs" "filter (\<lambda>kv. compare key (fst kv) \<noteq> 0) ys = ys"
      by (rule filter_True, use hit in fastforce)+
    then show ?thesis using assms(3) by (simp add: kv_delete_def)
  qed
qed

lemma kv_lookup_insert:
  assumes "ordered compare kvs" "insert key (insert key' (fst ` set kvs)) \<subseteq> carrier"
  shows "kv_lookup compare key' (kv_insert compare key val kvs) = (if compare key' key = 0 then val else kv_lookup compare key' kvs)"
  using assms
proof (induction kvs)
  case Nil
  then show ?case by (simp add: kv_lookup_def)
next
  case (Cons kv kvs)
  obtain k v where kv: "kv = (k, v)" by (cases kv)
  have mem: "key \<in> carrier" "key' \<in> carrier" "k \<in> carrier" using Cons.prems(2) by (auto simp: kv)
  have "compare key' key = 0 \<Longrightarrow> compare key' k = 0 \<longleftrightarrow> compare key k = 0" using compare_eq_left mem by blast
  moreover have "compare key k = 0 \<Longrightarrow> compare key' key = 0 \<longleftrightarrow> compare key' k = 0"
    using compare_eq_left [of key k key'] compare_eq_sym mem by blast
  ultimately show ?case using Cons by (auto simp: kv kv_lookup_Cons ordered_Cons)
qed

lemma kv_lookup_delete:
  assumes "insert key (insert key' (fst ` set kvs)) \<subseteq> carrier"
  shows "kv_lookup compare key' (kv_delete compare key kvs) = (if compare key' key = 0 then NULL else kv_lookup compare key' kvs)"
  using assms
proof (induction kvs)
  case Nil
  then show ?case by (simp add: kv_lookup_def kv_delete_def)
next
  case (Cons kv kvs)
  obtain k v where kv: "kv = (k, v)" by (cases kv)
  have mem: "key \<in> carrier" "key' \<in> carrier" "k \<in> carrier" using Cons.prems by (auto simp: kv)
  have "compare key' key = 0 \<Longrightarrow> compare key' k = 0 \<longleftrightarrow> compare key k = 0" using compare_eq_left mem by blast
  moreover have "compare key k = 0 \<Longrightarrow> compare key' key = 0 \<longleftrightarrow> compare key' k = 0"
    using compare_eq_left [of key k key'] compare_eq_sym mem by blast
  ultimately show ?case using Cons by (auto simp: kv kv_lookup_Cons kv_delete_def)
qed

lemma ordered_kv_delete: "ordered compare kvs \<Longrightarrow> ordered compare (kv_delete compare key kvs)"
  by (simp add: ordered_def kv_delete_def sorted_wrt_filter)

end

end
