(* ===== verification/RtlMapRebalance.thy ===== *)
theory RtlMapRebalance
  imports RtlMapTree
begin

text \<open>
  The repair after a removal, \<^verbatim>\<open>remove_rebalance\<close>: its four cases as steps from focus to focus, for a
  left and for a right child. The focus is one black node short; a round settles this below the
  parent, or passes it on to the parent.
\<close>

subsection \<open>Colours and single steps\<close>

fun paint :: "u32 \<Rightarrow> rbt \<Rightarrow> rbt" where
  "paint c' Tip = Tip"
| "paint c' (Nd a c k v l r) = Nd a c' k v l r"

lemma paint_simps [simp]: "inorder (paint c t) = inorder t" "tnodes (paint c t) = tnodes t" "tcol (paint BLACK t) = BLACK"
    "addr (paint c t) = addr t" "paint c t = Tip \<longleftrightarrow> t = Tip"
  by (cases t; simp)+

lemma rbs_paint: "rbs t n \<Longrightarrow> \<exists>m. rbs (paint BLACK t) m"
  by (cases t) (auto split: if_splits)

lemma color_of_NULL [simp]: "color_of s NULL = Some BLACK"
  by (simp add: color_of_def)

lemma tr_color_of: "tr s par t \<Longrightarrow> color_of s (addr t) = Some (if tcol t = BLACK then BLACK else RED)"
  by (cases t) (auto simp: color_of_def rd_def)

lemma foc_color_of:
  assumes "foc s0 s root t x"
  shows "color_of s (addr t) = Some (if tcol t = BLACK then BLACK else RED)"
  using assms tr_color_of [of s "caddr x" t] by (simp add: foc_def)

lemma foc_child_colors:
  assumes "foc s0 s root (Nd a c k v l r) x"
  shows "color_of s (addr l) = Some (if tcol l = BLACK then BLACK else RED)"
    "color_of s (addr r) = Some (if tcol r = BLACK then BLACK else RED)"
  using assms tr_color_of [of s a l] tr_color_of [of s a r] by (simp_all add: foc_def)

lemma both_black_foc:
  assumes "foc s0 s root (Nd a c k v l r) x"
  shows "both_black s a = Some (c = BLACK \<and> tcol l = BLACK \<and> tcol r = BLACK)"
  using foc_rd [OF assms] foc_child_colors [OF assms] by (simp add: both_black_def)

lemma child_red_foc:
  assumes "foc s0 s root (Nd a c k v l r) x"
  shows "child_red p_lchild s a = Some (c = BLACK \<and> tcol l \<noteq> BLACK)" "child_red p_rchild s a = Some (c = BLACK \<and> tcol r \<noteq> BLACK)"
  using foc_rd [OF assms] foc_child_colors [OF assms] foc_color_of [OF assms] by (simp_all add: child_red_def)

lemma foc_blacken_left:
  assumes "foc s0 s root (Nd a c k v l r) x"
  obtains s' where "blacken s (addr l) = Some s'" "foc s0 s' root (Nd a c k v (paint BLACK l) r) x"
proof (cases l)
  case Tip
  then show ?thesis using assms by (intro that [of s]) (simp_all add: blacken_def)
next
  case (Nd b d k' v' m n)
  obtain s' where "set_color BLACK s b = Some s'" "foc s0 s' root (Nd a c k v (Nd b BLACK k' v' m n) r) x"
    by (rule foc_color_left [OF assms [unfolded Nd]])
  moreover have "b \<noteq> NULL" using foc_rd(8) [OF assms] Nd by simp
  ultimately show ?thesis by (intro that [of s']) (simp_all add: blacken_def Nd)
qed

lemma foc_blacken_right:
  assumes "foc s0 s root (Nd a c k v l r) x"
  obtains s' where "blacken s (addr r) = Some s'" "foc s0 s' root (Nd a c k v l (paint BLACK r)) x"
proof (cases r)
  case Tip
  then show ?thesis using assms by (intro that [of s]) (simp_all add: blacken_def)
next
  case (Nd b d k' v' m n)
  obtain s' where "set_color BLACK s b = Some s'" "foc s0 s' root (Nd a c k v l (Nd b BLACK k' v' m n)) x"
    by (rule foc_color_right [OF assms [unfolded Nd]])
  moreover have "b \<noteq> NULL" using foc_rd(9) [OF assms] Nd by simp
  ultimately show ?thesis by (intro that [of s']) (simp_all add: blacken_def Nd)
qed

subsection \<open>One round for a left child\<close>

text \<open>Case 2: both nephews are black.\<close>

lemma left_case2:
  assumes f: "foc s0 s root (Nd p cp pk pv t (Nd b BLACK bk bv bl br)) x"
    and n: "tcol bl = BLACK" "tcol br = BLACK"
  obtains s' where "rebalance_left_rest s root a p = Some (s', root, Inl p)"
    "foc s0 s' root (Nd p cp pk pv t (Nd b RED bk bv bl br)) x"
proof -
  have fb: "foc s0 s root (Nd b BLACK bk bv bl br) (Rc p cp pk pv t x)" using f by (simp add: foc_Rc)
  obtain s1 where s1: "set_color RED s b = Some s1" "foc s0 s1 root (Nd p cp pk pv t (Nd b RED bk bv bl br)) x"
    by (rule foc_color_right [OF f])
  have "rebalance_left_rest s root a p = Some (s1, root, Inl p)"
    using foc_rd [OF f] both_black_foc [OF fb] n s1(1) by (simp add: rebalance_left_rest_def)
  then show ?thesis using s1(2) that by blast
qed

text \<open>Case 4: the far nephew is red; the rotation ends the loop.\<close>

lemma left_case4:
  assumes f: "foc s0 s root (Nd p cp pk pv t (Nd b BLACK bk bv bl br)) x"
    and n: "tcol br \<noteq> BLACK" and sib: "sib = b"
  obtains s' root' where "do {
         case4 \<leftarrow> child_red p_rchild s sib;
         if case4
         then do {
           (s, p_tree, _) \<leftarrow> l_rotate s root p;
           c \<leftarrow> rd color s p;
           s \<leftarrow> set_color c s sib;
           l \<leftarrow> rd p_lchild s sib;
           s \<leftarrow> blacken s l;
           r \<leftarrow> rd p_rchild s sib;
           s \<leftarrow> blacken s r;
           Some (s, p_tree, Inr ()) }
         else Some (s, root, Inl a) } = Some (s', root', Inr ())"
    "foc s0 s' root' (Nd b cp bk bv (Nd p BLACK pk pv t bl) (paint BLACK br)) x"
proof -
  have fb: "foc s0 s root (Nd b BLACK bk bv bl br) (Rc p cp pk pv t x)" using f by (simp add: foc_Rc)
  from l_rotate_foc [OF f] obtain s1 root1 where s1: "l_rotate s root p = Some (s1, root1, b)"
    "foc s0 s1 root1 (Nd b BLACK bk bv (Nd p cp pk pv t bl) br) x" by blast
  have fp: "foc s0 s1 root1 (Nd p cp pk pv t bl) (Lc b BLACK bk bv x br)" using s1(2) by (simp add: foc_Lc)
  obtain s2 where s2: "set_color cp s1 b = Some s2" "foc s0 s2 root1 (Nd b cp bk bv (Nd p cp pk pv t bl) br) x"
    by (rule foc_color [OF s1(2)])
  obtain s3 where s3: "blacken s2 p = Some s3" "foc s0 s3 root1 (Nd b cp bk bv (Nd p BLACK pk pv t bl) br) x"
    using foc_blacken_left [OF s2(2)] by auto
  obtain s4 where s4: "blacken s3 (addr br) = Some s4" "foc s0 s4 root1 (Nd b cp bk bv (Nd p BLACK pk pv t bl) (paint BLACK br)) x"
    using foc_blacken_right [OF s3(2)] by auto
  show ?thesis
    using s4(2) child_red_foc(2) [OF fb] n s1(1) foc_rd(4) [OF fp] s2(1) foc_rd(2) [OF s2(2)] s3(1) foc_rd(3) [OF s3(2)] s4(1)
    by (intro that [of s4 root1]) (simp_all add: sib)
qed

lemma left_outer:
  assumes f: "foc s0 s root (Nd p cp pk pv t (Nd b BLACK bk bv bl br)) x"
    and n: "tcol bl = BLACK" "tcol br \<noteq> BLACK"
  obtains s' root' where "rebalance_left_rest s root a p = Some (s', root', Inr ())"
    "foc s0 s' root' (Nd b cp bk bv (Nd p BLACK pk pv t bl) (paint BLACK br)) x"
proof -
  have fb: "foc s0 s root (Nd b BLACK bk bv bl br) (Rc p cp pk pv t x)" using f by (simp add: foc_Rc)
  show ?thesis
    by (rule left_case4 [OF f n(2) refl, where a = a], rule that)
      (use foc_rd [OF f] both_black_foc [OF fb] child_red_foc(1) [OF fb] n in \<open>simp_all add: rebalance_left_rest_def\<close>)
qed

lemma left_inner:
  assumes f: "foc s0 s root (Nd p cp pk pv t (Nd b BLACK bk bv (Nd c RED ck cv m1 m2) br)) x"
  obtains s' root' where "rebalance_left_rest s root a p = Some (s', root', Inr ())"
    "foc s0 s' root' (Nd c cp ck cv (Nd p BLACK pk pv t m1) (Nd b BLACK bk bv m2 br)) x"
proof -
  let ?x = "Rc p cp pk pv t x"
  have fb: "foc s0 s root (Nd b BLACK bk bv (Nd c RED ck cv m1 m2) br) ?x" using f by (simp add: foc_Rc)
  obtain s1 where s1: "set_color RED s b = Some s1" "foc s0 s1 root (Nd b RED bk bv (Nd c RED ck cv m1 m2) br) ?x"
    by (rule foc_color [OF fb])
  obtain s2 where s2: "set_color BLACK s1 c = Some s2" "foc s0 s2 root (Nd b RED bk bv (Nd c BLACK ck cv m1 m2) br) ?x"
    by (rule foc_color_left [OF s1(2)])
  from r_rotate_foc [OF s2(2)] obtain s3 root3 where s3: "r_rotate s2 root b = Some (s3, root3, c)"
    "foc s0 s3 root3 (Nd c BLACK ck cv m1 (Nd b RED bk bv m2 br)) ?x" by blast
  then have fp: "foc s0 s3 root3 (Nd p cp pk pv t (Nd c BLACK ck cv m1 (Nd b RED bk bv m2 br))) x" by (simp add: foc_Rc)
  obtain s4 root4 where s4: "foc s0 s4 root4 (Nd c cp ck cv (Nd p BLACK pk pv t m1) (Nd b BLACK bk bv m2 br)) x"
    "rebalance_left_rest s root a p = Some (s4, root4, Inr ())"
    by (rule left_case4 [OF fp _ refl, where a = a])
      (use foc_rd [OF f] both_black_foc [OF fb] child_red_foc(1) [OF fb] s1(1) foc_rd(2) [OF s1(2)] s2(1) s3(1) foc_rd(3) [OF fp]
       in \<open>simp_all add: rebalance_left_rest_def\<close>)
  then show ?thesis using that by blast
qed

subsection \<open>One round for a right child\<close>

lemma right_case2:
  assumes f: "foc s0 s root (Nd p cp pk pv (Nd b BLACK bk bv bl br) t) x"
    and n: "tcol bl = BLACK" "tcol br = BLACK"
  obtains s' where "rebalance_right_rest s root a p = Some (s', root, Inl p)"
    "foc s0 s' root (Nd p cp pk pv (Nd b RED bk bv bl br) t) x"
proof -
  have fb: "foc s0 s root (Nd b BLACK bk bv bl br) (Lc p cp pk pv x t)" using f by (simp add: foc_Lc)
  obtain s1 where s1: "set_color RED s b = Some s1" "foc s0 s1 root (Nd p cp pk pv (Nd b RED bk bv bl br) t) x"
    by (rule foc_color_left [OF f])
  have "rebalance_right_rest s root a p = Some (s1, root, Inl p)"
    using foc_rd [OF f] both_black_foc [OF fb] n s1(1) by (simp add: rebalance_right_rest_def)
  then show ?thesis using s1(2) that by blast
qed

lemma right_case4:
  assumes f: "foc s0 s root (Nd p cp pk pv (Nd b BLACK bk bv bl br) t) x"
    and n: "tcol bl \<noteq> BLACK" and sib: "sib = b"
  obtains s' root' where "do {
         case4 \<leftarrow> child_red p_lchild s sib;
         if case4
         then do {
           (s, p_tree, _) \<leftarrow> r_rotate s root p;
           c \<leftarrow> rd color s p;
           s \<leftarrow> set_color c s sib;
           l \<leftarrow> rd p_lchild s sib;
           s \<leftarrow> blacken s l;
           r \<leftarrow> rd p_rchild s sib;
           s \<leftarrow> blacken s r;
           Some (s, p_tree, Inr ()) }
         else Some (s, root, Inl a) } = Some (s', root', Inr ())"
    "foc s0 s' root' (Nd b cp bk bv (paint BLACK bl) (Nd p BLACK pk pv br t)) x"
proof -
  have fb: "foc s0 s root (Nd b BLACK bk bv bl br) (Lc p cp pk pv x t)" using f by (simp add: foc_Lc)
  from r_rotate_foc [OF f] obtain s1 root1 where s1: "r_rotate s root p = Some (s1, root1, b)"
    "foc s0 s1 root1 (Nd b BLACK bk bv bl (Nd p cp pk pv br t)) x" by blast
  have fp: "foc s0 s1 root1 (Nd p cp pk pv br t) (Rc b BLACK bk bv bl x)" using s1(2) by (simp add: foc_Rc)
  obtain s2 where s2: "set_color cp s1 b = Some s2" "foc s0 s2 root1 (Nd b cp bk bv bl (Nd p cp pk pv br t)) x"
    by (rule foc_color [OF s1(2)])
  obtain s3 where s3: "blacken s2 (addr bl) = Some s3" "foc s0 s3 root1 (Nd b cp bk bv (paint BLACK bl) (Nd p cp pk pv br t)) x"
    using foc_blacken_left [OF s2(2)] by auto
  obtain s4 where s4: "blacken s3 p = Some s4" "foc s0 s4 root1 (Nd b cp bk bv (paint BLACK bl) (Nd p BLACK pk pv br t)) x"
    using foc_blacken_right [OF s3(2)] by auto
  show ?thesis
    using s4(2) child_red_foc(1) [OF fb] n s1(1) foc_rd(4) [OF fp] s2(1) foc_rd(2) [OF s2(2)] s3(1) foc_rd(3) [OF s3(2)] s4(1)
    by (intro that [of s4 root1]) (simp_all add: sib)
qed

lemma right_outer:
  assumes f: "foc s0 s root (Nd p cp pk pv (Nd b BLACK bk bv bl br) t) x"
    and n: "tcol bl \<noteq> BLACK" "tcol br = BLACK"
  obtains s' root' where "rebalance_right_rest s root a p = Some (s', root', Inr ())"
    "foc s0 s' root' (Nd b cp bk bv (paint BLACK bl) (Nd p BLACK pk pv br t)) x"
proof -
  have fb: "foc s0 s root (Nd b BLACK bk bv bl br) (Lc p cp pk pv x t)" using f by (simp add: foc_Lc)
  show ?thesis
    by (rule right_case4 [OF f n(1) refl, where a = a], rule that)
      (use foc_rd [OF f] both_black_foc [OF fb] child_red_foc(2) [OF fb] n in \<open>simp_all add: rebalance_right_rest_def\<close>)
qed

lemma right_inner:
  assumes f: "foc s0 s root (Nd p cp pk pv (Nd b BLACK bk bv bl (Nd c RED ck cv m1 m2)) t) x"
  obtains s' root' where "rebalance_right_rest s root a p = Some (s', root', Inr ())"
    "foc s0 s' root' (Nd c cp ck cv (Nd b BLACK bk bv bl m1) (Nd p BLACK pk pv m2 t)) x"
proof -
  let ?x = "Lc p cp pk pv x t"
  have fb: "foc s0 s root (Nd b BLACK bk bv bl (Nd c RED ck cv m1 m2)) ?x" using f by (simp add: foc_Lc)
  obtain s1 where s1: "set_color RED s b = Some s1" "foc s0 s1 root (Nd b RED bk bv bl (Nd c RED ck cv m1 m2)) ?x"
    by (rule foc_color [OF fb])
  obtain s2 where s2: "set_color BLACK s1 c = Some s2" "foc s0 s2 root (Nd b RED bk bv bl (Nd c BLACK ck cv m1 m2)) ?x"
    by (rule foc_color_right [OF s1(2)])
  from l_rotate_foc [OF s2(2)] obtain s3 root3 where s3: "l_rotate s2 root b = Some (s3, root3, c)"
    "foc s0 s3 root3 (Nd c BLACK ck cv (Nd b RED bk bv bl m1) m2) ?x" by blast
  then have fp: "foc s0 s3 root3 (Nd p cp pk pv (Nd c BLACK ck cv (Nd b RED bk bv bl m1) m2) t) x" by (simp add: foc_Lc)
  obtain s4 root4 where s4: "foc s0 s4 root4 (Nd c cp ck cv (Nd b BLACK bk bv bl m1) (Nd p BLACK pk pv m2 t)) x"
    "rebalance_right_rest s root a p = Some (s4, root4, Inr ())"
    by (rule right_case4 [OF fp _ refl, where a = a])
      (use foc_rd [OF f] both_black_foc [OF fb] child_red_foc(2) [OF fb] s1(1) foc_rd(3) [OF s1(2)] s2(1) s3(1) foc_rd(2) [OF fp]
       in \<open>simp_all add: rebalance_right_rest_def\<close>)
  then show ?thesis using that by blast
qed

subsection \<open>A round after case 1\<close>

text \<open>What a rotation leaves in place of the parent's subtree \<open>t0\<close>.\<close>

definition settled :: "rbt \<Rightarrow> u32 \<Rightarrow> nat \<Rightarrow> rbt \<Rightarrow> bool" where
  "settled t0 cp n t' \<longleftrightarrow> inorder t' = inorder t0 \<and> set (tnodes t') = set (tnodes t0) \<and> tcol t' = cp \<and>
     rbs t' (if cp = RED then Suc n else Suc (Suc n))"

lemma left_rest:
  assumes f: "foc s0 s root (Nd p cp pk pv t (Nd b BLACK bk bv bl br)) x"
    and n: "rbs t n" "tcol t = BLACK" "rbs bl n" "rbs br n" "cp = RED \<or> cp = BLACK"
  shows "(\<exists>s'. rebalance_left_rest s root a p = Some (s', root, Inl p) \<and>
      foc s0 s' root (Nd p cp pk pv t (Nd b RED bk bv bl br)) x \<and> tcol bl = BLACK \<and> tcol br = BLACK) \<or>
    (\<exists>s' root' t'. rebalance_left_rest s root a p = Some (s', root', Inr ()) \<and> foc s0 s' root' t' x \<and>
      settled (Nd p cp pk pv t (Nd b BLACK bk bv bl br)) cp n t')"
proof (cases "tcol bl = BLACK")
  case bl: True
  show ?thesis
  proof (cases "tcol br = BLACK")
    case True
    then show ?thesis using bl by (auto intro: left_case2 [OF f])
  next
    case False
    then obtain c ck cv m1 m2 where br: "br = Nd c RED ck cv m1 m2" using n(4) by (cases br) (auto split: if_splits)
    show ?thesis
      by (rule left_outer [OF f bl False, of a]) (use n bl in \<open>auto simp: br settled_def split: if_splits\<close>)
  qed
next
  case False
  then obtain c ck cv m1 m2 where bl: "bl = Nd c RED ck cv m1 m2" using n(3) by (cases bl) (auto split: if_splits)
  show ?thesis
    by (rule left_inner [OF f [unfolded bl], of a]) (use n in \<open>auto simp: bl settled_def split: if_splits\<close>)
qed

lemma right_rest:
  assumes f: "foc s0 s root (Nd p cp pk pv (Nd b BLACK bk bv bl br) t) x"
    and n: "rbs t n" "tcol t = BLACK" "rbs bl n" "rbs br n" "cp = RED \<or> cp = BLACK"
  shows "(\<exists>s'. rebalance_right_rest s root a p = Some (s', root, Inl p) \<and>
      foc s0 s' root (Nd p cp pk pv (Nd b RED bk bv bl br) t) x \<and> tcol bl = BLACK \<and> tcol br = BLACK) \<or>
    (\<exists>s' root' t'. rebalance_right_rest s root a p = Some (s', root', Inr ()) \<and> foc s0 s' root' t' x \<and>
      settled (Nd p cp pk pv (Nd b BLACK bk bv bl br) t) cp n t')"
proof (cases "tcol br = BLACK")
  case br: True
  show ?thesis
  proof (cases "tcol bl = BLACK")
    case True
    then show ?thesis using br by (auto intro: right_case2 [OF f])
  next
    case False
    then obtain c ck cv m1 m2 where bl: "bl = Nd c RED ck cv m1 m2" using n(3) by (cases bl) (auto split: if_splits)
    show ?thesis
      by (rule right_outer [OF f False br, of a]) (use n br in \<open>auto simp: bl settled_def split: if_splits\<close>)
  qed
next
  case False
  then obtain c ck cv m1 m2 where br: "br = Nd c RED ck cv m1 m2" using n(4) by (cases br) (auto split: if_splits)
  show ?thesis
    by (rule right_inner [OF f [unfolded br], of a]) (use n in \<open>auto simp: br settled_def split: if_splits\<close>)
qed

subsection \<open>The loop\<close>

lemma croot_in: "x \<noteq> Top \<Longrightarrow> croot x \<in> set (cnodes x)"
  by (induction x) auto

lemma cx_nodes: "cx s h x \<Longrightarrow> NULL \<notin> set (cnodes x)" and tr_nodes: "tr s par t \<Longrightarrow> NULL \<notin> set (tnodes t)"
proof -
  show tr: "tr s par t \<Longrightarrow> NULL \<notin> set (tnodes t)" for s par t by (induction t arbitrary: par) auto
  show "cx s h x \<Longrightarrow> NULL \<notin> set (cnodes x)" using tr by (induction x arbitrary: h) auto
qed

lemma at_root:
  assumes "foc s0 s root t x"
  shows "addr t = root \<longleftrightarrow> x = Top"
proof (cases "x = Top")
  case True
  then show ?thesis using assms by (simp add: foc_def)
next
  case False
  then have "croot x \<noteq> NULL" "croot x \<notin> set (tnodes t)"
    using croot_in [OF False] assms cx_nodes [of s "addr t" x] by (auto simp: foc_def)
  then have "addr t \<noteq> croot x" by (cases t) auto
  then show ?thesis using assms False by (simp add: foc_def addr_plug)
qed

lemma cok_top: "cok x n \<Longrightarrow> x \<noteq> Top \<Longrightarrow> tcol (plug t x) = BLACK"
proof (induction x arbitrary: t n)
  case (Lc a c k v x r)
  show ?case
  proof (cases "x = Top")
    case True
    then show ?thesis using Lc.prems by (auto split: if_splits)
  next
    case False
    then show ?thesis using Lc.prems Lc.IH [of n] Lc.IH [of "Suc n"] by (auto split: if_splits)
  qed
next
  case (Rc a c k v l x)
  show ?case
  proof (cases "x = Top")
    case True
    then show ?thesis using Rc.prems by (auto split: if_splits)
  next
    case False
    then show ?thesis using Rc.prems Rc.IH [of n] Rc.IH [of "Suc n"] by (auto split: if_splits)
  qed
qed simp

lemma rb_plug:
  assumes "foc s0 s root t x" "rbs t n" "cok x n" "tcol t = BLACK \<or> ccol x = BLACK \<and> x \<noteq> Top"
  shows "rb_tree s0 s root (plug t x)"
proof -
  have "\<exists>N. rbs (plug t x) N" using assms by (intro rbs_plug [of t n]) auto
  moreover have "tcol (plug t x) = BLACK" using assms cok_top [of x n t] by (cases "x = Top") auto
  ultimately show ?thesis using assms(1) foc_plug [of s0 s root t x] by (simp add: rb_tree_def)
qed

text \<open>The loop, started at a subtree, ends in a balanced tree with the contents and nodes of \<open>t0\<close>.\<close>

definition shrinks :: "rbnodes \<Rightarrow> rbnodes \<Rightarrow> ptr \<Rightarrow> rbt \<Rightarrow> rbctx \<Rightarrow> rbt \<Rightarrow> bool" where
  "shrinks s0 s root t x t0 \<longleftrightarrow> (\<forall>q. (t = Tip \<longrightarrow> q = caddr x) \<longrightarrow>
     (\<exists>s' root' T. remove_rebalance s root (addr t) q = Some (s', root') \<and> rb_tree s0 s' root' T \<and>
        inorder T = inorder t0 \<and> set (tnodes T) = set (tnodes t0)))"

lemma foc_parent:
  assumes "foc s0 s root t x" "t = Tip \<longrightarrow> q = caddr x"
  shows "(if addr t \<noteq> NULL then rd p_parent s (addr t) else Some q) = Some (caddr x)"
  using assms by (cases t) (auto simp: foc_rd foc_def)

lemma shrinks_red:
  assumes f: "foc s0 s root (Nd a RED k v l r) x" and n: "rbs l n" "rbs r n" "cok x (Suc n)"
  shows "shrinks s0 s root (Nd a RED k v l r) x (plug (Nd a RED k v l r) x)"
proof -
  obtain s1 where s1: "set_color BLACK s a = Some s1" "foc s0 s1 root (Nd a BLACK k v l r) x" by (rule foc_color [OF f])
  have "rb_tree s0 s1 root (plug (Nd a BLACK k v l r) x)" using n by (intro rb_plug [OF s1(2), of "Suc n"]) auto
  moreover have "remove_rebalance s root a q = Some (s1, root)" for q
    using foc_rd [OF f] foc_color_of [OF f] s1(1) by (subst remove_rebalance.simps) simp
  ultimately show ?thesis
    using inorder_plug [of "Nd a RED k v l r" "Nd a BLACK k v l r" x] by (fastforce simp: shrinks_def set_tnodes_plug)
qed

lemma shrinks_top:
  assumes f: "foc s0 s root t Top" and n: "rbs t n" "tcol t = BLACK"
  shows "shrinks s0 s root t Top t"
proof -
  have "remove_rebalance s root (addr t) q = Some (s, root)" if "t = Tip \<longrightarrow> q = NULL" for q
    using foc_parent [OF f, of q] foc_color_of [OF f] at_root [OF f] n(2) that by (subst remove_rebalance.simps) simp
  moreover have "rb_tree s0 s root t" using f n by (auto simp: rb_tree_def)
  ultimately show ?thesis by (auto simp: shrinks_def)
qed

lemma remove_rebalance_round:
  assumes f: "foc s0 s root t x" and t: "tcol t = BLACK" "t = Tip \<longrightarrow> q = caddr x"
    and x: "x = Lc p cp pk pv y sib \<or> x = Rc p cp pk pv sib y \<and> sib \<noteq> Tip"
  shows "remove_rebalance s root (addr t) q =
    do { (s, root, r) \<leftarrow> (if x = Lc p cp pk pv y sib then rebalance_left s root (addr t) p else rebalance_right s root (addr t) p);
         (case r of Inl z \<Rightarrow> remove_rebalance s root z p | Inr _ \<Rightarrow> Some (s, root)) }"
proof -
  have l: "rd p_lchild s p = Some (if x = Lc p cp pk pv y sib then addr t else addr sib)"
    "x = Rc p cp pk pv sib y \<Longrightarrow> addr sib \<noteq> addr t"
    using x f foc_rd(2) [of s0 s root p cp pk pv t sib y] foc_rd(2) [of s0 s root p cp pk pv sib t y]
      foc_siblings(1) [of s0 s root p cp pk pv sib t y]
    by (auto simp: foc_Lc foc_Rc)
  have "addr t \<noteq> root" using at_root [OF f] x by auto
  moreover have "caddr x = p" using x by auto
  ultimately show ?thesis using foc_parent [OF f t(2)] foc_color_of [OF f] t(1) l x
    by (subst remove_rebalance.simps) auto
qed

lemma shrinks_via:
  assumes "\<And>q. t = Tip \<longrightarrow> q = caddr x \<Longrightarrow> remove_rebalance s root (addr t) q = remove_rebalance s1 root1 (addr u) p"
    "shrinks s0 s1 root1 u y (plug u y)" "u \<noteq> Tip" "inorder (plug u y) = inorder t0" "set (tnodes (plug u y)) = set (tnodes t0)"
  shows "shrinks s0 s root t x t0"
  using assms by (simp add: shrinks_def)

lemma shrinks_done:
  assumes "\<And>q. t = Tip \<longrightarrow> q = caddr x \<Longrightarrow> remove_rebalance s root (addr t) q = Some (s1, root1)"
    "foc s0 s1 root1 t' y" "settled t1 cp n t'" "cok y (if cp = RED then Suc n else Suc (Suc n))"
    "cp = BLACK \<or> ccol y = BLACK \<and> y \<noteq> Top"
    "inorder (plug t1 y) = inorder t0" "set (tnodes (plug t1 y)) = set (tnodes t0)"
  shows "shrinks s0 s root t x t0"
proof -
  have "rb_tree s0 s1 root1 (plug t' y)" using assms(2-5) by (intro rb_plug) (auto simp: settled_def)
  moreover have "inorder (plug t' y) = inorder t0"
    using assms(3,6) inorder_plug [of t' t1 y] by (simp add: settled_def)
  moreover have "set (tnodes (plug t' y)) = set (tnodes t0)" using assms(3,7) by (simp add: settled_def set_tnodes_plug)
  ultimately show ?thesis using assms(1) by (auto simp: shrinks_def)
qed

lemma shrinks_left_black:
  assumes f: "foc s0 s1 root1 (Nd p cp pk pv t (Nd b BLACK bk bv bl br)) y"
    and n: "rbs t n" "tcol t = BLACK" "rbs bl n" "rbs br n" "cp = RED \<or> cp = BLACK"
    and y: "cok y (if cp = RED then Suc n else Suc (Suc n))" "cp = RED \<Longrightarrow> ccol y = BLACK \<and> y \<noteq> Top"
    and round: "\<And>q. t = Tip \<longrightarrow> q = caddr x \<Longrightarrow> remove_rebalance s root (addr t) q =
      do { (s, root, r) \<leftarrow> rebalance_left_rest s1 root1 (addr t) p;
           (case r of Inl z \<Rightarrow> remove_rebalance s root z p | Inr _ \<Rightarrow> Some (s, root)) }"
    and t0: "inorder (plug (Nd p cp pk pv t (Nd b BLACK bk bv bl br)) y) = inorder t0"
      "set (tnodes (plug (Nd p cp pk pv t (Nd b BLACK bk bv bl br)) y)) = set (tnodes t0)"
    and step: "\<And>s1 u. cp = BLACK \<Longrightarrow> foc s0 s1 root1 u y \<Longrightarrow> tcol u = BLACK \<Longrightarrow> rbs u (Suc n) \<Longrightarrow> cok y (Suc (Suc n)) \<Longrightarrow>
      shrinks s0 s1 root1 u y (plug u y)"
  shows "shrinks s0 s root t x t0"
  using left_rest [OF f n, of "addr t"]
proof (elim disjE exE conjE)
  fix s2 assume r: "rebalance_left_rest s1 root1 (addr t) p = Some (s2, root1, Inl p)"
    and f2: "foc s0 s2 root1 (Nd p cp pk pv t (Nd b RED bk bv bl br)) y" and c: "tcol bl = BLACK" "tcol br = BLACK"
  let ?u = "Nd p cp pk pv t (Nd b RED bk bv bl br)"
  have "shrinks s0 s2 root1 ?u y (plug ?u y)"
  proof (cases "cp = RED")
    case True
    then show ?thesis using shrinks_red [of s0 s2 root1 p pk pv t "Nd b RED bk bv bl br" y n] f2 n y c by simp
  next
    case False
    then show ?thesis using step [OF _ f2] n y c by simp
  qed
  then show ?thesis
    using r round t0 inorder_plug [of ?u "Nd p cp pk pv t (Nd b BLACK bk bv bl br)" y]
    by (intro shrinks_via [of t x s root s2 root1 ?u p]) (auto simp: set_tnodes_plug)
next
  fix s2 root2 t' assume r: "rebalance_left_rest s1 root1 (addr t) p = Some (s2, root2, Inr ())"
    and f2: "foc s0 s2 root2 t' y" and st: "settled (Nd p cp pk pv t (Nd b BLACK bk bv bl br)) cp n t'"
  show ?thesis using r round n(5) y by (intro shrinks_done [OF _ f2 st _ _ t0]) auto
qed

lemma shrinks_right_black:
  assumes f: "foc s0 s1 root1 (Nd p cp pk pv (Nd b BLACK bk bv bl br) t) y"
    and n: "rbs t n" "tcol t = BLACK" "rbs bl n" "rbs br n" "cp = RED \<or> cp = BLACK"
    and y: "cok y (if cp = RED then Suc n else Suc (Suc n))" "cp = RED \<Longrightarrow> ccol y = BLACK \<and> y \<noteq> Top"
    and round: "\<And>q. t = Tip \<longrightarrow> q = caddr x \<Longrightarrow> remove_rebalance s root (addr t) q =
      do { (s, root, r) \<leftarrow> rebalance_right_rest s1 root1 (addr t) p;
           (case r of Inl z \<Rightarrow> remove_rebalance s root z p | Inr _ \<Rightarrow> Some (s, root)) }"
    and t0: "inorder (plug (Nd p cp pk pv (Nd b BLACK bk bv bl br) t) y) = inorder t0"
      "set (tnodes (plug (Nd p cp pk pv (Nd b BLACK bk bv bl br) t) y)) = set (tnodes t0)"
    and step: "\<And>s1 u. cp = BLACK \<Longrightarrow> foc s0 s1 root1 u y \<Longrightarrow> tcol u = BLACK \<Longrightarrow> rbs u (Suc n) \<Longrightarrow> cok y (Suc (Suc n)) \<Longrightarrow>
      shrinks s0 s1 root1 u y (plug u y)"
  shows "shrinks s0 s root t x t0"
  using right_rest [OF f n, of "addr t"]
proof (elim disjE exE conjE)
  fix s2 assume r: "rebalance_right_rest s1 root1 (addr t) p = Some (s2, root1, Inl p)"
    and f2: "foc s0 s2 root1 (Nd p cp pk pv (Nd b RED bk bv bl br) t) y" and c: "tcol bl = BLACK" "tcol br = BLACK"
  let ?u = "Nd p cp pk pv (Nd b RED bk bv bl br) t"
  have "shrinks s0 s2 root1 ?u y (plug ?u y)"
  proof (cases "cp = RED")
    case True
    then show ?thesis using shrinks_red [of s0 s2 root1 p pk pv "Nd b RED bk bv bl br" t y n] f2 n y c by simp
  next
    case False
    then show ?thesis using step [OF _ f2] n y c by simp
  qed
  then show ?thesis
    using r round t0 inorder_plug [of ?u "Nd p cp pk pv (Nd b BLACK bk bv bl br) t" y]
    by (intro shrinks_via [of t x s root s2 root1 ?u p]) (auto simp: set_tnodes_plug)
next
  fix s2 root2 t' assume r: "rebalance_right_rest s1 root1 (addr t) p = Some (s2, root2, Inr ())"
    and f2: "foc s0 s2 root2 t' y" and st: "settled (Nd p cp pk pv (Nd b BLACK bk bv bl br) t) cp n t'"
  show ?thesis using r round n(5) y by (intro shrinks_done [OF _ f2 st _ _ t0]) auto
qed

text \<open>Case 1 rotates a red sibling away first.\<close>

lemma left_case1:
  assumes f: "foc s0 s root (Nd p cp pk pv t (Nd b RED bk bv bl br)) x"
  obtains s' root' where "rebalance_left s root a p = rebalance_left_rest s' root' a p"
    "foc s0 s' root' (Nd p RED pk pv t bl) (Lc b BLACK bk bv x br)"
proof -
  obtain s1 where s1: "set_color BLACK s b = Some s1" "foc s0 s1 root (Nd p cp pk pv t (Nd b BLACK bk bv bl br)) x"
    by (rule foc_color_right [OF f])
  obtain s2 where s2: "set_color RED s1 p = Some s2" "foc s0 s2 root (Nd p RED pk pv t (Nd b BLACK bk bv bl br)) x"
    by (rule foc_color [OF s1(2)])
  from l_rotate_foc [OF s2(2)] obtain s3 root3 where s3: "l_rotate s2 root p = Some (s3, root3, b)"
    "foc s0 s3 root3 (Nd b BLACK bk bv (Nd p RED pk pv t bl) br) x" by blast
  have "foc s0 s root (Nd b RED bk bv bl br) (Rc p cp pk pv t x)" using f by (simp add: foc_Rc)
  then have "rebalance_left s root a p = rebalance_left_rest s3 root3 a p"
    using foc_rd [OF f] foc_rd(4) [of s0 s root b RED] s1(1) s2(1) s3(1) by (simp add: rebalance_left_def)
  then show ?thesis using s3(2) by (intro that) (simp_all add: foc_Lc)
qed

lemma right_case1:
  assumes f: "foc s0 s root (Nd p cp pk pv (Nd b RED bk bv bl br) t) x"
  obtains s' root' where "rebalance_right s root a p = rebalance_right_rest s' root' a p"
    "foc s0 s' root' (Nd p RED pk pv br t) (Rc b BLACK bk bv bl x)"
proof -
  obtain s1 where s1: "set_color BLACK s b = Some s1" "foc s0 s1 root (Nd p cp pk pv (Nd b BLACK bk bv bl br) t) x"
    by (rule foc_color_left [OF f])
  obtain s2 where s2: "set_color RED s1 p = Some s2" "foc s0 s2 root (Nd p RED pk pv (Nd b BLACK bk bv bl br) t) x"
    by (rule foc_color [OF s1(2)])
  from r_rotate_foc [OF s2(2)] obtain s3 root3 where s3: "r_rotate s2 root p = Some (s3, root3, b)"
    "foc s0 s3 root3 (Nd b BLACK bk bv bl (Nd p RED pk pv br t)) x" by blast
  have "foc s0 s root (Nd b RED bk bv bl br) (Lc p cp pk pv x t)" using f by (simp add: foc_Lc)
  then have "rebalance_right s root a p = rebalance_right_rest s3 root3 a p"
    using foc_rd [OF f] foc_rd(4) [of s0 s root b RED] s1(1) s2(1) s3(1) by (simp add: rebalance_right_def)
  then show ?thesis using s3(2) by (intro that) (simp_all add: foc_Rc)
qed

lemma rbs_SucE:
  assumes "rbs t (Suc n)" "tcol t = BLACK"
  obtains a k v l r where "t = Nd a BLACK k v l r" "rbs l n" "rbs r n"
  using assms by (cases t) (auto split: if_splits)

lemma rbs_cases:
  assumes "rbs t (Suc n)"
  obtains a k v l r where "t = Nd a BLACK k v l r" "rbs l n" "rbs r n"
  | a k v l r where "t = Nd a RED k v l r" "tcol l = BLACK" "tcol r = BLACK" "rbs l (Suc n)" "rbs r (Suc n)"
  using assms by (cases t) (auto split: if_splits)

lemma shrinks_left:
  assumes f: "foc s0 s root t (Lc p cp pk pv y sib)" and n: "rbs t n" "tcol t = BLACK" "cok (Lc p cp pk pv y sib) (Suc n)"
    and step: "\<And>s1 u. cp = BLACK \<Longrightarrow> foc s0 s1 root u y \<Longrightarrow> tcol u = BLACK \<Longrightarrow> rbs u (Suc n) \<Longrightarrow> cok y (Suc (Suc n)) \<Longrightarrow>
      shrinks s0 s1 root u y (plug u y)"
  shows "shrinks s0 s root t (Lc p cp pk pv y sib) (plug t (Lc p cp pk pv y sib))"
proof -
  have fp: "foc s0 s root (Nd p cp pk pv t sib) y" using f by (simp add: foc_Lc)
  have "rbs sib (Suc n)" using n(3) by (auto split: if_splits)
  then show ?thesis
  proof (cases rule: rbs_cases)
    case (1 b bk bv bl br)
    have fb: "foc s0 s root (Nd b BLACK bk bv bl br) (Rc p cp pk pv t y)" using fp by (simp add: foc_Rc 1)
    have "rebalance_left s root a p = rebalance_left_rest s root a p" for a
      using foc_rd [OF fp] foc_rd(4) [OF fb] by (simp add: rebalance_left_def 1)
    then show ?thesis
      using remove_rebalance_round [OF f n(2), of _ p cp pk pv y sib] n step
      by (intro shrinks_left_black [OF fp [unfolded 1] n(1,2) 1(2,3)]) (auto simp: 1 split: if_splits)
  next
    case (2 b bk bv bl br)
    obtain d dk dv dl dr where bl: "bl = Nd d BLACK dk dv dl dr" "rbs dl n" "rbs dr n" using rbs_SucE [OF 2(4,2)] .
    have cp: "cp = BLACK" "cok y (Suc (Suc n))" using n(3) by (auto simp: 2 split: if_splits)
    obtain s1 root1 where s1: "rebalance_left s root (addr t) p = rebalance_left_rest s1 root1 (addr t) p"
      "foc s0 s1 root1 (Nd p RED pk pv t bl) (Lc b BLACK bk bv y br)" by (rule left_case1 [OF fp [unfolded 2]])
    show ?thesis
      using remove_rebalance_round [OF f n(2), of _ p cp pk pv y sib] s1(1) cp 2 bl
        inorder_plug [of "Nd b BLACK bk bv (Nd p RED pk pv t bl) br" "Nd p cp pk pv t sib" y]
      by (intro shrinks_left_black [OF s1(2) [unfolded bl] n(1,2) bl(2,3)]) (auto simp: set_tnodes_plug)
  qed
qed

lemma shrinks_right:
  assumes f: "foc s0 s root t (Rc p cp pk pv sib y)" and n: "rbs t n" "tcol t = BLACK" "cok (Rc p cp pk pv sib y) (Suc n)"
    and step: "\<And>s1 u. cp = BLACK \<Longrightarrow> foc s0 s1 root u y \<Longrightarrow> tcol u = BLACK \<Longrightarrow> rbs u (Suc n) \<Longrightarrow> cok y (Suc (Suc n)) \<Longrightarrow>
      shrinks s0 s1 root u y (plug u y)"
  shows "shrinks s0 s root t (Rc p cp pk pv sib y) (plug t (Rc p cp pk pv sib y))"
proof -
  have fp: "foc s0 s root (Nd p cp pk pv sib t) y" using f by (simp add: foc_Rc)
  have "rbs sib (Suc n)" using n(3) by (auto split: if_splits)
  then show ?thesis
  proof (cases rule: rbs_cases)
    case (1 b bk bv bl br)
    have fb: "foc s0 s root (Nd b BLACK bk bv bl br) (Lc p cp pk pv y t)" using fp by (simp add: foc_Lc 1)
    have "rebalance_right s root a p = rebalance_right_rest s root a p" for a
      using foc_rd [OF fp] foc_rd(4) [OF fb] by (simp add: rebalance_right_def 1)
    then show ?thesis
      using remove_rebalance_round [OF f n(2), of _ p cp pk pv y sib] n step
      by (intro shrinks_right_black [OF fp [unfolded 1] n(1,2) 1(2,3)]) (auto simp: 1 split: if_splits)
  next
    case (2 b bk bv bl br)
    obtain d dk dv dl dr where br: "br = Nd d BLACK dk dv dl dr" "rbs dl n" "rbs dr n" using rbs_SucE [OF 2(5,3)] .
    have cp: "cp = BLACK" "cok y (Suc (Suc n))" using n(3) by (auto simp: 2 split: if_splits)
    obtain s1 root1 where s1: "rebalance_right s root (addr t) p = rebalance_right_rest s1 root1 (addr t) p"
      "foc s0 s1 root1 (Nd p RED pk pv br t) (Rc b BLACK bk bv bl y)" by (rule right_case1 [OF fp [unfolded 2]])
    show ?thesis
      using remove_rebalance_round [OF f n(2), of _ p cp pk pv y sib] s1(1) cp 2 br
        inorder_plug [of "Nd b BLACK bk bv bl (Nd p RED pk pv br t)" "Nd p cp pk pv sib t" y]
      by (intro shrinks_right_black [OF s1(2) [unfolded br] n(1,2) br(2,3)]) (auto simp: set_tnodes_plug)
  qed
qed

lemma remove_rebalance_shrinks:
  "foc s0 s root t x \<Longrightarrow> tcol t = BLACK \<Longrightarrow> rbs t n \<Longrightarrow> cok x (Suc n) \<Longrightarrow> shrinks s0 s root t x (plug t x)"
proof (induction x arbitrary: s t n)
  case Top
  then show ?case using shrinks_top by simp
next
  case (Lc p cp pk pv y sib)
  show ?case using Lc.prems by (intro shrinks_left) (auto intro: Lc.IH)
next
  case (Rc p cp pk pv sib y)
  show ?case using Rc.prems by (intro shrinks_right) (auto intro: Rc.IH)
qed

end
