(* ===== verification/RtlMapRemove.thy ===== *)
theory RtlMapRemove
  imports RtlMapRebalance
begin

text \<open>
  \<^verbatim>\<open>remove_node\<close>: the node with two children changes places with the last node of its left subtree,
  the node that is then taken out has at most one child, and the repair of \<open>RtlMapRebalance\<close> runs
  where a black node is missing.
\<close>

subsection \<open>The ends of a subtree\<close>

text \<open>\<open>capp z x\<close> is the context \<open>z\<close> inside \<open>x\<close>.\<close>

fun capp :: "rbctx \<Rightarrow> rbctx \<Rightarrow> rbctx" where
  "capp Top x = x"
| "capp (Lc a c k v z r) x = Lc a c k v (capp z x) r"
| "capp (Rc a c k v l z) x = Rc a c k v l (capp z x)"

lemma plug_capp: "plug t (capp z x) = plug (plug t z) x"
  by (induction z arbitrary: t) auto

lemma foc_capp: "foc s0 s root t (capp z x) \<longleftrightarrow> foc s0 s root (plug t z) x"
  by (metis foc_plug plug_capp)

lemma ctx_capp: "cl (capp z x) = cl x @ cl z" "cr (capp z x) = cr z @ cr x" "set (cnodes (capp z x)) = set (cnodes z) \<union> set (cnodes x)"
  by (induction z) auto

lemma capp_assoc: "capp (capp y z) x = capp y (capp z x)"
  by (induction y) auto

lemma rightmost_foc:
  assumes "foc s0 s root t x" "t \<noteq> Tip"
  obtains b d k v m z where "rightmost s (addr t) = Some b" "t = plug (Nd b d k v m Tip) z" "cr z = []"
  using assms
proof (induction t arbitrary: x thesis)
  case (Nd a c k v l r)
  note rd = foc_rd [OF Nd.prems(2)]
  show ?case
  proof (cases "r = Tip")
    case True
    then show ?thesis using rd by (intro Nd.prems(1) [of a c k v l Top]) (subst rightmost.simps, simp_all)
  next
    case False
    have "foc s0 s root r (Rc a c k v l x)" using Nd.prems(2) by (simp add: foc_Rc)
    from Nd.IH(2) [OF _ this False] obtain b d k' v' m z
      where z: "rightmost s (addr r) = Some b" "r = plug (Nd b d k' v' m Tip) z" "cr z = []" by blast
    have "rightmost s a = Some b" using rd False z(1) by (subst rightmost.simps) simp
    then show ?thesis using z(2,3)
      by (intro Nd.prems(1) [of b d k' v' m "capp z (Rc a c k v l Top)"]) (simp_all add: plug_capp ctx_capp)
  qed
qed simp

lemma leftmost_foc:
  assumes "foc s0 s root t x" "t \<noteq> Tip"
  obtains b d k v m z where "leftmost s (addr t) = Some b" "t = plug (Nd b d k v Tip m) z" "cl z = []"
  using assms
proof (induction t arbitrary: x thesis)
  case (Nd a c k v l r)
  note rd = foc_rd [OF Nd.prems(2)]
  show ?case
  proof (cases "l = Tip")
    case True
    then show ?thesis using rd by (intro Nd.prems(1) [of a c k v r Top]) (subst leftmost.simps, simp_all)
  next
    case False
    have "foc s0 s root l (Lc a c k v x r)" using Nd.prems(2) by (simp add: foc_Lc)
    from Nd.IH(1) [OF _ this False] obtain b d k' v' m z
      where z: "leftmost s (addr l) = Some b" "l = plug (Nd b d k' v' Tip m) z" "cl z = []" by blast
    have "leftmost s a = Some b" using rd False z(1) by (subst leftmost.simps) simp
    then show ?thesis using z(2,3)
      by (intro Nd.prems(1) [of b d k' v' m "capp z (Lc a c k v Top r)"]) (simp_all add: plug_capp ctx_capp)
  qed
qed simp

subsection \<open>remove\_node\<close>

lemma foc_key:
  assumes "foc s0 s root (Nd a c k v l r) x"
  obtains s' where "wr (p_key_update (\<lambda>_. k')) s a = Some s'" "foc s0 s' root (Nd a c k' v l r) x"
proof (rule that)
  show "wr (p_key_update (\<lambda>_. k')) s a = Some (s(a \<mapsto>
      \<lparr>p_parent = caddr x, p_lchild = addr l, p_rchild = addr r, color = c, p_key = k', p_value = v\<rparr>))"
    using assms by (simp add: foc_def wr_def)
  show "foc s0 (s(a \<mapsto> \<lparr>p_parent = caddr x, p_lchild = addr l, p_rchild = addr r, color = c, p_key = k', p_value = v\<rparr>))
      root (Nd a c k' v l r) x"
    using assms by (auto simp: foc_def addr_plug)
qed

lemma swap_contents_foc:
  assumes f: "foc s0 s root (Nd b d k' v' m n) (capp z (Lc a c k v x r))"
  obtains s' where "swap_contents s b a = Some s'" "foc s0 s' root (Nd b d k v m n) (capp z (Lc a c k' v' x r))"
proof -
  have fa: "foc s0 s root (Nd a c k v (plug (Nd b d k' v' m n) z) r) x" using f by (simp add: foc_capp foc_Lc)
  obtain s1 where s1: "set_key k s b = Some s1" "foc s0 s1 root (Nd b d k v' m n) (capp z (Lc a c k v x r))"
    by (rule foc_key [OF f])
  then have "foc s0 s1 root (Nd a c k v (plug (Nd b d k v' m n) z) r) x" by (simp add: foc_capp foc_Lc)
  then obtain s2 where s2: "set_key k' s1 a = Some s2" "foc s0 s2 root (Nd a c k' v (plug (Nd b d k v' m n) z) r) x"
    by (rule foc_key)
  then have f2: "foc s0 s2 root (Nd b d k v' m n) (capp z (Lc a c k' v x r))" by (simp add: foc_capp foc_Lc)
  then obtain s3 where s3: "set_value v s2 b = Some s3" "foc s0 s3 root (Nd b d k v m n) (capp z (Lc a c k' v x r))"
    by (rule foc_value)
  then have "foc s0 s3 root (Nd a c k' v (plug (Nd b d k v m n) z) r) x" by (simp add: foc_capp foc_Lc)
  then obtain s4 where s4: "set_value v' s3 a = Some s4" "foc s0 s4 root (Nd a c k' v' (plug (Nd b d k v m n) z) r) x"
    by (rule foc_value)
  have "swap_contents s b a = Some s4"
    using foc_rd(5) [OF f] foc_rd(5) [OF fa] s1(1) s2(1) foc_rd(6) [OF f2] foc_rd(6) [OF s2(2)] s3(1) s4(1)
    by (simp add: swap_contents_def)
  then show ?thesis using s4(2) by (intro that) (simp_all add: foc_capp foc_Lc)
qed

text \<open>Taking a node with one child out; the store keeps the node.\<close>

lemma splice_out:
  assumes "foc s0 s root (Nd b c k v l r) x" "x \<noteq> Top" "l = Tip \<and> t = r \<or> r = Tip \<and> t = l"
  obtains s1 s2 where "replace_child s b (addr t) = Some s1"
    "(if t \<noteq> Tip then set_parent (caddr x) s1 (addr t) else Some s1) = Some s2" "foc s s2 root t x"
proof -
  have "\<exists>s1 s2. replace_child s b (addr t) = Some s1 \<and>
      (if t \<noteq> Tip then set_parent (caddr x) s1 (addr t) else Some s1) = Some s2 \<and> foc s s2 root t x"
    using assms by (cases x; cases t) (auto simp: foc_def replace_child_def rd_def wr_def addr_plug)
  then show ?thesis using that by blast
qed

definition node_unlinked :: "rbnodes \<Rightarrow> ptr \<Rightarrow> ptr \<Rightarrow> rbt \<Rightarrow> rbt \<Rightarrow> rbctx \<Rightarrow> bool" where
  "node_unlinked s root b l r x \<longleftrightarrow> (\<exists>s' root' T. unlink_node s root b = Some (s', root') \<and> rb_tree s s' root' T \<and>
     inorder T = cl x @ inorder l @ inorder r @ cr x \<and>
     set (tnodes T) = set (tnodes l) \<union> set (tnodes r) \<union> set (cnodes x))"

lemma rbs_0: "rbs t 0 \<Longrightarrow> tcol t = BLACK \<Longrightarrow> t = Tip"
  by (cases t) auto

lemma rbs_0_cases:
  assumes "rbs t 0"
  obtains "t = Tip" | a k v where "t = Nd a RED k v Tip Tip"
  using assms by (cases t) (auto split: if_splits dest!: rbs_0)

lemma unlink_red:
  assumes f: "foc s s root (Nd b RED k v Tip Tip) x" and x: "cok x 0" "x \<noteq> Top" "ccol x = BLACK"
  shows "node_unlinked s root b Tip Tip x"
proof -
  obtain s1 where s1: "replace_child s b NULL = Some s1" "foc s s1 root Tip x"
    using splice_out [OF f x(2), of Tip] by auto
  have "unlink_node s root b = Some (s1, root)" using foc_rd [OF f] s1(1) by (simp add: unlink_node_def)
  moreover have "rb_tree s s1 root (plug Tip x)" using x by (intro rb_plug [OF s1(2), of 0]) auto
  ultimately show ?thesis by (auto simp: node_unlinked_def inorder_plug_ctx set_tnodes_plug)
qed

lemma unlink_root:
  assumes f: "foc s s root (Nd b BLACK k v l r) Top" and n: "rbs l 0" "rbs r 0" "l = Tip \<or> r = Tip"
  shows "node_unlinked s root b l r Top"
proof -
  have b: "root = b" using f by (simp add: foc_def)
  have new: "\<exists>s' s''. set_parent NULL s a = Some s' \<and> set_color BLACK s' a = Some s'' \<and> foc s s'' a (Nd a BLACK k' v' Tip Tip) Top"
    if "l = Tip \<and> r = Nd a RED k' v' Tip Tip \<or> r = Tip \<and> l = Nd a RED k' v' Tip Tip" for a k' v'
    using f that by (auto simp: foc_def wr_def)
  consider "l = Tip" "r = Tip" | a k' v' where "l = Tip \<and> r = Nd a RED k' v' Tip Tip \<or> r = Tip \<and> l = Nd a RED k' v' Tip Tip"
    using n by (auto elim!: rbs_0_cases)
  then show ?thesis
  proof cases
    case 1
    have "unlink_node s root b = Some (s, NULL)" using foc_rd [OF f] b 1 by (simp add: unlink_node_def)
    moreover have "rb_tree s s NULL Tip" by (simp add: rb_tree_def foc_def)
    ultimately show ?thesis using 1 by (fastforce simp: node_unlinked_def)
  next
    case (2 a k' v')
    from new [OF this] obtain s1 s2 where s: "set_parent NULL s a = Some s1" "set_color BLACK s1 a = Some s2"
      "foc s s2 a (Nd a BLACK k' v' Tip Tip) Top" by blast
    have "unlink_node s root b = Some (s2, a)" using foc_rd [OF f] b 2 s(1,2) foc_rd(7) [OF s(3)]
      by (auto simp: unlink_node_def)
    moreover have "rb_tree s s2 a (Nd a BLACK k' v' Tip Tip)" using s(3) by (simp add: rb_tree_def)
    ultimately show ?thesis using 2 unfolding node_unlinked_def by (intro exI conjI) auto
  qed
qed

lemma unlink_inner:
  assumes f: "foc s s root (Nd b BLACK k v l r) x" and n: "rbs l 0" "rbs r 0" "l = Tip \<or> r = Tip"
    and x: "cok x (Suc 0)" "x \<noteq> Top"
  shows "node_unlinked s root b l r x"
proof -
  let ?t = "if l \<noteq> Tip then l else r"
  have t: "l = Tip \<and> ?t = r \<or> r = Tip \<and> ?t = l" using n(3) by auto
  have b: "b \<noteq> root" using at_root [OF f] x(2) by simp
  obtain s1 s2 where s: "replace_child s b (addr ?t) = Some s1"
    "(if ?t \<noteq> Tip then set_parent (caddr x) s1 (addr ?t) else Some s1) = Some s2" "foc s s2 root ?t x"
    using splice_out [OF f x(2) t] by blast
  have "shrinks s s2 root ?t x (plug ?t x)"
  proof -
    have "rbs ?t 0" using n by simp
    then show ?thesis
    proof (cases rule: rbs_0_cases)
      case 1
      then show ?thesis using s(3) x(1) by (auto intro!: remove_rebalance_shrinks [of _ _ _ _ _ 0])
    next
      case (2 a k' v')
      then show ?thesis using s(3) x(1) by (auto intro!: shrinks_red [of _ _ _ _ _ _ _ _ _ 0])
    qed
  qed
  then have "\<exists>s' root' T. remove_rebalance s2 root (addr ?t) (if ?t = Tip then caddr x else NULL) = Some (s', root') \<and>
      rb_tree s s' root' T \<and> inorder T = inorder (plug ?t x) \<and> set (tnodes T) = set (tnodes (plug ?t x))"
    unfolding shrinks_def by (rule allE [where x = "if ?t = Tip then caddr x else NULL"]) simp
  moreover have "unlink_node s root b = remove_rebalance s2 root (addr ?t) (if ?t = Tip then caddr x else NULL)"
    using foc_rd [OF f] b s(1,2) by (auto simp: unlink_node_def)
  ultimately have "\<exists>s' root' T. unlink_node s root b = Some (s', root') \<and>
      rb_tree s s' root' T \<and> inorder T = inorder (plug ?t x) \<and> set (tnodes T) = set (tnodes (plug ?t x))" by (simp only:)
  then obtain s' root' T where "unlink_node s root b = Some (s', root')" "rb_tree s s' root' T"
    "inorder T = inorder (plug ?t x)" "set (tnodes T) = set (tnodes (plug ?t x))" by blast
  moreover have "inorder ?t = inorder l @ inorder r" "set (tnodes ?t) = set (tnodes l) \<union> set (tnodes r)" using n(3) by auto
  ultimately show ?thesis unfolding node_unlinked_def by (intro exI conjI) (simp_all only: inorder_plug_ctx set_tnodes_plug append_assoc)
qed

lemma unlink_node_foc:
  assumes f: "foc s s root (Nd b c k v l r) x" and t: "rb_tree s s root (plug (Nd b c k v l r) x)" and lr: "l = Tip \<or> r = Tip"
  shows "node_unlinked s root b l r x"
proof -
  obtain n where n: "rbs (Nd b c k v l r) n" "cok x n" "x \<noteq> Top \<longrightarrow> c = BLACK \<or> ccol x = BLACK"
    using t plug_rbs [of "Nd b c k v l r" x] by (auto simp: rb_tree_def)
  show ?thesis
  proof (cases "c = RED")
    case True
    moreover have "x \<noteq> Top" using t True by (auto simp: rb_tree_def)
    moreover have "l = Tip" "r = Tip" "n = 0" using n(1) True lr by (auto dest: rbs_0)
    ultimately show ?thesis using unlink_red [of s root b k v x] f n by simp
  next
    case False
    then have c: "c = BLACK" "n = Suc 0" "rbs l 0" "rbs r 0" using n(1) lr by auto
    then show ?thesis using unlink_root [of s root b k v l r] unlink_inner [of s root b k v l r x] f n lr by (cases "x = Top") auto
  qed
qed

lemma remove_node_tree:
  assumes f: "foc s s root (Nd a c k v l r) x" and t: "rb_tree s s root (plug (Nd a c k v l r) x)"
  shows "\<exists>s' root' b T. remove_node s root a = Some (s', root', b) \<and> rb_tree (s'(b := None)) (s'(b := None)) root' T \<and>
    inorder T = cl x @ inorder l @ inorder r @ cr x \<and> b \<notin> set (tnodes T) \<and>
    insert b (set (tnodes T)) = set (tnodes (plug (Nd a c k v l r) x)) \<and>
    (\<forall>p. p \<notin> set (tnodes (plug (Nd a c k v l r) x)) \<longrightarrow> s' p = s p)"
proof -
  have finish: "rb_tree (s'(b := None)) (s'(b := None)) root' T" if "rb_tree s'' s' root' T" "b \<notin> set (tnodes T)" for s'' s' b root' T
    using that by (auto simp: rb_tree_def foc_def)
  show ?thesis
  proof (cases "l = Tip \<or> r = Tip")
    case True
    then have "remove_node s root a = do { (s, root) \<leftarrow> unlink_node s root a; Some (s, root, a) }"
      using foc_rd [OF f] by (auto simp: remove_node_def)
    moreover obtain s' root' T where u: "unlink_node s root a = Some (s', root')" "rb_tree s s' root' T"
      "inorder T = cl x @ inorder l @ inorder r @ cr x" "set (tnodes T) = set (tnodes l) \<union> set (tnodes r) \<union> set (cnodes x)"
      using unlink_node_foc [OF f t True] by (auto simp: node_unlinked_def)
    moreover have "a \<notin> set (tnodes T)" using f u(4) by (auto simp: foc_def)
    moreover have "\<forall>p. p \<notin> set (tnodes T) \<longrightarrow> s' p = s p" using u(2) by (simp add: rb_tree_def foc_def)
    ultimately show ?thesis using finish
      by (intro exI [of _ s'] exI [of _ root'] exI [of _ a] exI [of _ T]) (auto simp: set_tnodes_plug)
  next
    case False
    have fl: "foc s s root l (Lc a c k v x r)" using f by (simp add: foc_Lc)
    obtain b d k' v' m z where z: "rightmost s (addr l) = Some b" "l = plug (Nd b d k' v' m Tip) z" "cr z = []"
      using rightmost_foc [OF fl] False by blast
    have fb: "foc s s root (Nd b d k' v' m Tip) (capp z (Lc a c k v x r))" using fl by (simp add: z foc_capp)
    obtain s1 where s1: "swap_contents s b a = Some s1" "foc s s1 root (Nd b d k v m Tip) (capp z (Lc a c k' v' x r))"
      by (rule swap_contents_foc [OF fb])
    let ?y = "capp z (Lc a c k' v' x r)"
    have f1: "foc s1 s1 root (Nd b d k v m Tip) ?y" using s1(2) by (rule foc_rebase)
    have n1: "set (tnodes (plug (Nd b d k v m Tip) ?y)) = set (tnodes (plug (Nd a c k v l r) x))"
      by (auto simp: set_tnodes_plug ctx_capp z)
    have "rb_tree s1 s1 root (plug (Nd b d k v m Tip) ?y)"
      using t s1(2) rb_relabel [of b d k' v' m Tip "capp z (Lc a c k v x r)" b k v]
        rb_relabel [of a c k v "plug (Nd b d k v m Tip) z" r x a k' v'] foc_plug [of s s1 root "Nd b d k v m Tip" ?y]
        foc_rebase [of s s1 root "plug (Nd b d k v m Tip) ?y" Top]
      by (simp add: rb_tree_def z plug_capp)
    note t1 = this
    have "remove_node s root a = do { (s, root) \<leftarrow> unlink_node s1 root b; Some (s, root, b) }"
      using foc_rd [OF f] False z(1) s1(1) by (simp add: remove_node_def)
    moreover obtain s' root' T where u: "unlink_node s1 root b = Some (s', root')" "rb_tree s1 s' root' T"
      "inorder T = cl ?y @ inorder m @ inorder Tip @ cr ?y" "set (tnodes T) = set (tnodes m) \<union> set (tnodes Tip) \<union> set (cnodes ?y)"
      using unlink_node_foc [OF f1 t1] by (auto simp: node_unlinked_def)
    moreover have "b \<notin> set (tnodes T)" using f1 u(4) by (auto simp: foc_def)
    moreover have "\<forall>p. p \<notin> set (tnodes (plug (Nd a c k v l r) x)) \<longrightarrow> s' p = s p"
    proof (intro allI impI)
      fix p assume p: "p \<notin> set (tnodes (plug (Nd a c k v l r) x))"
      then have "p \<notin> set (tnodes T)" "p \<notin> set (tnodes (Nd b d k v m Tip) @ cnodes ?y)"
        using u(4) n1 by (auto simp: set_tnodes_plug)
      then show "s' p = s p" using u(2) s1(2) by (simp add: rb_tree_def foc_def)
    qed
    moreover have "insert b (set (tnodes T)) = set (tnodes (plug (Nd a c k v l r) x))"
      using u(4) n1 by (auto simp: set_tnodes_plug)
    moreover have "inorder T = cl x @ inorder l @ inorder r @ cr x"
      using u(3) z by (simp add: ctx_capp inorder_plug_ctx)
    ultimately show ?thesis using finish
      by (intro exI [of _ s'] exI [of _ root'] exI [of _ b] exI [of _ T]) auto
  qed
qed

end
