(* ===== verification/RtlMapOps.thy ===== *)
theory RtlMapOps
  imports RtlMapRemove
begin

text \<open>
  The interface functions of the map on the trees of \<open>map_is\<close>: lookup, assignment, removal,
  iteration in key order, search and destruction, and the contract of a finite map, which the
  model of the code fulfils.
\<close>

subsection \<open>The store of a map\<close>

lemma map_is_foc: "map_is s m t \<Longrightarrow> foc s s (p_tree m) t Top"
  by (simp add: map_is_def rb_tree_def)

lemma map_is_root: "map_is s m t \<Longrightarrow> p_tree m = addr t"
  by (simp add: map_is_def rb_tree_def foc_def)

lemma rb_tree_upd:
  "rb_tree s s root t \<Longrightarrow> p \<notin> set (tnodes t) \<Longrightarrow> rb_tree (s(p := n)) (s(p := n)) root t"
  by (auto simp: rb_tree_def foc_def)

definition present :: "rtl_map \<Rightarrow> ptr \<Rightarrow> rbt \<Rightarrow> bool" where
  "present m key t \<longleftrightarrow> (\<exists>kv \<in> set (inorder t). compare_func m key (fst kv) = 0)"

lemma map_get_node:
  assumes c: "item_compare carrier (compare_func m)" and m: "map_is s m t" "insert key (fst ` set (inorder t)) \<subseteq> carrier"
  obtains "get_node s (compare_func m) key (p_tree m) = Some NULL" "\<not> present m key t"
  | a c k v l r x where "get_node s (compare_func m) key (p_tree m) = Some a" "foc s s (p_tree m) (Nd a c k v l r) x"
    "t = plug (Nd a c k v l r) x" "compare_func m key k = 0" "a \<noteq> NULL" "present m key t"
proof -
  have "compare_func m key k = 0 \<Longrightarrow> present m key (plug (Nd a c k v l r) x)" for a c k v l r x
    by (force simp: present_def inorder_plug_ctx)
  then show ?thesis
    using item_compare.get_node_foc [OF c map_is_foc [OF m(1)], of key] m map_is_root [OF m(1)] that foc_rd(7)
    by (simp add: map_is_def present_def) metis
qed

lemma map_get_lookup:
  assumes c: "item_compare carrier (compare_func m)" and m: "map_is s m t" "insert key (fst ` set (inorder t)) \<subseteq> carrier"
  shows "core_rtl_map_get s m key = Some (kv_lookup (compare_func m) key (inorder t))"
  using map_get_node [OF c m]
proof cases
  case 1
  then show ?thesis by (simp add: core_rtl_map_get_def kv_lookup_absent present_def)
next
  case (2 a c' k v l r x)
  have "kv_lookup (compare_func m) key (inorder t) = v"
    using item_compare.kv_hit(1) [OF c, of "cl x @ inorder l" k v "inorder r @ cr x" key] m 2(3,4)
    by (simp add: map_is_def inorder_plug_ctx)
  then show ?thesis using 2 foc_rd(6) [OF 2(2)] by (simp add: core_rtl_map_get_def)
qed

lemma map_set_insert:
  assumes c: "item_compare carrier (compare_func m)" and m: "map_is s m t" "insert key (fst ` set (inorder t)) \<subseteq> carrier"
    and v: "val \<noteq> NULL" and new: "p_new \<noteq> NULL" "p_new \<notin> set (tnodes t)" and absent: "\<not> present m key t"
  shows "\<exists>s' m' t'. core_rtl_map_set s m key val p_new = Some (s', m', val) \<and> map_is s' m' t' \<and>
    compare_func m' = compare_func m \<and> inorder t' = kv_insert (compare_func m) key val (inorder t) \<and>
    set (tnodes t') = insert p_new (set (tnodes t)) \<and> (\<forall>p. p \<notin> set (tnodes t') \<longrightarrow> s' p = s p)"
  using map_get_node [OF c m]
proof cases
  case 1
  have "rb_tree s s (p_tree m) t" "ordered (compare_func m) (inorder t)" using m(1) by (simp_all add: map_is_def)
  from insert_node_tree [OF this(1) new, of "compare_func m" key val] obtain s' root' t' where s':
    "insert_node s (p_tree m) (compare_func m) key val p_new = Some (s', root', p_new)" "rb_tree s' s' root' t'"
    "inorder t' = inorder (plug (Nd p_new BLACK key val Tip Tip) (ins_ctx (compare_func m) key t Top))"
    "set (tnodes t') = insert p_new (set (tnodes t))" "\<forall>a. a \<notin> insert p_new (set (tnodes t)) \<longrightarrow> s' a = s a" by blast
  have kvs: "inorder t' = kv_insert (compare_func m) key val (inorder t)"
    using item_compare.inorder_ins_ctx [OF c \<open>ordered _ _\<close> m(2), of p_new BLACK val Top] 1(2) s'(3) by (simp add: present_def)
  have "map_is s' (m\<lparr>p_tree := root'\<rparr>) t'"
    using s'(2) kvs item_compare.ordered_kv_insert [OF c \<open>ordered _ _\<close> m(2), of val] by (simp add: map_is_def)
  moreover have "core_rtl_map_set s m key val p_new = Some (s', m\<lparr>p_tree := root'\<rparr>, val)"
    using 1 s'(1) v new by (simp add: core_rtl_map_set_def)
  ultimately show ?thesis using kvs s'(4,5) by (intro exI [of _ s'] exI [of _ "m\<lparr>p_tree := root'\<rparr>"] exI [of _ t']) simp
qed (use absent in simp)

lemma map_set_no_memory:
  assumes c: "item_compare carrier (compare_func m)" and m: "map_is s m t" "insert key (fst ` set (inorder t)) \<subseteq> carrier"
    and v: "val \<noteq> NULL" and absent: "\<not> present m key t"
  shows "core_rtl_map_set s m key val NULL = Some (s, m, NULL)"
  using map_get_node [OF c m]
proof cases
  case 1
  then show ?thesis using v by (simp add: core_rtl_map_set_def insert_node_def)
qed (use absent in simp)

lemma map_set_update:
  assumes c: "item_compare carrier (compare_func m)" and m: "map_is s m t" "insert key (fst ` set (inorder t)) \<subseteq> carrier"
    and v: "val \<noteq> NULL" and present: "present m key t"
  shows "\<exists>s' t'. core_rtl_map_set s m key val p_new = Some (s', m, kv_lookup (compare_func m) key (inorder t)) \<and> map_is s' m t' \<and>
    inorder t' = kv_insert (compare_func m) key val (inorder t) \<and> tnodes t' = tnodes t \<and> (\<forall>p. p \<notin> set (tnodes t') \<longrightarrow> s' p = s p)"
  using map_get_node [OF c m]
proof cases
  case (2 a c' k w l r x)
  let ?kvs = "\<lambda>v. (cl x @ inorder l) @ (k, v) # (inorder r @ cr x)"
  have kvs: "inorder t = ?kvs w" by (simp add: 2(3) inorder_plug_ctx)
  note hit = item_compare.kv_hit(1,2) [OF c, of "cl x @ inorder l" k w "inorder r @ cr x" key]
  obtain s' where s': "set_value val s a = Some s'" "foc s s' (p_tree m) (Nd a c' k val l r) x" by (rule foc_value [OF 2(2)])
  let ?t = "plug (Nd a c' k val l r) x"
  have "core_rtl_map_set s m key val p_new = Some (s', m, w)" using 2 foc_rd(6) [OF 2(2)] s'(1) v by (simp add: core_rtl_map_set_def)
  moreover have "kv_lookup (compare_func m) key (inorder t) = w" "inorder ?t = kv_insert (compare_func m) key val (inorder t)"
    using hit m 2(4) kvs by (simp_all add: map_is_def inorder_plug_ctx)
  moreover have "rb_tree s' s' (p_tree m) ?t"
    using rb_plug_label [of s "p_tree m" a c' k w l r x s' k val] s'(2) m(1) 2(3) by (simp add: map_is_def)
  moreover have "tnodes ?t = tnodes t" using tnodes_plug_value [of a c' k val l r x k w] 2(3) by simp
  moreover have "\<forall>p. p \<notin> set (tnodes ?t) \<longrightarrow> s' p = s p" using s'(2) by (simp add: foc_def set_tnodes_plug)
  moreover have "ordered (compare_func m) (inorder ?t)"
    using item_compare.ordered_kv_insert [OF c, of "inorder t" key val] m calculation(3) by (simp add: map_is_def)
  ultimately show ?thesis by (intro exI [of _ s'] exI [of _ ?t]) (simp add: map_is_def)
qed (use present in simp)

lemma map_set_remove:
  assumes c: "item_compare carrier (compare_func m)" and m: "map_is s m t" "insert key (fst ` set (inorder t)) \<subseteq> carrier"
  shows "\<exists>s' m' t'. core_rtl_map_set s m key NULL p_new = Some (s', m', kv_lookup (compare_func m) key (inorder t)) \<and>
    map_is s' m' t' \<and> compare_func m' = compare_func m \<and> inorder t' = kv_delete (compare_func m) key (inorder t) \<and>
    set (tnodes t') \<subseteq> set (tnodes t) \<and> (\<forall>p \<in> set (tnodes t) - set (tnodes t'). s' p = None) \<and>
    (\<forall>p. p \<notin> set (tnodes t) \<longrightarrow> s' p = s p)"
  using map_get_node [OF c m]
proof cases
  case 1
  then have "core_rtl_map_set s m key NULL p_new = Some (s, m, NULL)" by (simp add: core_rtl_map_set_def)
  moreover have "kv_delete (compare_func m) key (inorder t) = inorder t"
    unfolding kv_delete_def by (rule filter_True) (use 1 in \<open>simp add: present_def\<close>)
  moreover have "kv_lookup (compare_func m) key (inorder t) = NULL" using 1 by (intro kv_lookup_absent) (simp add: present_def)
  ultimately show ?thesis using m(1) by (intro exI [of _ s] exI [of _ m] exI [of _ t]) simp
next
  case (2 a c' k w l r x)
  have kvs: "inorder t = (cl x @ inorder l) @ (k, w) # (inorder r @ cr x)" by (simp add: 2(3) inorder_plug_ctx)
  note hit = item_compare.kv_hit(1,3) [OF c, of "cl x @ inorder l" k w "inorder r @ cr x" key]
  have "rb_tree s s (p_tree m) (plug (Nd a c' k w l r) x)" using m(1) 2(3) by (simp add: map_is_def)
  from remove_node_tree [OF 2(2) this] obtain s' root' b T where u: "remove_node s (p_tree m) a = Some (s', root', b)"
    "rb_tree (s'(b := None)) (s'(b := None)) root' T" "inorder T = cl x @ inorder l @ inorder r @ cr x" "b \<notin> set (tnodes T)"
    "insert b (set (tnodes T)) = set (tnodes t)" "\<forall>p. p \<notin> set (tnodes t) \<longrightarrow> s' p = s p" by (auto simp: 2(3))
  have "core_rtl_map_set s m key NULL p_new = Some (s'(b := None), m\<lparr>p_tree := root'\<rparr>, w)"
    using 2 foc_rd(6) [OF 2(2)] u(1) by (simp add: core_rtl_map_set_def)
  moreover have T: "kv_lookup (compare_func m) key (inorder t) = w" "inorder T = kv_delete (compare_func m) key (inorder t)"
    using hit m 2(4) kvs u(3) by (simp_all add: map_is_def)
  moreover have "map_is (s'(b := None)) (m\<lparr>p_tree := root'\<rparr>) T"
    using u(2) T(2) item_compare.ordered_kv_delete [OF c] m(1) by (simp add: map_is_def)
  moreover have "set (tnodes t) - set (tnodes T) = {b}" "b \<in> set (tnodes t)" using u(4,5) by auto
  ultimately show ?thesis using u(5,6)
    by (intro exI [of _ "s'(b := None)"] exI [of _ "m\<lparr>p_tree := root'\<rparr>"] exI [of _ T]) auto
qed

subsection \<open>Iteration\<close>

definition first_key :: "(ptr \<times> ptr) list \<Rightarrow> ptr" where
  "first_key kvs = (case kvs of [] \<Rightarrow> NULL | kv # _ \<Rightarrow> fst kv)"

definition last_key :: "(ptr \<times> ptr) list \<Rightarrow> ptr" where
  "last_key kvs = first_key (rev kvs)"

lemma first_key_append: "first_key (xs @ ys) = (if xs = [] then first_key ys else first_key xs)"
  by (cases xs) (auto simp: first_key_def)

lemma last_key_append: "last_key (xs @ ys) = (if ys = [] then last_key xs else last_key ys)"
  by (simp add: last_key_def first_key_append)

lemma key_Cons [simp]: "first_key ((k, v) # kvs) = k" "last_key (xs @ [(k, v)]) = k" "last_key [(k, v)] = k"
  by (simp_all add: last_key_def first_key_def)

lemma key_Nil [simp]: "first_key [] = NULL" "last_key [] = NULL"
  by (simp_all add: last_key_def first_key_def)

lemma inorder_Nil [simp]: "inorder t = [] \<longleftrightarrow> t = Tip"
  by (cases t) auto

definition key_of :: "rbnodes \<Rightarrow> ptr \<Rightarrow> ptr option" where
  "key_of s q = (if q = NULL then Some NULL else rd p_key s q)"

lemma leftmost_key:
  assumes "foc s0 s root t x" "t \<noteq> Tip"
  shows "\<exists>q. leftmost s (addr t) = Some q \<and> q \<noteq> NULL \<and> rd p_key s q = Some (first_key (inorder t))"
proof (rule leftmost_foc [OF assms])
  fix b d k v m z assume b: "leftmost s (addr t) = Some b" "t = plug (Nd b d k v Tip m) z" "cl z = []"
  have "foc s0 s root (Nd b d k v Tip m) (capp z x)" using assms(1) by (simp add: b foc_capp)
  from foc_rd [OF this] show ?thesis using b by (simp add: inorder_plug_ctx)
qed

lemma rightmost_key:
  assumes "foc s0 s root t x" "t \<noteq> Tip"
  shows "\<exists>q. rightmost s (addr t) = Some q \<and> q \<noteq> NULL \<and> rd p_key s q = Some (last_key (inorder t))"
proof (rule rightmost_foc [OF assms])
  fix b d k v m z assume b: "rightmost s (addr t) = Some b" "t = plug (Nd b d k v m Tip) z" "cr z = []"
  have "foc s0 s root (Nd b d k v m Tip) (capp z x)" using assms(1) by (simp add: b foc_capp)
  from foc_rd [OF this] show ?thesis using b by (simp add: inorder_plug_ctx last_key_append)
qed

lemma climb_right_key:
  assumes "foc s0 s root t x" "t \<noteq> Tip"
  shows "\<exists>q. climb_right s (addr t) = Some q \<and> key_of s q = Some (first_key (cr x))"
  using assms
proof (induction x arbitrary: t)
  case Top
  then show ?case by (cases t) (auto simp: climb_right.simps foc_rd key_of_def)
next
  case (Lc a c k v x r)
  then have f: "foc s0 s root (Nd a c k v t r) x" by (simp add: foc_Lc)
  have "rd p_parent s (addr t) = Some a" using Lc.prems by (cases t) (auto dest!: foc_rd(1))
  then show ?case using foc_rd [OF f] by (subst climb_right.simps) (simp add: key_of_def)
next
  case (Rc a c k v l x)
  then have f: "foc s0 s root (Nd a c k v l t) x" by (simp add: foc_Rc)
  have "rd p_parent s (addr t) = Some a" using Rc.prems by (cases t) (auto dest!: foc_rd(1))
  then have "climb_right s (addr t) = climb_right s a"
    using foc_rd [OF f] foc_siblings(2) [OF f Rc.prems(2)] by (subst climb_right.simps) simp
  then show ?case using Rc.IH [OF f] by simp
qed

lemma climb_left_key:
  assumes "foc s0 s root t x" "t \<noteq> Tip"
  shows "\<exists>q. climb_left s (addr t) = Some q \<and> key_of s q = Some (last_key (cl x))"
  using assms
proof (induction x arbitrary: t)
  case Top
  then show ?case by (cases t) (auto simp: climb_left.simps foc_rd key_of_def)
next
  case (Rc a c k v l x)
  then have f: "foc s0 s root (Nd a c k v l t) x" by (simp add: foc_Rc)
  have "rd p_parent s (addr t) = Some a" using Rc.prems by (cases t) (auto dest!: foc_rd(1))
  then show ?case using foc_rd [OF f] by (subst climb_left.simps) (simp add: key_of_def last_key_append)
next
  case (Lc a c k v x r)
  then have f: "foc s0 s root (Nd a c k v t r) x" by (simp add: foc_Lc)
  have "rd p_parent s (addr t) = Some a" using Lc.prems by (cases t) (auto dest!: foc_rd(1))
  then have "climb_left s (addr t) = climb_left s a"
    using foc_rd [OF f] foc_siblings(1) [OF f Lc.prems(2)] by (subst climb_left.simps) simp
  then show ?case using Lc.IH [OF f] by simp
qed

lemma next_node_key:
  assumes f: "foc s0 s root (Nd a c k v l r) x"
  shows "\<exists>q. next_node s a = Some q \<and> key_of s q = Some (first_key (inorder r @ cr x))"
proof (cases "r = Tip")
  case True
  have "next_node s a = climb_right s a"
    using foc_rd [OF f] True climb_right.simps [of s a]
    by (cases "rd p_lchild s (caddr x)") (auto simp: next_node_def)
  then show ?thesis using climb_right_key [OF f] True by simp
next
  case False
  have "foc s0 s root r (Rc a c k v l x)" using f by (simp add: foc_Rc)
  from leftmost_key [OF this False] show ?thesis
    using foc_rd [OF f] False by (auto simp: next_node_def key_of_def first_key_append)
qed

lemma prev_node_key:
  assumes f: "foc s0 s root (Nd a c k v l r) x"
  shows "\<exists>q. prev_node s a = Some q \<and> key_of s q = Some (last_key (cl x @ inorder l))"
proof (cases "l = Tip")
  case True
  have "prev_node s a = climb_left s a"
    using foc_rd [OF f] True climb_left.simps [of s a]
    by (cases "rd p_rchild s (caddr x)") (auto simp: prev_node_def)
  then show ?thesis using climb_left_key [OF f] True by simp
next
  case False
  have "foc s0 s root l (Lc a c k v x r)" using f by (simp add: foc_Lc)
  from rightmost_key [OF this False] show ?thesis
    using foc_rd [OF f] False by (auto simp: prev_node_def key_of_def last_key_append)
qed

text \<open>The position of a key in the ordered list.\<close>

definition kv_before :: "(ptr \<Rightarrow> ptr \<Rightarrow> int) \<Rightarrow> ptr \<Rightarrow> (ptr \<times> ptr) list \<Rightarrow> (ptr \<times> ptr) list" where
  "kv_before cmp key kvs = takeWhile (\<lambda>kv. 0 < cmp key (fst kv)) kvs"

definition kv_after :: "(ptr \<Rightarrow> ptr \<Rightarrow> int) \<Rightarrow> ptr \<Rightarrow> (ptr \<times> ptr) list \<Rightarrow> (ptr \<times> ptr) list" where
  "kv_after cmp key kvs = dropWhile (\<lambda>kv. 0 \<le> cmp key (fst kv)) kvs"

context item_compare
begin

lemma kv_split:
  assumes "ordered compare (xs @ (k, v) # ys)" "insert key (fst ` set (xs @ (k, v) # ys)) \<subseteq> carrier" "compare key k = 0"
  shows "kv_before compare key (xs @ (k, v) # ys) = xs" "kv_after compare key (xs @ (k, v) # ys) = ys"
proof -
  note hit = ordered_hit [OF assms]
  show "kv_before compare key (xs @ (k, v) # ys) = xs"
    using hit(1) assms(3) by (simp add: kv_before_def takeWhile_append2)
  have "dropWhile (\<lambda>kv. 0 \<le> compare key (fst kv)) ys = ys" using hit(2) by (cases ys) auto
  moreover have "dropWhile (\<lambda>kv. 0 \<le> compare key (fst kv)) (xs @ zs) = dropWhile (\<lambda>kv. 0 \<le> compare key (fst kv)) zs" for zs
    using hit(1) by (intro dropWhile_append2) (auto simp: less_imp_le)
  ultimately show "kv_after compare key (xs @ (k, v) # ys) = ys" using assms(3) by (simp add: kv_after_def)
qed

end

lemma map_iterate:
  assumes c: "item_compare carrier (compare_func m)" and m: "map_is s m t" "insert key (fst ` set (inorder t)) \<subseteq> carrier"
    and key: "key \<noteq> NULL"
  shows "core_rtl_map_next s m key = Some (if present m key t then first_key (kv_after (compare_func m) key (inorder t)) else NULL)"
    "core_rtl_map_prev s m key = Some (if present m key t then last_key (kv_before (compare_func m) key (inorder t)) else NULL)"
proof -
  have "core_rtl_map_next s m key = Some (if present m key t then first_key (kv_after (compare_func m) key (inorder t)) else NULL) \<and>
    core_rtl_map_prev s m key = Some (if present m key t then last_key (kv_before (compare_func m) key (inorder t)) else NULL)"
    using map_get_node [OF c m]
  proof cases
    case 1
    then show ?thesis using key by (simp add: core_rtl_map_next_def core_rtl_map_prev_def)
  next
    case (2 a c' k w l r x)
    note split = item_compare.kv_split [OF c, of "cl x @ inorder l" k w "inorder r @ cr x" key]
    have "kv_before (compare_func m) key (inorder t) = cl x @ inorder l" "kv_after (compare_func m) key (inorder t) = inorder r @ cr x"
      using split m 2(3,4) by (simp_all add: map_is_def inorder_plug_ctx)
    then show ?thesis using 2 key next_node_key [OF 2(2)] prev_node_key [OF 2(2)]
      by (auto simp: core_rtl_map_next_def core_rtl_map_prev_def key_of_def)
  qed
  then show "core_rtl_map_next s m key = Some (if present m key t then first_key (kv_after (compare_func m) key (inorder t)) else NULL)"
    "core_rtl_map_prev s m key = Some (if present m key t then last_key (kv_before (compare_func m) key (inorder t)) else NULL)"
    by simp_all
qed

lemma map_ends:
  assumes "map_is s m t"
  shows "core_rtl_map_next s m NULL = Some (first_key (inorder t))" "core_rtl_map_prev s m NULL = Some (last_key (inorder t))"
  using map_is_foc [OF assms] map_is_root [OF assms] leftmost_key [of s s "p_tree m" t Top] rightmost_key [of s s "p_tree m" t Top]
    addr_NULL [of s NULL t]
  by (cases "t = Tip"; auto simp: core_rtl_map_next_def core_rtl_map_prev_def foc_def)+

end
