(* ===== verification/RtlMapSpec.thy ===== *)
theory RtlMapSpec
  imports RtlMapOps "HOL-Library.Multiset"
begin

text \<open>
  Search and destruction of maps, the contract of a finite map with its interpretation on the model
  of the code, the depth of the trees, and the properties of the map.
\<close>

subsection \<open>Search\<close>

lemma map_search_foc:
  assumes "foc s0 s root t x"
    "sorted_wrt (\<lambda>a b. sgn (f (fst a) (snd a)) \<ge> sgn (f (fst b) (snd b))) (inorder t)"
  shows "\<exists>k. map_search_loop s f (addr t) = Some k \<and>
    ((\<exists>v. (k, v) \<in> set (inorder t) \<and> f k v = 0) \<or> k = NULL \<and> (\<forall>kv \<in> set (inorder t). f (fst kv) (snd kv) \<noteq> 0))"
  using assms
proof (induction t arbitrary: x)
  case Tip
  then show ?case by (simp add: map_search_loop.simps)
next
  case (Nd a c k v l r)
  note rd = foc_rd [OF Nd.prems(1)]
  have srt: "sorted_wrt (\<lambda>a b. sgn (f (fst a) (snd a)) \<ge> sgn (f (fst b) (snd b))) (inorder l)"
    "sorted_wrt (\<lambda>a b. sgn (f (fst a) (snd a)) \<ge> sgn (f (fst b) (snd b))) (inorder r)"
    "\<And>kv. kv \<in> set (inorder l) \<Longrightarrow> sgn (f (fst kv) (snd kv)) \<ge> sgn (f k v)"
    "\<And>kv. kv \<in> set (inorder r) \<Longrightarrow> sgn (f k v) \<ge> sgn (f (fst kv) (snd kv))"
    using Nd.prems(2) by (auto simp: sorted_wrt_append)
  consider "0 < f k v" | "f k v = 0" | "f k v < 0" by linarith
  then show ?case
  proof cases
    case 1
    have "map_search_loop s f a = map_search_loop s f (addr r)"
      using 1 rd by (subst map_search_loop.simps) simp
    moreover have "f (fst kv) (snd kv) \<noteq> 0" if "kv \<in> set (inorder l)" for kv using srt(3) [OF that] 1 by (auto simp: sgn_if split: if_splits)
    ultimately show ?thesis using Nd.IH(2) [of "Rc a c k v l x"] Nd.prems(1) srt(2) 1 by (auto simp: foc_Rc)
  next
    case 2
    have "map_search_loop s f a = Some k" using 2 rd by (subst map_search_loop.simps) simp
    then show ?thesis using 2 by auto
  next
    case 3
    have "map_search_loop s f a = map_search_loop s f (addr l)"
      using 3 rd by (subst map_search_loop.simps) simp
    moreover have "f (fst kv) (snd kv) \<noteq> 0" if "kv \<in> set (inorder r)" for kv using srt(4) [OF that] 3 by (auto simp: sgn_if split: if_splits)
    ultimately show ?thesis using Nd.IH(1) [of "Lc a c k v x r"] Nd.prems(1) srt(1) 3 by (auto simp: foc_Lc)
  qed
qed

subsection \<open>Destruction\<close>

fun calls_of :: "bool \<Rightarrow> bool \<Rightarrow> rbt \<Rightarrow> (ptr + ptr) list" where
  "calls_of kd vd Tip = []"
| "calls_of kd vd (Nd a c k v l r) =
     calls_of kd vd l @ calls_of kd vd r @ (if kd then [Inl k] else []) @ (if vd then [Inr v] else [])"

lemma destroy_leaf:
  assumes f: "foc s0 s root (Nd a c k v Tip Tip) x"
  shows "\<exists>s' root'. map_destroy_loop s kd vd a calls = map_destroy_loop s' kd vd (caddr x) (calls @ calls_of kd vd (Nd a c k v Tip Tip)) \<and>
    foc (s0(a := None)) s' root' Tip x"
proof (cases "x = Top")
  case True
  have "map_destroy_loop s kd vd a calls = map_destroy_loop (s(a := None)) kd vd (caddr x) (calls @ calls_of kd vd (Nd a c k v Tip Tip))"
    using foc_rd [OF f] True by (subst map_destroy_loop.simps) simp
  moreover have "foc (s0(a := None)) (s(a := None)) NULL Tip x" using f True by (auto simp: foc_def)
  ultimately show ?thesis by blast
next
  case False
  let ?cut = "\<lambda>c. if a = c then set_lchild NULL s (caddr x) else set_rchild NULL s (caddr x)"
  have "\<exists>ch s1. rd p_lchild s (caddr x) = Some ch \<and> ?cut ch = Some s1 \<and>
      rd p_key s1 a = Some k \<and> rd p_value s1 a = Some v \<and> foc (s0(a := None)) (s1(a := None)) root Tip x"
    using f False by (cases x) (auto simp: foc_def rd_def wr_def addr_plug)
  then obtain ch s1 where c: "rd p_lchild s (caddr x) = Some ch" "?cut ch = Some s1"
      "rd p_key s1 a = Some k" "rd p_value s1 a = Some v" "foc (s0(a := None)) (s1(a := None)) root Tip x" by blast
  moreover from c have "map_destroy_loop s kd vd a calls = map_destroy_loop (s1(a := None)) kd vd (caddr x) (calls @ calls_of kd vd (Nd a c k v Tip Tip))"
    using foc_rd [OF f] False by (subst map_destroy_loop.simps) (simp split del: if_split)
  ultimately show ?thesis by blast
qed

lemma destroy_foc:
  assumes "foc s0 s root t x" "t \<noteq> Tip"
  shows "\<exists>s' root'. map_destroy_loop s kd vd (addr t) calls = map_destroy_loop s' kd vd (caddr x) (calls @ calls_of kd vd t) \<and>
    foc (\<lambda>p. if p \<in> set (tnodes t) then None else s0 p) s' root' Tip x"
  using assms
proof (induction t arbitrary: s0 s root x calls)
  case (Nd a c k v l r)
  have "\<exists>s1 root1. map_destroy_loop s kd vd a calls = map_destroy_loop s1 kd vd a (calls @ calls_of kd vd l) \<and>
      foc (\<lambda>p. if p \<in> set (tnodes l) then None else s0 p) s1 root1 (Nd a c k v Tip r) x"
  proof (cases "l = Tip")
    case True
    then show ?thesis using Nd.prems(1) by auto
  next
    case False
    have "map_destroy_loop s kd vd a calls = map_destroy_loop s kd vd (addr l) calls"
      using foc_rd [OF Nd.prems(1)] False by (subst map_destroy_loop.simps) simp
    then show ?thesis using Nd.IH(1) [of s0 s root "Lc a c k v x r" calls] Nd.prems(1) False by (simp add: foc_Lc)
  qed
  then obtain s1 root1 where s1: "map_destroy_loop s kd vd a calls = map_destroy_loop s1 kd vd a (calls @ calls_of kd vd l)"
    "foc (\<lambda>p. if p \<in> set (tnodes l) then None else s0 p) s1 root1 (Nd a c k v Tip r) x" by blast
  have "\<exists>s2 root2. map_destroy_loop s1 kd vd a (calls @ calls_of kd vd l) = map_destroy_loop s2 kd vd a (calls @ calls_of kd vd l @ calls_of kd vd r) \<and>
      foc (\<lambda>p. if p \<in> set (tnodes l @ tnodes r) then None else s0 p) s2 root2 (Nd a c k v Tip Tip) x"
  proof (cases "r = Tip")
    case True
    then show ?thesis using s1(2) by auto
  next
    case False
    have "map_destroy_loop s1 kd vd a calls = map_destroy_loop s1 kd vd (addr r) calls" for calls
      using foc_rd [OF s1(2)] False by (subst map_destroy_loop.simps) simp
    moreover have "(\<lambda>p. if p \<in> set (tnodes r) then None else if p \<in> set (tnodes l) then None else s0 p) =
        (\<lambda>p. if p \<in> set (tnodes l @ tnodes r) then None else s0 p)" by auto
    ultimately show ?thesis
      using Nd.IH(2) [of "\<lambda>p. if p \<in> set (tnodes l) then None else s0 p" s1 root1 "Rc a c k v Tip x" "calls @ calls_of kd vd l"]
        s1(2) False by (simp add: foc_Rc)
  qed
  then obtain s2 root2 where s2: "map_destroy_loop s1 kd vd a (calls @ calls_of kd vd l) = map_destroy_loop s2 kd vd a (calls @ calls_of kd vd l @ calls_of kd vd r)"
    "foc (\<lambda>p. if p \<in> set (tnodes l @ tnodes r) then None else s0 p) s2 root2 (Nd a c k v Tip Tip) x" by blast
  have "(\<lambda>p. if p \<in> set (tnodes l @ tnodes r) then None else s0 p)(a := None) =
      (\<lambda>p. if p \<in> set (tnodes (Nd a c k v l r)) then None else s0 p)" by auto
  then show ?case using s1(1) s2(1) destroy_leaf [OF s2(2), of kd vd "calls @ calls_of kd vd l @ calls_of kd vd r"]
    by (auto simp only: addr.simps calls_of.simps append_assoc append_Nil)
qed simp

lemma map_destroy_tree:
  assumes "map_is s m t"
  shows "core_rtl_map_destroy s m kd vd = Some (\<lambda>p. if p \<in> set (tnodes t) then None else s p, calls_of kd vd t)"
proof (cases "t = Tip")
  case True
  then show ?thesis using map_is_root [OF assms] by (simp add: core_rtl_map_destroy_def)
next
  case False
  have r: "p_tree m = addr t" "p_tree m \<noteq> NULL" using map_is_root [OF assms] map_is_foc [OF assms] False by (auto simp: foc_def)
  obtain s' root' where s': "map_destroy_loop s kd vd (addr t) [] = map_destroy_loop s' kd vd NULL (calls_of kd vd t)"
    "foc (\<lambda>p. if p \<in> set (tnodes t) then None else s p) s' root' Tip Top"
    using destroy_foc [OF map_is_foc [OF assms] False, of kd vd "[]"] by auto
  have "s' = (\<lambda>p. if p \<in> set (tnodes t) then None else s p)" using s'(2) by (auto simp: foc_def)
  moreover have "map_destroy_loop s' kd vd NULL calls = Some (s', calls)" for calls by (subst map_destroy_loop.simps) simp
  ultimately show ?thesis using r s'(1) by (simp add: core_rtl_map_destroy_def)
qed

lemma mset_calls_of:
  "mset (calls_of kd vd t) = (if kd then image_mset (Inl \<circ> fst) (mset (inorder t)) else {#}) +
     (if vd then image_mset (Inr \<circ> snd) (mset (inorder t)) else {#})"
  by (induction t) (auto simp: comp_def)

subsection \<open>The contract of a finite map\<close>

datatype map_op = Put ptr ptr | Get ptr

fun map_run ::
    "('st \<Rightarrow> ptr \<Rightarrow> ptr \<Rightarrow> ptr \<Rightarrow> ('st \<times> ptr) option) \<Rightarrow> ('st \<Rightarrow> ptr \<Rightarrow> ptr option) \<Rightarrow> ('st \<Rightarrow> ptr) \<Rightarrow>
     'st \<Rightarrow> map_op list \<Rightarrow> ('st \<times> ptr list) option" where
  "map_run put get alloc st [] = Some (st, [])"
| "map_run put get alloc st (Put key val # ops) =
     do { (st, ret) \<leftarrow> put st key val (alloc st); (st, out) \<leftarrow> map_run put get alloc st ops; Some (st, ret # out) }"
| "map_run put get alloc st (Get key # ops) =
     do { ret \<leftarrow> get st key; (st, out) \<leftarrow> map_run put get alloc st ops; Some (st, ret # out) }"

text \<open>
  What the outputs may be for the map \<open>f\<close> from keys to values, \<open>NULL\<close> where there is none: an
  assignment returns the old value, or the new one for a new key, or \<open>NULL\<close> when a new key finds no
  memory.
\<close>

fun map_trace :: "(ptr \<Rightarrow> ptr \<Rightarrow> bool) \<Rightarrow> (ptr \<Rightarrow> ptr) \<Rightarrow> map_op list \<Rightarrow> ptr list \<Rightarrow> (ptr \<Rightarrow> ptr) option" where
  "map_trace same f [] [] = Some f"
| "map_trace same f (Put key val # ops) (ret # out) =
     (if f key \<noteq> NULL \<or> val = NULL
      then if ret = f key then map_trace same (\<lambda>k. if same k key then val else f k) ops out else None
      else if ret = val then map_trace same (\<lambda>k. if same k key then val else f k) ops out
      else if ret = NULL then map_trace same f ops out
      else None)"
| "map_trace same f (Get key # ops) (ret # out) = (if ret = f key then map_trace same f ops out else None)"
| "map_trace same f _ _ = None"

fun op_key :: "map_op \<Rightarrow> ptr" where
  "op_key (Put key val) = key"
| "op_key (Get key) = key"

locale finite_map =
  fixes keys :: "ptr set" and same :: "ptr \<Rightarrow> ptr \<Rightarrow> bool"
    and holds :: "'st \<Rightarrow> (ptr \<Rightarrow> ptr) \<Rightarrow> bool" and live :: "'st \<Rightarrow> ptr set"
    and put :: "'st \<Rightarrow> ptr \<Rightarrow> ptr \<Rightarrow> ptr \<Rightarrow> ('st \<times> ptr) option"
    and get :: "'st \<Rightarrow> ptr \<Rightarrow> ptr option"
  assumes get: "holds st f \<Longrightarrow> key \<in> keys \<Longrightarrow> get st key = Some (f key)"
    and put_old: "holds st f \<Longrightarrow> key \<in> keys \<Longrightarrow> f key \<noteq> NULL \<or> val = NULL \<Longrightarrow>
      \<exists>st'. put st key val a = Some (st', f key) \<and> holds st' (\<lambda>k. if same k key then val else f k)"
    and put_new: "holds st f \<Longrightarrow> key \<in> keys \<Longrightarrow> f key = NULL \<Longrightarrow> val \<noteq> NULL \<Longrightarrow> a \<noteq> NULL \<Longrightarrow> a \<notin> live st \<Longrightarrow>
      \<exists>st'. put st key val a = Some (st', val) \<and> holds st' (\<lambda>k. if same k key then val else f k)"
    and put_failed: "holds st f \<Longrightarrow> key \<in> keys \<Longrightarrow> f key = NULL \<Longrightarrow> val \<noteq> NULL \<Longrightarrow> put st key val NULL = Some (st, NULL)"
begin

lemma run_traces:
  assumes alloc: "\<And>st. alloc st = NULL \<or> alloc st \<notin> live st"
  shows "holds st f \<Longrightarrow> op_key ` set ops \<subseteq> keys \<Longrightarrow> \<exists>st' out f'. map_run put get alloc st ops = Some (st', out) \<and>
    map_trace same f ops out = Some f' \<and> holds st' f'"
proof (induction ops arbitrary: st f)
  case (Cons op ops)
  show ?case
  proof (cases op)
    case (Put key val)
    have key: "key \<in> keys" "op_key ` set ops \<subseteq> keys" using Cons.prems(2) Put by auto
    consider "f key \<noteq> NULL \<or> val = NULL" | "f key = NULL" "val \<noteq> NULL" "alloc st \<noteq> NULL" | "f key = NULL" "val \<noteq> NULL" "alloc st = NULL"
      by blast
    then show ?thesis
    proof cases
      case 1
      obtain st1 where st1: "put st key val (alloc st) = Some (st1, f key)" "holds st1 (\<lambda>k. if same k key then val else f k)"
        using put_old [OF Cons.prems(1) key(1) 1] by blast
      obtain st2 out f' where "map_run put get alloc st1 ops = Some (st2, out)"
        "map_trace same (\<lambda>k. if same k key then val else f k) ops out = Some f'" "holds st2 f'" using Cons.IH [OF st1(2) key(2)] by blast
      then show ?thesis using st1(1) 1 Put by (intro exI [of _ st2] exI [of _ "f key # out"] exI [of _ f']) simp
    next
      case 2
      obtain st1 where st1: "put st key val (alloc st) = Some (st1, val)" "holds st1 (\<lambda>k. if same k key then val else f k)"
        using put_new [OF Cons.prems(1) key(1) 2] alloc [of st] 2(3) by blast
      obtain st2 out f' where "map_run put get alloc st1 ops = Some (st2, out)"
        "map_trace same (\<lambda>k. if same k key then val else f k) ops out = Some f'" "holds st2 f'" using Cons.IH [OF st1(2) key(2)] by blast
      then show ?thesis using st1(1) 2 Put by (intro exI [of _ st2] exI [of _ "val # out"] exI [of _ f']) simp
    next
      case 3
      have "put st key val (alloc st) = Some (st, NULL)" using put_failed [OF Cons.prems(1) key(1) 3(1,2)] 3(3) by simp
      moreover obtain st2 out f' where "map_run put get alloc st ops = Some (st2, out)"
        "map_trace same f ops out = Some f'" "holds st2 f'" using Cons.IH [OF Cons.prems(1) key(2)] by blast
      ultimately show ?thesis using 3 Put by (intro exI [of _ st2] exI [of _ "NULL # out"] exI [of _ f']) simp
    qed
  next
    case (Get key)
    have key: "key \<in> keys" "op_key ` set ops \<subseteq> keys" using Cons.prems(2) Get by auto
    obtain st2 out f' where "map_run put get alloc st ops = Some (st2, out)"
      "map_trace same f ops out = Some f'" "holds st2 f'" using Cons.IH [OF Cons.prems(1) key(2)] by blast
    then show ?thesis using get [OF Cons.prems(1) key(1)] Get
      by (intro exI [of _ st2] exI [of _ "f key # out"] exI [of _ f']) simp
  qed
qed simp

end

definition map_holds :: "ptr set \<Rightarrow> (ptr \<Rightarrow> ptr \<Rightarrow> int) \<Rightarrow> rbnodes \<times> rtl_map \<Rightarrow> (ptr \<Rightarrow> ptr) \<Rightarrow> bool" where
  "map_holds keys cmp st f \<longleftrightarrow> item_compare keys cmp \<and> compare_func (snd st) = cmp \<and>
     (\<exists>t. map_is (fst st) (snd st) t \<and> fst ` set (inorder t) \<subseteq> keys \<and> NULL \<notin> snd ` set (inorder t) \<and>
       (\<forall>k \<in> keys. f k = kv_lookup cmp k (inorder t)))"

definition map_put :: "rbnodes \<times> rtl_map \<Rightarrow> ptr \<Rightarrow> ptr \<Rightarrow> ptr \<Rightarrow> ((rbnodes \<times> rtl_map) \<times> ptr) option" where
  "map_put st key val a = do { (s, m, ret) \<leftarrow> core_rtl_map_set (fst st) (snd st) key val a; Some ((s, m), ret) }"

definition map_get :: "rbnodes \<times> rtl_map \<Rightarrow> ptr \<Rightarrow> ptr option" where
  "map_get st key = core_rtl_map_get (fst st) (snd st) key"

lemma kv_insert_set: "set (kv_insert cmp key val kvs) \<subseteq> set kvs \<union> {(key, val)} \<union> {(k, val) | k. k \<in> fst ` set kvs}"
  by (induction kvs rule: kv_insert.induct [of _ cmp key val]) auto

lemma kv_delete_set: "set (kv_delete cmp key kvs) \<subseteq> set kvs"
  by (auto simp: kv_delete_def)

lemma tree_live: "map_is s m t \<Longrightarrow> set (tnodes t) \<subseteq> dom s"
proof -
  have "tr s par t \<Longrightarrow> p \<in> set (tnodes t) \<Longrightarrow> p \<in> dom s" for par p by (induction t arbitrary: par) auto
  then show "map_is s m t \<Longrightarrow> set (tnodes t) \<subseteq> dom s" using map_is_foc [of s m t] by (auto simp: foc_def)
qed

lemma present_lookup:
  assumes "NULL \<notin> snd ` set (inorder t)"
  shows "present m key t \<longleftrightarrow> kv_lookup (compare_func m) key (inorder t) \<noteq> NULL"
proof -
  have "NULL \<notin> snd ` set kvs \<Longrightarrow> (\<exists>kv \<in> set kvs. compare_func m key (fst kv) = 0) \<longleftrightarrow> kv_lookup (compare_func m) key kvs \<noteq> NULL" for kvs
    by (induction kvs) (auto simp: kv_lookup_def)
  then show ?thesis using assms by (simp add: present_def)
qed

lemma map_holds_put:
  assumes h: "map_holds keys cmp st f" and t: "map_is (fst st) (snd st) t" "fst ` set (inorder t) \<subseteq> keys" "NULL \<notin> snd ` set (inorder t)"
      "\<forall>k \<in> keys. f k = kv_lookup cmp k (inorder t)"
    and s': "map_is s' m' t'" "compare_func m' = cmp" "key \<in> keys"
    and kvs: "if val = NULL then inorder t' = kv_delete cmp key (inorder t) else inorder t' = kv_insert cmp key val (inorder t)"
  shows "map_holds keys cmp (s', m') (\<lambda>k. if cmp k key = 0 then val else f k)"
proof -
  have c: "item_compare keys cmp" and o: "ordered cmp (inorder t)" using h t by (auto simp: map_holds_def map_is_def)
  have old: "k \<in> keys \<and> v \<noteq> NULL" if kv: "(k, v) \<in> set (inorder t)" for k v
    using imageI [OF kv, of fst] imageI [OF kv, of snd] t(2,3) by auto
  have new: "k \<in> keys \<and> v \<noteq> NULL" if kv: "(k, v) \<in> set (inorder t')" for k v
  proof (cases "val = NULL")
    case True
    then show ?thesis using kvs kv kv_delete_set [of cmp key "inorder t"] old by auto
  next
    case False
    then have "(k, v) \<in> set (inorder t) \<or> (k, v) = (key, val) \<or> v = val \<and> k \<in> fst ` set (inorder t)"
      using kvs kv kv_insert_set [of cmp key val "inorder t"] by auto
    then show ?thesis using old t(2) s'(3) False by (elim disjE) auto
  qed
  then have "fst ` set (inorder t') \<subseteq> keys" "NULL \<notin> snd ` set (inorder t')" by auto
  moreover have "(if cmp k key = 0 then val else f k) = kv_lookup cmp k (inorder t')" if "k \<in> keys" for k
    using kvs t(2,4) s'(3) item_compare.kv_lookup_insert [OF c o, of key k val] item_compare.kv_lookup_delete [OF c, of key k "inorder t"] that
    by (cases "val = NULL") simp_all
  ultimately show ?thesis using c s'(1,2) unfolding map_holds_def by auto
qed

interpretation rtl_map: finite_map keys "\<lambda>k key. cmp k key = 0" "map_holds keys cmp" "\<lambda>st. dom (fst st)" map_put map_get
  for keys cmp
proof
  fix st :: "rbnodes \<times> rtl_map" and f :: "ptr \<Rightarrow> ptr" and key val a :: ptr
  assume h: "map_holds keys cmp st f" and key: "key \<in> keys"
  then obtain t where c: "item_compare keys (compare_func (snd st))" "compare_func (snd st) = cmp"
    and t: "map_is (fst st) (snd st) t" "fst ` set (inorder t) \<subseteq> keys" "NULL \<notin> snd ` set (inorder t)"
      "\<forall>k \<in> keys. f k = kv_lookup cmp k (inorder t)" by (auto simp: map_holds_def)
  have k: "insert key (fst ` set (inorder t)) \<subseteq> keys" using t(2) key by simp
  note p = present_lookup [OF t(3), of "snd st" key, unfolded c(2)]
  show "map_get st key = Some (f key)" using map_get_lookup [OF c(1) t(1) k] t(4) key c(2) by (simp add: map_get_def)
  show "\<exists>st'. map_put st key val a = Some (st', f key) \<and> map_holds keys cmp st' (\<lambda>k. if cmp k key = 0 then val else f k)"
    if v: "f key \<noteq> NULL \<or> val = NULL"
  proof (cases "val = NULL")
    case True
    obtain s' m' t' where s': "core_rtl_map_set (fst st) (snd st) key NULL a = Some (s', m', f key)" "map_is s' m' t'"
      "compare_func m' = cmp" "inorder t' = kv_delete cmp key (inorder t)"
      using map_set_remove [OF c(1) t(1) k, of a] t(4) key c(2) by auto
    show ?thesis using s'(1) map_holds_put [OF h t s'(2,3) key, of val] s'(4) True
      by (intro exI [of _ "(s', m')"]) (simp add: map_put_def)
  next
    case False
    then have "present (snd st) key t" using p v t(4) key by simp
    from map_set_update [OF c(1) t(1) k False this, of a] obtain s' t' where s': "core_rtl_map_set (fst st) (snd st) key val a = Some (s', snd st, f key)"
      "map_is s' (snd st) t'" "inorder t' = kv_insert cmp key val (inorder t)" using t(4) key c(2) by auto
    show ?thesis using s'(1) map_holds_put [OF h t s'(2) c(2) key, of val] s'(3) False
      by (intro exI [of _ "(s', snd st)"]) (simp add: map_put_def)
  qed
  assume v: "f key = NULL" "val \<noteq> NULL"
  then have ab: "\<not> present (snd st) key t" using p t(4) key by simp
  show "\<exists>st'. map_put st key val a = Some (st', val) \<and> map_holds keys cmp st' (\<lambda>k. if cmp k key = 0 then val else f k)"
    if a: "a \<noteq> NULL" "a \<notin> dom (fst st)"
  proof -
    have "a \<notin> set (tnodes t)" using a(2) tree_live [OF t(1)] by blast
    from map_set_insert [OF c(1) t(1) k v(2) a(1) this ab] obtain s' m' t' where s':
      "core_rtl_map_set (fst st) (snd st) key val a = Some (s', m', val)" "map_is s' m' t'" "compare_func m' = cmp"
      "inorder t' = kv_insert cmp key val (inorder t)" using c(2) by auto
    show ?thesis using s'(1) map_holds_put [OF h t s'(2,3) key, of val] s'(4) v(2)
      by (intro exI [of _ "(s', m')"]) (simp add: map_put_def)
  qed
  show "map_put st key val NULL = Some (st, NULL)"
    using map_set_no_memory [OF c(1) t(1) k v(2) ab] by (simp add: map_put_def)
qed

subsection \<open>Depth\<close>

fun depth :: "rbt \<Rightarrow> nat" where
  "depth Tip = 0"
| "depth (Nd a c k v l r) = Suc (max (depth l) (depth r))"

lemma rbs_depth: "rbs t n \<Longrightarrow> depth t \<le> (if tcol t = BLACK then 2 * n else Suc (2 * n))"
proof (induction t arbitrary: n)
  case (Nd a c k v l r)
  show ?case
  proof (cases "c = RED")
    case True
    then show ?thesis using Nd.prems Nd.IH(1) [of n] Nd.IH(2) [of n] by auto
  next
    case False
    then obtain m where "n = Suc m" "rbs l m" "rbs r m" "c = BLACK" using Nd.prems by auto
    then show ?thesis using Nd.IH(1) [of m] Nd.IH(2) [of m] by (auto split: if_splits)
  qed
qed simp

lemma rbs_size: "rbs t n \<Longrightarrow> 2 ^ n \<le> Suc (length (tnodes t))"
proof (induction t arbitrary: n)
  case (Nd a c k v l r)
  show ?case
  proof (cases "c = RED")
    case True
    then show ?thesis using Nd.prems Nd.IH(1) [of n] by auto
  next
    case False
    then obtain m where "n = Suc m" "rbs l m" "rbs r m" using Nd.prems by auto
    then show ?thesis using Nd.IH(1) [of m] Nd.IH(2) [of m] by auto
  qed
qed simp

lemma rb_tree_depth:
  assumes "rb_tree s0 s root t"
  shows "2 ^ (depth t div 2) \<le> Suc (length (tnodes t))"
proof -
  obtain n where n: "rbs t n" "tcol t = BLACK" using assms by (auto simp: rb_tree_def)
  then have "depth t div 2 \<le> n" using rbs_depth [OF n(1)] by simp
  then have "(2 :: nat) ^ (depth t div 2) \<le> 2 ^ n" by (rule power_increasing) simp
  then show ?thesis using rbs_size [OF n(1)] by linarith
qed

subsection \<open>Properties\<close>

lemma int_order: "item_compare UNIV (\<lambda>x y. sint x - sint y)"
  by unfold_locales auto

text \<open>A map with the single key 5, for the witnesses.\<close>

abbreviation store1 :: rbnodes where
  "store1 \<equiv> [8 \<mapsto> \<lparr>p_parent = 0, p_lchild = 0, p_rchild = 0, color = 0, p_key = 5, p_value = 7\<rparr>]"

abbreviation map1 :: rtl_map where
  "map1 \<equiv> \<lparr>p_tree = 8, compare_func = \<lambda>x y. sint x - sint y, p_heap = 0\<rparr>"

lemma map_is_singleton: "map_is store1 map1 (Nd 8 0 5 7 Tip Tip)"
  by (auto simp: map_is_def rb_tree_def foc_def ordered_def)

text \<open>
  C29. A map behaves as a finite map: every sequence of assignments (\<^verbatim>\<open>core_rtl_map_set\<close>, which removes
  the key when the value is \<^verbatim>\<open>NULL\<close>) and lookups (\<^verbatim>\<open>core_rtl_map_get\<close>) returns, and what it returns
  is what a function from keys to values, with the keys that compare equal identified, gives; a new
  key that finds no memory leaves the map unchanged and returns \<^verbatim>\<open>NULL\<close>. The allocator is any
  function of the state that returns \<^verbatim>\<open>NULL\<close> or an address without a live node.
\<close>

theorem core_rtl_map_refines:
  assumes "\<forall>st. alloc st = NULL \<or> alloc st \<notin> dom (fst st)" and "map_holds keys cmp st f"
    and "op_key ` set ops \<subseteq> keys"
  shows "\<exists>st' out f'. map_run map_put map_get alloc st ops = Some (st', out) \<and>
    map_trace (\<lambda>k key. cmp k key = 0) f ops out = Some f' \<and> map_holds keys cmp st' f'"
  using assms by (intro rtl_map.run_traces) blast+

theorem core_rtl_map_refines_witness:
  "\<exists>st' out f'. map_run map_put map_get (\<lambda>st. if fst st 8 = None then 8 else NULL)
      (Map.empty, core_rtl_map_init \<lparr>p_tree = 3, compare_func = \<lambda>x y. 0, p_heap = 0\<rparr> (\<lambda>x y. sint x - sint y) 4)
      [Put 5 1, Put 3 2, Get 5, Put 5 NULL, Get 5] = Some (st', out) \<and>
    map_trace (\<lambda>k key. sint k - sint key = 0) (\<lambda>k. NULL) [Put 5 1, Put 3 2, Get 5, Put 5 NULL, Get 5] out = Some f' \<and>
    map_holds UNIV (\<lambda>x y. sint x - sint y) st' f'"
  by (rule core_rtl_map_refines)
    (auto simp: map_holds_def core_rtl_map_init_def map_is_def rb_tree_def foc_def ordered_def kv_lookup_def int_order
      intro!: exI [of _ Tip])

text \<open>
  C28. \<^verbatim>\<open>core_rtl_map_set\<close> keeps the invariant of the map (a red-black tree in key order with correct
  parent pointers, whose depth is at most twice the logarithm of its size) and changes its contents
  as the finite map does: it enters a new key in its place, replaces the value of a key it has, and
  with the value \<^verbatim>\<open>NULL\<close> takes the key out and frees exactly one of the nodes. The memory outside
  the map's nodes is not touched.
\<close>

theorem core_rtl_map_set_keeps:
  assumes "item_compare carrier (compare_func m)" and "map_is s m t" and "insert key (fst ` set (inorder t)) \<subseteq> carrier"
    and "p_new \<noteq> NULL" and "p_new \<notin> set (tnodes t)"
  shows "\<exists>s' m' t'. core_rtl_map_set s m key val p_new = Some (s', m',
      if \<not> present m key t then val else kv_lookup (compare_func m) key (inorder t)) \<and>
    map_is s' m' t' \<and> compare_func m' = compare_func m \<and> 2 ^ (depth t' div 2) \<le> Suc (length (tnodes t')) \<and>
    inorder t' = (if val = NULL then kv_delete (compare_func m) key (inorder t) else kv_insert (compare_func m) key val (inorder t)) \<and>
    (\<forall>p. p \<notin> set (tnodes t) \<union> set (tnodes t') \<longrightarrow> s' p = s p) \<and> (\<forall>p \<in> set (tnodes t) - set (tnodes t'). s' p = None)"
proof -
  have d: "2 ^ (depth t' div 2) \<le> Suc (length (tnodes t'))" if "map_is s' m' t'" for s' m' t'
    using that rb_tree_depth unfolding map_is_def by blast
  have absent: "kv_lookup (compare_func m) key (inorder t) = NULL" if "\<not> present m key t"
    using that by (intro kv_lookup_absent) (simp add: present_def)
  consider "val = NULL" | "val \<noteq> NULL" "present m key t" | "val \<noteq> NULL" "\<not> present m key t" by blast
  then show ?thesis
  proof cases
    case 1
    obtain s' m' t' where s': "core_rtl_map_set s m key NULL p_new = Some (s', m', kv_lookup (compare_func m) key (inorder t))"
      "map_is s' m' t'" "compare_func m' = compare_func m" "inorder t' = kv_delete (compare_func m) key (inorder t)"
      "\<forall>p \<in> set (tnodes t) - set (tnodes t'). s' p = None" "\<forall>p. p \<notin> set (tnodes t) \<longrightarrow> s' p = s p"
      using map_set_remove [OF assms(1-3), of p_new] by blast
    then show ?thesis using 1 d [OF s'(2)] absent by (intro exI [of _ s'] exI [of _ m'] exI [of _ t']) auto
  next
    case 2
    obtain s' t' where s': "core_rtl_map_set s m key val p_new = Some (s', m, kv_lookup (compare_func m) key (inorder t))"
      "map_is s' m t'" "inorder t' = kv_insert (compare_func m) key val (inorder t)" "tnodes t' = tnodes t"
      "\<forall>p. p \<notin> set (tnodes t') \<longrightarrow> s' p = s p"
      using map_set_update [OF assms(1-3) 2(1,2), of p_new] by blast
    then show ?thesis using 2 d [OF s'(2)] by (intro exI [of _ s'] exI [of _ m] exI [of _ t']) auto
  next
    case 3
    obtain s' m' t' where s': "core_rtl_map_set s m key val p_new = Some (s', m', val)"
      "map_is s' m' t'" "compare_func m' = compare_func m" "inorder t' = kv_insert (compare_func m) key val (inorder t)"
      "set (tnodes t') = insert p_new (set (tnodes t))" "\<forall>p. p \<notin> set (tnodes t') \<longrightarrow> s' p = s p"
      using map_set_insert [OF assms(1-3) 3(1) assms(4,5) 3(2)] by blast
    then show ?thesis using 3 d [OF s'(2)] by (intro exI [of _ s'] exI [of _ m'] exI [of _ t']) auto
  qed
qed

theorem core_rtl_map_set_keeps_witness:
  "\<exists>s' m' t'. core_rtl_map_set store1 map1 5 NULL 16 = Some (s', m', 7) \<and>
    map_is s' m' t' \<and> inorder t' = [] \<and> s' 8 = None"
proof -
  have "item_compare UNIV (compare_func map1)" by (simp add: int_order)
  from core_rtl_map_set_keeps [OF this map_is_singleton, of 5 16 NULL] show ?thesis
    by (auto simp: present_def kv_lookup_def kv_delete_def)
qed

text \<open>
  C30. \<^verbatim>\<open>core_rtl_map_next\<close> and \<^verbatim>\<open>core_rtl_map_prev\<close> walk through the keys in order: from \<^verbatim>\<open>NULL\<close> to
  the first (last) key, from a key of the map to its successor (predecessor), or to \<^verbatim>\<open>NULL\<close> at the
  end; from a key the map does not have they give \<^verbatim>\<open>NULL\<close>.
\<close>

theorem core_rtl_map_iterates:
  assumes "item_compare carrier (compare_func m)" and "map_is s m t" and "insert key (fst ` set (inorder t)) \<subseteq> carrier"
    and "key \<noteq> NULL"
  shows "core_rtl_map_next s m NULL = Some (first_key (inorder t)) \<and> core_rtl_map_prev s m NULL = Some (last_key (inorder t)) \<and>
    core_rtl_map_next s m key =
      Some (if present m key t then first_key (kv_after (compare_func m) key (inorder t)) else NULL) \<and>
    core_rtl_map_prev s m key =
      Some (if present m key t then last_key (kv_before (compare_func m) key (inorder t)) else NULL)"
  using map_ends [OF assms(2)] map_iterate [OF assms] by simp

theorem core_rtl_map_iterates_witness:
  "core_rtl_map_next store1 map1 NULL = Some 5 \<and>
    core_rtl_map_next store1 map1 5 = Some NULL"
proof -
  have "item_compare UNIV (compare_func map1)" by (simp add: int_order)
  from core_rtl_map_iterates [OF this map_is_singleton, of 5] show ?thesis
    by (simp add: kv_after_def)
qed

text \<open>
  \<^verbatim>\<open>core_rtl_map_search\<close> with a search function whose sign does not rise along the keys returns a
  key for which it gives 0, and \<^verbatim>\<open>NULL\<close> only when there is none.
\<close>

theorem core_rtl_map_search_finds:
  assumes "map_is s m t" and "sorted_wrt (\<lambda>a b. sgn (f (fst a) (snd a)) \<ge> sgn (f (fst b) (snd b))) (inorder t)"
  shows "\<exists>k. core_rtl_map_search s m f = Some k \<and>
    ((\<exists>v. (k, v) \<in> set (inorder t) \<and> f k v = 0) \<or> k = NULL \<and> (\<forall>kv \<in> set (inorder t). f (fst kv) (snd kv) \<noteq> 0))"
  using map_search_foc [OF map_is_foc [OF assms(1)] assms(2)] map_is_root [OF assms(1)]
  by (simp add: core_rtl_map_search_def)

theorem core_rtl_map_search_finds_witness:
  "core_rtl_map_search store1 map1 (\<lambda>k v. 7 - sint v) = Some 5"
  using core_rtl_map_search_finds [OF map_is_singleton, of "\<lambda>k v. 7 - sint v"] by auto

text \<open>
  C31. \<^verbatim>\<open>core_rtl_map_destroy\<close> returns; it frees exactly the nodes of the map and hands every key and
  every value to its destroyer once, when there is one.
\<close>

theorem core_rtl_map_destroy_frees:
  assumes "map_is s m t"
  shows "\<exists>s' calls. core_rtl_map_destroy s m kd vd = Some (s', calls) \<and>
    (\<forall>p. s' p = (if p \<in> set (tnodes t) then None else s p)) \<and>
    mset calls = (if kd then image_mset (Inl \<circ> fst) (mset (inorder t)) else {#}) +
      (if vd then image_mset (Inr \<circ> snd) (mset (inorder t)) else {#})"
  using map_destroy_tree [OF assms, of kd vd] mset_calls_of [of kd vd t] by simp

theorem core_rtl_map_destroy_frees_witness:
  "\<exists>s' calls. core_rtl_map_destroy store1 map1 True False = Some (s', calls) \<and>
    s' 8 = None \<and> mset calls = {#Inl 5#}"
  using core_rtl_map_destroy_frees [OF map_is_singleton, of True False] by auto

end
