(* ===== verification/RtlArray.thy ===== *)
theory RtlArray
  imports Prelude "HOL-Library.Monad_Syntax"
begin

text \<open>
  The sparse array of \<^verbatim>\<open>kernel/core/rtl/container/array/array.c\<close>: a table of blocks, each with a
  vector of items and the number of items in use, allocated when the first item of the block is set
  and freed with the last. Vectors of pointers and block headers live in stores; an access outside
  a live vector is \<open>None\<close>. What \<^verbatim>\<open>core_mm_heap_alloc\<close> returns is an argument.
\<close>

subsection \<open>Data\<close>

record array_blk =
  blk_ref :: u32
  blk_items :: ptr

record array_mem =
  vecs :: "ptr \<rightharpoonup> ptr list"
  blks :: "ptr \<rightharpoonup> array_blk"

record rtl_array =
  ar_size :: u32
  ar_scale :: u32
  ar_blks :: ptr
  ar_heap :: ptr

text \<open>\<^verbatim>\<open>*(base + k)\<close> in a vector of pointers, and the fields of a block.\<close>

definition vec_get :: "array_mem \<Rightarrow> ptr \<Rightarrow> u32 \<Rightarrow> ptr option" where
  "vec_get m base k =
     do { xs \<leftarrow> vecs m base; if unat k < length xs then Some (xs ! unat k) else None }"

definition vec_set :: "array_mem \<Rightarrow> ptr \<Rightarrow> u32 \<Rightarrow> ptr \<Rightarrow> array_mem option" where
  "vec_set m base k v =
     do {
       xs \<leftarrow> vecs m base;
       if unat k < length xs then Some (m\<lparr>vecs := (vecs m)(base \<mapsto> xs[unat k := v])\<rparr>) else None }"

definition set_ref :: "array_mem \<Rightarrow> ptr \<Rightarrow> u32 \<Rightarrow> array_mem option" where
  "set_ref m p v = map_option (\<lambda>bs. m\<lparr>blks := bs\<rparr>) (wr (blk_ref_update (\<lambda>_. v)) (blks m) p)"

definition new_vec :: "array_mem \<Rightarrow> ptr \<Rightarrow> u32 \<Rightarrow> array_mem" where
  "new_vec m base n = m\<lparr>vecs := (vecs m)(base \<mapsto> replicate (unat n) NULL)\<rparr>"

definition free_vec :: "array_mem \<Rightarrow> ptr \<Rightarrow> array_mem option" where
  "free_vec m base = map_option (\<lambda>_. m\<lparr>vecs := (vecs m)(base := None)\<rparr>) (vecs m base)"

definition free_blk :: "array_mem \<Rightarrow> ptr \<Rightarrow> array_mem option" where
  "free_blk m p = map_option (\<lambda>_. m\<lparr>blks := (blks m)(p := None)\<rparr>) (blks m p)"

subsection \<open>core\_rtl\_array\_init\<close>

text \<open>The length of \<open>n\<close> in bits.\<close>

function bit_count :: "u32 \<Rightarrow> nat \<Rightarrow> nat" where
  "bit_count n count = (if n \<noteq> 0 then bit_count (drop_bit 1 n) (count + 1) else count)"
  by auto
termination by (relation "measure (unat \<circ> fst)") (auto simp: unat_drop_bit [of 1, simplified] unat_gt_0)

declare bit_count.simps [simp del]

definition core_rtl_array_init :: "array_mem \<Rightarrow> u32 \<Rightarrow> ptr \<Rightarrow> ptr \<Rightarrow> array_mem \<times> rtl_array \<times> bool" where
  "core_rtl_array_init m num heap p_blks =
     (let count = bit_count num 0;
          count = (if num - push_bit count 1 > 0 then count + 1 else count);
          p_array = \<lparr>ar_size = push_bit count 1, ar_scale = push_bit (count div 2) 1, ar_blks = p_blks, ar_heap = heap\<rparr>
      in if p_blks = NULL then (m, p_array, False)
         else (new_vec m p_blks (ar_size p_array div ar_scale p_array), p_array, True))"

subsection \<open>core\_rtl\_array\_get, core\_rtl\_array\_set, core\_rtl\_array\_used\<close>

definition core_rtl_array_get :: "array_mem \<Rightarrow> rtl_array \<Rightarrow> u32 \<Rightarrow> ptr option" where
  "core_rtl_array_get m p_array index =
     (if index \<ge> ar_size p_array then Some NULL
      else do {
        p_blk \<leftarrow> vec_get m (ar_blks p_array) (index div ar_scale p_array);
        if p_blk = NULL then Some NULL
        else do {
          p_items \<leftarrow> rd blk_items (blks m) p_blk;
          vec_get m p_items (index mod ar_scale p_array) } })"

text \<open>
  A new block: \<open>new_blk\<close> and \<open>new_items\<close> are what the two allocations return. When the second one
  fails the code frees \<^verbatim>\<open>NULL\<close>, which the heap rejects, so this is \<open>None\<close>.
\<close>

definition array_add_blk ::
    "array_mem \<Rightarrow> rtl_array \<Rightarrow> u32 \<Rightarrow> ptr \<Rightarrow> ptr \<Rightarrow> (array_mem \<times> bool) option" where
  "array_add_blk m p_array slot new_blk new_items =
     do {
       m \<leftarrow> vec_set m (ar_blks p_array) slot new_blk;
       if new_blk = NULL then Some (m, False)
       else do {
         let m = m\<lparr>blks := (blks m)(new_blk \<mapsto> \<lparr>blk_ref = 0, blk_items = new_items\<rparr>)\<rparr>;
         if new_items = NULL then None
         else Some (new_vec m new_items (ar_scale p_array), True) } }"

definition core_rtl_array_set ::
    "array_mem \<Rightarrow> rtl_array \<Rightarrow> u32 \<Rightarrow> ptr \<Rightarrow> ptr \<Rightarrow> ptr \<Rightarrow> (array_mem \<times> ptr) option" where
  "core_rtl_array_set m p_array index val new_blk new_items =
     do {
       let slot = index div ar_scale p_array;
       p_blk \<leftarrow> vec_get m (ar_blks p_array) slot;
       if val = NULL \<and> p_blk = NULL then Some (m, NULL)
       else do {
         (m, ok) \<leftarrow>
           (if p_blk = NULL then array_add_blk m p_array slot new_blk new_items else Some (m, True));
         if \<not> ok then Some (m, NULL)
         else do {
           p_blk \<leftarrow> vec_get m (ar_blks p_array) slot;
           p_items \<leftarrow> rd blk_items (blks m) p_blk;
           let k = index mod ar_scale p_array;
           item \<leftarrow> vec_get m p_items k;
           ref \<leftarrow> rd blk_ref (blks m) p_blk;
           if val = NULL
           then if item = NULL then Some (m, NULL)
                else do {
                  m \<leftarrow> vec_set m p_items k NULL;
                  m \<leftarrow> set_ref m p_blk (ref - 1);
                  ref \<leftarrow> rd blk_ref (blks m) p_blk;
                  m \<leftarrow> (if ref = 0
                        then do {
                          m \<leftarrow> free_vec m p_items;
                          m \<leftarrow> free_blk m p_blk;
                          vec_set m (ar_blks p_array) slot NULL }
                        else Some m);
                  Some (m, NULL) }
           else do {
             m \<leftarrow> (if item = NULL then set_ref m p_blk (ref + 1) else Some m);
             m \<leftarrow> vec_set m p_items k val;
             Some (m, val) } } } }"

definition core_rtl_array_used :: "array_mem \<Rightarrow> rtl_array \<Rightarrow> u32 \<Rightarrow> bool option" where
  "core_rtl_array_used m p_array index =
     do {
       p_blk \<leftarrow> vec_get m (ar_blks p_array) (index div ar_scale p_array);
       if p_blk = NULL then Some False
       else do {
         p_items \<leftarrow> rd blk_items (blks m) p_blk;
         item \<leftarrow> vec_get m p_items (index mod ar_scale p_array);
         Some (item \<noteq> NULL) } }"

definition core_rtl_array_size :: "rtl_array \<Rightarrow> u32" where
  "core_rtl_array_size p_array = ar_size p_array"

subsection \<open>core\_rtl\_array\_get\_used\_index\<close>

text \<open>The first item in use from \<open>j\<close> on, in a vector of items.\<close>

partial_function (option) used_scan :: "array_mem \<Rightarrow> ptr \<Rightarrow> u32 \<Rightarrow> u32 \<Rightarrow> u32 option option" where
  "used_scan m p_items scale j =
     (if j < scale
      then do {
        item \<leftarrow> vec_get m p_items j;
        if item \<noteq> NULL then Some (Some j) else used_scan m p_items scale (j + 1) }
      else Some None)"

partial_function (option) used_loop :: "array_mem \<Rightarrow> rtl_array \<Rightarrow> u32 \<Rightarrow> u32 \<Rightarrow> u32 option option" where
  "used_loop m p_array begin_index i =
     (if i < ar_size p_array div ar_scale p_array
      then do {
        p_blk \<leftarrow> vec_get m (ar_blks p_array) i;
        found \<leftarrow>
          (if p_blk \<noteq> NULL
           then do {
             p_items \<leftarrow> rd blk_items (blks m) p_blk;
             used_scan m p_items (ar_scale p_array)
               (if i > begin_index div ar_scale p_array then 0 else begin_index mod ar_scale p_array) }
           else Some None);
        (case found of
           Some j \<Rightarrow> Some (Some (i * ar_scale p_array + j))
         | None \<Rightarrow> used_loop m p_array begin_index (i + 1)) }
      else Some None)"

text \<open>\<open>Some None\<close> is \<^verbatim>\<open>false\<close>, \<open>Some (Some r)\<close> is \<^verbatim>\<open>true\<close> with \<^verbatim>\<open>*ret = r\<close>.\<close>

definition core_rtl_array_get_used_index :: "array_mem \<Rightarrow> rtl_array \<Rightarrow> u32 \<Rightarrow> u32 option option" where
  "core_rtl_array_get_used_index m p_array begin_index =
     used_loop m p_array begin_index (begin_index div ar_scale p_array)"

subsection \<open>core\_rtl\_array\_get\_free\_index, core\_rtl\_array\_get\_free\_index\_num\<close>

partial_function (option) free_scan :: "array_mem \<Rightarrow> ptr \<Rightarrow> u32 \<Rightarrow> u32 \<Rightarrow> u32 option option" where
  "free_scan m p_items scale j =
     (if j < scale
      then do {
        item \<leftarrow> vec_get m p_items j;
        if item = NULL then Some (Some j) else free_scan m p_items scale (j + 1) }
      else Some None)"

text \<open>
  The result and \<^verbatim>\<open>*p_ret\<close>. The function returns \<^verbatim>\<open>bool\<close>, so \<^verbatim>\<open>return i * p_array->scale\<close> is whether
  that is not zero; \<^verbatim>\<open>*p_ret\<close> is not written then.
\<close>

partial_function (option) free_loop :: "array_mem \<Rightarrow> rtl_array \<Rightarrow> u32 \<Rightarrow> u32 \<Rightarrow> (bool \<times> u32) option" where
  "free_loop m p_array i ret =
     (if i < ar_size p_array div ar_scale p_array
      then do {
        p_blk \<leftarrow> vec_get m (ar_blks p_array) (i div ar_scale p_array);
        if p_blk = NULL then Some (i * ar_scale p_array \<noteq> 0, ret)
        else do {
          ref \<leftarrow> rd blk_ref (blks m) p_blk;
          found \<leftarrow>
            (if ref < ar_scale p_array
             then do { p_items \<leftarrow> rd blk_items (blks m) p_blk; free_scan m p_items (ar_scale p_array) 0 }
             else Some None);
          (case found of
             Some j \<Rightarrow> Some (True, i * ar_scale p_array + j)
           | None \<Rightarrow> free_loop m p_array (i + 1) ret) } }
      else Some (False, ret))"

definition core_rtl_array_get_free_index :: "array_mem \<Rightarrow> rtl_array \<Rightarrow> u32 \<Rightarrow> (bool \<times> u32) option" where
  "core_rtl_array_get_free_index m p_array ret = free_loop m p_array 0 ret"

partial_function (option) free_num_loop :: "array_mem \<Rightarrow> rtl_array \<Rightarrow> u32 \<Rightarrow> u32 \<Rightarrow> u32 option" where
  "free_num_loop m p_array i ret =
     (if i < ar_size p_array div ar_scale p_array
      then do {
        p_blk \<leftarrow> vec_get m (ar_blks p_array) (i div ar_scale p_array);
        if p_blk = NULL then free_num_loop m p_array (i + 1) (ret + ar_scale p_array)
        else do {
          ref \<leftarrow> rd blk_ref (blks m) p_blk;
          free_num_loop m p_array (i + 1) (ret + (ar_scale p_array - ref)) } }
      else Some ret)"

definition core_rtl_array_get_free_index_num :: "array_mem \<Rightarrow> rtl_array \<Rightarrow> u32 option" where
  "core_rtl_array_get_free_index_num m p_array = free_num_loop m p_array 0 0"

subsection \<open>core\_rtl\_array\_destroy\<close>

text \<open>The items handed to the destroyer of a block, in order.\<close>

partial_function (option) destroy_scan :: "array_mem \<Rightarrow> ptr \<Rightarrow> u32 \<Rightarrow> bool \<Rightarrow> u32 \<Rightarrow> ptr list \<Rightarrow> ptr list option" where
  "destroy_scan m p_items scale destroier j calls =
     (if j < scale
      then do {
        item \<leftarrow> vec_get m p_items j;
        destroy_scan m p_items scale destroier (j + 1) (if item \<noteq> NULL \<and> destroier then calls @ [item] else calls) }
      else Some calls)"

partial_function (option) destroy_loop ::
    "array_mem \<Rightarrow> rtl_array \<Rightarrow> bool \<Rightarrow> u32 \<Rightarrow> ptr list \<Rightarrow> (array_mem \<times> ptr list) option" where
  "destroy_loop m p_array destroier i calls =
     (if i < ar_size p_array div ar_scale p_array
      then do {
        p_blk \<leftarrow> vec_get m (ar_blks p_array) (i div ar_scale p_array);
        if p_blk \<noteq> NULL
        then do {
          p_items \<leftarrow> rd blk_items (blks m) p_blk;
          calls \<leftarrow> destroy_scan m p_items (ar_scale p_array) destroier 0 calls;
          m \<leftarrow> free_vec m p_items;
          m \<leftarrow> free_blk m p_blk;
          destroy_loop m p_array destroier (i + 1) calls }
        else destroy_loop m p_array destroier (i + 1) calls }
      else Some (m, calls))"

definition core_rtl_array_destroy :: "array_mem \<Rightarrow> rtl_array \<Rightarrow> bool \<Rightarrow> (array_mem \<times> ptr list) option" where
  "core_rtl_array_destroy m p_array destroier =
     do {
       (m, calls) \<leftarrow> destroy_loop m p_array destroier 0 [];
       m \<leftarrow> free_vec m (ar_blks p_array);
       Some (m, calls) }"

end
