(* ===== verification/RtlArrayProofs.thy ===== *)
theory RtlArrayProofs
  imports RtlArray
begin

text \<open>
  Correctness of the sparse array: it represents a list of \<open>ar_size\<close> items. \<open>array_is m p bs\<close> ties the
  stores to the blocks \<open>bs\<close> in table order, each with its address, the address of its vector and its
  items; a block that is not allocated has the address \<^verbatim>\<open>NULL\<close> and only \<^verbatim>\<open>NULL\<close> items.
\<close>

subsection \<open>Lists of equal pieces\<close>

lemma concat_nth:
  assumes "\<forall>x \<in> set xss. length (g x) = n" "i < length xss * n"
  shows "concat (map g xss) ! i = g (xss ! (i div n)) ! (i mod n)"
  using assms
proof (induction xss arbitrary: i)
  case (Cons x xss)
  then have n: "0 < n" "length (g x) = n" by (auto intro: gr0I)
  show ?case
  proof (cases "i < n")
    case False
    then have "i div n = Suc ((i - n) div n)" "i mod n = (i - n) mod n"
      using n by (simp_all add: le_div_geq le_mod_geq)
    then show ?thesis using Cons False n by (simp add: nth_append)
  qed (use n in \<open>simp add: nth_append\<close>)
qed simp


lemma length_concat_const: "\<forall>x \<in> set xss. length (g x) = n \<Longrightarrow> length (concat (map g xss)) = length xss * n"
  by (induction xss) auto

subsection \<open>Representation\<close>

type_synonym blk_view = "ptr \<times> ptr \<times> ptr list"

abbreviation v_addr :: "blk_view \<Rightarrow> ptr" where "v_addr b \<equiv> fst b"
abbreviation v_vec :: "blk_view \<Rightarrow> ptr" where "v_vec b \<equiv> fst (snd b)"
abbreviation v_items :: "blk_view \<Rightarrow> ptr list" where "v_items b \<equiv> snd (snd b)"

definition in_use :: "ptr list \<Rightarrow> nat" where
  "in_use xs = length (filter (\<lambda>x. x \<noteq> NULL) xs)"

definition blk_ok :: "array_mem \<Rightarrow> rtl_array \<Rightarrow> blk_view \<Rightarrow> bool" where
  "blk_ok m p b \<longleftrightarrow> length (v_items b) = unat (ar_scale p) \<and>
     (if v_addr b = NULL then in_use (v_items b) = 0
      else blks m (v_addr b) = Some \<lparr>blk_ref = of_nat (in_use (v_items b)), blk_items = v_vec b\<rparr> \<and>
        vecs m (v_vec b) = Some (v_items b) \<and> v_vec b \<noteq> ar_blks p \<and> 0 < in_use (v_items b))"

text \<open>No two allocated blocks share an address or a vector.\<close>

definition blks_apart :: "blk_view list \<Rightarrow> bool" where
  "blks_apart bs \<longleftrightarrow> (\<forall>i < length bs. \<forall>j < length bs. i \<noteq> j \<longrightarrow> v_addr (bs ! i) \<noteq> NULL \<longrightarrow> v_addr (bs ! j) \<noteq> NULL \<longrightarrow>
     v_addr (bs ! i) \<noteq> v_addr (bs ! j) \<and> v_vec (bs ! i) \<noteq> v_vec (bs ! j))"

definition array_is :: "array_mem \<Rightarrow> rtl_array \<Rightarrow> blk_view list \<Rightarrow> bool" where
  "array_is m p bs \<longleftrightarrow> 0 < ar_scale p \<and> unat (ar_size p) = length bs * unat (ar_scale p) \<and>
     vecs m (ar_blks p) = Some (map v_addr bs) \<and> (\<forall>b \<in> set bs. blk_ok m p b) \<and> blks_apart bs"

definition contents :: "blk_view list \<Rightarrow> ptr list" where
  "contents bs = concat (map v_items bs)"

lemma array_items: "array_is m p bs \<Longrightarrow> \<forall>b \<in> set bs. length (v_items b) = unat (ar_scale p)"
  by (simp add: array_is_def blk_ok_def)

lemma contents_length: "array_is m p bs \<Longrightarrow> length (contents bs) = unat (ar_size p)"
  using length_concat_const [OF array_items] by (simp add: contents_def array_is_def)



lemma slot_get:
  assumes "array_is m p bs" "unat k < length bs"
  shows "vec_get m (ar_blks p) k = Some (v_addr (bs ! unat k))"
  using assms by (simp add: array_is_def vec_get_def)

lemma in_use_nth: "in_use xs = 0 \<Longrightarrow> i < length xs \<Longrightarrow> xs ! i = NULL"
  by (auto simp: in_use_def filter_empty_conv)



subsection \<open>Assignment\<close>











subsection \<open>The next index in use\<close>

lemma used_scan_finds:
  assumes "vecs m q = Some xs" "length xs = unat scale" "j \<le> scale"
  shows "\<exists>r. used_scan m q scale j = Some r \<and>
    (case r of Some k \<Rightarrow> j \<le> k \<and> k < scale \<and> xs ! unat k \<noteq> NULL \<and> (\<forall>l. unat j \<le> l \<and> l < unat k \<longrightarrow> xs ! l = NULL)
     | None \<Rightarrow> (\<forall>l. unat j \<le> l \<and> l < unat scale \<longrightarrow> xs ! l = NULL))"
  using assms(3)
proof (induction "unat scale - unat j" arbitrary: j)
  case 0
  then have "j = scale" by (simp add: word_le_nat_alt word_unat_eq_iff)
  then show ?case by (subst used_scan.simps) auto
next
  case (Suc n)
  then have j: "j < scale" "unat (j + 1) = Suc (unat j)"
    using unat_lt_32 [of scale] by (auto simp: word_less_nat_alt word_le_nat_alt unat_word_ariths)
  have get: "vec_get m q j = Some (xs ! unat j)" using assms j(1) by (simp add: vec_get_def word_less_nat_alt)
  show ?case
  proof (cases "xs ! unat j = NULL")
    case False
    then show ?thesis using get j(1) by (subst used_scan.simps) auto
  next
    case True
    have "used_scan m q scale j = used_scan m q scale (j + 1)" using get j(1) True by (subst used_scan.simps) simp
    moreover have "\<exists>r. used_scan m q scale (j + 1) = Some r \<and>
      (case r of Some k \<Rightarrow> j + 1 \<le> k \<and> k < scale \<and> xs ! unat k \<noteq> NULL \<and> (\<forall>l. unat (j + 1) \<le> l \<and> l < unat k \<longrightarrow> xs ! l = NULL)
       | None \<Rightarrow> (\<forall>l. unat (j + 1) \<le> l \<and> l < unat scale \<longrightarrow> xs ! l = NULL))"
      using Suc.hyps j by (intro Suc.hyps(1)) (simp_all add: word_le_nat_alt word_less_nat_alt)
    moreover have shift: "(\<forall>l. unat (j + 1) \<le> l \<and> l < e \<longrightarrow> xs ! l = NULL) \<longleftrightarrow> (\<forall>l. unat j \<le> l \<and> l < e \<longrightarrow> xs ! l = NULL)" for e
      using True j(2) by (metis Suc_le_eq le_eq_less_or_eq)
    moreover have "j + 1 \<le> k \<Longrightarrow> j \<le> k" for k using j(2) by (simp add: word_le_nat_alt)
    ultimately show ?thesis unfolding shift by (auto split: option.splits)
  qed
qed

text \<open>\<open>next_used bs b r\<close>: \<open>r\<close> is the first index from \<open>b\<close> on with an item, if there is one.\<close>

definition next_used :: "ptr list \<Rightarrow> nat \<Rightarrow> u32 option \<Rightarrow> bool" where
  "next_used xs b r \<longleftrightarrow>
     (case r of
        Some i \<Rightarrow> b \<le> unat i \<and> unat i < length xs \<and> xs ! unat i \<noteq> NULL \<and> (\<forall>l. b \<le> l \<and> l < unat i \<longrightarrow> xs ! l = NULL)
      | None \<Rightarrow> (\<forall>l. b \<le> l \<and> l < length xs \<longrightarrow> xs ! l = NULL))"

lemma contents_at:
  assumes a: "array_is m p bs" "k < length bs" "l < unat (ar_scale p)"
  shows "contents bs ! (k * unat (ar_scale p) + l) = v_items (bs ! k) ! l" "k * unat (ar_scale p) + l < length (contents bs)"
proof -
  have "k * unat (ar_scale p) + l < Suc k * unat (ar_scale p)" using a(3) by simp
  also have "\<dots> \<le> length bs * unat (ar_scale p)" using a(2) by (intro mult_le_mono1) simp
  finally have lt: "k * unat (ar_scale p) + l < length bs * unat (ar_scale p)" .
  then show "k * unat (ar_scale p) + l < length (contents bs)"
    using contents_length [OF a(1)] a(1) by (simp add: array_is_def)
  show "contents bs ! (k * unat (ar_scale p) + l) = v_items (bs ! k) ! l"
    using concat_nth [OF array_items [OF a(1)] lt] a(3) by (simp add: contents_def)
qed

lemma blk_scan:
  assumes a: "array_is m p bs" "unat i < length bs" and j: "j \<le> ar_scale p"
  shows "\<exists>r. (if v_addr (bs ! unat i) \<noteq> NULL
       then do { q \<leftarrow> rd blk_items (blks m) (v_addr (bs ! unat i)); used_scan m q (ar_scale p) j } else Some None) = Some r \<and>
    (case r of Some k \<Rightarrow> j \<le> k \<and> k < ar_scale p \<and> v_items (bs ! unat i) ! unat k \<noteq> NULL \<and>
        (\<forall>l. unat j \<le> l \<and> l < unat k \<longrightarrow> v_items (bs ! unat i) ! l = NULL)
     | None \<Rightarrow> (\<forall>l. unat j \<le> l \<and> l < unat (ar_scale p) \<longrightarrow> v_items (bs ! unat i) ! l = NULL))"
proof -
  have ok: "blk_ok m p (bs ! unat i)" using a by (simp add: array_is_def)
  show ?thesis
  proof (cases "v_addr (bs ! unat i) = NULL")
    case True
    then show ?thesis using ok in_use_nth [of "v_items (bs ! unat i)"] by (auto simp: blk_ok_def)
  next
    case False
    then show ?thesis using ok used_scan_finds [OF _ _ j, of m "v_vec (bs ! unat i)" "v_items (bs ! unat i)"]
      by (simp add: blk_ok_def rd_def)
  qed
qed

lemma used_loop_finds:
  assumes a: "array_is m p bs" and i: "unat i \<le> length bs" "unat b div unat (ar_scale p) \<le> unat i"
    and before: "\<forall>l. unat b \<le> l \<and> l < unat i * unat (ar_scale p) \<longrightarrow> contents bs ! l = NULL"
  shows "\<exists>r. used_loop m p b i = Some r \<and> next_used (contents bs) (unat b) r"
  using i before
proof (induction "length bs - unat i" arbitrary: i)
  case 0
  let ?n = "unat (ar_scale p)"
  have n: "unat (ar_size p div ar_scale p) = length bs" "0 < ?n"
    using a by (simp_all add: array_is_def unat_div unat_gt_0 word_gt_0)
  have "used_loop m p b i = Some None" using 0 n(1) by (subst used_loop.simps) (simp add: word_less_nat_alt)
  moreover have "length (contents bs) = unat i * ?n" using 0 contents_length [OF a] a by (simp add: array_is_def)
  ultimately show ?case using 0 by (simp add: next_used_def)
next
  case (Suc d)
  let ?n = "unat (ar_scale p)"
  have n: "unat (ar_size p div ar_scale p) = length bs" "0 < ?n"
    using a by (simp_all add: array_is_def unat_div unat_gt_0 word_gt_0)
  have lt: "unat i < length bs" "length bs < 2 ^ 32" using Suc.hyps(2) n(1) unat_lt_32 [of "ar_size p div ar_scale p"] by simp_all
  define j where "j = (if i > b div ar_scale p then 0 else b mod ar_scale p)"
  have j: "unat j = (if unat i > unat b div ?n then 0 else unat b mod ?n)" "j \<le> ar_scale p"
    using n(2) by (auto simp: j_def word_less_nat_alt word_le_nat_alt unat_div unat_mod less_imp_le)
  have from_j: "unat b \<le> unat i * ?n + l \<longleftrightarrow> unat j \<le> l" if "l < ?n" for l
  proof (cases "unat i > unat b div ?n")
    case True
    then have "Suc (unat b div ?n) * ?n \<le> unat i * ?n" by (intro mult_le_mono1) simp
    moreover have "unat b < Suc (unat b div ?n) * ?n" using n(2) dividend_less_div_times [of ?n "unat b"] by simp
    ultimately show ?thesis using True j(1) by simp
  next
    case False
    then have "unat i = unat b div ?n" using Suc.prems(2) by simp
    then have "unat b = unat i * ?n + unat j" using False j(1) by simp
    then show ?thesis by linarith
  qed
  have item: "v_items (bs ! unat i) ! l = contents bs ! (unat i * ?n + l)" if "l < ?n" for l
    using contents_at(1) [OF a lt(1) that] by simp
  obtain r where r: "(if v_addr (bs ! unat i) \<noteq> NULL
      then do { q \<leftarrow> rd blk_items (blks m) (v_addr (bs ! unat i)); used_scan m q (ar_scale p) j } else Some None) = Some r"
    "case r of Some k \<Rightarrow> j \<le> k \<and> k < ar_scale p \<and> v_items (bs ! unat i) ! unat k \<noteq> NULL \<and>
        (\<forall>l. unat j \<le> l \<and> l < unat k \<longrightarrow> v_items (bs ! unat i) ! l = NULL)
     | None \<Rightarrow> (\<forall>l. unat j \<le> l \<and> l < ?n \<longrightarrow> v_items (bs ! unat i) ! l = NULL)"
    using blk_scan [OF a lt(1) j(2)] by blast
  have step: "used_loop m p b i = (case r of Some k \<Rightarrow> Some (Some (i * ar_scale p + k)) | None \<Rightarrow> used_loop m p b (i + 1))"
  proof -
    have "i < ar_size p div ar_scale p" using lt n(1) by (simp add: word_less_nat_alt)
    then show ?thesis
      by (subst used_loop.simps) (simp only: if_True slot_get [OF a lt(1)] bind.bind_lunit r(1) [unfolded j_def])
  qed
  have below: "contents bs ! l = NULL" if lk: "unat b \<le> l" "l < unat i * ?n + k" "k \<le> ?n" "\<And>l. unat j \<le> l \<Longrightarrow> l < k \<Longrightarrow> v_items (bs ! unat i) ! l = NULL" for l k
  proof (cases "l < unat i * ?n")
    case False
    then obtain e where e: "l = unat i * ?n + e" "e < k" using lk(2) by (metis add_less_cancel_left le_iff_add not_less)
    then show ?thesis using from_j [of e] item [of e] lk by simp
  qed (use Suc.prems(3) lk(1) in blast)
  show ?case
  proof (cases r)
    case (Some k)
    have k: "unat k < ?n" using r(2) Some by (simp add: word_less_nat_alt)
    have idx: "unat (i * ar_scale p + k) = unat i * ?n + unat k"
      using contents_at(2) [OF a lt(1) k] contents_length [OF a] unat_lt_32 [of "ar_size p"] by (simp add: unat_word_ariths)
    have "next_used (contents bs) (unat b) (Some (i * ar_scale p + k))"
      using Some r(2) k item [OF k] from_j [OF k] contents_at(2) [OF a lt(1) k] below [of _ "unat k"]
      by (simp add: next_used_def idx word_le_nat_alt)
    then show ?thesis using step Some by simp
  next
    case None
    have i1: "unat (i + 1) = Suc (unat i)" using lt by (simp add: unat_word_ariths)
    have "\<forall>l. unat b \<le> l \<and> l < unat (i + 1) * ?n \<longrightarrow> contents bs ! l = NULL"
      unfolding i1 using below [of _ ?n] r(2) None by (simp add: add.commute)
    then show ?thesis using Suc.hyps(1) [of "i + 1"] Suc.hyps(2) Suc.prems(2) i1 lt step None by simp
  qed
qed

lemma used_index_next:
  assumes a: "array_is m p bs" and b: "b \<le> ar_size p"
  shows "\<exists>r. core_rtl_array_get_used_index m p b = Some r \<and> next_used (contents bs) (unat b) r"
proof -
  have n: "unat (b div ar_scale p) = unat b div unat (ar_scale p)" by (simp add: unat_div)
  have "unat b \<le> length bs * unat (ar_scale p)" using a b by (simp add: array_is_def word_le_nat_alt)
  then have "unat (b div ar_scale p) \<le> length bs"
    using a div_le_mono [of "unat b" "length bs * unat (ar_scale p)" "unat (ar_scale p)"]
    by (simp add: n array_is_def unat_gt_0 word_gt_0)
  moreover have "unat b div unat (ar_scale p) * unat (ar_scale p) \<le> unat b" by simp
  then have "\<forall>l. unat b \<le> l \<and> l < unat (b div ar_scale p) * unat (ar_scale p) \<longrightarrow> contents bs ! l = NULL"
    unfolding n by (intro allI impI) linarith
  ultimately show ?thesis
    unfolding core_rtl_array_get_used_index_def by (intro used_loop_finds [OF a]) (simp_all add: n)
qed

subsection \<open>A new array\<close>

lemma bit_count_bounds: "\<exists>k. bit_count n c = c + k \<and> unat n < 2 ^ k \<and> (n \<noteq> 0 \<longrightarrow> 2 ^ k \<le> 2 * unat n)"
proof (induction n c rule: bit_count.induct)
  case (1 n c)
  show ?case
  proof (cases "n = 0")
    case True
    then show ?thesis by (intro exI [of _ 0]) (simp add: bit_count.simps)
  next
    case False
    then obtain k where k: "bit_count (drop_bit 1 n) (c + 1) = c + 1 + k" "unat n div 2 < 2 ^ k"
      "drop_bit 1 n \<noteq> 0 \<Longrightarrow> 2 ^ k \<le> 2 * (unat n div 2)"
      using 1 unat_drop_bit [of 1 n] by auto
    have "bit_count n c = c + Suc k" using False k(1) by (subst bit_count.simps) simp
    moreover have "unat n < 2 ^ Suc k" using k(2) by simp
    moreover have "2 ^ Suc k \<le> 2 * unat n"
    proof (cases "drop_bit 1 n = 0")
      case True
      then have "unat n div 2 = 0" using unat_drop_bit [of 1 n] by simp
      then have "unat n = 1" using False by (simp add: unat_eq_zero div_eq_0_iff) (use unat_gt_0 [of n] in linarith)
      moreover have "bit_count (drop_bit 1 n) (c + 1) = c + 1" using True by (simp add: bit_count.simps)
      ultimately show ?thesis using k(1) by simp
    qed (use k(3) in \<open>simp; linarith\<close>)
    ultimately show ?thesis by blast
  qed
qed

lemma unat_shift_1: "k < 32 \<Longrightarrow> unat (push_bit k 1 :: u32) = 2 ^ k"
  by (simp add: push_bit_eq_mult unat_2p)

lemma array_init_empty:
  assumes num: "0 < num" "num < 2 ^ 30" and blk: "p_blks \<noteq> NULL"
  shows "\<exists>m' p bs. core_rtl_array_init m num heap p_blks = (m', p, True) \<and> array_is m' p bs \<and>
    num < ar_size p \<and> set (contents bs) \<subseteq> {NULL} \<and> bs \<noteq> [] \<and> v_addr (hd bs) = NULL"
proof -
  obtain k where k: "bit_count num 0 = k" "unat num < 2 ^ k" "2 ^ k \<le> 2 * unat num"
    using bit_count_bounds [of num 0] num(1) by (auto simp: word_gt_0)
  have "(2::nat) ^ k < 2 ^ 31" using k(3) num(2) by (simp add: word_less_nat_alt unat_2p [of 30, simplified])
  then have k31: "k < 31" by (rule power_less_imp_less_exp [rotated]) simp
  have "num \<noteq> push_bit k 1" using k(2) k31 unat_shift_1 [of k] by auto
  then have more: "num - push_bit k 1 > 0" by (simp add: word_gt_0)
  define p where "p = \<lparr>ar_size = push_bit (k + 1) 1, ar_scale = push_bit ((k + 1) div 2) 1, ar_blks = p_blks, ar_heap = heap\<rparr>"
  define n where "n = k + 1 - (k + 1) div 2"
  define bs :: "blk_view list" where "bs = replicate (2 ^ n) (NULL, NULL, replicate (2 ^ ((k + 1) div 2)) NULL)"
  have sz: "unat (ar_size p) = 2 ^ (k + 1)" "unat (ar_scale p) = 2 ^ ((k + 1) div 2)"
    using k31 unat_shift_1 [of "k + 1"] unat_shift_1 [of "(k + 1) div 2"] by (simp_all add: p_def del: power_Suc)
  have pow: "(2::nat) ^ (k + 1) = 2 ^ n * 2 ^ ((k + 1) div 2)" by (simp add: n_def power_add [symmetric] del: power_Suc)
  have slots: "unat (ar_size p div ar_scale p) = 2 ^ n" using sz pow by (simp add: unat_div)
  let ?m = "new_vec m p_blks (ar_size p div ar_scale p)"
  have "core_rtl_array_init m num heap p_blks = (?m, p, True)"
    using k(1) more blk by (simp add: core_rtl_array_init_def p_def Let_def)
  moreover have "array_is ?m p bs"
    using sz pow slots by (auto simp: array_is_def bs_def blk_ok_def in_use_def blks_apart_def new_vec_def word_gt_0 p_def simp flip: unat_eq_zero)
  moreover have "num < ar_size p" using k(2) sz(1) by (simp add: word_less_nat_alt)
  moreover have "set (contents bs) \<subseteq> {NULL}" by (auto simp: bs_def contents_def)
  moreover have "bs \<noteq> []" "v_addr (hd bs) = NULL" by (simp_all add: bs_def hd_replicate)
  ultimately show ?thesis by blast
qed

subsection \<open>Properties\<close>

text \<open>An array of four items in two blocks with nothing in it, for the witnesses.\<close>

abbreviation array4 :: rtl_array where
  "array4 \<equiv> \<lparr>ar_size = 4, ar_scale = 2, ar_blks = 100, ar_heap = 0\<rparr>"

abbreviation mem4 :: array_mem where
  "mem4 \<equiv> \<lparr>vecs = [100 \<mapsto> [0, 0]], blks = Map.empty\<rparr>"

abbreviation view4 :: "blk_view list" where
  "view4 \<equiv> [(NULL, NULL, [0, 0]), (NULL, NULL, [0, 0])]"

lemma array4_is: "array_is mem4 array4 view4"
  by (auto simp: array_is_def blk_ok_def in_use_def blks_apart_def All_less_Suc)



text \<open>
  \<^verbatim>\<open>core_rtl_array_get_used_index\<close> returns the first index from \<^verbatim>\<open>begin\<close> on whose item is not \<^verbatim>\<open>NULL\<close>, and
  \<^verbatim>\<open>false\<close> when there is none.
\<close>

theorem core_rtl_array_used_index_first:
  assumes "array_is m p bs" and "b \<le> ar_size p"
  shows "\<exists>r. core_rtl_array_get_used_index m p b = Some r \<and> next_used (contents bs) (unat b) r"
  using assms by (rule used_index_next)

theorem core_rtl_array_used_index_first_witness:
  "core_rtl_array_get_used_index mem4 array4 1 = Some None"
proof -
  obtain r where r: "core_rtl_array_get_used_index mem4 array4 1 = Some r" "next_used (contents view4) 1 r"
    using core_rtl_array_used_index_first [OF array4_is, of 1] by auto
  have "contents view4 = replicate 4 NULL" by (simp add: contents_def numeral_eq_Suc)
  with r(2) have "r = None" by (cases r) (auto simp: next_used_def)
  with r(1) show ?thesis by simp
qed

text \<open>
  C33. \<^verbatim>\<open>core_rtl_array_init\<close> makes an array of more items than asked for, all of them \<^verbatim>\<open>NULL\<close>, and yet
  \<^verbatim>\<open>core_rtl_array_get_free_index\<close> finds no free index in it: for a block that is not allocated it returns
  \<^verbatim>\<open>i * p_array->scale\<close> as a \<^verbatim>\<open>bool\<close>, which is \<^verbatim>\<open>false\<close> for the first block, and leaves \<^verbatim>\<open>*p_ret\<close> unwritten.
\<close>

theorem core_rtl_array_new_looks_full:
  assumes "0 < num" and "num < 2 ^ 30" and "p_blks \<noteq> NULL"
  shows "\<exists>m' p bs. core_rtl_array_init m num heap p_blks = (m', p, True) \<and> array_is m' p bs \<and>
    num < ar_size p \<and> set (contents bs) \<subseteq> {NULL} \<and> core_rtl_array_get_free_index m' p ret = Some (False, ret)"
proof -
  obtain m' p bs where i: "core_rtl_array_init m num heap p_blks = (m', p, True)" "array_is m' p bs"
    "num < ar_size p" "set (contents bs) \<subseteq> {NULL}" "bs \<noteq> []" "v_addr (hd bs) = NULL"
    using array_init_empty [OF assms] by blast
  have "unat (ar_size p div ar_scale p) = length bs" "0 < length bs"
    using i(2,5) by (auto simp: array_is_def unat_div word_gt_0 unat_eq_zero)
  then have "0 < ar_size p div ar_scale p" by (simp add: word_less_nat_alt)
  moreover have "vec_get m' (ar_blks p) 0 = Some NULL" using slot_get [OF i(2), of 0] i(5,6) by (simp add: hd_conv_nth)
  ultimately have "core_rtl_array_get_free_index m' p ret = Some (False, ret)"
    unfolding core_rtl_array_get_free_index_def by (subst free_loop.simps) simp
  with i show ?thesis by blast
qed

theorem core_rtl_array_new_looks_full_witness:
  "\<exists>m' p. core_rtl_array_init \<lparr>vecs = Map.empty, blks = Map.empty\<rparr> 131070 0 100 = (m', p, True) \<and>
    core_rtl_array_get_free_index m' p 5 = Some (False, 5)"
  using core_rtl_array_new_looks_full [of 131070 100 "\<lparr>vecs = Map.empty, blks = Map.empty\<rparr>" 0 5] by auto

end
