(* ===== verification/SpinLock.thy ===== *)
theory SpinLock
  imports Prelude
begin

text \<open>
  The ticket spinlock of \<^verbatim>\<open>kernel/core/pm/lock/spinlock/spnlck.c\<close> on several CPUs. Every function is a
  small program with one step for each access to the lock; what only touches the CPU's own thread
  goes with the access before it. The CPUs take turns in any order.
\<close>

subsection \<open>Data\<close>

record spnlck =
  sl_ticket :: u16
  sl_owner :: u16
  sl_priority :: u32
  sl_cpu_index :: u32

abbreviation PRIORITY_HIGHEST :: u32 where "PRIORITY_HIGHEST \<equiv> 0xFF"
abbreviation ESUCCESS :: u32 where "ESUCCESS \<equiv> 0"
abbreviation EAGAIN :: u32 where "EAGAIN \<equiv> 11"

text \<open>
  Where a CPU is: outside, between two accesses of a function, inside the critical section, or \<open>Dead\<close>
  after \<^verbatim>\<open>RAISE(edeadlock_except())\<close>.
\<close>

datatype spin_pc =
    Out | Dead
  | Lock_xadd | Lock_wait | Lock_check | Lock_save | Lock_own | Inside
  | Raw_xadd | Raw_wait | Raw_check | Raw_own | Raw_inside
  | Try_load | Try_cas | Try_save | Try_own
  | Raw_try_load | Raw_try_cas | Raw_try_own
  | Unlock_load | Unlock_ticket | Unlock_xadd
  | Raw_unlock_xadd | Raw_unlock_ticket

text \<open>The locals of the functions, the priority of the running thread and the last status returned.\<close>

record spin_cpu =
  sc_pc :: spin_pc
  sc_ticket :: u16
  sc_priority :: u32
  sc_old_lock :: u32
  sc_seen :: u16
  sc_inc_val :: u16
  sc_thrd_priority :: u32
  sc_status :: u32

text \<open>The union: \<^verbatim>\<open>ticket\<close> is the low half of \<^verbatim>\<open>lock\<close> and \<^verbatim>\<open>owner\<close> the high half.\<close>

definition lock_word :: "spnlck \<Rightarrow> u32" where
  "lock_word l = push_bit 16 (ucast (sl_owner l)) OR ucast (sl_ticket l)"

definition set_lock_word :: "u32 \<Rightarrow> spnlck \<Rightarrow> spnlck" where
  "set_lock_word w l = l\<lparr>sl_ticket := ucast w, sl_owner := ucast (drop_bit 16 w)\<rparr>"

text \<open>\<^verbatim>\<open>(*((u16*)(&new_lock)))++\<close>\<close>

definition inc_low_half :: "u32 \<Rightarrow> u32" where
  "inc_low_half w = (w AND 0xFFFF0000) OR ucast (ucast w + 1 :: u16)"

definition core_pm_spnlck_init :: "spnlck \<Rightarrow> spnlck" where
  "core_pm_spnlck_init l = l\<lparr>sl_owner := 0, sl_ticket := 0, sl_priority := 0\<rparr>"

text \<open>Raising the priority of the running thread, and the \<^verbatim>\<open>int\<close> comparison after a release.\<close>

definition raise_priority :: "spin_cpu \<Rightarrow> spin_cpu" where
  "raise_priority t =
     t\<lparr>sc_priority := sc_thrd_priority t,
       sc_thrd_priority := (if sc_thrd_priority t < PRIORITY_HIGHEST then PRIORITY_HIGHEST else sc_thrd_priority t)\<rparr>"

definition released_twice :: "u16 \<Rightarrow> u16 \<Rightarrow> bool" where
  "released_twice ticket inc_val \<longleftrightarrow> uint ticket - (uint inc_val + 1) > uint ticket - uint inc_val"

subsection \<open>Taking the lock\<close>

definition core_pm_spnlck_lock :: "u32 \<Rightarrow> spnlck \<Rightarrow> spin_cpu \<Rightarrow> (spnlck \<times> spin_cpu) option" where
  "core_pm_spnlck_lock cpu l t =
     (case sc_pc t of
        Lock_xadd \<Rightarrow> Some (l\<lparr>sl_ticket := sl_ticket l + 1\<rparr>, raise_priority (t\<lparr>sc_ticket := sl_ticket l, sc_pc := Lock_wait\<rparr>))
      | Lock_wait \<Rightarrow> Some (l, t\<lparr>sc_pc := if sl_owner l \<noteq> sc_ticket t then Lock_check else Lock_save\<rparr>)
      | Lock_check \<Rightarrow> Some (l, t\<lparr>sc_pc := if sl_cpu_index l = cpu then Dead else Lock_wait\<rparr>)
      | Lock_save \<Rightarrow> Some (l\<lparr>sl_priority := sc_priority t\<rparr>, t\<lparr>sc_pc := Lock_own\<rparr>)
      | Lock_own \<Rightarrow> Some (l\<lparr>sl_cpu_index := cpu\<rparr>, t\<lparr>sc_pc := Inside\<rparr>)
      | _ \<Rightarrow> None)"

definition core_pm_spnlck_raw_lock :: "u32 \<Rightarrow> spnlck \<Rightarrow> spin_cpu \<Rightarrow> (spnlck \<times> spin_cpu) option" where
  "core_pm_spnlck_raw_lock cpu l t =
     (case sc_pc t of
        Raw_xadd \<Rightarrow> Some (l\<lparr>sl_ticket := sl_ticket l + 1\<rparr>, t\<lparr>sc_ticket := sl_ticket l, sc_pc := Raw_wait\<rparr>)
      | Raw_wait \<Rightarrow> Some (l, t\<lparr>sc_pc := if sl_owner l \<noteq> sc_ticket t then Raw_check else Raw_own\<rparr>)
      | Raw_check \<Rightarrow> Some (l, t\<lparr>sc_pc := if sl_cpu_index l = cpu then Dead else Raw_wait\<rparr>)
      | Raw_own \<Rightarrow> Some (l\<lparr>sl_cpu_index := cpu\<rparr>, t\<lparr>sc_pc := Raw_inside\<rparr>)
      | _ \<Rightarrow> None)"

definition core_pm_spnlck_trylock :: "u32 \<Rightarrow> spnlck \<Rightarrow> spin_cpu \<Rightarrow> (spnlck \<times> spin_cpu) option" where
  "core_pm_spnlck_trylock cpu l t =
     (case sc_pc t of
        Try_load \<Rightarrow> Some (l, (raise_priority t)\<lparr>sc_old_lock := lock_word l, sc_pc := Try_cas\<rparr>)
      | Try_cas \<Rightarrow>
          Some (if lock_word l = sc_old_lock t
                then (set_lock_word (inc_low_half (sc_old_lock t)) l, t\<lparr>sc_pc := Try_save\<rparr>)
                else (l, t\<lparr>sc_thrd_priority := sc_priority t, sc_status := EAGAIN, sc_pc := Out\<rparr>))
      | Try_save \<Rightarrow> Some (l\<lparr>sl_priority := sc_priority t\<rparr>, t\<lparr>sc_pc := Try_own\<rparr>)
      | Try_own \<Rightarrow> Some (l\<lparr>sl_cpu_index := cpu\<rparr>, t\<lparr>sc_status := ESUCCESS, sc_pc := Inside\<rparr>)
      | _ \<Rightarrow> None)"

definition core_pm_spnlck_raw_trylock :: "u32 \<Rightarrow> spnlck \<Rightarrow> spin_cpu \<Rightarrow> (spnlck \<times> spin_cpu) option" where
  "core_pm_spnlck_raw_trylock cpu l t =
     (case sc_pc t of
        Raw_try_load \<Rightarrow> Some (l, t\<lparr>sc_old_lock := lock_word l, sc_pc := Raw_try_cas\<rparr>)
      | Raw_try_cas \<Rightarrow>
          Some (if lock_word l = sc_old_lock t
                then (set_lock_word (inc_low_half (sc_old_lock t)) l, t\<lparr>sc_pc := Raw_try_own\<rparr>)
                else (l, t\<lparr>sc_status := EAGAIN, sc_pc := Out\<rparr>))
      | Raw_try_own \<Rightarrow> Some (l\<lparr>sl_cpu_index := cpu\<rparr>, t\<lparr>sc_status := ESUCCESS, sc_pc := Raw_inside\<rparr>)
      | _ \<Rightarrow> None)"

subsection \<open>Releasing the lock\<close>

definition core_pm_spnlck_unlock :: "spnlck \<Rightarrow> spin_cpu \<Rightarrow> (spnlck \<times> spin_cpu) option" where
  "core_pm_spnlck_unlock l t =
     (case sc_pc t of
        Unlock_load \<Rightarrow> Some (l, t\<lparr>sc_priority := sl_priority l, sc_pc := Unlock_ticket\<rparr>)
      | Unlock_ticket \<Rightarrow> Some (l, t\<lparr>sc_seen := sl_ticket l, sc_pc := Unlock_xadd\<rparr>)
      | Unlock_xadd \<Rightarrow>
          Some (l\<lparr>sl_owner := sl_owner l + 1\<rparr>,
                t\<lparr>sc_inc_val := sl_owner l, sc_thrd_priority := sc_priority t,
                  sc_pc := if released_twice (sc_seen t) (sl_owner l) then Dead else Out\<rparr>)
      | _ \<Rightarrow> None)"

definition core_pm_spnlck_raw_unlock :: "spnlck \<Rightarrow> spin_cpu \<Rightarrow> (spnlck \<times> spin_cpu) option" where
  "core_pm_spnlck_raw_unlock l t =
     (case sc_pc t of
        Raw_unlock_xadd \<Rightarrow>
          Some (l\<lparr>sl_owner := sl_owner l + 1\<rparr>, t\<lparr>sc_inc_val := sl_owner l, sc_pc := Raw_unlock_ticket\<rparr>)
      | Raw_unlock_ticket \<Rightarrow>
          Some (l, t\<lparr>sc_seen := sl_ticket l, sc_pc := if released_twice (sl_ticket l) (sc_inc_val t) then Dead else Out\<rparr>)
      | _ \<Rightarrow> None)"

subsection \<open>The CPUs together\<close>

text \<open>One access of the function a CPU is in.\<close>

fun or_else :: "'a option \<Rightarrow> 'a option \<Rightarrow> 'a option" where
  "or_else (Some r) y = Some r"
| "or_else None y = y"

definition spin_access :: "u32 \<Rightarrow> spnlck \<Rightarrow> spin_cpu \<Rightarrow> (spnlck \<times> spin_cpu) option" where
  "spin_access cpu l t =
     foldr or_else
       [core_pm_spnlck_lock cpu l t, core_pm_spnlck_raw_lock cpu l t, core_pm_spnlck_trylock cpu l t,
        core_pm_spnlck_raw_trylock cpu l t, core_pm_spnlck_unlock l t, core_pm_spnlck_raw_unlock l t] None"

datatype spin_call = Call_lock | Call_raw_lock | Call_trylock | Call_raw_trylock

fun spin_entry :: "spin_call \<Rightarrow> spin_pc" where
  "spin_entry Call_lock = Lock_xadd"
| "spin_entry Call_raw_lock = Raw_xadd"
| "spin_entry Call_trylock = Try_load"
| "spin_entry Call_raw_trylock = Raw_try_load"

record spin_sys =
  sy_lock :: spnlck
  sy_cpu :: "u32 \<Rightarrow> spin_cpu"

abbreviation cpu_pc :: "spin_sys \<Rightarrow> u32 \<Rightarrow> spin_pc" where "cpu_pc s c \<equiv> sc_pc (sy_cpu s c)"

definition jump :: "spin_sys \<Rightarrow> u32 \<Rightarrow> spin_pc \<Rightarrow> spin_sys" where
  "jump s c pc = s\<lparr>sy_cpu := (sy_cpu s)(c := (sy_cpu s c)\<lparr>sc_pc := pc\<rparr>)\<rparr>"

text \<open>
  \<open>spin_step CALLS c s s'\<close>: the CPU \<open>c\<close> calls one of \<open>CALLS\<close>, does its next access, or starts the release
  that belongs to how it got the lock.
\<close>

inductive spin_step :: "spin_call set \<Rightarrow> u32 \<Rightarrow> spin_sys \<Rightarrow> spin_sys \<Rightarrow> bool" for CALLS c where
  call: "cpu_pc s c = Out \<Longrightarrow> k \<in> CALLS \<Longrightarrow> spin_step CALLS c s (jump s c (spin_entry k))"
| access: "spin_access c (sy_lock s) (sy_cpu s c) = Some (l, t) \<Longrightarrow>
    spin_step CALLS c s \<lparr>sy_lock = l, sy_cpu = (sy_cpu s)(c := t)\<rparr>"
| leave: "cpu_pc s c = Inside \<Longrightarrow> spin_step CALLS c s (jump s c Unlock_load)"
| raw_leave: "cpu_pc s c = Raw_inside \<Longrightarrow> spin_step CALLS c s (jump s c Raw_unlock_xadd)"

inductive_cases spin_stepE: "spin_step CALLS c s s'"

text \<open>An initialised lock that no CPU uses, and what the \<open>CPUS\<close> can make of it.\<close>

definition spin_start :: "spin_sys \<Rightarrow> bool" where
  "spin_start s \<longleftrightarrow> (\<exists>l. sy_lock s = core_pm_spnlck_init l) \<and> (\<forall>c. cpu_pc s c = Out)"

inductive spin_reach :: "u32 set \<Rightarrow> spin_call set \<Rightarrow> spin_sys \<Rightarrow> bool" for CPUS CALLS where
  start: "spin_start s \<Longrightarrow> spin_reach CPUS CALLS s"
| step: "spin_reach CPUS CALLS s \<Longrightarrow> c \<in> CPUS \<Longrightarrow> spin_step CALLS c s s' \<Longrightarrow> spin_reach CPUS CALLS s'"

end
