(* ===== verification/SchedThread.thy ===== *)
theory SchedThread
  imports RtlList RtlArray HalMath SpinLock
begin

text \<open>
  Thread objects and the state of the scheduler: the methods of
  \<^verbatim>\<open>kernel/core/pm/thread/thread_obj.c\<close> that scheduling uses, on a store of threads, and the
  schedule lists of \<^verbatim>\<open>thread.c\<close>, whose nodes are inside the thread objects. The clock is a field of the
  state; an access to an address without a live object is \<open>None\<close>. Stacks, contexts and referenced
  objects are left out, a context is its address.
\<close>

subsection \<open>Data\<close>

abbreviation PRIORITY_DISPATCH :: u32 where "PRIORITY_DISPATCH \<equiv> 0x40"
abbreviation PRIORITY_IDLE_TASK :: u32 where "PRIORITY_IDLE_TASK \<equiv> 1"
abbreviation MAX_TIME_SLICE_NUM :: u32 where "MAX_TIME_SLICE_NUM \<equiv> 8"

abbreviation TASK_RUNNING :: u32 where "TASK_RUNNING \<equiv> 0"
abbreviation TASK_READY :: u32 where "TASK_READY \<equiv> 1"
abbreviation TASK_SUSPEND :: u32 where "TASK_SUSPEND \<equiv> 2"
abbreviation TASK_SLEEP :: u32 where "TASK_SLEEP \<equiv> 3"
abbreviation TASK_ZOMBIE :: u32 where "TASK_ZOMBIE \<equiv> 4"

text \<open>
  \<^verbatim>\<open>status_info\<close> is a union: \<^verbatim>\<open>runing.time_slices\<close> and \<^verbatim>\<open>runing.cpu_index\<close> are the low and the high half of
  \<^verbatim>\<open>sleep.sleep_begin_micro_sec\<close>. The two words are \<open>info_lo\<close> and \<open>info_hi\<close>.
\<close>

record thread_obj =
  thread_id :: u32
  status :: u32
  process_id :: u32
  priority :: u32
  p_context :: ptr
  info_lo :: u32
  info_hi :: u32
  awake_micro_sec :: u64
  p_ns :: ptr

abbreviation time_slices :: "thread_obj \<Rightarrow> u32" where "time_slices \<equiv> info_lo"

definition sleep_begin_micro_sec :: "thread_obj \<Rightarrow> u64" where
  "sleep_begin_micro_sec t = push_bit 32 (ucast (info_hi t)) OR ucast (info_lo t)"

definition set_sleep_begin :: "u64 \<Rightarrow> thread_obj \<Rightarrow> thread_obj" where
  "set_sleep_begin v t = t\<lparr>info_lo := ucast v, info_hi := ucast (drop_bit 32 v)\<rparr>"

record core_sched_info =
  enabled :: bool
  in_sched :: bool
  enable_sched :: bool
  ci_priority :: u32
  cpu_use_stat_h :: u64
  cpu_use_stat_l :: u64
  current_node :: ptr
  p_idle_thread :: ptr

text \<open>
  The state: the threads, the \<^verbatim>\<open>u64\<close> variables that sleeping threads point at, the nodes of the lists,
  \<^verbatim>\<open>sched_lists\<close>, \<^verbatim>\<open>cpu_infos\<close>, the time of \<^verbatim>\<open>core_kclock_get_micro_sec\<close> and the thread table.
\<close>

record sched =
  threads :: "ptr \<rightharpoonup> thread_obj"
  ns_vars :: "ptr \<rightharpoonup> u64"
  list_nodes :: nodes
  sched_lists :: "u32 \<Rightarrow> ptr"
  cpu_infos :: "u32 \<Rightarrow> core_sched_info"
  micro_sec :: u64
  table_mem :: array_mem
  thread_table :: rtl_array
  initialized :: bool

text \<open>\<^verbatim>\<open>&(p_thread_obj->node)\<close>: the object header has 24 bytes, nine words follow.\<close>

definition node_of :: "ptr \<Rightarrow> ptr" where
  "node_of p_thread_obj = p_thread_obj + 60"

definition upd_thread :: "(thread_obj \<Rightarrow> thread_obj) \<Rightarrow> sched \<Rightarrow> ptr \<Rightarrow> sched option" where
  "upd_thread u s p = map_option (\<lambda>ts. s\<lparr>threads := ts\<rparr>) (wr u (threads s) p)"

definition put_ns :: "u64 \<Rightarrow> sched \<Rightarrow> ptr \<Rightarrow> sched option" where
  "put_ns v s p = map_option (\<lambda>ns. s\<lparr>ns_vars := ns\<rparr>) (wr (\<lambda>_. v) (ns_vars s) p)"

definition upd_cpu :: "(core_sched_info \<Rightarrow> core_sched_info) \<Rightarrow> sched \<Rightarrow> u32 \<Rightarrow> sched" where
  "upd_cpu u s cpu = s\<lparr>cpu_infos := (cpu_infos s)(cpu := u (cpu_infos s cpu))\<rparr>"

subsection \<open>reset\_timeslice, can\_run, wakeup, set\_sleep\_time, resume\<close>

definition reset_timeslice :: "sched \<Rightarrow> ptr \<Rightarrow> sched option" where
  "reset_timeslice s p_this =
     do {
       t \<leftarrow> threads s p_this;
       if priority t < PRIORITY_DISPATCH \<and> (status t = TASK_READY \<or> status t = TASK_RUNNING) \<and> time_slices t = 0
       then upd_thread (info_lo_update (\<lambda>_. MAX_TIME_SLICE_NUM * priority t div PRIORITY_DISPATCH + 1)) s p_this
       else Some s }"

text \<open>Whether a thread that sleeps has slept enough, with the clock wrapping between or not.\<close>

definition sleep_over :: "u64 \<Rightarrow> thread_obj \<Rightarrow> bool" where
  "sleep_over now t \<longleftrightarrow>
     (if awake_micro_sec t > sleep_begin_micro_sec t
      then now \<ge> awake_micro_sec t \<or> now < sleep_begin_micro_sec t
      else now \<ge> awake_micro_sec t \<and> now < sleep_begin_micro_sec t)"

definition can_run :: "sched \<Rightarrow> ptr \<Rightarrow> (sched \<times> bool) option" where
  "can_run s p_this =
     do {
       t \<leftarrow> threads s p_this;
       if status t = TASK_RUNNING \<or> status t = TASK_READY
       then Some (s, priority t \<ge> PRIORITY_DISPATCH \<or> time_slices t > 0)
       else if status t = TASK_SLEEP
       then if sleep_over (micro_sec s) t
            then do {
              s \<leftarrow> put_ns 0 s (p_ns t);
              s \<leftarrow> upd_thread (status_update (\<lambda>_. TASK_READY)) s p_this;
              s \<leftarrow> upd_thread (info_lo_update (\<lambda>_. 0)) s p_this;
              s \<leftarrow> reset_timeslice s p_this;
              Some (s, True) }
            else Some (s, False)
       else Some (s, False) }"

definition wakeup :: "sched \<Rightarrow> ptr \<Rightarrow> sched option" where
  "wakeup s p_this =
     do {
       (s, ok) \<leftarrow> can_run s p_this;
       t \<leftarrow> threads s p_this;
       if \<not> ok \<and> status t = TASK_SLEEP
       then do {
         s \<leftarrow> put_ns ((awake_micro_sec t - micro_sec s) * 1000) s (p_ns t);
         s \<leftarrow> upd_thread (status_update (\<lambda>_. TASK_READY)) s p_this;
         s \<leftarrow> upd_thread (info_lo_update (\<lambda>_. 0)) s p_this;
         reset_timeslice s p_this }
       else Some s }"

definition set_sleep_time :: "sched \<Rightarrow> ptr \<Rightarrow> ptr \<Rightarrow> sched option" where
  "set_sleep_time s p_this ns =
     do {
       s \<leftarrow> upd_thread (p_ns_update (\<lambda>_. ns)) s p_this;
       s \<leftarrow> upd_thread (set_sleep_begin (micro_sec s)) s p_this;
       t \<leftarrow> threads s p_this;
       v \<leftarrow> ns_vars s ns;
       upd_thread (awake_micro_sec_update (\<lambda>_. sleep_begin_micro_sec t + hal_rtl_math_div64 v 1000)) s p_this }"

text \<open>The result has the context that \<^verbatim>\<open>hal_cpu_context_load\<close> continues with.\<close>

definition resume :: "sched \<Rightarrow> ptr \<Rightarrow> u32 \<Rightarrow> (sched \<times> ptr) option" where
  "resume s p_this cpu =
     do {
       t \<leftarrow> threads s p_this;
       s \<leftarrow> (if status t = TASK_READY then upd_thread (status_update (\<lambda>_. TASK_RUNNING)) s p_this else Some s);
       s \<leftarrow> (if priority t < PRIORITY_DISPATCH then upd_thread (info_lo_update (\<lambda>n. n - 1)) s p_this else Some s);
       s \<leftarrow> upd_thread (info_hi_update (\<lambda>_. cpu)) s p_this;
       Some (s, p_context t) }"

subsection \<open>The schedule lists\<close>

text \<open>\<^verbatim>\<open>sched_lists\<close> has \<^verbatim>\<open>PRIORITY_HIGHEST + 1\<close> entries.\<close>

definition get_list :: "sched \<Rightarrow> u32 \<Rightarrow> ptr option" where
  "get_list s pri = (if pri \<le> PRIORITY_HIGHEST then Some (sched_lists s pri) else None)"

definition put_list :: "sched \<Rightarrow> u32 \<Rightarrow> nodes \<Rightarrow> ptr \<Rightarrow> sched" where
  "put_list s pri ns lst = s\<lparr>list_nodes := ns, sched_lists := (sched_lists s)(pri := lst)\<rparr>"

definition remove_node_at :: "sched \<Rightarrow> u32 \<Rightarrow> ptr \<Rightarrow> sched option" where
  "remove_node_at s pri p_node =
     do { l \<leftarrow> get_list s pri; (ns, l, _) \<leftarrow> core_rtl_list_node_remove (list_nodes s) p_node l; Some (put_list s pri ns l) }"

definition insert_last_at :: "sched \<Rightarrow> u32 \<Rightarrow> ptr \<Rightarrow> sched option" where
  "insert_last_at s pri p_node =
     do { l \<leftarrow> get_list s pri; (ns, l, _) \<leftarrow> core_rtl_list_insert_node_after (list_nodes s) NULL l p_node; Some (put_list s pri ns l) }"

definition insert_first_at :: "sched \<Rightarrow> u32 \<Rightarrow> ptr \<Rightarrow> sched option" where
  "insert_first_at s pri p_node =
     do { l \<leftarrow> get_list s pri; (ns, l, _) \<leftarrow> core_rtl_list_insert_node_before (list_nodes s) NULL l p_node; Some (put_list s pri ns l) }"

end
