(* ===== verification/Sched.thy ===== *)
theory Sched
  imports SchedThread
begin

text \<open>
  The scheduler of \<^verbatim>\<open>kernel/core/pm/thread/thread.c\<close>: the choice of the next thread, the tick
  interrupt, suspending, resuming and sleeping, priorities. \<^verbatim>\<open>sched_lock\<close> and \<^verbatim>\<open>sched_list_lock\<close> are held around
  the choice, so a tick is one step of the state. A function returns the events it causes: the tick
  interrupt it raises, an inter-processor interrupt, an exception, and its calls on
  \<^verbatim>\<open>sched_list_lock\<close> where the code does not pair them.
\<close>

subsection \<open>Choosing from the lists\<close>

text \<open>The head of the first list that is not empty, from \<open>pri\<close> down to above \<open>low\<close>; it is taken out.\<close>

partial_function (option) pick_realtime :: "sched \<Rightarrow> u32 \<Rightarrow> u32 \<Rightarrow> (sched \<times> ptr) option" where
  "pick_realtime s pri low =
     (if pri > low
      then do {
        p_node \<leftarrow> get_list s pri;
        if p_node \<noteq> NULL then do { s \<leftarrow> remove_node_at s pri p_node; Some (s, p_node) }
        else pick_realtime s (pri - 1) low }
      else Some (s, NULL))"

text \<open>The traversal of one list: it turns until a thread can run, which is taken out.\<close>

partial_function (option) scan_list :: "sched \<Rightarrow> u32 \<Rightarrow> ptr \<Rightarrow> (sched \<times> ptr) option" where
  "scan_list s pri p_begin_node =
     do {
       p_node \<leftarrow> get_list s pri;
       p_thread_obj \<leftarrow> get_item (list_nodes s) p_node;
       (s, ok) \<leftarrow> can_run s p_thread_obj;
       if ok then do { s \<leftarrow> remove_node_at s pri p_node; Some (s, p_node) }
       else do {
         p_next \<leftarrow> get_next (list_nodes s) p_node;
         let s = s\<lparr>sched_lists := (sched_lists s)(pri := p_next)\<rparr>;
         if p_next \<noteq> p_begin_node then scan_list s pri p_begin_node else Some (s, NULL) } }"

partial_function (option) pick_normal :: "sched \<Rightarrow> u32 \<Rightarrow> u32 \<Rightarrow> (sched \<times> ptr) option" where
  "pick_normal s pri low =
     (if pri > low
      then do {
        p_begin_node \<leftarrow> get_list s pri;
        (s, p_node) \<leftarrow> (if p_begin_node \<noteq> NULL then scan_list s pri p_begin_node else Some (s, NULL));
        if p_node \<noteq> NULL then Some (s, p_node) else pick_normal s (pri - 1) low }
      else Some (s, NULL))"

text \<open>Lines 1093 to 1139: real-time lists from the top down to \<^verbatim>\<open>PRIORITY_DISPATCH\<close>, then the lists from there down to 2.\<close>

definition pick_any :: "sched \<Rightarrow> (sched \<times> ptr) option" where
  "pick_any s =
     do {
       (s, p_node) \<leftarrow> pick_realtime s PRIORITY_HIGHEST (PRIORITY_DISPATCH - 1);
       if p_node \<noteq> NULL then Some (s, p_node) else pick_normal s PRIORITY_DISPATCH PRIORITY_IDLE_TASK }"

subsection \<open>Time slices\<close>

partial_function (option) reset_list :: "sched \<Rightarrow> u32 \<Rightarrow> ptr \<Rightarrow> sched option" where
  "reset_list s pri p_node =
     do {
       p_thread_obj \<leftarrow> get_item (list_nodes s) p_node;
       s \<leftarrow> reset_timeslice s p_thread_obj;
       p_node \<leftarrow> get_next (list_nodes s) p_node;
       if sched_lists s pri \<noteq> p_node then reset_list s pri p_node else Some s }"

definition reset_if_any :: "sched \<Rightarrow> u32 \<Rightarrow> sched option" where
  "reset_if_any s pri =
     do { p_node \<leftarrow> get_list s pri; if p_node \<noteq> NULL then reset_list s pri p_node else Some s }"

partial_function (option) reset_from :: "sched \<Rightarrow> u32 \<Rightarrow> sched option" where
  "reset_from s pri =
     (if pri > PRIORITY_IDLE_TASK then do { s \<leftarrow> reset_if_any s pri; reset_from s (pri - 1) } else Some s)"

definition reset_timeslices :: "sched \<Rightarrow> sched option" where
  "reset_timeslices s = reset_from s (PRIORITY_DISPATCH - 1)"

definition reset_idle_timeslices :: "sched \<Rightarrow> sched option" where
  "reset_idle_timeslices s = reset_if_any s PRIORITY_IDLE_TASK"

subsection \<open>add\_use\_count, next\_task\<close>

definition add_use_count :: "sched \<Rightarrow> u32 \<Rightarrow> bool \<Rightarrow> sched" where
  "add_use_count s cpu is_busy =
     upd_cpu (\<lambda>p_info.
       let h = push_bit 1 (cpu_use_stat_h p_info);
           h = (if cpu_use_stat_l p_info AND 0x8000000000000000 \<noteq> 0 then h + 1 else h);
           l = push_bit 1 (cpu_use_stat_l p_info);
           l = (if is_busy then l + 1 else l)
       in p_info\<lparr>cpu_use_stat_h := h, cpu_use_stat_l := l\<rparr>) s cpu"

definition preempt_task :: "sched \<Rightarrow> u32 \<Rightarrow> ptr \<Rightarrow> sched option" where
  "preempt_task s cpu p_thread_obj =
     do {
       let p_info = cpu_infos s cpu;
       (s, p_node) \<leftarrow> pick_realtime s PRIORITY_HIGHEST (max (ci_priority p_info) (PRIORITY_DISPATCH - 1));
       (s, p_node) \<leftarrow>
         (if p_node = NULL then pick_normal s (PRIORITY_DISPATCH - 1) (max (ci_priority p_info) PRIORITY_IDLE_TASK)
          else Some (s, p_node));
       if p_node \<noteq> NULL
       then do {
         t \<leftarrow> threads s p_thread_obj;
         s \<leftarrow> insert_last_at s (priority t) (current_node p_info);
         Some (upd_cpu (current_node_update (\<lambda>_. p_node)) s cpu) }
       else Some s }"

text \<open>The tasks of priority 1 (lines 1145 to 1171), which are looked at whatever \<^verbatim>\<open>p_node\<close> is.\<close>

definition pick_idle_task :: "sched \<Rightarrow> ptr \<Rightarrow> (sched \<times> ptr) option" where
  "pick_idle_task s p_node =
     do {
       l \<leftarrow> get_list s PRIORITY_IDLE_TASK;
       if l = NULL then Some (s, p_node)
       else do {
         (s, q) \<leftarrow> scan_list s PRIORITY_IDLE_TASK l;
         let p_node = (if q \<noteq> NULL then q else p_node);
         if p_node = NULL
         then do {
           s \<leftarrow> reset_idle_timeslices s;
           l \<leftarrow> get_list s PRIORITY_IDLE_TASK;
           scan_list s PRIORITY_IDLE_TASK l }
         else Some (s, p_node) } }"

definition replace_task :: "sched \<Rightarrow> u32 \<Rightarrow> ptr \<Rightarrow> sched option" where
  "replace_task s cpu p_thread_obj =
     do {
       let p_old_node = current_node (cpu_infos s cpu);
       t \<leftarrow> threads s p_thread_obj;
       s \<leftarrow> (if status t = TASK_RUNNING \<or> status t = TASK_READY \<or> status t = TASK_SLEEP
             then insert_last_at s (priority t) p_old_node else Some s);
       (s, p_node) \<leftarrow> pick_any s;
       (s, p_node) \<leftarrow>
         (if p_node \<noteq> NULL then Some (s, p_node)
          else do { s \<leftarrow> reset_timeslices s; pick_any s });
       (s, p_node) \<leftarrow> pick_idle_task s p_node;
       let p_idle = node_of (p_idle_thread (cpu_infos s cpu));
       Some (upd_cpu (current_node_update (\<lambda>_. if p_node = NULL then p_idle else p_node)) s cpu) }"

definition next_task :: "sched \<Rightarrow> u32 \<Rightarrow> sched option" where
  "next_task s cpu =
     do {
       p_thread_obj \<leftarrow> get_item (list_nodes s) (current_node (cpu_infos s cpu));
       (s, ok) \<leftarrow> can_run s p_thread_obj;
       if ok
       then do {
         t \<leftarrow> threads s p_thread_obj;
         if priority t = PRIORITY_HIGHEST then Some (add_use_count s cpu True)
         else preempt_task s cpu p_thread_obj }
       else replace_task s cpu p_thread_obj }"

subsection \<open>switch\_task, on\_tick\<close>

definition current_thread :: "sched \<Rightarrow> u32 \<Rightarrow> ptr option" where
  "current_thread s cpu =
     (let p_info = cpu_infos s cpu
      in if current_node p_info = NULL then Some (p_idle_thread p_info)
         else get_item (list_nodes s) (current_node p_info))"

definition switch_task :: "sched \<Rightarrow> u32 \<Rightarrow> (sched \<times> ptr) option" where
  "switch_task s cpu =
     do {
       p_thread_obj \<leftarrow> current_thread s cpu;
       s \<leftarrow> (if current_node (cpu_infos s cpu) = NULL
             then do { s \<leftarrow> reset_timeslice s p_thread_obj; Some (add_use_count s cpu False) }
             else Some (add_use_count s cpu True));
       t \<leftarrow> threads s p_thread_obj;
       let s = upd_cpu (\<lambda>i. i\<lparr>ci_priority := priority t, in_sched := False\<rparr>) s cpu;
       resume s p_thread_obj cpu }"

text \<open>The result has the context that the CPU goes on with.\<close>

definition on_tick :: "sched \<Rightarrow> u32 \<Rightarrow> ptr \<Rightarrow> (sched \<times> ptr) option" where
  "on_tick s cpu ctx =
     (let p_info = cpu_infos s cpu
      in if in_sched p_info then Some (s, ctx)
      else if \<not> enable_sched p_info then Some (upd_cpu (in_sched_update (\<lambda>_. False)) s cpu, ctx)
      else do {
        let s = upd_cpu (in_sched_update (\<lambda>_. True)) s cpu;
        keep \<leftarrow>
          (if \<not> enabled p_info \<or> ci_priority p_info = PRIORITY_HIGHEST
           then do {
             p \<leftarrow> get_item (list_nodes s) (current_node p_info);
             t \<leftarrow> threads s p;
             Some (status t = TASK_READY \<or> status t = TASK_RUNNING) }
           else Some False);
        if keep then Some (upd_cpu (in_sched_update (\<lambda>_. False)) s cpu, ctx)
        else do {
          p_thread_obj \<leftarrow> current_thread s cpu;
          s \<leftarrow> upd_thread (p_context_update (\<lambda>_. ctx)) s p_thread_obj;
          t \<leftarrow> threads s p_thread_obj;
          s \<leftarrow> (if status t = TASK_RUNNING then upd_thread (status_update (\<lambda>_. TASK_READY)) s p_thread_obj else Some s);
          s \<leftarrow> next_task s cpu;
          switch_task s cpu } })"

end
