(* ===== verification/SchedOps.thy ===== *)
theory SchedOps
  imports Sched
begin

text \<open>
  The operations of \<^verbatim>\<open>kernel/core/pm/thread/thread.c\<close> on threads: suspend, resume, sleep, schedule,
  the scheduling flag and priorities. \<^verbatim>\<open>thread_table_lock\<close> is held around every access to the table and the
  reference count of a thread around its use; both are left out. An operation returns the events it causes in
  order.
\<close>

abbreviation EINVAL :: u32 where "EINVAL \<equiv> 22"

datatype sched_event = Tick | Ipi_preempt | Raise u32 | List_lock | List_unlock

subsection \<open>core\_pm\_disable\_sched, core\_pm\_enable\_sched, the current thread\<close>

definition core_pm_disable_sched :: "sched \<Rightarrow> u32 \<Rightarrow> sched" where
  "core_pm_disable_sched s cpu = (if \<not> initialized s then s else upd_cpu (enable_sched_update (\<lambda>_. False)) s cpu)"

definition core_pm_enable_sched :: "sched \<Rightarrow> u32 \<Rightarrow> sched" where
  "core_pm_enable_sched s cpu = (if \<not> initialized s then s else upd_cpu (enable_sched_update (\<lambda>_. True)) s cpu)"

definition core_pm_get_currnt_thread_id :: "sched \<Rightarrow> u32 \<Rightarrow> u32 option" where
  "core_pm_get_currnt_thread_id s cpu =
     (if \<not> initialized s then Some 0
      else do { p_thread_obj \<leftarrow> current_thread s cpu; rd thread_id (threads s) p_thread_obj })"

definition core_pm_get_currnt_proc_id :: "sched \<Rightarrow> u32 \<Rightarrow> u32 option" where
  "core_pm_get_currnt_proc_id s cpu =
     (if \<not> initialized s then Some 0
      else do { p_thread_obj \<leftarrow> current_thread s cpu; rd process_id (threads s) p_thread_obj })"

subsection \<open>core\_pm\_suspend, core\_pm\_resume, core\_pm\_sleep, core\_pm\_schedule\<close>

definition core_pm_suspend :: "sched \<Rightarrow> u32 \<Rightarrow> u32 \<Rightarrow> (sched \<times> sched_event list) option" where
  "core_pm_suspend s cpu tid =
     do {
       currnt_thread \<leftarrow> core_pm_get_currnt_thread_id s cpu;
       let if_enable_sched = enable_sched (cpu_infos s cpu);
       let s = (if currnt_thread = tid then core_pm_disable_sched s cpu else s);
       p_thread_obj \<leftarrow> core_rtl_array_get (table_mem s) (thread_table s) tid;
       if p_thread_obj = NULL
       then Some (if currnt_thread = tid then core_pm_enable_sched s cpu else s, [Raise EINVAL])
       else do {
         t \<leftarrow> threads s p_thread_obj;
         if status t = TASK_ZOMBIE
         then Some (if currnt_thread = tid then core_pm_enable_sched s cpu else s, [Raise EINVAL])
         else do {
           s \<leftarrow> upd_thread (status_update (\<lambda>_. TASK_SUSPEND)) s p_thread_obj;
           Some (if currnt_thread = tid \<and> if_enable_sched then core_pm_enable_sched s cpu else s,
                 [if tid \<noteq> currnt_thread then Ipi_preempt else Tick]) } } }"

text \<open>A sleeping thread is woken and moved to the front of its list, a suspended one is put there.\<close>

definition resume_sleeping :: "sched \<Rightarrow> ptr \<Rightarrow> sched option" where
  "resume_sleeping s p_thread_obj =
     do {
       s \<leftarrow> wakeup s p_thread_obj;
       t \<leftarrow> threads s p_thread_obj;
       l \<leftarrow> get_list s (priority t);
       if l \<noteq> node_of p_thread_obj
       then do {
         s \<leftarrow> remove_node_at s (priority t) (node_of p_thread_obj);
         insert_first_at s (priority t) (node_of p_thread_obj) }
       else Some s }"

definition resume_suspended :: "sched \<Rightarrow> ptr \<Rightarrow> sched option" where
  "resume_suspended s p_thread_obj =
     do {
       s \<leftarrow> upd_thread (status_update (\<lambda>_. TASK_READY)) s p_thread_obj;
       s \<leftarrow> upd_thread (info_lo_update (\<lambda>_. 0)) s p_thread_obj;
       s \<leftarrow> reset_timeslice s p_thread_obj;
       t \<leftarrow> threads s p_thread_obj;
       insert_first_at s (priority t) (node_of p_thread_obj) }"

definition core_pm_resume :: "sched \<Rightarrow> u32 \<Rightarrow> (sched \<times> sched_event list) option" where
  "core_pm_resume s tid =
     do {
       p_thread_obj \<leftarrow> core_rtl_array_get (table_mem s) (thread_table s) tid;
       if p_thread_obj = NULL then Some (s, [Raise EINVAL])
       else do {
         t \<leftarrow> threads s p_thread_obj;
         if status t = TASK_ZOMBIE then Some (s, [Raise EINVAL])
         else if status t = TASK_SLEEP
         then do {
           s \<leftarrow> resume_sleeping s p_thread_obj;
           Some (s, [List_lock, List_unlock, List_unlock, Ipi_preempt]) }
         else if status t = TASK_SUSPEND
         then do {
           s \<leftarrow> resume_suspended s p_thread_obj;
           Some (s, [List_lock, List_unlock, Ipi_preempt]) }
         else Some (s, [List_unlock, Ipi_preempt]) } }"

definition core_pm_sleep :: "sched \<Rightarrow> u32 \<Rightarrow> ptr \<Rightarrow> (sched \<times> sched_event list) option" where
  "core_pm_sleep s cpu ns =
     do {
       p_thread_obj \<leftarrow> current_thread s cpu;
       let if_enable_sched = enable_sched (cpu_infos s cpu);
       let s = (if if_enable_sched then core_pm_disable_sched s cpu else s);
       s \<leftarrow> upd_thread (status_update (\<lambda>_. TASK_SLEEP)) s p_thread_obj;
       s \<leftarrow> set_sleep_time s p_thread_obj ns;
       Some (if if_enable_sched then core_pm_enable_sched s cpu else s, [Tick]) }"

definition core_pm_schedule :: "sched \<Rightarrow> u32 \<Rightarrow> (sched \<times> sched_event list) option" where
  "core_pm_schedule s cpu =
     do {
       s \<leftarrow>
         (if ci_priority (cpu_infos s cpu) < PRIORITY_DISPATCH
          then do {
            p_thread_obj \<leftarrow> current_thread s cpu;
            t \<leftarrow> threads s p_thread_obj;
            if status t = TASK_READY \<or> status t = TASK_RUNNING
            then upd_thread (info_lo_update (\<lambda>_. 0)) s p_thread_obj else Some s }
          else Some s);
       Some (s, [Tick]) }"

subsection \<open>Priorities\<close>

definition core_pm_get_currnt_thrd_priority :: "sched \<Rightarrow> u32 \<Rightarrow> u32 \<Rightarrow> u32 option" where
  "core_pm_get_currnt_thrd_priority s tmp_priority cpu =
     (if \<not> initialized s then Some tmp_priority
      else do { p_thread_obj \<leftarrow> current_thread s cpu; rd priority (threads s) p_thread_obj })"

definition core_pm_set_currnt_thrd_priority ::
    "sched \<Rightarrow> u32 \<Rightarrow> u32 \<Rightarrow> u32 \<Rightarrow> (sched \<times> u32 \<times> sched_event list) option" where
  "core_pm_set_currnt_thrd_priority s tmp_priority cpu pri =
     (if \<not> initialized s then Some (s, pri, [])
      else do {
        p_thread_obj \<leftarrow> current_thread s cpu;
        s \<leftarrow> upd_thread (priority_update (\<lambda>_. pri)) s p_thread_obj;
        Some (upd_cpu (ci_priority_update (\<lambda>_. pri)) s cpu, tmp_priority, [Tick]) })"

definition core_pm_get_thrd_priority :: "sched \<Rightarrow> u32 \<Rightarrow> u32 \<Rightarrow> u32 \<Rightarrow> (u32 \<times> sched_event list) option" where
  "core_pm_get_thrd_priority s tmp_priority cpu thrd_id =
     do {
       currnt_thread \<leftarrow> core_pm_get_currnt_thread_id s cpu;
       if thrd_id = currnt_thread
       then do { pri \<leftarrow> core_pm_get_currnt_thrd_priority s tmp_priority cpu; Some (pri, []) }
       else do {
         p_thread_obj \<leftarrow> core_rtl_array_get (table_mem s) (thread_table s) thrd_id;
         if p_thread_obj = NULL then Some (0, [Raise EINVAL])
         else do { pri \<leftarrow> rd priority (threads s) p_thread_obj; Some (pri, []) } } }"

text \<open>\<^verbatim>\<open>cpu_infos->priority\<close> is the one of CPU 0; \<open>cpus\<close> are the indexes below \<^verbatim>\<open>MAX_CPU_NUM\<close>.\<close>

fun update_cpu_priority :: "sched \<Rightarrow> u32 list \<Rightarrow> ptr \<Rightarrow> u32 \<Rightarrow> sched option" where
  "update_cpu_priority s [] p_thread_obj pri = Some s"
| "update_cpu_priority s (i # cpus) p_thread_obj pri =
     do {
       s \<leftarrow>
         (if enabled (cpu_infos s i)
          then do {
            p \<leftarrow> get_item (list_nodes s) (current_node (cpu_infos s i));
            Some (if p = p_thread_obj then upd_cpu (ci_priority_update (\<lambda>_. pri)) s 0 else s) }
          else Some s);
       update_cpu_priority s cpus p_thread_obj pri }"

definition core_pm_set_thrd_priority ::
    "sched \<Rightarrow> u32 list \<Rightarrow> u32 \<Rightarrow> u32 \<Rightarrow> u32 \<Rightarrow> u32 \<Rightarrow> (sched \<times> u32 \<times> sched_event list) option" where
  "core_pm_set_thrd_priority s cpus tmp_priority cpu thrd_id pri =
     do {
       currnt_thread \<leftarrow> core_pm_get_currnt_thread_id s cpu;
       if thrd_id = currnt_thread then core_pm_set_currnt_thrd_priority s tmp_priority cpu pri
       else do {
         p_thread_obj \<leftarrow> core_rtl_array_get (table_mem s) (thread_table s) thrd_id;
         if p_thread_obj = NULL then Some (s, tmp_priority, [Raise EINVAL])
         else do {
           t \<leftarrow> threads s p_thread_obj;
           s \<leftarrow>
             (if status t = TASK_RUNNING then update_cpu_priority s cpus p_thread_obj pri
              else if status t = TASK_READY \<or> status t = TASK_SLEEP
              then do {
                s \<leftarrow> remove_node_at s (priority t) (node_of p_thread_obj);
                insert_first_at s pri (node_of p_thread_obj) }
              else Some s);
           Some (s, tmp_priority, [List_lock, List_unlock]) } } }"

end
