(* ===== verification/SchedModel.thy ===== *)
theory SchedModel
  imports SchedOps RtlListProofs
begin

text \<open>
  The scheduler without pointers: a queue of threads for every priority, the threads as a function, the
  current thread. \<open>sched_q\<close> ties such a state to the stores, and every step of \<open>Sched\<close> is related to
  one of these functions.
\<close>

subsection \<open>Threads\<close>

definition runnable :: "u64 \<Rightarrow> thread_obj \<Rightarrow> bool" where
  "runnable now t \<longleftrightarrow>
     (if status t = TASK_RUNNING \<or> status t = TASK_READY then priority t \<ge> PRIORITY_DISPATCH \<or> time_slices t > 0
      else status t = TASK_SLEEP \<and> sleep_over now t)"

definition refreshed :: "thread_obj \<Rightarrow> thread_obj" where
  "refreshed t =
     (if priority t < PRIORITY_DISPATCH \<and> (status t = TASK_READY \<or> status t = TASK_RUNNING) \<and> time_slices t = 0
      then t\<lparr>info_lo := MAX_TIME_SLICE_NUM * priority t div PRIORITY_DISPATCH + 1\<rparr> else t)"

definition woken :: "u64 \<Rightarrow> thread_obj \<Rightarrow> thread_obj" where
  "woken now t =
     (if status t = TASK_SLEEP \<and> sleep_over now t then refreshed (t\<lparr>status := TASK_READY, info_lo := 0\<rparr>) else t)"

lemma refreshed_sel [simp]: "priority (refreshed t) = priority t" "status (refreshed t) = status t" "p_ns (refreshed t) = p_ns t"
  by (simp_all add: refreshed_def)

lemma woken_sel [simp]: "priority (woken now t) = priority t" "p_ns (woken now t) = p_ns t"
  "status (woken now t) = TASK_SLEEP \<longleftrightarrow> status t = TASK_SLEEP \<and> \<not> sleep_over now t"
  by (auto simp: woken_def)

lemma not_runnable_woken: "\<not> runnable now t \<Longrightarrow> woken now t = t"
  by (auto simp: runnable_def woken_def split: if_splits)

subsection \<open>Queues\<close>

type_synonym queues = "nat \<Rightarrow> ptr list"
type_synonym tasks = "ptr \<Rightarrow> thread_obj"

text \<open>The first thread of a queue that fits, with the queue turned behind it and the thread taken out.\<close>

definition first_fit :: "(ptr \<Rightarrow> bool) \<Rightarrow> ptr list \<Rightarrow> (ptr \<times> ptr list) option" where
  "first_fit P xs = (case dropWhile (\<lambda>p. \<not> P p) xs of [] \<Rightarrow> None | p # ys \<Rightarrow> Some (p, ys @ takeWhile (\<lambda>p. \<not> P p) xs))"

fun choose_task :: "(ptr \<Rightarrow> bool) \<Rightarrow> queues \<Rightarrow> nat list \<Rightarrow> (ptr \<times> queues) option" where
  "choose_task P q [] = None"
| "choose_task P q (pri # pris) =
     (case first_fit P (q pri) of None \<Rightarrow> choose_task P q pris | Some (p, xs) \<Rightarrow> Some (p, q(pri := xs)))"

text \<open>The priorities from \<open>hi\<close> down to above \<open>lo\<close>.\<close>

definition down :: "nat \<Rightarrow> nat \<Rightarrow> nat list" where
  "down hi lo = rev [Suc lo..<Suc hi]"

lemma down_rec: "down hi lo = (if lo < hi then hi # down (hi - 1) lo else [])"
  by (cases hi) (auto simp: down_def)

lemma set_down [simp]: "set (down hi lo) = {lo<..hi}"
  by (auto simp: down_def)

text \<open>A thread that is alone in its queue already stays there.\<close>

definition enqueue :: "queues \<Rightarrow> nat \<Rightarrow> ptr \<Rightarrow> queues" where
  "enqueue q pri p = (if q pri = [p] then q else q(pri := q pri @ [p]))"

lemma first_fit_None: "first_fit P xs = None \<longleftrightarrow> (\<forall>x \<in> set xs. \<not> P x)"
  by (auto simp: first_fit_def dropWhile_eq_Nil_conv split: list.splits) (metis dropWhile_eq_Nil_conv list.distinct(1))+

lemma first_fit_Some:
  assumes "first_fit P xs = Some (p, ys)"
  obtains us vs where "xs = us @ p # vs" "ys = vs @ us" "P p" "\<forall>u \<in> set us. \<not> P u"
proof -
  let ?us = "takeWhile (\<lambda>p. \<not> P p) xs"
  obtain vs where d: "dropWhile (\<lambda>p. \<not> P p) xs = p # vs" "ys = vs @ ?us"
    using assms by (auto simp: first_fit_def split: list.splits)
  have "xs = ?us @ p # vs" using takeWhile_dropWhile_id [of "\<lambda>p. \<not> P p" xs] d(1) by simp
  moreover have "P p" using d(1) by (metis hd_dropWhile list.distinct(1) list.sel(1))
  moreover have "\<forall>u \<in> set ?us. \<not> P u" using set_takeWhileD by metis
  ultimately show ?thesis using d(2) that by blast
qed

subsection \<open>The stores of the scheduler\<close>

definition sched_q :: "sched \<Rightarrow> queues \<Rightarrow> tasks \<Rightarrow> bool" where
  "sched_q s q T \<longleftrightarrow>
     (\<forall>pri < 256. ring (list_nodes s) (sched_lists s (of_nat pri)) (map node_of (q pri)) \<and> set (q pri) \<subseteq> dom (threads s)) \<and>
     (\<forall>i < 256. \<forall>j < 256. i \<noteq> j \<longrightarrow> set (q i) \<inter> set (q j) = {}) \<and>
     (\<forall>p \<in> dom (threads s). threads s p = Some (T p) \<and> node_of p \<in> dom (list_nodes s) \<and> node_of p \<noteq> NULL \<and>
       it (list_nodes s) (node_of p) = p \<and> (status (T p) = TASK_SLEEP \<longrightarrow> p_ns (T p) \<in> dom (ns_vars s)))"

definition same_rest :: "sched \<Rightarrow> sched \<Rightarrow> bool" where
  "same_rest s s' \<longleftrightarrow> cpu_infos s' = cpu_infos s \<and> micro_sec s' = micro_sec s \<and> dom (threads s') = dom (threads s) \<and>
     table_mem s' = table_mem s \<and> thread_table s' = thread_table s \<and> initialized s' = initialized s"

lemma same_rest_refl [simp]: "same_rest s s"
  by (simp add: same_rest_def)

lemma same_rest_trans [trans]: "same_rest s s' \<Longrightarrow> same_rest s' s'' \<Longrightarrow> same_rest s s''"
  by (simp add: same_rest_def)

lemma node_of_eq [simp]: "node_of p = node_of p' \<longleftrightarrow> p = p'"
  by (simp add: node_of_def)

lemma node_of_image [simp]: "node_of p \<in> node_of ` A \<longleftrightarrow> p \<in> A"
  by auto

lemma sched_qD:
  assumes "sched_q s q T"
  shows "pri < 256 \<Longrightarrow> ring (list_nodes s) (sched_lists s (of_nat pri)) (map node_of (q pri))"
    "pri < 256 \<Longrightarrow> p \<in> set (q pri) \<Longrightarrow> p \<in> dom (threads s)"
    "i < 256 \<Longrightarrow> j < 256 \<Longrightarrow> i \<noteq> j \<Longrightarrow> set (q i) \<inter> set (q j) = {}"
    "p \<in> dom (threads s) \<Longrightarrow> threads s p = Some (T p)" "p \<in> dom (threads s) \<Longrightarrow> node_of p \<in> dom (list_nodes s)"
    "p \<in> dom (threads s) \<Longrightarrow> node_of p \<noteq> NULL" "p \<in> dom (threads s) \<Longrightarrow> it (list_nodes s) (node_of p) = p"
    "p \<in> dom (threads s) \<Longrightarrow> status (T p) = TASK_SLEEP \<Longrightarrow> p_ns (T p) \<in> dom (ns_vars s)"
  using assms unfolding sched_q_def by blast+

lemma get_item_node: "sched_q s q T \<Longrightarrow> p \<in> dom (threads s) \<Longrightarrow> get_item (list_nodes s) (node_of p) = Some p"
  using sched_qD(5,7) [of s q T p] by (auto simp: get_item_def)

lemma unat_of_nat_256: "pri < 256 \<Longrightarrow> unat (of_nat pri :: u32) = pri"
  by (simp add: unat_of_nat)

lemma get_list_head:
  assumes "sched_q s q T" "pri < 256"
  shows "get_list s (of_nat pri) = Some (case q pri of [] \<Rightarrow> NULL | p # _ \<Rightarrow> node_of p)"
proof -
  have "(of_nat pri :: u32) \<le> PRIORITY_HIGHEST" using assms(2) by (simp add: word_le_nat_alt unat_of_nat)
  then show ?thesis using sched_qD(1) [OF assms] by (simp add: get_list_def ring_def split: list.splits)
qed

text \<open>One thread is changed.\<close>

lemma sched_q_thread:
  assumes "sched_q s q T" "p \<in> dom (threads s)" "dom N = dom (ns_vars s)" "status t = TASK_SLEEP \<Longrightarrow> p_ns t \<in> dom N"
  shows "sched_q (s\<lparr>threads := (threads s)(p \<mapsto> t), ns_vars := N\<rparr>) q (T(p := t))"
    "same_rest s (s\<lparr>threads := (threads s)(p \<mapsto> t), ns_vars := N\<rparr>)"
  using assms unfolding sched_q_def same_rest_def by auto

lemma upd_thread_eq: "threads s p = Some t \<Longrightarrow> upd_thread u s p = Some (s\<lparr>threads := (threads s)(p \<mapsto> u t)\<rparr>)"
  by (simp add: upd_thread_def wr_def)

lemma reset_timeslice_eq:
  "threads s p = Some t \<Longrightarrow> reset_timeslice s p = Some (s\<lparr>threads := (threads s)(p \<mapsto> refreshed t)\<rparr>)"
  by (auto simp: reset_timeslice_def refreshed_def upd_thread_eq fun_upd_idem)

lemma can_run_eq:
  assumes "threads s p = Some t" "status t = TASK_SLEEP \<Longrightarrow> p_ns t \<in> dom (ns_vars s)"
  shows "\<exists>N. can_run s p = Some (s\<lparr>threads := (threads s)(p \<mapsto> woken (micro_sec s) t), ns_vars := N\<rparr>, runnable (micro_sec s) t) \<and>
    dom N = dom (ns_vars s)"
proof (cases "status t = TASK_SLEEP \<and> sleep_over (micro_sec s) t")
  case True
  then obtain v where "ns_vars s (p_ns t) = Some v" using assms(2) by blast
  then show ?thesis using True assms(1)
    by (intro exI [of _ "(ns_vars s)(p_ns t \<mapsto> 0)"])
      (auto simp: can_run_def put_ns_def wr_def upd_thread_eq reset_timeslice_eq runnable_def woken_def insert_absorb domI)
next
  case False
  then show ?thesis using assms(1)
    by (intro exI [of _ "ns_vars s"]) (auto simp: can_run_def runnable_def woken_def fun_upd_idem)
qed

lemma can_run_q:
  assumes "sched_q s q T" "p \<in> dom (threads s)"
  shows "\<exists>s'. can_run s p = Some (s', runnable (micro_sec s) (T p)) \<and> sched_q s' q (T(p := woken (micro_sec s) (T p))) \<and>
    same_rest s s' \<and> list_nodes s' = list_nodes s \<and> sched_lists s' = sched_lists s"
proof -
  note d = sched_qD [OF assms(1)]
  obtain N where N: "can_run s p = Some (s\<lparr>threads := (threads s)(p \<mapsto> woken (micro_sec s) (T p)), ns_vars := N\<rparr>, runnable (micro_sec s) (T p))"
    "dom N = dom (ns_vars s)" using can_run_eq [OF d(4) d(8)] assms(2) by blast
  show ?thesis using sched_q_thread [OF assms N(2), of "woken (micro_sec s) (T p)"] d(8) assms(2) N by auto
qed

subsection \<open>The list operations on queues\<close>

text \<open>The operations on nodes keep the items and the live nodes.\<close>

definition keeps_items :: "nodes \<Rightarrow> nodes \<Rightarrow> bool" where
  "keeps_items ns ns' \<longleftrightarrow> dom ns' = dom ns \<and> (\<forall>p. it ns' p = it ns p)"

lemma set_keeps_items:
  "set_prev ns p v = Some ns' \<Longrightarrow> keeps_items ns ns'" "set_next ns p v = Some ns' \<Longrightarrow> keeps_items ns ns'"
  by (auto simp: keeps_items_def set_prev_def set_next_def dom_def split: if_splits)

lemma keeps_items_refl [simp]: "keeps_items a a"
  by (simp add: keeps_items_def)

lemma keeps_items_trans: "keeps_items a b \<Longrightarrow> keeps_items b c \<Longrightarrow> keeps_items a c"
  by (simp add: keeps_items_def)

lemma node_ops_keep_items:
  "core_rtl_list_node_remove ns pos lst = Some (ns', lst', x) \<Longrightarrow> keeps_items ns ns'"
  "core_rtl_list_insert_node_after ns pos lst new = Some (ns', lst', x) \<Longrightarrow> keeps_items ns ns'"
  "core_rtl_list_insert_node_before ns pos lst new = Some (ns', lst', x) \<Longrightarrow> keeps_items ns ns'"
  by (auto simp: core_rtl_list_node_remove_def core_rtl_list_insert_node_after_def core_rtl_list_insert_node_before_def
      Let_def split: if_splits Option.bind_splits dest!: set_keeps_items intro: keeps_items_trans)

lemma put_list_q:
  assumes q: "sched_q s q T" "pri < 256" and r: "ring ns l (map node_of xs)" and k: "keeps_items (list_nodes s) ns"
    and other: "\<And>p. p \<notin> node_of ` (set (q pri) \<union> set xs) \<Longrightarrow> ns p = list_nodes s p"
    and xs: "set xs \<subseteq> dom (threads s)" "\<And>j. j < 256 \<Longrightarrow> j \<noteq> pri \<Longrightarrow> set xs \<inter> set (q j) = {}"
  shows "sched_q (put_list s (of_nat pri) ns l) (q(pri := xs)) T" "same_rest s (put_list s (of_nat pri) ns l)"
proof -
  note d = sched_qD [OF q(1)]
  have ne: "(of_nat j :: u32) \<noteq> of_nat pri" if "j < 256" "j \<noteq> pri" for j
    using that q(2) unat_of_nat_256 by metis
  have "ring ns (sched_lists s (of_nat j)) (map node_of (q j))" if j: "j < 256" "j \<noteq> pri" for j
  proof -
    have "set (q j) \<inter> (set (q pri) \<union> set xs) = {}" using d(3) [OF j(1) q(2) j(2)] xs(2) [OF j] by blast
    then have "ns (node_of p) = list_nodes s (node_of p)" if "p \<in> set (q j)" for p using that other [of "node_of p"] by auto
    then have "ns p = list_nodes s p" if "p \<in> set (map node_of (q j))" for p using that by auto
    then show ?thesis using ring_frame [OF d(1) [OF j(1)], of ns] by blast
  qed
  moreover have "((sched_lists s)(of_nat pri := l)) (of_nat j) = (if j = pri then l else sched_lists s (of_nat j))" if "j < 256" for j
    using ne [OF that] by simp
  moreover have "set (q j) \<subseteq> dom (threads s)" if "j < 256" for j using d(2) [OF that] by blast
  ultimately have rings: "\<forall>j < 256. ring ns (((sched_lists s)(of_nat pri := l)) (of_nat j)) (map node_of ((q(pri := xs)) j)) \<and>
      set ((q(pri := xs)) j) \<subseteq> dom (threads s)"
    using r xs(1) by simp
  moreover have "\<forall>i < 256. \<forall>j < 256. i \<noteq> j \<longrightarrow> set ((q(pri := xs)) i) \<inter> set ((q(pri := xs)) j) = {}"
    using d(3) xs(2) by (simp add: Int_commute)
  ultimately show "sched_q (put_list s (of_nat pri) ns l) (q(pri := xs)) T"
    using q(1) k unfolding sched_q_def put_list_def keeps_items_def by simp
  show "same_rest s (put_list s (of_nat pri) ns l)" by (simp add: put_list_def same_rest_def)
qed

lemma remove_q:
  assumes q: "sched_q s q T" "pri < 256" and x: "q pri = us @ p # vs"
  shows "\<exists>s'. remove_node_at s (of_nat pri) (node_of p) = Some s' \<and> sched_q s' (q(pri := us @ vs)) T \<and> same_rest s s'"
proof -
  have r: "ring (list_nodes s) (sched_lists s (of_nat pri)) (map node_of us @ node_of p # map node_of vs)"
    using sched_qD(1) [OF q] x by simp
  obtain ns l where ns: "core_rtl_list_node_remove (list_nodes s) (node_of p) (sched_lists s (of_nat pri)) = Some (ns, l, it (list_nodes s) (node_of p))"
    "taken_out (list_nodes s) (map node_of us) (node_of p) (map node_of vs) ns l" using node_remove_ring [OF r] by blast
  have l: "get_list s (of_nat pri) = Some (sched_lists s (of_nat pri))"
    using q(2) by (simp add: get_list_def word_le_nat_alt unat_of_nat_256)
  have "ring ns l (map node_of (us @ vs))" "\<And>a. a \<notin> node_of ` (set (q pri) \<union> set (us @ vs)) \<Longrightarrow> ns a = list_nodes s a"
    using ns(2) x by (auto simp: taken_out_def)
  moreover have "set (us @ vs) \<subseteq> dom (threads s)" using sched_qD(2) [OF q] x by auto
  moreover have "set (us @ vs) \<inter> set (q j) = {}" if "j < 256" "j \<noteq> pri" for j
    using sched_qD(3) [OF q(1) that(1) q(2) that(2)] x by auto
  ultimately show ?thesis using put_list_q [OF q, of ns l "us @ vs"] node_ops_keep_items(1) [OF ns(1)] ns(1) l
    by (simp add: remove_node_at_def)
qed

definition fresh_for :: "queues \<Rightarrow> nat \<Rightarrow> ptr \<Rightarrow> bool" where
  "fresh_for q pri p \<longleftrightarrow> (\<forall>i < 256. p \<in> set (q i) \<longrightarrow> i = pri \<and> q i = [p])"

lemma ring_single_again:
  assumes "ring ns l [x]"
  shows "core_rtl_list_insert_node_after ns NULL l x = Some (ns, l, x)"
proof -
  obtain n where n: "ns x = Some n" "p_prev n = x" "p_next n = x" "l = x" "x \<noteq> NULL"
    using assms by (auto simp: ring_def cyc_def linked_def)
  then have "n\<lparr>p_prev := x\<rparr> = n" "n\<lparr>p_next := x\<rparr> = n" by (auto intro: list_node.equality)
  then show ?thesis using n
    by (simp add: core_rtl_list_insert_node_after_def get_prev_def set_prev_def set_next_def get_next_def fun_upd_idem)
qed

lemma insert_last_q:
  assumes q: "sched_q s q T" "pri < 256" and p: "p \<in> dom (threads s)" "fresh_for q pri p"
  shows "\<exists>s'. insert_last_at s (of_nat pri) (node_of p) = Some s' \<and> sched_q s' (enqueue q pri p) T \<and> same_rest s s'"
proof -
  note r = sched_qD(1) [OF q]
  have l: "get_list s (of_nat pri) = Some (sched_lists s (of_nat pri))"
    using q(2) by (simp add: get_list_def word_le_nat_alt unat_of_nat_256)
  show ?thesis
  proof (cases "q pri = [p]")
    case True
    then have "insert_last_at s (of_nat pri) (node_of p) = Some s"
      using ring_single_again [of "list_nodes s" "sched_lists s (of_nat pri)" "node_of p"] r l
      by (simp add: insert_last_at_def put_list_def)
    then show ?thesis using True q by (simp add: enqueue_def)
  next
    case False
    then have new: "p \<notin> set (q i)" if "i < 256" for i using p(2) that by (auto simp: fresh_for_def)
    have "ring (list_nodes s) (sched_lists s (of_nat pri)) (map node_of (q pri) @ [])" using r by simp
    from insert_node_after_ring [OF this, of NULL "node_of p"]
    obtain ns l' where ns: "core_rtl_list_insert_node_after (list_nodes s) NULL (sched_lists s (of_nat pri)) (node_of p) = Some (ns, l', node_of p)"
      "inserted (list_nodes s) (map node_of (q pri)) (node_of p) (it (list_nodes s) (node_of p)) [] ns l'"
      using sched_qD(5,6) [OF q(1) p(1)] new [OF q(2)] by auto
    have "ring ns l' (map node_of (q pri @ [p]))" "\<And>a. a \<notin> node_of ` (set (q pri) \<union> set (q pri @ [p])) \<Longrightarrow> ns a = list_nodes s a"
      using ns(2) by (auto simp: inserted_def)
    moreover have "set (q pri @ [p]) \<subseteq> dom (threads s)" using sched_qD(2) [OF q] p(1) by auto
    moreover have "set (q pri @ [p]) \<inter> set (q j) = {}" if "j < 256" "j \<noteq> pri" for j
      using sched_qD(3) [OF q(1) that(1) q(2) that(2)] new [OF that(1)] by auto
    ultimately show ?thesis using put_list_q [OF q, of ns l' "q pri @ [p]"] node_ops_keep_items(2) [OF ns(1)] ns(1) l False
      by (simp add: insert_last_at_def enqueue_def)
  qed
qed

lemma insert_first_q:
  assumes q: "sched_q s q T" "pri < 256" and p: "p \<in> dom (threads s)" "\<And>i. i < 256 \<Longrightarrow> p \<notin> set (q i)"
  shows "\<exists>s'. insert_first_at s (of_nat pri) (node_of p) = Some s' \<and> sched_q s' (q(pri := p # q pri)) T \<and> same_rest s s'"
proof -
  have l: "get_list s (of_nat pri) = Some (sched_lists s (of_nat pri))"
    using q(2) by (simp add: get_list_def word_le_nat_alt unat_of_nat_256)
  have r: "ring (list_nodes s) (sched_lists s (of_nat pri)) ([] @ map node_of (q pri))" using sched_qD(1) [OF q] by simp
  have pos: "core_rtl_list_insert_node_before (list_nodes s) NULL (sched_lists s (of_nat pri)) (node_of p) =
      core_rtl_list_insert_node_before (list_nodes s) (sched_lists s (of_nat pri)) (sched_lists s (of_nat pri)) (node_of p)"
    by (simp add: core_rtl_list_insert_node_before_def)
  have "sched_lists s (of_nat pri) = NULL \<and> ([] :: ptr list) = [] \<or> map node_of (q pri) \<noteq> [] \<and> sched_lists s (of_nat pri) = hd (map node_of (q pri))"
    using r by (auto simp: ring_def split: list.splits)
  from insert_node_before_ring [OF r this, of "node_of p"]
  obtain ns l' where ns: "core_rtl_list_insert_node_before (list_nodes s) NULL (sched_lists s (of_nat pri)) (node_of p) = Some (ns, l', node_of p)"
    "inserted (list_nodes s) [] (node_of p) (it (list_nodes s) (node_of p)) (map node_of (q pri)) ns l'"
    unfolding pos using sched_qD(5,6) [OF q(1) p(1)] p(2) [OF q(2)] by auto
  have "ring ns l' (map node_of (p # q pri))" "\<And>a. a \<notin> node_of ` (set (q pri) \<union> set (p # q pri)) \<Longrightarrow> ns a = list_nodes s a"
    using ns(2) by (auto simp: inserted_def)
  moreover have "set (p # q pri) \<subseteq> dom (threads s)" using sched_qD(2) [OF q] p(1) by auto
  moreover have "set (p # q pri) \<inter> set (q j) = {}" if "j < 256" "j \<noteq> pri" for j
    using sched_qD(3) [OF q(1) that(1) q(2) that(2)] p(2) [OF that(1)] by auto
  ultimately show ?thesis using put_list_q [OF q, of ns l' "p # q pri"] node_ops_keep_items(3) [OF ns(1)] ns(1) l
    by (simp add: insert_first_at_def)
qed

end
