(* ===== verification/SchedRefine.thy ===== *)
theory SchedRefine
  imports SchedModel "HOL-Library.Multiset"
begin

text \<open>
  The choice of the next thread, as a function on queues, and that \<open>next_task\<close> computes it.
\<close>

subsection \<open>The loops\<close>

text \<open>
  \<open>picked w s q T c s' r\<close>: the choice \<open>c\<close> has been made in the stores; \<open>r\<close> is the node taken out, whose
  thread has been changed by \<open>w\<close>.
\<close>

definition picked :: "(thread_obj \<Rightarrow> thread_obj) \<Rightarrow> sched \<Rightarrow> queues \<Rightarrow> tasks \<Rightarrow> (ptr \<times> queues) option \<Rightarrow> sched \<Rightarrow> ptr \<Rightarrow> bool" where
  "picked w s q T c s' r \<longleftrightarrow> same_rest s s' \<and>
     (case c of
        None \<Rightarrow> r = NULL \<and> sched_q s' q T
      | Some (p, q') \<Rightarrow> r = node_of p \<and> r \<noteq> NULL \<and> p \<in> dom (threads s) \<and> sched_q s' q' (T(p := w (T p))))"

lemma pickedI:
  "same_rest s s' \<Longrightarrow> sched_q s' q T \<Longrightarrow> picked w s q T None s' NULL"
  "same_rest s s' \<Longrightarrow> p \<in> dom (threads s) \<Longrightarrow> node_of p \<noteq> NULL \<Longrightarrow> sched_q s' q' (T(p := w (T p))) \<Longrightarrow>
    picked w s q T (Some (p, q')) s' (node_of p)"
  by (simp_all add: picked_def)

lemma picked_from: "same_rest s s1 \<Longrightarrow> picked w s1 q T c s' r \<Longrightarrow> picked w s q T c s' r"
  by (auto simp: picked_def same_rest_def split: option.splits)

lemma word_less_nat: "i < 256 \<Longrightarrow> j < 256 \<Longrightarrow> (of_nat i :: u32) < of_nat j \<longleftrightarrow> i < j"
  by (simp add: word_less_nat_alt unat_of_nat_256)

lemma word_pred: "0 < i \<Longrightarrow> (of_nat i :: u32) - 1 = of_nat (i - 1)"
  by (cases i) simp_all

lemma get_list_NULL:
  assumes "sched_q s q T" "pri < 256"
  obtains "q pri = []" "get_list s (of_nat pri) = Some NULL"
  | p xs where "q pri = p # xs" "get_list s (of_nat pri) = Some (node_of p)" "node_of p \<noteq> NULL" "p \<in> dom (threads s)"
  using get_list_head [OF assms] sched_qD(2,6) [OF assms(1)] assms(2) that by (cases "q pri") auto

lemma pick_realtime_q:
  assumes q: "sched_q s q T" and hi: "hi < 256" and lo: "lo < 256"
  shows "\<exists>s' r. pick_realtime s (of_nat hi) (of_nat lo) = Some (s', r) \<and> picked (\<lambda>t. t) s q T (choose_task (\<lambda>_. True) q (down hi lo)) s' r"
  using hi
proof (induction hi)
  case 0
  then show ?case using q lo word_less_nat [of lo 0]
    by (subst pick_realtime.simps) (simp add: down_rec picked_def)
next
  case (Suc h)
  show ?case
  proof (cases "lo < Suc h")
    case False
    then show ?thesis using q lo Suc.prems word_less_nat [of lo "Suc h"]
      by (subst pick_realtime.simps) (simp add: down_rec [of "Suc h"] picked_def del: of_nat_Suc)
  next
    case True
    then have lt: "(of_nat lo :: u32) < of_nat (Suc h)" using lo Suc.prems word_less_nat by blast
    from q Suc.prems show ?thesis
    proof (cases rule: get_list_NULL)
      case 1
      have "pick_realtime s (of_nat (Suc h)) (of_nat lo) = pick_realtime s (of_nat h) (of_nat lo)"
        using lt 1(2) word_pred [of "Suc h"] by (subst pick_realtime.simps) (simp del: of_nat_Suc)
      moreover have "choose_task (\<lambda>_. True) q (down (Suc h) lo) = choose_task (\<lambda>_. True) q (down h lo)"
        using True 1(1) by (simp add: down_rec [of "Suc h"] first_fit_def)
      ultimately show ?thesis using Suc by simp
    next
      case (2 p xs)
      obtain s' where s': "remove_node_at s (of_nat (Suc h)) (node_of p) = Some s'" "sched_q s' (q(Suc h := xs)) T" "same_rest s s'"
        using remove_q [OF q Suc.prems, of "[]" p xs] 2(1) by auto
      have "pick_realtime s (of_nat (Suc h)) (of_nat lo) = Some (s', node_of p)"
        using lt 2 s'(1) by (subst pick_realtime.simps) (simp del: of_nat_Suc)
      moreover have "choose_task (\<lambda>_. True) q (down (Suc h) lo) = Some (p, q(Suc h := xs))"
        using True 2(1) by (simp add: down_rec [of "Suc h"] first_fit_def)
      ultimately show ?thesis using s' 2 by (auto simp: picked_def)
    qed
  qed
qed

text \<open>Turning a list by one.\<close>

lemma rotate_q:
  assumes q: "sched_q s q T" "pri < 256" and x: "q pri = v # xs"
  shows "get_next (list_nodes s) (node_of v) = Some (node_of (hd (xs @ [v])))"
    "sched_q (s\<lparr>sched_lists := (sched_lists s)(of_nat pri := node_of (hd (xs @ [v])))\<rparr>) (q(pri := xs @ [v])) T"
    "same_rest s (s\<lparr>sched_lists := (sched_lists s)(of_nat pri := node_of (hd (xs @ [v])))\<rparr>)"
proof -
  have r: "cyc (list_nodes s) (map node_of (v # xs))" using sched_qD(1) [OF q] x by (simp add: ring_def)
  have "node_of v \<in> dom (list_nodes s)" "nx (list_nodes s) (node_of v) = node_of (hd (xs @ [v]))"
    using r by (cases xs; auto simp: cyc_def linked_def)+
  then show "get_next (list_nodes s) (node_of v) = Some (node_of (hd (xs @ [v])))" by (auto simp: get_next_def)
  have "cyc (list_nodes s) (map node_of (xs @ [v]))" using cyc_rotate [of "list_nodes s" "[node_of v]" "map node_of xs"] r by simp
  then have "ring (list_nodes s) (node_of (hd (xs @ [v]))) (map node_of (xs @ [v]))" by (cases xs) (auto simp: ring_def)
  moreover have "set (xs @ [v]) \<subseteq> dom (threads s)" using sched_qD(2) [OF q] x by auto
  moreover have "set (xs @ [v]) \<inter> set (q j) = {}" if "j < 256" "j \<noteq> pri" for j
    using sched_qD(3) [OF q(1) that(1) q(2) that(2)] x by auto
  ultimately show "sched_q (s\<lparr>sched_lists := (sched_lists s)(of_nat pri := node_of (hd (xs @ [v])))\<rparr>) (q(pri := xs @ [v])) T"
    "same_rest s (s\<lparr>sched_lists := (sched_lists s)(of_nat pri := node_of (hd (xs @ [v])))\<rparr>)"
    using put_list_q [OF q, unfolded put_list_def, of "list_nodes s" "node_of (hd (xs @ [v]))" "xs @ [v]"]
    by (simp_all add: same_rest_def)
qed

lemma queue_distinct: "sched_q s q T \<Longrightarrow> pri < 256 \<Longrightarrow> distinct (q pri)"
  using sched_qD(1) [of s q T pri] by (auto simp: ring_def cyc_def distinct_map)

text \<open>The traversal has passed \<open>us\<close>, whose threads cannot run.\<close>

lemma scan_list_q:
  assumes "sched_q s (q(pri := v # vs @ us)) T" "pri < 256" "\<forall>u \<in> set us. \<not> runnable (micro_sec s) (T u)"
  shows "\<exists>s' r. scan_list s (of_nat pri) (node_of (hd (us @ [v]))) = Some (s', r) \<and>
    picked (woken (micro_sec s)) s (q(pri := us @ v # vs)) T
      (map_option (\<lambda>(p, xs). (p, q(pri := xs))) (first_fit (\<lambda>p. runnable (micro_sec s) (T p)) (us @ v # vs))) s' r"
  using assms
proof (induction vs arbitrary: s v us)
  case (Nil s v us)
  note q = Nil.prems(1,2)
  let ?now = "micro_sec s"
  have v: "v \<in> dom (threads s)" using sched_qD(2) [OF q] by simp
  have l: "get_list s (of_nat pri) = Some (node_of v)" using get_list_head [OF q] by simp
  obtain s1 where s1: "can_run s v = Some (s1, runnable ?now (T v))" "sched_q s1 (q(pri := v # us)) (T(v := woken ?now (T v)))"
    "same_rest s s1" "list_nodes s1 = list_nodes s" "sched_lists s1 = sched_lists s"
    using can_run_q [OF q(1) v] by (simp only: append_Nil) blast
  have skip: "first_fit (\<lambda>p. runnable ?now (T p)) (us @ ys) = (if runnable ?now (T y) then Some (y, tl ys @ us) else None)" if "ys = [y]" for y ys
    using that Nil.prems(3) by (auto simp: first_fit_def dropWhile_append takeWhile_append)
  show ?case
  proof (cases "runnable ?now (T v)")
    case True
    have "(q(pri := v # us)) pri = [] @ v # us" by simp
    from remove_q [OF s1(2) q(2) this] obtain s' where s': "remove_node_at s1 (of_nat pri) (node_of v) = Some s'"
      "sched_q s' (q(pri := us)) (T(v := woken ?now (T v)))" "same_rest s1 s'" by (simp only: append_Nil fun_upd_upd) blast
    have "scan_list s (of_nat pri) (node_of (hd (us @ [v]))) = Some (s', node_of v)"
      using l get_item_node [OF q(1) v] s1(1) True s'(1) by (subst scan_list.simps) simp
    moreover have "first_fit (\<lambda>p. runnable ?now (T p)) (us @ [v]) = Some (v, us)" using skip [of "[v]" v] True by simp
    moreover have "picked (woken ?now) s (q(pri := us @ [v])) T (Some (v, q(pri := us))) s' (node_of v)"
      using same_rest_trans [OF s1(3) s'(3)] v sched_qD(6) [OF q(1) v] s'(2) by (rule pickedI)
    ultimately show ?thesis by (simp only: option.map prod.case) blast
  next
    case False
    then have T: "T(v := woken ?now (T v)) = T" by (simp add: not_runnable_woken)
    note rot = rotate_q [OF s1(2) q(2), of v us, unfolded T s1(4,5)]
    have b: "node_of (hd (us @ [v])) = node_of (hd (us @ [v]))" ..
    have "scan_list s (of_nat pri) (node_of (hd (us @ [v]))) =
        Some (s1\<lparr>sched_lists := (sched_lists s)(of_nat pri := node_of (hd (us @ [v])))\<rparr>, NULL)"
      using l get_item_node [OF q(1) v] s1 False rot(1) by (subst scan_list.simps) simp
    moreover have "first_fit (\<lambda>p. runnable ?now (T p)) (us @ [v]) = None" using skip [of "[v]" v] False by simp
    moreover have "picked (woken ?now) s (q(pri := us @ [v])) T None (s1\<lparr>sched_lists := (sched_lists s)(of_nat pri := node_of (hd (us @ [v])))\<rparr>) NULL"
      using same_rest_trans [OF s1(3) rot(3)] rot(2) by (intro pickedI) simp_all
    ultimately show ?thesis by (simp only: option.map) blast
  qed
next
  case (Cons w vs s v us)
  note q = Cons.prems(1,2)
  let ?now = "micro_sec s"
  have v: "v \<in> dom (threads s)" using sched_qD(2) [OF q] by simp
  have l: "get_list s (of_nat pri) = Some (node_of v)" using get_list_head [OF q] by simp
  obtain s1 where s1: "can_run s v = Some (s1, runnable ?now (T v))" "sched_q s1 (q(pri := v # (w # vs) @ us)) (T(v := woken ?now (T v)))"
    "same_rest s s1" "list_nodes s1 = list_nodes s" "sched_lists s1 = sched_lists s"
    using can_run_q [OF q(1) v] by blast
  show ?case
  proof (cases "runnable ?now (T v)")
    case True
    have "(q(pri := v # (w # vs) @ us)) pri = [] @ v # (w # vs) @ us" by simp
    from remove_q [OF s1(2) q(2) this] obtain s' where s': "remove_node_at s1 (of_nat pri) (node_of v) = Some s'"
      "sched_q s' (q(pri := w # vs @ us)) (T(v := woken ?now (T v)))" "same_rest s1 s'" by (simp only: append.simps fun_upd_upd) blast
    have "scan_list s (of_nat pri) (node_of (hd (us @ [v]))) = Some (s', node_of v)"
      using l get_item_node [OF q(1) v] s1(1) True s'(1) by (subst scan_list.simps) simp
    moreover have "first_fit (\<lambda>p. runnable ?now (T p)) (us @ v # w # vs) = Some (v, w # vs @ us)"
      using Cons.prems(3) True by (simp add: first_fit_def dropWhile_append takeWhile_append)
    moreover have "picked (woken ?now) s (q(pri := us @ v # w # vs)) T (Some (v, q(pri := w # vs @ us))) s' (node_of v)"
      using same_rest_trans [OF s1(3) s'(3)] v sched_qD(6) [OF q(1) v] s'(2) by (rule pickedI)
    ultimately show ?thesis by (simp only: option.map prod.case) blast
  next
    case False
    then have T: "T(v := woken ?now (T v)) = T" by (simp add: not_runnable_woken)
    have "(q(pri := v # (w # vs) @ us)) pri = v # ((w # vs) @ us)" by simp
    note rot = rotate_q [OF s1(2) q(2) this, unfolded T s1(4,5)]
    let ?s2 = "s1\<lparr>sched_lists := (sched_lists s)(of_nat pri := node_of w)\<rparr>"
    have s2: "sched_q ?s2 (q(pri := w # vs @ us @ [v])) T" "same_rest s1 ?s2" using rot(2,3) by (simp_all only: append.simps append_assoc list.sel fun_upd_upd)
    have "distinct (v # (w # vs) @ us)" using queue_distinct [OF q] by simp
    then have "w \<noteq> hd (us @ [v])" by (cases us) auto
    then have step: "scan_list s (of_nat pri) (node_of (hd (us @ [v]))) = scan_list ?s2 (of_nat pri) (node_of (hd (us @ [v])))"
      using l get_item_node [OF q(1) v] s1 False rot(1) by (subst scan_list.simps) simp
    have now: "micro_sec ?s2 = ?now" using s1(3) by (simp add: same_rest_def)
    have hd: "hd (us @ [v, w]) = hd (us @ [v])" by (cases us) auto
    have "\<forall>u \<in> set (us @ [v]). \<not> runnable (micro_sec ?s2) (T u)" unfolding now using Cons.prems(3) False by simp
    note ih = Cons.IH [of ?s2 w "us @ [v]", OF s2(1) q(2) this, unfolded now append_assoc append_Cons append_Nil hd]
    have "picked (woken ?now) ?s2 (q(pri := us @ v # w # vs)) T c s' r \<Longrightarrow> picked (woken ?now) s (q(pri := us @ v # w # vs)) T c s' r" for c s' r
      by (rule picked_from [OF same_rest_trans [OF s1(3) s2(2)]])
    then show ?thesis unfolding step using ih by metis
  qed
qed

lemma scan_whole_q:
  assumes q: "sched_q s q T" "pri < 256" and x: "q pri = v # vs"
  shows "\<exists>s' r. scan_list s (of_nat pri) (node_of v) = Some (s', r) \<and>
    picked (woken (micro_sec s)) s q T (map_option (\<lambda>(p, xs). (p, q(pri := xs))) (first_fit (\<lambda>p. runnable (micro_sec s) (T p)) (q pri))) s' r"
proof -
  have "q(pri := v # vs @ []) = q" using x by (simp add: fun_upd_idem)
  then show ?thesis using scan_list_q [of s q pri v vs "[]" T] q x by (simp only: append_Nil append_Nil2 list.sel) (simp add: x)
qed

lemma same_now: "same_rest s s' \<Longrightarrow> micro_sec s' = micro_sec s"
  by (simp add: same_rest_def)

lemma pick_normal_q:
  assumes q: "sched_q s q T" and hi: "hi < 256" and lo: "lo < 256"
  shows "\<exists>s' r. pick_normal s (of_nat hi) (of_nat lo) = Some (s', r) \<and>
    picked (woken (micro_sec s)) s q T (choose_task (\<lambda>p. runnable (micro_sec s) (T p)) q (down hi lo)) s' r"
  using q hi
proof (induction hi arbitrary: s)
  case 0
  then show ?case using lo word_less_nat [of lo 0]
    by (subst pick_normal.simps) (simp add: down_rec picked_def)
next
  case (Suc h)
  let ?P = "\<lambda>p. runnable (micro_sec s) (T p)"
  show ?case
  proof (cases "lo < Suc h")
    case False
    then show ?thesis using lo Suc.prems word_less_nat [of lo "Suc h"]
      by (subst pick_normal.simps) (simp add: down_rec [of "Suc h"] picked_def del: of_nat_Suc)
  next
    case True
    then have lt: "(of_nat lo :: u32) < of_nat (Suc h)" using lo Suc.prems word_less_nat by blast
    have down: "down (Suc h) lo = Suc h # down h lo" using True by (simp add: down_rec [of "Suc h"])
    from Suc.prems show ?thesis
    proof (cases rule: get_list_NULL)
      case 1
      have "pick_normal s (of_nat (Suc h)) (of_nat lo) = pick_normal s (of_nat h) (of_nat lo)"
        using lt 1(2) word_pred [of "Suc h"] by (subst pick_normal.simps) (simp del: of_nat_Suc)
      moreover have "choose_task ?P q (down (Suc h) lo) = choose_task ?P q (down h lo)"
        using down 1(1) by (simp add: first_fit_def)
      ultimately show ?thesis using Suc by simp
    next
      case (2 v vs)
      obtain s1 r where s1: "scan_list s (of_nat (Suc h)) (node_of v) = Some (s1, r)"
        "picked (woken (micro_sec s)) s q T (map_option (\<lambda>(p, xs). (p, q(Suc h := xs))) (first_fit ?P (q (Suc h)))) s1 r"
        using scan_whole_q [OF Suc.prems 2(1)] by blast
      show ?thesis
      proof (cases "first_fit ?P (q (Suc h))")
        case None
        then have s1': "r = NULL" "sched_q s1 q T" "same_rest s s1" using s1(2) by (simp_all add: picked_def)
        have "pick_normal s (of_nat (Suc h)) (of_nat lo) = pick_normal s1 (of_nat h) (of_nat lo)"
          using lt 2 s1(1) s1'(1) word_pred [of "Suc h"] by (subst pick_normal.simps) (simp del: of_nat_Suc)
        moreover have "choose_task ?P q (down (Suc h) lo) = choose_task ?P q (down h lo)" using down None by simp
        ultimately show ?thesis using Suc.IH [OF s1'(2)] Suc.prems(2) picked_from [OF s1'(3)] same_now [OF s1'(3)]
          by (metis Suc_lessD)
      next
        case (Some pxs)
        then obtain p xs where f: "first_fit ?P (q (Suc h)) = Some (p, xs)" by (cases pxs) auto
        have k: "picked (woken (micro_sec s)) s q T (Some (p, q(Suc h := xs))) s1 r" using s1(2) unfolding f by (simp only: option.map prod.case)
        then have "r \<noteq> NULL" unfolding picked_def option.case prod.case by blast
        then have "pick_normal s (of_nat (Suc h)) (of_nat lo) = Some (s1, r)"
          using lt 2 s1(1) by (subst pick_normal.simps) (simp del: of_nat_Suc)
        moreover have "choose_task ?P q (down (Suc h) lo) = Some (p, q(Suc h := xs))" unfolding down choose_task.simps f by simp
        ultimately show ?thesis using k by (intro exI [of _ s1] exI [of _ r]) (simp only:)
      qed
    qed
  qed
qed

subsection \<open>Time slices\<close>

text \<open>The threads of some queues get new slices.\<close>

definition refresh_queues :: "queues \<Rightarrow> nat set \<Rightarrow> tasks \<Rightarrow> tasks" where
  "refresh_queues q I T = (\<lambda>p. if \<exists>i \<in> I. p \<in> set (q i) then refreshed (T p) else T p)"

lemma reset_timeslice_q:
  assumes "sched_q s q T" "p \<in> dom (threads s)"
  shows "\<exists>s'. reset_timeslice s p = Some s' \<and> sched_q s' q (T(p := refreshed (T p))) \<and> same_rest s s' \<and>
    list_nodes s' = list_nodes s \<and> sched_lists s' = sched_lists s"
  using sched_q_thread [OF assms refl, of "refreshed (T p)"] sched_qD(4,8) [OF assms(1,2)]
  by (auto simp: reset_timeslice_eq)

lemma reset_list_q:
  assumes "sched_q s q (\<lambda>p. if p \<in> set us then refreshed (T p) else T p)" "pri < 256" "q pri = us @ v # vs"
  shows "\<exists>s'. reset_list s (of_nat pri) (node_of v) = Some s' \<and> sched_q s' q (refresh_queues q {pri} T) \<and> same_rest s s'"
  using assms
proof (induction vs arbitrary: s us v)
  case (Nil s us v)
  let ?T = "\<lambda>p. if p \<in> set us then refreshed (T p) else T p"
  have v: "v \<in> dom (threads s)" "v \<notin> set us" using sched_qD(2) [OF Nil(1,2)] queue_distinct [OF Nil(1,2)] Nil(3) by auto
  obtain s1 where s1: "reset_timeslice s v = Some s1" "sched_q s1 q (?T(v := refreshed (?T v)))" "same_rest s s1"
    "list_nodes s1 = list_nodes s" "sched_lists s1 = sched_lists s" using reset_timeslice_q [OF Nil(1) v(1)] by blast
  have "ring (list_nodes s) (sched_lists s (of_nat pri)) (map node_of us @ [node_of v])" using sched_qD(1) [OF Nil(1,2)] Nil(3) by simp
  then have "get_next (list_nodes s) (node_of v) = Some (sched_lists s (of_nat pri))"
    by (cases us) (auto simp: ring_def cyc_def linked_def get_next_def)
  then have "reset_list s (of_nat pri) (node_of v) = Some s1"
    using get_item_node [OF Nil(1) v(1)] s1 by (subst reset_list.simps) simp
  moreover have "?T(v := refreshed (?T v)) = refresh_queues q {pri} T" using Nil(3) v(2) by (auto simp: refresh_queues_def)
  ultimately show ?case using s1 by simp
next
  case (Cons w vs s us v)
  let ?T = "\<lambda>p. if p \<in> set us then refreshed (T p) else T p"
  have v: "v \<in> dom (threads s)" "v \<notin> set us" "w \<notin> set us" "w \<noteq> v"
    using sched_qD(2) [OF Cons.prems(1,2)] queue_distinct [OF Cons.prems(1,2)] Cons.prems(3) by auto
  obtain s1 where s1: "reset_timeslice s v = Some s1" "sched_q s1 q (?T(v := refreshed (?T v)))" "same_rest s s1"
    "list_nodes s1 = list_nodes s" "sched_lists s1 = sched_lists s" using reset_timeslice_q [OF Cons.prems(1) v(1)] by blast
  have r: "ring (list_nodes s) (sched_lists s (of_nat pri)) (map node_of us @ node_of v # node_of w # map node_of vs)"
    using sched_qD(1) [OF Cons.prems(1,2)] Cons.prems(3) by simp
  then have n: "get_next (list_nodes s) (node_of v) = Some (node_of w)"
    by (auto simp: ring_def cyc_def linked_def get_next_def successively_append_iff)
  have "sched_lists s (of_nat pri) \<noteq> node_of w"
    using r v by (cases us) (auto simp: ring_def)
  then have step: "reset_list s (of_nat pri) (node_of v) = reset_list s1 (of_nat pri) (node_of w)"
    using get_item_node [OF Cons.prems(1) v(1)] s1 n by (subst reset_list.simps) simp
  have "?T(v := refreshed (?T v)) = (\<lambda>p. if p \<in> set (us @ [v]) then refreshed (T p) else T p)" using v(2) by auto
  then show ?case using Cons.IH [of s1 "us @ [v]" w] s1 Cons.prems(2,3) same_rest_trans [OF s1(3)] unfolding step by auto
qed

lemma refresh_queues_empty: "q i = [] \<Longrightarrow> refresh_queues q {i} T = T"
  by (simp add: refresh_queues_def)

lemma reset_if_any_q:
  assumes q: "sched_q s q T" "pri < 256"
  shows "\<exists>s'. reset_if_any s (of_nat pri) = Some s' \<and> sched_q s' q (refresh_queues q {pri} T) \<and> same_rest s s'"
  using q
proof (cases rule: get_list_NULL)
  case 1
  then show ?thesis using q by (simp add: reset_if_any_def refresh_queues_empty)
next
  case (2 p xs)
  then show ?thesis using reset_list_q [of s q "[]" T pri p xs] q by (simp add: reset_if_any_def)
qed

lemma refreshed_twice [simp]: "refreshed (refreshed t) = refreshed t"
  by (simp add: refreshed_def)

lemma reset_from_q:
  assumes "sched_q s q T" "hi < 256"
  shows "\<exists>s'. reset_from s (of_nat hi) = Some s' \<and> sched_q s' q (refresh_queues q {1<..hi} T) \<and> same_rest s s'"
  using assms
proof (induction hi arbitrary: s T)
  case 0
  then show ?case by (subst reset_from.simps) (simp add: refresh_queues_def)
next
  case (Suc h)
  show ?case
  proof (cases "h = 0")
    case True
    then show ?thesis using Suc.prems by (subst reset_from.simps) (simp add: refresh_queues_def)
  next
    case False
    have gt: "PRIORITY_IDLE_TASK < of_nat (Suc h)" using word_less_nat [of 1 "Suc h"] Suc.prems(2) False by simp
    obtain s1 where s1: "reset_if_any s (of_nat (Suc h)) = Some s1" "sched_q s1 q (refresh_queues q {Suc h} T)" "same_rest s s1"
      using reset_if_any_q [OF Suc.prems] by blast
    have "reset_from s (of_nat (Suc h)) = reset_from s1 (of_nat h)"
      using gt s1(1) word_pred [of "Suc h"] by (subst reset_from.simps) (simp del: of_nat_Suc)
    moreover have "refresh_queues q {1<..h} (refresh_queues q {Suc h} T) = refresh_queues q {1<..Suc h} T"
    proof -
      have "{1<..Suc h} = insert (Suc h) {1<..h}" using False by auto
      then show ?thesis by (auto simp: refresh_queues_def)
    qed
    ultimately show ?thesis using Suc.IH [OF s1(2)] Suc.prems(2) same_rest_trans [OF s1(3)] by auto
  qed
qed

subsection \<open>The choice of the next thread\<close>

text \<open>
  The specification: the thread that is chosen, if any, the queues and the threads after it. Real-time queues
  are served from their head, the others from the first thread that has time slices left or has slept
  enough; when none has, all of them get new slices.
\<close>

type_synonym choice = "ptr option \<times> queues \<times> tasks"

definition spec_any :: "u64 \<Rightarrow> queues \<Rightarrow> tasks \<Rightarrow> choice" where
  "spec_any now q T =
     (case choose_task (\<lambda>_. True) q (down 255 63) of
        Some (p, q') \<Rightarrow> (Some p, q', T)
      | None \<Rightarrow>
          (case choose_task (\<lambda>p. runnable now (T p)) q (down 64 1) of
             Some (p, q') \<Rightarrow> (Some p, q', T(p := woken now (T p)))
           | None \<Rightarrow> (None, q, T)))"

definition spec_idle_fit :: "u64 \<Rightarrow> choice \<Rightarrow> choice" where
  "spec_idle_fit now = (\<lambda>(c, q, T).
     case first_fit (\<lambda>p. runnable now (T p)) (q 1) of
       Some (p, xs) \<Rightarrow> (Some p, q(1 := xs), T(p := woken now (T p)))
     | None \<Rightarrow> (c, q, T))"

definition spec_idle :: "u64 \<Rightarrow> choice \<Rightarrow> choice" where
  "spec_idle now = (\<lambda>(c, q, T).
     if q 1 = [] then (c, q, T)
     else case spec_idle_fit now (c, q, T) of
       (None, q, T) \<Rightarrow> spec_idle_fit now (None, q, refresh_queues q {1} T)
     | r \<Rightarrow> r)"

definition spec_preempt :: "u64 \<Rightarrow> queues \<Rightarrow> tasks \<Rightarrow> ptr \<Rightarrow> nat \<Rightarrow> queues \<times> tasks \<times> ptr" where
  "spec_preempt now q T cur pri =
     (let put_back = (\<lambda>q. enqueue q (unat (priority (T cur))) cur)
      in case choose_task (\<lambda>_. True) q (down 255 (max pri 63)) of
        Some (p, q) \<Rightarrow> (put_back q, T, p)
      | None \<Rightarrow>
          (case choose_task (\<lambda>p. runnable now (T p)) q (down 63 (max pri 1)) of
             Some (p, q) \<Rightarrow> (put_back q, T(p := woken now (T p)), p)
           | None \<Rightarrow> (q, T, cur)))"

definition spec_replace :: "u64 \<Rightarrow> queues \<Rightarrow> tasks \<Rightarrow> ptr \<Rightarrow> ptr \<Rightarrow> queues \<times> tasks \<times> ptr" where
  "spec_replace now q T cur idle =
     (let q = (if status (T cur) \<in> {TASK_RUNNING, TASK_READY, TASK_SLEEP} then enqueue q (unat (priority (T cur))) cur else q)
      in case spec_idle now
          (case spec_any now q T of
             (None, q, T) \<Rightarrow> spec_any now q (refresh_queues q {1<..63} T)
           | r \<Rightarrow> r) of
        (c, q, T) \<Rightarrow> (q, T, case c of Some p \<Rightarrow> p | None \<Rightarrow> idle))"

definition spec_next :: "u64 \<Rightarrow> queues \<Rightarrow> tasks \<Rightarrow> ptr \<Rightarrow> nat \<Rightarrow> ptr \<Rightarrow> queues \<times> tasks \<times> ptr" where
  "spec_next now q T cur pri idle =
     (let T' = T(cur := woken now (T cur))
      in if runnable now (T cur)
         then if priority (T' cur) = PRIORITY_HIGHEST then (q, T', cur) else spec_preempt now q T' cur pri
         else spec_replace now q T' cur idle)"

definition chosen :: "sched \<Rightarrow> choice \<Rightarrow> sched \<Rightarrow> ptr \<Rightarrow> bool" where
  "chosen s c s' r \<longleftrightarrow> same_rest s s' \<and> sched_q s' (fst (snd c)) (snd (snd c)) \<and>
     (case fst c of None \<Rightarrow> r = NULL | Some p \<Rightarrow> r = node_of p \<and> r \<noteq> NULL \<and> p \<in> dom (threads s))"

lemma chosen_from: "same_rest s s1 \<Longrightarrow> chosen s1 c s' r \<Longrightarrow> chosen s c s' r"
  by (auto simp: chosen_def same_rest_def split: option.splits)

lemma picked_cases:
  assumes "picked w s q T c s' r"
  obtains "c = None" "r = NULL" "chosen s (None, q, T) s' r"
  | p q' where "c = Some (p, q')" "r \<noteq> NULL" "chosen s (Some p, q', T(p := w (T p))) s' r"
proof (cases c)
  case None
  then show ?thesis using assms that(1) by (simp add: picked_def chosen_def)
next
  case (Some pq)
  then obtain p q' where "c = Some (p, q')" by (cases pq) simp
  moreover from this have "r \<noteq> NULL" "chosen s (Some p, q', T(p := w (T p))) s' r"
    using assms unfolding picked_def chosen_def by simp_all blast+
  ultimately show ?thesis by (rule that(2))
qed

lemma pick_any_q:
  assumes q: "sched_q s q T"
  shows "\<exists>s' r. pick_any s = Some (s', r) \<and> chosen s (spec_any (micro_sec s) q T) s' r"
proof -
  obtain s1 r1 where s1: "pick_realtime s PRIORITY_HIGHEST (PRIORITY_DISPATCH - 1) = Some (s1, r1)"
    "picked (\<lambda>t. t) s q T (choose_task (\<lambda>_. True) q (down 255 63)) s1 r1"
    using pick_realtime_q [OF q, of 255 63] by auto
  from s1(2) show ?thesis
  proof (cases rule: picked_cases)
    case 1
    have q1: "sched_q s1 q T" and rest: "same_rest s s1" using 1(3) by (simp_all add: chosen_def)
    obtain s2 r2 where s2: "pick_normal s1 PRIORITY_DISPATCH PRIORITY_IDLE_TASK = Some (s2, r2)"
      "picked (woken (micro_sec s)) s1 q T (choose_task (\<lambda>p. runnable (micro_sec s) (T p)) q (down 64 1)) s2 r2"
      using pick_normal_q [OF q1, of 64 1] same_now [OF rest] by auto
    have run: "pick_any s = Some (s2, r2)" using s1(1) s2(1) 1(2) by (simp add: pick_any_def)
    from s2(2) show ?thesis
    proof (cases rule: picked_cases)
      case c: 1
      then show ?thesis using run 1(1) chosen_from [OF rest c(3)] by (simp add: spec_any_def)
    next
      case c: (2 p q')
      then show ?thesis using run 1(1) chosen_from [OF rest c(3)] by (simp add: spec_any_def)
    qed
  next
    case (2 p q')
    then show ?thesis using s1(1) by (simp add: pick_any_def spec_any_def)
  qed
qed

end
