(* ===== verification/SchedNext.thy ===== *)
theory SchedNext
  imports SchedRefine
begin

text \<open>
  \<open>next_task\<close> computes \<open>spec_next\<close>: the tasks of priority 1, the preemption of a thread that can go on, the
  replacement of one that cannot.
\<close>

subsection \<open>Choosing\<close>

lemma choose_task_Some:
  assumes "choose_task P q pris = Some (p, q')"
  obtains as i bs us vs where "pris = as @ i # bs" "q i = us @ p # vs" "q' = q(i := vs @ us)" "P p"
    "\<forall>u \<in> set us. \<not> P u" "\<forall>j \<in> set as. \<forall>u \<in> set (q j). \<not> P u"
  using assms
proof (induction pris arbitrary: thesis)
  case Nil
  then show ?case by simp
next
  case (Cons j pris)
  show ?case
  proof (cases "first_fit P (q j)")
    case None
    then have "choose_task P q pris = Some (p, q')" using Cons.prems(2) by simp
    with Cons.IH obtain as i bs us vs where *: "pris = as @ i # bs" "q i = us @ p # vs" "q' = q(i := vs @ us)" "P p"
      "\<forall>u \<in> set us. \<not> P u" "\<forall>j \<in> set as. \<forall>u \<in> set (q j). \<not> P u" by blast
    show ?thesis using Cons.prems(1) [of "j # as" i bs us vs] * None by (auto simp: first_fit_None)
  next
    case (Some pxs)
    then obtain xs where f: "first_fit P (q j) = Some (p, xs)" "q' = q(j := xs)" using Cons.prems(2) by (cases pxs) auto
    from f(1) obtain us vs where "q j = us @ p # vs" "xs = vs @ us" "P p" "\<forall>u \<in> set us. \<not> P u" by (rule first_fit_Some)
    then show ?thesis using Cons.prems(1) [of "[]" j pris us vs] f(2) by simp
  qed
qed

lemma choose_task_None: "choose_task P q pris = None \<longleftrightarrow> (\<forall>i \<in> set pris. \<forall>p \<in> set (q i). \<not> P p)"
proof (induction pris)
  case (Cons i pris)
  then show ?case using first_fit_None [of P "q i"] by (auto split: option.splits)
qed simp

lemma fresh_for_taken:
  assumes "fresh_for q pri cur" "q i = us @ p # vs" "i < 256"
  shows "fresh_for (q(i := vs @ us)) pri cur"
proof -
  have "cur \<notin> set (vs @ us)"
  proof
    assume m: "cur \<in> set (vs @ us)"
    then have "q i = [cur]" using assms unfolding fresh_for_def by auto
    then show False using m assms(2) by (cases us) auto
  qed
  then show ?thesis using assms(1) by (auto simp: fresh_for_def)
qed

lemma choose_task_fresh:
  assumes "choose_task P q pris = Some (p, q')" "\<forall>i \<in> set pris. i < 256" "fresh_for q pri cur"
  shows "fresh_for q' pri cur"
proof -
  from assms(1) obtain as i bs us vs where c: "pris = as @ i # bs" "q i = us @ p # vs" "q' = q(i := vs @ us)"
    by (rule choose_task_Some)
  then show ?thesis using fresh_for_taken [OF assms(3) c(2)] assms(2) by simp
qed

subsection \<open>The tasks of priority 1\<close>

lemma scan_idle_q:
  assumes q: "sched_q s q T" and x: "q 1 = v # vs"
  shows "\<exists>s' r. scan_list s PRIORITY_IDLE_TASK (node_of v) = Some (s', r) \<and>
    chosen s (case spec_idle_fit (micro_sec s) (None, q, T) of c \<Rightarrow> c) s' r"
proof -
  obtain s' r where s': "scan_list s 1 (node_of v) = Some (s', r)"
    "picked (woken (micro_sec s)) s q T (map_option (\<lambda>(p, xs). (p, q(1 := xs))) (first_fit (\<lambda>p. runnable (micro_sec s) (T p)) (q 1))) s' r"
    using scan_whole_q [OF q, of 1 v vs] x by auto
  from s'(2) have "chosen s (spec_idle_fit (micro_sec s) (None, q, T)) s' r"
    by (cases rule: picked_cases) (auto simp: spec_idle_fit_def split: option.splits)
  then show ?thesis using s'(1) by simp
qed

lemma spec_idle_fit_choice:
  "spec_idle_fit now (None, q, T) = (d, q', T') \<Longrightarrow> spec_idle_fit now (c, q, T) = (if d = None then (c, q, T) else (d, q', T'))"
  "spec_idle_fit now (None, q, T) = (None, q', T') \<Longrightarrow> q' = q \<and> T' = T"
  by (auto simp: spec_idle_fit_def split: option.splits)

lemma pick_idle_q:
  assumes c: "chosen s0 (c, q, T) s p_node"
  shows "\<exists>s' r. pick_idle_task s p_node = Some (s', r) \<and> chosen s0 (spec_idle (micro_sec s0) (c, q, T)) s' r"
proof -
  have q: "sched_q s q T" and rest: "same_rest s0 s" using c by (simp_all add: chosen_def)
  have now: "micro_sec s = micro_sec s0" using same_now [OF rest] .
  have pri: "(1::nat) < 256" by simp
  from q pri show ?thesis
  proof (cases rule: get_list_NULL)
    case 1
    then show ?thesis using c by (simp add: pick_idle_task_def spec_idle_def)
  next
    case (2 v vs)
    obtain d q1 T1 where fit: "spec_idle_fit (micro_sec s0) (None, q, T) = (d, q1, T1)" by (cases "spec_idle_fit (micro_sec s0) (None, q, T)")
    obtain s1 r where s1: "scan_list s PRIORITY_IDLE_TASK (node_of v) = Some (s1, r)" "chosen s (d, q1, T1) s1 r"
      using scan_idle_q [OF q 2(1)] fit now by auto
    note s1' = chosen_from [OF rest s1(2)]
    show ?thesis
    proof (cases d)
      case (Some p)
      then have "r \<noteq> NULL" using s1(2) by (auto simp: chosen_def)
      then have "pick_idle_task s p_node = Some (s1, r)" using 2 s1(1) by (simp add: pick_idle_task_def)
      moreover have "spec_idle (micro_sec s0) (c, q, T) = (d, q1, T1)"
        using spec_idle_fit_choice(1) [OF fit, of c] Some 2(1) by (simp add: spec_idle_def)
      ultimately show ?thesis using s1' by simp
    next
      case None
      then have r: "r = NULL" and q1: "q1 = q" "T1 = T" using s1(2) spec_idle_fit_choice(2) fit by (auto simp: chosen_def)
      have qs: "sched_q s1 q T" "same_rest s0 s1" using s1' q1 by (simp_all add: chosen_def)
      show ?thesis
      proof (cases c)
        case c': (Some p)
        then have n: "p_node \<noteq> NULL" "p_node = node_of p" "p \<in> dom (threads s0)" using c by (auto simp: chosen_def)
        have "pick_idle_task s p_node = Some (s1, p_node)" using 2 s1(1) r n(1) by (simp add: pick_idle_task_def)
        moreover have "spec_idle (micro_sec s0) (c, q, T) = (c, q, T)"
          using spec_idle_fit_choice(1) [OF fit, of c] None c' 2(1) by (simp add: spec_idle_def)
        ultimately show ?thesis using c' n qs by (simp add: chosen_def)
      next
        case c': None
        then have n: "p_node = NULL" using c by (simp add: chosen_def)
        obtain s2 where s2: "reset_idle_timeslices s1 = Some s2" "sched_q s2 q (refresh_queues q {1} T)" "same_rest s1 s2"
          using reset_if_any_q [OF qs(1) pri] by (auto simp: reset_idle_timeslices_def)
        obtain s3 r3 where s3: "scan_list s2 PRIORITY_IDLE_TASK (node_of v) = Some (s3, r3)"
          "chosen s2 (spec_idle_fit (micro_sec s0) (None, q, refresh_queues q {1} T)) s3 r3"
          using scan_idle_q [OF s2(2) 2(1)] same_now [OF qs(2)] same_now [OF s2(3)] by auto
        have "pick_idle_task s p_node = Some (s3, r3)"
          using 2 s1(1) r n s2(1) get_list_head [OF s2(2) pri] s3(1) by (simp add: pick_idle_task_def)
        moreover have "spec_idle (micro_sec s0) (c, q, T) = spec_idle_fit (micro_sec s0) (None, q, refresh_queues q {1} T)"
          using fit None q1 c' 2(1) by (simp add: spec_idle_def)
        ultimately show ?thesis using chosen_from [OF same_rest_trans [OF qs(2) s2(3)] s3(2)] by simp
      qed
    qed
  qed
qed

subsection \<open>The state after a choice\<close>

text \<open>Only the current node and the statistics of one CPU may change.\<close>

definition same_machine :: "sched \<Rightarrow> u32 \<Rightarrow> sched \<Rightarrow> bool" where
  "same_machine s cpu s' \<longleftrightarrow>
     micro_sec s' = micro_sec s \<and> dom (threads s') = dom (threads s) \<and> table_mem s' = table_mem s \<and>
     thread_table s' = thread_table s \<and> initialized s' = initialized s \<and>
     (\<forall>c. c \<noteq> cpu \<longrightarrow> cpu_infos s' c = cpu_infos s c) \<and>
     (\<exists>n h l. cpu_infos s' cpu = (cpu_infos s cpu)\<lparr>current_node := n, cpu_use_stat_h := h, cpu_use_stat_l := l\<rparr>)"

definition switched :: "sched \<Rightarrow> u32 \<Rightarrow> queues \<times> tasks \<times> ptr \<Rightarrow> sched \<Rightarrow> bool" where
  "switched s cpu = (\<lambda>(q, T, cur) s'.
     sched_q s' q T \<and> cur \<in> dom (threads s) \<and> current_node (cpu_infos s' cpu) = node_of cur \<and> same_machine s cpu s')"

lemma sched_q_cpu [simp]: "sched_q (upd_cpu u s cpu) q T \<longleftrightarrow> sched_q s q T"
  by (simp add: sched_q_def upd_cpu_def)

lemma upd_cpu_sel [simp]: "cpu_infos (upd_cpu u s cpu) = (cpu_infos s)(cpu := u (cpu_infos s cpu))" "threads (upd_cpu u s cpu) = threads s"
  "micro_sec (upd_cpu u s cpu) = micro_sec s" "table_mem (upd_cpu u s cpu) = table_mem s"
  "thread_table (upd_cpu u s cpu) = thread_table s" "initialized (upd_cpu u s cpu) = initialized s"
  by (simp_all add: upd_cpu_def)

lemma same_info: "\<exists>n h l. (i :: core_sched_info) = i\<lparr>current_node := n, cpu_use_stat_h := h, cpu_use_stat_l := l\<rparr>"
  by (rule exI [of _ "current_node i"], rule exI [of _ "cpu_use_stat_h i"], rule exI [of _ "cpu_use_stat_l i"]) simp

lemma same_machine_rest: "same_rest s s' \<Longrightarrow> same_machine s cpu s'"
  using same_info [of "cpu_infos s cpu"] by (simp add: same_machine_def same_rest_def)

lemma same_machine_cpu:
  "same_rest s s' \<Longrightarrow> \<exists>n h l. u (cpu_infos s cpu) = (cpu_infos s cpu)\<lparr>current_node := n, cpu_use_stat_h := h, cpu_use_stat_l := l\<rparr> \<Longrightarrow>
    same_machine s cpu (upd_cpu u s' cpu)"
  by (simp add: same_machine_def same_rest_def)

lemma same_machine_node:
  assumes "same_rest s s'"
  shows "same_machine s cpu (upd_cpu (current_node_update (\<lambda>_. n)) s' cpu)"
  using assms
proof (rule same_machine_cpu)
  let ?i = "cpu_infos s cpu"
  show "\<exists>n' h l. current_node_update (\<lambda>_. n) ?i = ?i\<lparr>current_node := n', cpu_use_stat_h := h, cpu_use_stat_l := l\<rparr>"
    by (rule exI [of _ n], rule exI [of _ "cpu_use_stat_h ?i"], rule exI [of _ "cpu_use_stat_l ?i"]) simp
qed

lemma same_machine_count:
  assumes "same_rest s s'"
  shows "same_machine s cpu (add_use_count s' cpu b)"
  unfolding add_use_count_def Let_def using assms
proof (rule same_machine_cpu)
  let ?i = "cpu_infos s cpu"
  show "\<exists>n h l. ?i\<lparr>cpu_use_stat_h := H, cpu_use_stat_l := L\<rparr> = ?i\<lparr>current_node := n, cpu_use_stat_h := h, cpu_use_stat_l := l\<rparr>" for H L
    by (rule exI [of _ "current_node ?i"], rule exI [of _ H], rule exI [of _ L]) simp
qed

lemma max_word_nat: "(w :: u32) < 256 \<Longrightarrow> n < 256 \<Longrightarrow> max w (of_nat n) = of_nat (max (unat w) n)"
  by (simp add: max_def word_le_nat_alt unat_of_nat_256)

subsection \<open>preempt\_task\<close>

lemma put_back_q:
  assumes c: "chosen s (Some p, q', T') s1 r" and cur: "cur \<in> dom (threads s)" "current_node (cpu_infos s cpu) = node_of cur"
    and pri: "priority (T' cur) < 256" "fresh_for q' (unat (priority (T' cur))) cur"
  shows "\<exists>s'. do { t \<leftarrow> threads s1 cur; s2 \<leftarrow> insert_last_at s1 (priority t) (current_node (cpu_infos s cpu));
      Some (upd_cpu (current_node_update (\<lambda>_. r)) s2 cpu) } = Some s' \<and>
    switched s cpu (enqueue q' (unat (priority (T' cur))) cur, T', p) s'"
proof -
  have q: "sched_q s1 q' T'" "same_rest s s1" and r: "r = node_of p" "p \<in> dom (threads s)" using c by (simp_all add: chosen_def)
  have cur1: "cur \<in> dom (threads s1)" using cur(1) q(2) by (simp add: same_rest_def)
  have n: "unat (priority (T' cur)) < 256" using pri(1) by (simp add: word_less_nat_alt)
  obtain s2 where s2: "insert_last_at s1 (of_nat (unat (priority (T' cur)))) (node_of cur) = Some s2"
    "sched_q s2 (enqueue q' (unat (priority (T' cur))) cur) T'" "same_rest s1 s2"
    using insert_last_q [OF q(1) n cur1 pri(2)] by blast
  have "switched s cpu (enqueue q' (unat (priority (T' cur))) cur, T', p) (upd_cpu (current_node_update (\<lambda>_. r)) s2 cpu)"
    using s2(2) r same_machine_node [OF same_rest_trans [OF q(2) s2(3)]] by (simp add: switched_def)
  then show ?thesis using s2(1) cur(2) sched_qD(4) [OF q(1) cur1] by simp
qed

lemma preempt_task_q:
  assumes q: "sched_q s q T" and cur: "cur \<in> dom (threads s)" "current_node (cpu_infos s cpu) = node_of cur"
    and pri: "priority (T cur) < 256" "fresh_for q (unat (priority (T cur))) cur" and ci: "ci_priority (cpu_infos s cpu) < 256"
  shows "\<exists>s'. preempt_task s cpu cur = Some s' \<and>
    switched s cpu (spec_preempt (micro_sec s) q T cur (unat (ci_priority (cpu_infos s cpu)))) s'"
proof -
  let ?ci = "ci_priority (cpu_infos s cpu)" and ?now = "micro_sec s"
  have n: "unat ?ci < 256" using ci by (simp add: word_less_nat_alt)
  have m: "max ?ci (PRIORITY_DISPATCH - 1) = of_nat (max (unat ?ci) 63)" "max ?ci PRIORITY_IDLE_TASK = of_nat (max (unat ?ci) 1)"
    using max_word_nat [OF ci, of 63] max_word_nat [OF ci, of 1] by simp_all
  have lt: "max (unat ?ci) 63 < 256" "max (unat ?ci) 1 < 256" using n by simp_all
  obtain s1 r1 where s1: "pick_realtime s PRIORITY_HIGHEST (max ?ci (PRIORITY_DISPATCH - 1)) = Some (s1, r1)"
    "picked (\<lambda>t. t) s q T (choose_task (\<lambda>_. True) q (down 255 (max (unat ?ci) 63))) s1 r1"
    using pick_realtime_q [OF q, of 255 "max (unat ?ci) 63"] lt unfolding m by auto
  from s1(2) show ?thesis
  proof (cases rule: picked_cases)
    case 1
    have q1: "sched_q s1 q T" and rest: "same_rest s s1" using 1(3) by (simp_all add: chosen_def)
    obtain s2 r2 where s2: "pick_normal s1 (PRIORITY_DISPATCH - 1) (max ?ci PRIORITY_IDLE_TASK) = Some (s2, r2)"
      "picked (woken ?now) s1 q T (choose_task (\<lambda>p. runnable ?now (T p)) q (down 63 (max (unat ?ci) 1))) s2 r2"
      using pick_normal_q [OF q1, of 63 "max (unat ?ci) 1"] lt same_now [OF rest] unfolding m by auto
    from s2(2) show ?thesis
    proof (cases rule: picked_cases)
      case c: 1
      have "switched s cpu (q, T, cur) s2"
        using chosen_from [OF rest c(3)] cur same_machine_rest [of s s2 cpu] by (simp add: switched_def chosen_def same_rest_def)
      moreover have "preempt_task s cpu cur = Some s2" using s1(1) s2(1) 1(2) c(2) by (simp add: preempt_task_def Let_def)
      ultimately show ?thesis using 1(1) c(1) by (simp add: spec_preempt_def Let_def)
    next
      case c: (2 p q')
      let ?T = "T(p := woken ?now (T p))"
      have "priority (?T cur) = priority (T cur)" by simp
      moreover from this have "fresh_for q' (unat (priority (?T cur))) cur" using choose_task_fresh [OF c(1) _ pri(2)] by simp
      ultimately obtain s' where s': "do { t \<leftarrow> threads s2 cur; s3 \<leftarrow> insert_last_at s2 (priority t) (current_node (cpu_infos s cpu));
          Some (upd_cpu (current_node_update (\<lambda>_. r2)) s3 cpu) } = Some s'"
        "switched s cpu (enqueue q' (unat (priority (T cur))) cur, ?T, p) s'"
        using put_back_q [OF chosen_from [OF rest c(3)] cur] pri(1) by auto
      have "preempt_task s cpu cur = Some s'" using s1(1) s2(1) 1(2) c(2) s'(1) by (simp add: preempt_task_def Let_def)
      then show ?thesis using 1(1) c(1) s'(2) by (simp add: spec_preempt_def Let_def)
    qed
  next
    case (2 p q')
    have "fresh_for q' (unat (priority (T cur))) cur" using choose_task_fresh [OF 2(1) _ pri(2)] by simp
    then obtain s' where s': "do { t \<leftarrow> threads s1 cur; s3 \<leftarrow> insert_last_at s1 (priority t) (current_node (cpu_infos s cpu));
        Some (upd_cpu (current_node_update (\<lambda>_. r1)) s3 cpu) } = Some s'"
      "switched s cpu (enqueue q' (unat (priority (T cur))) cur, T, p) s'"
      using put_back_q [OF 2(3) cur] pri(1) by auto
    have "preempt_task s cpu cur = Some s'" using s1(1) 2(2) s'(1) by (simp add: preempt_task_def Let_def)
    then show ?thesis using 2(1) s'(2) by (simp add: spec_preempt_def Let_def)
  qed
qed

subsection \<open>replace\_task, next\_task\<close>

lemma replace_task_q:
  assumes q: "sched_q s q T" and cur: "cur \<in> dom (threads s)" "current_node (cpu_infos s cpu) = node_of cur"
    and pri: "priority (T cur) < 256" "fresh_for q (unat (priority (T cur))) cur" and idle: "p_idle_thread (cpu_infos s cpu) \<in> dom (threads s)"
  shows "\<exists>s'. replace_task s cpu cur = Some s' \<and>
    switched s cpu (spec_replace (micro_sec s) q T cur (p_idle_thread (cpu_infos s cpu))) s'"
proof -
  let ?now = "micro_sec s" and ?again = "status (T cur) \<in> {TASK_RUNNING, TASK_READY, TASK_SLEEP}"
  let ?q = "if ?again then enqueue q (unat (priority (T cur))) cur else q"
  have n: "unat (priority (T cur)) < 256" using pri(1) by (simp add: word_less_nat_alt)
  have t: "threads s cur = Some (T cur)" by (rule sched_qD(4) [OF q cur(1)])
  obtain s1 where s1: "(if ?again then insert_last_at s (priority (T cur)) (node_of cur) else Some s) = Some s1"
    "sched_q s1 ?q T" "same_rest s s1"
    using insert_last_q [OF q n cur(1) pri(2)] q by (cases ?again) auto
  obtain s2 r2 where s2: "pick_any s1 = Some (s2, r2)" "chosen s (spec_any ?now ?q T) s2 r2"
    using pick_any_q [OF s1(2)] chosen_from [OF s1(3)] same_now [OF s1(3)] by metis
  let ?c = "case spec_any ?now ?q T of (None, q, T) \<Rightarrow> spec_any ?now q (refresh_queues q {1<..63} T) | r \<Rightarrow> r"
  have "\<exists>s3 r3. (if r2 \<noteq> NULL then Some (s2, r2) else do { s \<leftarrow> reset_timeslices s2; pick_any s }) = Some (s3, r3) \<and> chosen s ?c s3 r3"
  proof (cases "spec_any ?now ?q T")
    case (fields d qa Ta)
    show ?thesis
    proof (cases d)
      case (Some p)
      then have "r2 \<noteq> NULL" using s2(2) fields by (auto simp: chosen_def)
      then show ?thesis using s2(2) fields Some by simp
    next
      case None
      then have r2: "r2 = NULL" "sched_q s2 qa Ta" "same_rest s s2" using s2(2) fields by (simp_all add: chosen_def)
      obtain s3 where s3: "reset_timeslices s2 = Some s3" "sched_q s3 qa (refresh_queues qa {1<..63} Ta)" "same_rest s2 s3"
        using reset_from_q [OF r2(2), of 63] by (auto simp: reset_timeslices_def)
      note rest = same_rest_trans [OF r2(3) s3(3)]
      obtain s4 r4 where "pick_any s3 = Some (s4, r4)" "chosen s (spec_any ?now qa (refresh_queues qa {1<..63} Ta)) s4 r4"
        using pick_any_q [OF s3(2)] chosen_from [OF rest] same_now [OF rest] by metis
      then show ?thesis using r2(1) s3(1) fields None by simp
    qed
  qed
  then obtain s3 r3 where s3: "(if r2 \<noteq> NULL then Some (s2, r2) else do { s \<leftarrow> reset_timeslices s2; pick_any s }) = Some (s3, r3)"
    "chosen s ?c s3 r3" by blast
  obtain c3 q3 T3 where c3: "?c = (c3, q3, T3)" by (cases ?c)
  obtain s4 r4 where s4: "pick_idle_task s3 r3 = Some (s4, r4)" "chosen s (spec_idle ?now (c3, q3, T3)) s4 r4"
    using pick_idle_q [of s c3 q3 T3 s3 r3] s3(2) unfolding c3 by blast
  obtain c4 q4 T4 where c4: "spec_idle ?now (c3, q3, T3) = (c4, q4, T4)" by (cases "spec_idle ?now (c3, q3, T3)")
  let ?idle = "p_idle_thread (cpu_infos s cpu)"
  let ?s' = "upd_cpu (current_node_update (\<lambda>_. if r4 = NULL then node_of ?idle else r4)) s4 cpu"
  have rest: "same_rest s s4" "sched_q s4 q4 T4" using s4(2) c4 by (simp_all add: chosen_def)
  have "replace_task s cpu cur = Some ?s'"
    using t s1(1) s2(1) s3(1) s4(1) cur(2) rest(1) by (simp add: replace_task_def Let_def same_rest_def)
  moreover have "switched s cpu (q4, T4, case c4 of Some p \<Rightarrow> p | None \<Rightarrow> ?idle) ?s'"
    using rest(2) s4(2) c4 idle same_machine_node [OF rest(1)] sched_qD(6) [OF rest(2)] rest(1)
    by (cases c4) (auto simp: switched_def chosen_def)
  moreover have "spec_replace ?now q T cur ?idle = (q4, T4, case c4 of Some p \<Rightarrow> p | None \<Rightarrow> ?idle)"
    using c3 c4 unfolding spec_replace_def Let_def by simp
  ultimately show ?thesis by metis
qed

lemma next_task_q:
  assumes q: "sched_q s q T" and cur: "cur \<in> dom (threads s)" "current_node (cpu_infos s cpu) = node_of cur"
    and pri: "priority (T cur) < 256" "fresh_for q (unat (priority (T cur))) cur" and ci: "ci_priority (cpu_infos s cpu) < 256"
    and idle: "p_idle_thread (cpu_infos s cpu) \<in> dom (threads s)"
  shows "\<exists>s'. next_task s cpu = Some s' \<and>
    switched s cpu (spec_next (micro_sec s) q T cur (unat (ci_priority (cpu_infos s cpu))) (p_idle_thread (cpu_infos s cpu))) s'"
proof -
  let ?now = "micro_sec s" and ?T = "T(cur := woken (micro_sec s) (T cur))"
  obtain s1 where s1: "can_run s cur = Some (s1, runnable ?now (T cur))" "sched_q s1 q ?T" "same_rest s s1"
    using can_run_q [OF q cur(1)] by blast
  have c1: "cur \<in> dom (threads s1)" "current_node (cpu_infos s1 cpu) = node_of cur" "cpu_infos s1 = cpu_infos s" "micro_sec s1 = ?now"
    "dom (threads s1) = dom (threads s)" using s1(3) cur by (simp_all add: same_rest_def)
  have p1: "priority (?T cur) < 256" "fresh_for q (unat (priority (?T cur))) cur" using pri by simp_all
  have sw: "switched s1 cpu c s' \<Longrightarrow> switched s cpu c s'" for c s'
    using s1(3) by (auto simp: switched_def same_machine_def same_rest_def)
  have i: "get_item (list_nodes s) (current_node (cpu_infos s cpu)) = Some cur" using get_item_node [OF q cur(1)] cur(2) by simp
  have t1: "threads s1 cur = Some (?T cur)" by (rule sched_qD(4) [OF s1(2) c1(1)])
  show ?thesis
  proof (cases "runnable ?now (T cur)")
    case False
    obtain s' where "replace_task s1 cpu cur = Some s'" "switched s1 cpu (spec_replace ?now q ?T cur (p_idle_thread (cpu_infos s cpu))) s'"
      using replace_task_q [OF s1(2) c1(1,2) p1, unfolded c1(3-5), OF idle] by blast
    then show ?thesis using i s1(1) False sw by (simp add: next_task_def spec_next_def Let_def)
  next
    case True
    show ?thesis
    proof (cases "priority (?T cur) = PRIORITY_HIGHEST")
      case high: True
      then have "next_task s cpu = Some (add_use_count s1 cpu True)" using i s1(1) True t1 by (simp add: next_task_def)
      moreover have "switched s cpu (q, ?T, cur) (add_use_count s1 cpu True)"
        using s1(2) cur same_machine_count [OF s1(3)] c1(2)
        by (simp add: switched_def) (simp add: add_use_count_def Let_def)
      ultimately show ?thesis using True high by (simp add: spec_next_def Let_def)
    next
      case False
      obtain s' where "preempt_task s1 cpu cur = Some s'" "switched s1 cpu (spec_preempt ?now q ?T cur (unat (ci_priority (cpu_infos s cpu)))) s'"
        using preempt_task_q [OF s1(2) c1(1,2) p1, unfolded c1(3-5), OF ci] by blast
      then show ?thesis using i s1(1) True False sw t1 by (simp add: next_task_def spec_next_def Let_def)
    qed
  qed
qed

end
