(* ===== verification/SchedTick.thy ===== *)
theory SchedTick
  imports SchedNext
begin

text \<open>
  The tick interrupt on queues: the context is saved, the next thread is chosen and resumed. The
  invariant of the scheduler, and what the choice keeps of the threads in the lists.
\<close>

subsection \<open>Resuming a thread\<close>

definition saved :: "ptr \<Rightarrow> thread_obj \<Rightarrow> thread_obj" where
  "saved ctx t = (if status t = TASK_RUNNING then t\<lparr>p_context := ctx, status := TASK_READY\<rparr> else t\<lparr>p_context := ctx\<rparr>)"

definition resumed :: "u32 \<Rightarrow> thread_obj \<Rightarrow> thread_obj" where
  "resumed cpu t =
     t\<lparr>status := (if status t = TASK_READY then TASK_RUNNING else status t),
       info_lo := (if priority t < PRIORITY_DISPATCH then info_lo t - 1 else info_lo t), info_hi := cpu\<rparr>"

lemma saved_sel [simp]: "priority (saved ctx t) = priority t" "p_ns (saved ctx t) = p_ns t" "p_context (saved ctx t) = ctx"
  "info_lo (saved ctx t) = info_lo t" "status (saved ctx t) = (if status t = TASK_RUNNING then TASK_READY else status t)"
  by (simp_all add: saved_def)

lemma resumed_sel [simp]: "priority (resumed cpu t) = priority t" "p_ns (resumed cpu t) = p_ns t"
  "status (resumed cpu t) = (if status t = TASK_READY then TASK_RUNNING else status t)" "p_context (resumed cpu t) = p_context t"
  by (simp_all add: resumed_def)

lemma use_slice: "info_lo_update (\<lambda>n. n - 1) t = t\<lparr>info_lo := info_lo t - 1\<rparr>"
  by (cases t) simp

lemma put_thread_q:
  assumes "sched_q s q T" "p \<in> dom (threads s)" "status t = TASK_SLEEP \<Longrightarrow> p_ns t \<in> dom (ns_vars s)"
  shows "sched_q (s\<lparr>threads := (threads s)(p \<mapsto> t)\<rparr>) q (T(p := t))" "same_rest s (s\<lparr>threads := (threads s)(p \<mapsto> t)\<rparr>)"
  using sched_q_thread [OF assms(1,2) refl, of t] assms(3) by simp_all

lemma resume_q:
  assumes q: "sched_q s q T" "p \<in> dom (threads s)"
  shows "\<exists>s'. resume s p cpu = Some (s', p_context (T p)) \<and> sched_q s' q (T(p := resumed cpu (T p))) \<and> same_rest s s'"
proof -
  have t: "threads s p = Some (T p)" using sched_qD(4) [OF q] .
  have "resume s p cpu = Some (s\<lparr>threads := (threads s)(p \<mapsto> resumed cpu (T p))\<rparr>, p_context (T p))"
    using t by (auto simp: resume_def upd_thread_eq resumed_def use_slice)
  moreover have "p_ns (resumed cpu (T p)) \<in> dom (ns_vars s)" if "status (resumed cpu (T p)) = TASK_SLEEP"
    using sched_qD(8) [OF q] that by (simp split: if_splits)
  note put_thread_q [OF q this]
  ultimately show ?thesis by blast
qed

lemma save_q:
  assumes q: "sched_q s q T" "p \<in> dom (threads s)"
  shows "\<exists>s'. (\<forall>f :: sched \<Rightarrow> (sched \<times> ptr) option. do { s \<leftarrow> upd_thread (p_context_update (\<lambda>_. ctx)) s p; t \<leftarrow> threads s p;
        s \<leftarrow> (if status t = TASK_RUNNING then upd_thread (status_update (\<lambda>_. TASK_READY)) s p else Some s); f s } = f s') \<and>
      sched_q s' q (T(p := saved ctx (T p))) \<and> same_rest s s'"
proof -
  have t: "threads s p = Some (T p)" using sched_qD(4) [OF q] .
  have "do { s \<leftarrow> upd_thread (p_context_update (\<lambda>_. ctx)) s p; t \<leftarrow> threads s p;
      s \<leftarrow> (if status t = TASK_RUNNING then upd_thread (status_update (\<lambda>_. TASK_READY)) s p else Some s); f s } =
      f (s\<lparr>threads := (threads s)(p \<mapsto> saved ctx (T p))\<rparr>)" for f :: "sched \<Rightarrow> (sched \<times> ptr) option"
    using t by (simp add: upd_thread_eq saved_def)
  moreover have "p_ns (saved ctx (T p)) \<in> dom (ns_vars s)" if "status (saved ctx (T p)) = TASK_SLEEP"
    using sched_qD(8) [OF q] that by (simp split: if_splits)
  note put_thread_q [OF q this]
  ultimately show ?thesis by blast
qed

lemma switch_task_q:
  assumes q: "sched_q s q T" "cur \<in> dom (threads s)" "current_node (cpu_infos s cpu) = node_of cur"
  shows "\<exists>s'. switch_task s cpu = Some (s', p_context (T cur)) \<and> sched_q s' q (T(cur := resumed cpu (T cur))) \<and>
    current_node (cpu_infos s' cpu) = node_of cur \<and> ci_priority (cpu_infos s' cpu) = priority (T cur) \<and>
    \<not> in_sched (cpu_infos s' cpu) \<and> enable_sched (cpu_infos s' cpu) = enable_sched (cpu_infos s cpu) \<and>
    enabled (cpu_infos s' cpu) = enabled (cpu_infos s cpu) \<and> p_idle_thread (cpu_infos s' cpu) = p_idle_thread (cpu_infos s cpu) \<and>
    (\<forall>c. c \<noteq> cpu \<longrightarrow> cpu_infos s' c = cpu_infos s c) \<and> micro_sec s' = micro_sec s \<and> dom (threads s') = dom (threads s)"
proof -
  let ?s1 = "add_use_count s cpu True"
  let ?s2 = "upd_cpu (\<lambda>i. i\<lparr>ci_priority := priority (T cur), in_sched := False\<rparr>) ?s1 cpu"
  have q2: "sched_q ?s2 q T" "cur \<in> dom (threads ?s2)" using q by (simp_all add: add_use_count_def)
  have t: "threads ?s1 cur = Some (T cur)" using sched_qD(4) [OF q(1,2)] by (simp add: add_use_count_def)
  obtain s' where s': "resume ?s2 cur cpu = Some (s', p_context (T cur))" "sched_q s' q (T(cur := resumed cpu (T cur)))" "same_rest ?s2 s'"
    using resume_q [OF q2] by blast
  have "switch_task s cpu = Some (s', p_context (T cur))"
    using get_item_node [OF q(1,2)] sched_qD(6) [OF q(1,2)] q(3) t s'(1) by (simp add: switch_task_def current_thread_def Let_def)
  then show ?thesis using s'(2,3) q(3) by (simp add: same_rest_def add_use_count_def Let_def)
qed

lemma sched_q_in: "sched_q (upd_cpu u s cpu) q T \<Longrightarrow> sched_q s q T"
  by simp

definition spec_tick :: "u64 \<Rightarrow> u32 \<Rightarrow> ptr \<Rightarrow> queues \<Rightarrow> tasks \<Rightarrow> ptr \<Rightarrow> nat \<Rightarrow> ptr \<Rightarrow> queues \<times> tasks \<times> ptr" where
  "spec_tick now cpu ctx q T cur pri idle =
     (let (q, T, cur) = spec_next now q (T(cur := saved ctx (T cur))) cur pri idle in (q, T(cur := resumed cpu (T cur)), cur))"

text \<open>What holds between two ticks of a CPU.\<close>

definition cpu_runs :: "sched \<Rightarrow> u32 \<Rightarrow> queues \<Rightarrow> tasks \<Rightarrow> ptr \<Rightarrow> bool" where
  "cpu_runs s cpu q T cur \<longleftrightarrow>
     sched_q s q T \<and> cur \<in> dom (threads s) \<and> current_node (cpu_infos s cpu) = node_of cur \<and>
     priority (T cur) < 256 \<and> fresh_for q (unat (priority (T cur))) cur \<and>
     ci_priority (cpu_infos s cpu) < 256 \<and> p_idle_thread (cpu_infos s cpu) \<in> dom (threads s) \<and>
     \<not> in_sched (cpu_infos s cpu)"

definition may_switch :: "sched \<Rightarrow> u32 \<Rightarrow> thread_obj \<Rightarrow> bool" where
  "may_switch s cpu t \<longleftrightarrow> enable_sched (cpu_infos s cpu) \<and>
     (enabled (cpu_infos s cpu) \<and> ci_priority (cpu_infos s cpu) \<noteq> PRIORITY_HIGHEST \<or> status t \<noteq> TASK_READY \<and> status t \<noteq> TASK_RUNNING)"

lemma on_tick_q:
  assumes r: "cpu_runs s cpu q T cur" and m: "may_switch s cpu (T cur)"
    and sp: "spec_tick (micro_sec s) cpu ctx q T cur (unat (ci_priority (cpu_infos s cpu))) (p_idle_thread (cpu_infos s cpu)) = (q', T', cur')"
  shows "\<exists>s'. on_tick s cpu ctx = Some (s', p_context (T' cur')) \<and> sched_q s' q' T' \<and> cur' \<in> dom (threads s') \<and>
    current_node (cpu_infos s' cpu) = node_of cur' \<and> ci_priority (cpu_infos s' cpu) = priority (T' cur') \<and>
    \<not> in_sched (cpu_infos s' cpu) \<and> enable_sched (cpu_infos s' cpu) \<and> enabled (cpu_infos s' cpu) = enabled (cpu_infos s cpu) \<and>
    p_idle_thread (cpu_infos s' cpu) = p_idle_thread (cpu_infos s cpu) \<and>
    (\<forall>c. c \<noteq> cpu \<longrightarrow> cpu_infos s' c = cpu_infos s c) \<and> micro_sec s' = micro_sec s \<and> dom (threads s') = dom (threads s)"
proof -
  let ?i = "cpu_infos s cpu" and ?T = "T(cur := saved ctx (T cur))"
  let ?s0 = "upd_cpu (in_sched_update (\<lambda>_. True)) s cpu"
  have q: "sched_q s q T" "cur \<in> dom (threads s)" and n: "current_node ?i = node_of cur"
    and p: "priority (T cur) < 256" "fresh_for q (unat (priority (T cur))) cur" "ci_priority ?i < 256" "p_idle_thread ?i \<in> dom (threads s)"
    "\<not> in_sched ?i" using r by (simp_all add: cpu_runs_def)
  have q0: "sched_q ?s0 q T" "cur \<in> dom (threads ?s0)" using q by simp_all
  obtain s1 where s1: "\<And>f :: sched \<Rightarrow> (sched \<times> ptr) option. do { s \<leftarrow> upd_thread (p_context_update (\<lambda>_. ctx)) ?s0 cur; t \<leftarrow> threads s cur;
        s \<leftarrow> (if status t = TASK_RUNNING then upd_thread (status_update (\<lambda>_. TASK_READY)) s cur else Some s); f s } = f s1"
    "sched_q s1 q ?T" "same_rest ?s0 s1" using save_q [OF q0] by blast
  have c1: "cur \<in> dom (threads s1)" "current_node (cpu_infos s1 cpu) = node_of cur" "p_idle_thread (cpu_infos s1 cpu) \<in> dom (threads s1)"
    "ci_priority (cpu_infos s1 cpu) < 256" "priority (?T cur) < 256" "fresh_for q (unat (priority (?T cur))) cur"
    using s1(3) q n p by (simp_all add: same_rest_def)
  have e1: "micro_sec s1 = micro_sec s" "cpu_infos s1 cpu = ?i\<lparr>in_sched := True\<rparr>" "ci_priority (cpu_infos s1 cpu) = ci_priority ?i"
    "p_idle_thread (cpu_infos s1 cpu) = p_idle_thread ?i" using s1(3) by (simp_all add: same_rest_def)
  obtain T2 where sp2: "spec_next (micro_sec s) q ?T cur (unat (ci_priority ?i)) (p_idle_thread ?i) = (q', T2, cur')"
    "T' = T2(cur' := resumed cpu (T2 cur'))" using sp by (auto simp: spec_tick_def split: prod.splits)
  obtain s2 where s2: "next_task s1 cpu = Some s2" "switched s1 cpu (q', T2, cur') s2"
    using next_task_q [OF s1(2) c1(1,2,5,6,4,3), unfolded e1(1,3,4) sp2(1)] by blast
  have sw: "sched_q s2 q' T2" "cur' \<in> dom (threads s2)" "current_node (cpu_infos s2 cpu) = node_of cur'" and mac: "same_machine s1 cpu s2"
    using s2(2) by (auto simp: switched_def same_machine_def)
  obtain s3 where s3: "switch_task s2 cpu = Some (s3, p_context (T2 cur'))" "sched_q s3 q' (T2(cur' := resumed cpu (T2 cur')))"
    and rest: "current_node (cpu_infos s3 cpu) = node_of cur'" "ci_priority (cpu_infos s3 cpu) = priority (T2 cur')"
      "\<not> in_sched (cpu_infos s3 cpu)" "enable_sched (cpu_infos s3 cpu) = enable_sched (cpu_infos s2 cpu)"
      "enabled (cpu_infos s3 cpu) = enabled (cpu_infos s2 cpu)" "p_idle_thread (cpu_infos s3 cpu) = p_idle_thread (cpu_infos s2 cpu)"
      "\<forall>c. c \<noteq> cpu \<longrightarrow> cpu_infos s3 c = cpu_infos s2 c" "micro_sec s3 = micro_sec s2" "dom (threads s3) = dom (threads s2)"
    using switch_task_q [OF sw] by blast
  have t: "threads s cur = Some (T cur)" "get_item (list_nodes s) (node_of cur) = Some cur" "node_of cur \<noteq> NULL"
    using sched_qD(4,6) [OF q] get_item_node [OF q] by simp_all
  have "current_thread ?s0 cpu = Some cur" using n t by (simp add: current_thread_def upd_cpu_def)
  moreover have "list_nodes ?s0 = list_nodes s" by (simp add: upd_cpu_def)
  moreover have "enable_sched ?i" using m by (simp add: may_switch_def)
  ultimately have "on_tick s cpu ctx = Some (s3, p_context (T2 cur'))"
    using m t n p(5) s2(1) s3(1)
    by (cases "enabled ?i \<and> ci_priority ?i \<noteq> PRIORITY_HIGHEST") (auto simp: on_tick_def Let_def s1(1) may_switch_def)
  moreover have "enable_sched (cpu_infos s2 cpu)" "enabled (cpu_infos s2 cpu) = enabled ?i" "p_idle_thread (cpu_infos s2 cpu) = p_idle_thread ?i"
    "micro_sec s2 = micro_sec s" "dom (threads s2) = dom (threads s)" "\<forall>c. c \<noteq> cpu \<longrightarrow> cpu_infos s2 c = cpu_infos s c"
    using mac e1 s1(3) m by (auto simp: same_machine_def same_rest_def may_switch_def)
  ultimately show ?thesis using s3(2) rest sw(2) sp2(2) by simp
qed

end
