(* ===== verification/SchedInv.thy ===== *)
theory SchedInv
  imports SchedTick
begin

text \<open>
  The invariant of the scheduler of one CPU, that a tick keeps it, and which threads a tick leaves in
  the lists.
\<close>

subsection \<open>How a thread changes\<close>

definition slice_ok :: "thread_obj \<Rightarrow> bool" where
  "slice_ok t \<longleftrightarrow> ((status t = TASK_READY \<or> status t = TASK_RUNNING) \<and>
     0 < priority t \<and> priority t < PRIORITY_DISPATCH \<longrightarrow> time_slices t \<le> MAX_TIME_SLICE_NUM)"

definition evolved :: "thread_obj \<Rightarrow> thread_obj \<Rightarrow> bool" where
  "evolved t t' \<longleftrightarrow> priority t' = priority t \<and> (slice_ok t \<longrightarrow> slice_ok t') \<and>
     (status t = TASK_READY \<or> status t = TASK_RUNNING \<longrightarrow> status t' = TASK_READY \<or> status t' = TASK_RUNNING)"

lemma evolved_refl [simp]: "evolved t t"
  by (simp add: evolved_def)

lemma evolved_trans: "evolved t t' \<Longrightarrow> evolved t' t'' \<Longrightarrow> evolved t t''"
  by (auto simp: evolved_def)

text \<open>The slices of a full turn: at least one, at most \<^verbatim>\<open>MAX_TIME_SLICE_NUM\<close>.\<close>

lemma full_slices:
  assumes "(w :: u32) < PRIORITY_DISPATCH"
  shows "0 < MAX_TIME_SLICE_NUM * w div PRIORITY_DISPATCH + 1" "MAX_TIME_SLICE_NUM * w div PRIORITY_DISPATCH + 1 \<le> MAX_TIME_SLICE_NUM"
proof -
  have w: "unat w < 64" using assms by (simp add: word_less_nat_alt)
  have "unat (8 * w) = 8 * unat w" using w by (simp add: unat_word_ariths)
  then have d: "unat (8 * w div 64) = 8 * unat w div 64" by (simp add: unat_div_distrib)
  then have "unat (8 * w div 64 + 1) = 8 * unat w div 64 + 1" using w by (simp add: unat_word_ariths)
  then show "0 < MAX_TIME_SLICE_NUM * w div PRIORITY_DISPATCH + 1" "MAX_TIME_SLICE_NUM * w div PRIORITY_DISPATCH + 1 \<le> MAX_TIME_SLICE_NUM"
    using w by (simp_all add: word_less_nat_alt word_le_nat_alt)
qed

lemma evolved_refreshed [simp]: "evolved t (refreshed t)"
  using full_slices(2) [of "priority t"] by (auto simp: evolved_def refreshed_def slice_ok_def)

lemma evolved_woken [simp]: "evolved t (woken now t)"
  using full_slices(2) [of "priority t"] by (auto simp: evolved_def woken_def refreshed_def slice_ok_def)

lemma refreshed_runs: "status t = TASK_READY \<or> status t = TASK_RUNNING \<Longrightarrow> runnable now (refreshed t)"
  using full_slices(1) [of "priority t"] by (auto simp: runnable_def refreshed_def word_gt_0 not_less)

lemma evolved_saved [simp]: "evolved t (saved ctx t)"
  by (auto simp: evolved_def slice_ok_def)

definition has_slice :: "thread_obj \<Rightarrow> bool" where
  "has_slice t \<longleftrightarrow> ((status t = TASK_READY \<or> status t = TASK_RUNNING) \<and>
     0 < priority t \<and> priority t < PRIORITY_DISPATCH \<longrightarrow> 0 < time_slices t)"

lemma has_slice_refreshed: "has_slice (refreshed t)"
  using full_slices(1) [of "priority t"] by (auto simp: has_slice_def refreshed_def word_gt_0)

lemma has_slice_woken: "runnable now t \<Longrightarrow> has_slice (woken now t)"
proof (cases "status t = TASK_SLEEP \<and> sleep_over now t")
  case True
  then show ?thesis unfolding woken_def using has_slice_refreshed by presburger
next
  case False
  moreover assume "runnable now t"
  ultimately have "has_slice t" unfolding runnable_def has_slice_def by (metis leD)
  then show ?thesis using False by (simp only: woken_def if_False)
qed

lemma evolved_resumed: "has_slice t \<Longrightarrow> evolved t (resumed cpu t)"
proof -
  assume h: "has_slice t"
  have "n - 1 \<le> MAX_TIME_SLICE_NUM" if "0 < n" "n \<le> MAX_TIME_SLICE_NUM" for n :: u32
  proof -
    have "unat (n - 1) = unat n - 1" using that(1) by (intro unat_minus_one) auto
    then show ?thesis using that by (simp add: word_le_nat_alt)
  qed
  then show ?thesis using h by (auto simp: evolved_def resumed_def slice_ok_def has_slice_def)
qed

subsection \<open>What is taken out of the queues\<close>

text \<open>\<open>c\<close> has been taken out of the queue of a priority of at least \<open>low\<close>, the other queues are as before.\<close>

definition took :: "nat \<Rightarrow> queues \<Rightarrow> ptr option \<Rightarrow> queues \<Rightarrow> bool" where
  "took low q c q' \<longleftrightarrow>
     (case c of None \<Rightarrow> q' = q
      | Some p \<Rightarrow> \<exists>i us vs. low \<le> i \<and> i < 256 \<and> q i = us @ p # vs \<and> q' = q(i := vs @ us))"

lemma tookI: "low \<le> i \<Longrightarrow> i < 256 \<Longrightarrow> q i = us @ p # vs \<Longrightarrow> q' = q(i := vs @ us) \<Longrightarrow> took low q (Some p) q'"
  unfolding took_def option.case by blast

lemma tookE:
  assumes "took low q (Some p) q'"
  obtains i us vs where "low \<le> i" "i < 256" "q i = us @ p # vs" "q' = q(i := vs @ us)"
  using assms unfolding took_def option.case by blast

lemma took_mono: "took low q c q' \<Longrightarrow> low' \<le> low \<Longrightarrow> took low' q c q'"
proof (cases c)
  case (Some p)
  assume "took low q c q'" "low' \<le> low"
  then show ?thesis unfolding Some by (elim tookE) (rule tookI, simp_all)
qed (simp add: took_def)

lemma took_choose: "choose_task P q (down hi lo) = Some (p, q') \<Longrightarrow> hi < 256 \<Longrightarrow> took (Suc lo) q (Some p) q'"
proof -
  assume "choose_task P q (down hi lo) = Some (p, q')" and hi: "hi < 256"
  from this(1) obtain as i bs us vs where "down hi lo = as @ i # bs" "q i = us @ p # vs" "q' = q(i := vs @ us)" by (rule choose_task_Some)
  moreover from this(1) have "i \<in> set (down hi lo)" by simp
  then have "i \<in> {lo<..hi}" by (simp only: set_down)
  then have "Suc lo \<le> i" "i < 256" using hi by simp_all
  ultimately show ?thesis using tookI by blast
qed

lemma spec_any_took:
  assumes "spec_any now q T = (c, q', T')"
  shows "took 2 q c q'" "evolved (T p) (T' p)"
proof -
  have "took 2 q c q' \<and> (\<forall>p. evolved (T p) (T' p))"
  proof (cases "choose_task (\<lambda>_. True) q (down 255 63)")
    case None
    note n = this
    show ?thesis
    proof (cases "choose_task (\<lambda>p. runnable now (T p)) q (down 64 1)")
      case None
      then show ?thesis using n assms by (auto simp: spec_any_def took_def)
    next
      case (Some x)
      then show ?thesis using n assms took_choose [of "\<lambda>p. runnable now (T p)" q 64 1] by (cases x) (auto simp: spec_any_def numeral_2_eq_2)
    qed
  next
    case (Some x)
    then obtain a q1 where x: "choose_task (\<lambda>_. True) q (down 255 63) = Some (a, q1)" by (cases x) auto
    then have "took 64 q (Some a) q1" using took_choose [OF x] by simp
    then have "took 2 q (Some a) q1" by (rule took_mono) simp
    then show ?thesis using x assms by (simp add: spec_any_def)
  qed
  then show "took 2 q c q'" "evolved (T p) (T' p)" by auto
qed

lemma spec_any_other:
  assumes "spec_any now q T = (c, q', T')" "\<And>i. i \<in> {1<..255} \<Longrightarrow> p \<notin> set (q i)"
  shows "T' p = T p"
proof (cases "T' = T")
  case False
  then obtain a q1 where a: "choose_task (\<lambda>p. runnable now (T p)) q (down 64 1) = Some (a, q1)" "T' = T(a := woken now (T a))"
    using assms(1) by (auto simp: spec_any_def split: option.splits)
  have "took 2 q (Some a) q1" using took_choose [OF a(1)] by (simp add: numeral_2_eq_2)
  then obtain i us vs where "2 \<le> i" "i < 256" "q i = us @ a # vs" by (rule tookE)
  then have "p \<noteq> a" using assms(2) [of i] by auto
  then show ?thesis using a(2) by simp
qed simp

lemma spec_idle_fit_took:
  assumes "spec_idle_fit now (c, q, T) = (d, q', T')"
  shows "d = c \<and> q' = q \<and> T' = T \<and> (\<forall>p \<in> set (q 1). \<not> runnable now (T p)) \<or> d \<noteq> None \<and> took 1 q d q' \<and> (\<forall>j. j \<noteq> 1 \<longrightarrow> q' j = q j)"
    "evolved (T p) (T' p)"
proof -
  have "(d = c \<and> q' = q \<and> T' = T \<and> (\<forall>p \<in> set (q 1). \<not> runnable now (T p)) \<or> d \<noteq> None \<and> took 1 q d q' \<and> (\<forall>j. j \<noteq> 1 \<longrightarrow> q' j = q j)) \<and> (\<forall>p. evolved (T p) (T' p))"
  proof (cases "first_fit (\<lambda>p. runnable now (T p)) (q 1)")
    case None
    then have "\<forall>p \<in> set (q 1). \<not> runnable now (T p)" by (simp add: first_fit_None)
    then show ?thesis using None assms by (auto simp: spec_idle_fit_def)
  next
    case (Some x)
    then obtain a xs where x: "first_fit (\<lambda>p. runnable now (T p)) (q 1) = Some (a, xs)" by (cases x) auto
    then obtain us vs where uv: "q 1 = us @ a # vs" "xs = vs @ us" by (rule first_fit_Some)
    have r: "d = Some a" "q' = q(1 := xs)" "T' = T(a := woken now (T a))" using x assms by (simp_all add: spec_idle_fit_def)
    have "took 1 q (Some a) q'" by (rule tookI [where i = 1]) (simp, simp, rule uv(1), simp only: uv r)
    then show ?thesis using r by simp
  qed
  then show "d = c \<and> q' = q \<and> T' = T \<and> (\<forall>p \<in> set (q 1). \<not> runnable now (T p)) \<or> d \<noteq> None \<and> took 1 q d q' \<and> (\<forall>j. j \<noteq> 1 \<longrightarrow> q' j = q j)"
    "evolved (T p) (T' p)" by auto
qed

text \<open>The queue of priority 1 is looked at for \<open>c\<close>; a thread of it that is ready is found, if need be after a refresh.\<close>

lemma spec_idle_took:
  assumes "spec_idle now (c, q, T) = (d, q', T')"
  shows "d = c \<and> q' = q \<or> d \<noteq> None \<and> took 1 q d q' \<and> (\<forall>j. j \<noteq> 1 \<longrightarrow> q' j = q j)" "evolved (T p) (T' p)"
    "c \<noteq> None \<Longrightarrow> \<forall>p \<in> set (q 1). \<not> runnable now (T p) \<Longrightarrow> d = c \<and> q' = q \<and> T' = T"
    "w \<in> set (q 1) \<Longrightarrow> status (T w) = TASK_READY \<or> status (T w) = TASK_RUNNING \<Longrightarrow> d \<noteq> None"
proof -
  obtain d1 q1 T1 where f1: "spec_idle_fit now (c, q, T) = (d1, q1, T1)" by (cases "spec_idle_fit now (c, q, T)")
  note k1 = spec_idle_fit_took [OF f1]
  have "(d = c \<and> q' = q \<or> d \<noteq> None \<and> took 1 q d q' \<and> (\<forall>j. j \<noteq> 1 \<longrightarrow> q' j = q j)) \<and> evolved (T p) (T' p) \<and>
    (c \<noteq> None \<longrightarrow> (\<forall>p \<in> set (q 1). \<not> runnable now (T p)) \<longrightarrow> d = c \<and> q' = q \<and> T' = T) \<and>
    (w \<in> set (q 1) \<longrightarrow> status (T w) = TASK_READY \<or> status (T w) = TASK_RUNNING \<longrightarrow> d \<noteq> None)"
  proof (cases "q 1 = []")
    case True
    then show ?thesis using assms by (simp add: spec_idle_def)
  next
    case q1: False
    show ?thesis
    proof (cases d1)
      case (Some a)
      then have r: "(d, q', T') = (d1, q1, T1)" using assms f1 q1 by (simp add: spec_idle_def)
      have "c \<noteq> None \<longrightarrow> (\<forall>p \<in> set (q 1). \<not> runnable now (T p)) \<longrightarrow> d1 = c \<and> q1 = q \<and> T1 = T"
        using f1 first_fit_None [of "\<lambda>p. runnable now (T p)" "q 1"] by (auto simp: spec_idle_fit_def)
      then show ?thesis using r k1 Some by auto
    next
      case None
      then have c: "c = None" "q1 = q" "T1 = T" using k1(1) by auto
      let ?T = "refresh_queues q {1} T"
      have f2: "spec_idle_fit now (None, q, ?T) = (d, q', T')" using assms f1 q1 None c by (simp add: spec_idle_def)
      note k2 = spec_idle_fit_took [OF f2]
      have "evolved (T p) (?T p)" by (simp add: refresh_queues_def)
      then have e: "evolved (T p) (T' p)" using k2(2) evolved_trans by blast
      have "d \<noteq> None" if w: "w \<in> set (q 1)" "status (T w) = TASK_READY \<or> status (T w) = TASK_RUNNING"
      proof -
        have "?T w = refreshed (T w)" using w(1) by (simp add: refresh_queues_def)
        then have "runnable now (?T w)" using refreshed_runs [OF w(2), of now] by metis
        then show ?thesis using k2(1) w(1) by auto
      qed
      then show ?thesis using k2(1) e c by auto
    qed
  qed
  then show "d = c \<and> q' = q \<or> d \<noteq> None \<and> took 1 q d q' \<and> (\<forall>j. j \<noteq> 1 \<longrightarrow> q' j = q j)" "evolved (T p) (T' p)"
    "c \<noteq> None \<Longrightarrow> \<forall>p \<in> set (q 1). \<not> runnable now (T p) \<Longrightarrow> d = c \<and> q' = q \<and> T' = T"
    "w \<in> set (q 1) \<Longrightarrow> status (T w) = TASK_READY \<or> status (T w) = TASK_RUNNING \<Longrightarrow> d \<noteq> None" by blast+
qed

subsection \<open>The invariant of the queues\<close>

definition placed :: "queues \<Rightarrow> tasks \<Rightarrow> bool" where
  "placed q T \<longleftrightarrow> (\<forall>i < 256. distinct (q i) \<and> (\<forall>p \<in> set (q i). unat (priority (T p)) = i))"

definition threads_of :: "queues \<Rightarrow> ptr set" where
  "threads_of q = (\<Union>i \<in> {..<256}. set (q i))"

text \<open>
  The idle thread has the priority 1 and waits in its list, or the priority 0 (\<^verbatim>\<open>PRIORITY_IDLE\<close>, which
  \<^verbatim>\<open>core_pm_idle\<close> sets), whose list is never searched.
\<close>

definition idle_ok :: "queues \<Rightarrow> tasks \<Rightarrow> ptr \<Rightarrow> ptr \<Rightarrow> bool" where
  "idle_ok q T cur idle \<longleftrightarrow>
     (status (T idle) = TASK_READY \<or> status (T idle) = TASK_RUNNING) \<and>
     (if priority (T idle) = 0 then set (q 0) \<subseteq> {idle} \<and> (priority (T cur) = 0 \<longrightarrow> cur = idle)
      else priority (T idle) = PRIORITY_IDLE_TASK \<and> (idle = cur \<or> idle \<in> set (q 1)))"

definition queues_ok :: "queues \<Rightarrow> tasks \<Rightarrow> ptr \<Rightarrow> ptr \<Rightarrow> bool" where
  "queues_ok q T cur idle \<longleftrightarrow>
     placed q T \<and> fresh_for q (unat (priority (T cur))) cur \<and> priority (T cur) < 256 \<and> idle_ok q T cur idle"

lemma placedD: "placed q T \<Longrightarrow> i < 256 \<Longrightarrow> p \<in> set (q i) \<Longrightarrow> unat (priority (T p)) = i"
  unfolding placed_def by blast

lemma placed_evolved: "placed q T \<Longrightarrow> (\<And>p. evolved (T p) (T' p)) \<Longrightarrow> placed q T'"
  by (simp add: placed_def evolved_def)

lemma idle_ok_evolved: "idle_ok q T cur idle \<Longrightarrow> (\<And>p. evolved (T p) (T' p)) \<Longrightarrow> idle_ok q T' cur idle"
  unfolding idle_ok_def by (auto simp: evolved_def)

lemma queues_ok_evolved: "queues_ok q T cur idle \<Longrightarrow> (\<And>p. evolved (T p) (T' p)) \<Longrightarrow> queues_ok q T' cur idle"
  unfolding queues_ok_def using placed_evolved [of q T T'] idle_ok_evolved [of q T cur idle T'] by (simp add: evolved_def)

lemma took_placed:
  assumes "took low q (Some p) q'" "placed q T"
  shows "placed q' T" "\<And>j. j < 256 \<Longrightarrow> p \<notin> set (q' j)" "p \<in> threads_of q" "threads_of q = insert p (threads_of q')"
    "priority (T p) < 256" "x \<noteq> p \<Longrightarrow> x \<in> set (q j) \<Longrightarrow> x \<in> set (q' j)" "low \<le> unat (priority (T p))"
    "j < low \<Longrightarrow> q' j = q j"
proof -
  from assms(1) obtain i us vs where t: "low \<le> i" "i < 256" "q i = us @ p # vs" "q' = q(i := vs @ us)" by (rule tookE)
  have d: "distinct (us @ p # vs)" "\<forall>x \<in> set (us @ p # vs). unat (priority (T x)) = i"
    using assms(2) t(2,3) unfolding placed_def by metis+
  show "placed q' T" using assms(2) t(4) d by (auto simp: placed_def)
  show "p \<notin> set (q' j)" if "j < 256" for j
  proof (cases "j = i")
    case False
    have "unat (priority (T p)) = i" using d(2) by simp
    then have "p \<notin> set (q j)" using assms(2) that False by (auto simp: placed_def)
    then show ?thesis using t(4) False by simp
  qed (use t(4) d(1) in auto)
  show "p \<in> threads_of q" unfolding threads_of_def using t(2,3) by (intro UN_I [of i]) simp_all
  show "threads_of q = insert p (threads_of q')" using t by (auto simp: threads_of_def split: if_splits) (metis Un_iff lessThan_iff set_append set_ConsD list.set_intros)+
  show "priority (T p) < 256" "low \<le> unat (priority (T p))" using d(2) t(1,2) by (simp_all add: word_less_nat_alt)
  show "x \<noteq> p \<Longrightarrow> x \<in> set (q j) \<Longrightarrow> x \<in> set (q' j)" using t by auto
  show "j < low \<Longrightarrow> q' j = q j" using t by auto
qed

lemma enqueue_set: "set (enqueue q pri p j) = (if j = pri then insert p (set (q j)) else set (q j))"
  by (auto simp: enqueue_def)

lemma enqueue_placed:
  assumes "placed q T" "fresh_for q (unat (priority (T p))) p" "priority (T p) < 256"
  shows "placed (enqueue q (unat (priority (T p))) p) T" "threads_of (enqueue q (unat (priority (T p))) p) = insert p (threads_of q)"
proof -
  have n: "unat (priority (T p)) < 256" using assms(3) by (simp add: word_less_nat_alt)
  then have "q (unat (priority (T p))) = [p] \<or> p \<notin> set (q (unat (priority (T p))))" using assms(2) by (auto simp: fresh_for_def)
  then show "placed (enqueue q (unat (priority (T p))) p) T" using assms(1) by (auto simp: placed_def enqueue_def)
  show "threads_of (enqueue q (unat (priority (T p))) p) = insert p (threads_of q)"
    using n by (auto simp: threads_of_def enqueue_set split: if_splits)
qed

lemma spec_preempt_ok:
  assumes ok: "queues_ok q T cur idle" and r: "spec_preempt now q T cur pri = (q', T', cur')" and pri: "pri < 256"
  shows "queues_ok q' T' cur' idle" "evolved (T p) (T' p)" "insert cur' (threads_of q') = insert cur (threads_of q)"
proof -
  have "queues_ok q' T' cur' idle \<and> (\<forall>p. evolved (T p) (T' p)) \<and> insert cur' (threads_of q') = insert cur (threads_of q)"
  proof (cases "q' = q \<and> T' = T \<and> cur' = cur")
    case True
    then show ?thesis using ok by simp
  next
    case False
    then obtain q1 where c: "took 2 q (Some cur') q1" "q' = enqueue q1 (unat (priority (T cur))) cur" "T' = T \<or> T' = T(cur' := woken now (T cur'))"
    proof (cases "choose_task (\<lambda>_. True) q (down 255 (max pri 63))")
      case None
      note n = this
      show ?thesis
      proof (cases "choose_task (\<lambda>p. runnable now (T p)) q (down 63 (max pri 1))")
        case None
        then show ?thesis using n r False by (auto simp: spec_preempt_def Let_def)
      next
        case (Some x)
        then obtain a q1 where x: "choose_task (\<lambda>p. runnable now (T p)) q (down 63 (max pri 1)) = Some (a, q1)" by (cases x) auto
        have "took 2 q (Some a) q1" using took_mono [OF took_choose [OF x], of 2] by simp
        then show ?thesis using n r x that by (auto simp: spec_preempt_def Let_def)
      qed
    next
      case (Some x)
      then obtain a q1 where x: "choose_task (\<lambda>_. True) q (down 255 (max pri 63)) = Some (a, q1)" by (cases x) auto
      have "took 2 q (Some a) q1" using took_mono [OF took_choose [OF x], of 2] by simp
      then show ?thesis using r x that by (auto simp: spec_preempt_def Let_def)
    qed
    have e: "evolved (T p) (T' p)" for p using c(3) by auto
    have p: "placed q T" "fresh_for q (unat (priority (T cur))) cur" "priority (T cur) < 256" using ok by (simp_all add: queues_ok_def)
    note t = took_placed [OF c(1) p(1)]
    have single: "q (unat (priority (T cur))) = [cur]" if "i < 256" "cur \<in> set (q i)" for i using p(2) that by (auto simp: fresh_for_def)
    from c(1) obtain i us vs where u: "2 \<le> i" "i < 256" "q i = us @ cur' # vs" "q1 = q(i := vs @ us)" by (rule tookE)
    have f1: "fresh_for q1 (unat (priority (T cur))) cur" using fresh_for_taken [OF p(2) u(3,2)] u(4) by simp
    note en = enqueue_placed [OF t(1) f1 p(3)]
    have "fresh_for q' (unat (priority (T cur'))) cur'"
    proof (cases "cur' = cur")
      case True
      then have "q i = [cur]" using single [OF u(2)] u(3) p(2) u(2) by (auto simp: fresh_for_def)
      then have "q1 i = []" using u True by (cases us) auto
      moreover have "unat (priority (T cur)) = i" using \<open>q i = [cur]\<close> p(1) u(2) by (auto simp: placed_def)
      ultimately show ?thesis using t(2) True c(2) by (auto simp: fresh_for_def enqueue_def)
    next
      case False
      then show ?thesis using t(2) c(2) by (auto simp: fresh_for_def enqueue_set split: if_splits)
    qed
    moreover have "idle_ok q' T cur' idle"
    proof (cases "priority (T idle) = 0")
      case True
      then have i0: "set (q 0) \<subseteq> {idle}" "priority (T cur) = 0 \<longrightarrow> cur = idle" using ok by (simp_all add: queues_ok_def idle_ok_def)
      have "set (q' 0) \<subseteq> {idle}" using i0 t(8) [of 0] c(2) by (auto simp: enqueue_set unat_eq_0 split: if_splits)
      moreover have "priority (T cur') \<noteq> 0" using t(7) by auto
      ultimately show ?thesis using True ok by (simp add: queues_ok_def idle_ok_def)
    next
      case False
      then have pr: "priority (T idle) = 1" "idle = cur \<or> idle \<in> set (q 1)" using ok by (auto simp: queues_ok_def idle_ok_def)
      have "idle \<in> set (q' 1)"
      proof (cases "idle = cur")
        case True
        then show ?thesis using pr(1) c(2) by (simp add: enqueue_set)
      next
        case False
        then have "idle \<in> set (q 1)" using pr(2) by simp
        then show ?thesis using t(8) [of 1] c(2) by (cases "unat (priority (T cur)) = 1") (simp_all add: enqueue_set)
      qed
      then show ?thesis using pr(1) ok by (simp add: queues_ok_def idle_ok_def)
    qed
    then have "idle_ok q' T' cur' idle" by (rule idle_ok_evolved) (rule e)
    moreover have "priority (T' x) = priority (T x)" for x using e by (simp add: evolved_def)
    moreover have "insert cur' (threads_of q') = insert cur (threads_of q)" using t(4) en(2) c(2) by auto
    ultimately show ?thesis using placed_evolved [OF en(1) e] t(5) e c(2) by (simp add: queues_ok_def)
  qed
  then show "queues_ok q' T' cur' idle" "evolved (T p) (T' p)" "insert cur' (threads_of q') = insert cur (threads_of q)" by auto
qed

lemma spec_any_refresh_other:
  assumes "(case spec_any now Q T of (None, q, T) \<Rightarrow> spec_any now q (refresh_queues q {1<..63} T) | r \<Rightarrow> r) = (c, q, T')"
    "\<And>i. i \<in> {1<..255} \<Longrightarrow> p \<notin> set (Q i)"
  shows "T' p = T p"
proof -
  obtain c1 q1 T1 where s1: "spec_any now Q T = (c1, q1, T1)" by (cases "spec_any now Q T")
  note t1 = spec_any_other [OF s1 assms(2)]
  show ?thesis
  proof (cases c1)
    case None
    then have "q1 = Q" using spec_any_took(1) [OF s1] by (simp add: took_def)
    then have "spec_any now Q (refresh_queues Q {1<..63} T1) = (c, q, T')" using assms(1) s1 None by simp
    from spec_any_other [OF this assms(2)] have "T' p = refresh_queues Q {1<..63} T1 p" by simp
    also have "\<dots> = T1 p" using assms(2) by (auto simp: refresh_queues_def)
    finally show ?thesis using t1 by simp
  qed (use assms(1) s1 t1 in simp)
qed

lemma spec_any_refresh:
  assumes "(case spec_any now Q T of (None, q, T) \<Rightarrow> spec_any now q (refresh_queues q {1<..63} T) | r \<Rightarrow> r) = (c, q, T')"
  shows "took 2 Q c q" "evolved (T p) (T' p)"
    "c = None \<Longrightarrow> i \<in> {1<..63} \<Longrightarrow> x \<in> set (Q i) \<Longrightarrow> \<not> (status (T x) = TASK_READY \<or> status (T x) = TASK_RUNNING)"
    "c = None \<Longrightarrow> i \<in> {63<..255} \<Longrightarrow> Q i = []"
proof -
  obtain c1 q1 T1 where s1: "spec_any now Q T = (c1, q1, T1)" by (cases "spec_any now Q T")
  note t1 = spec_any_took [OF s1]
  have "took 2 Q c q \<and> evolved (T p) (T' p) \<and>
    (c = None \<longrightarrow> i \<in> {1<..63} \<longrightarrow> x \<in> set (Q i) \<longrightarrow> \<not> (status (T x) = TASK_READY \<or> status (T x) = TASK_RUNNING)) \<and>
    (c = None \<longrightarrow> i \<in> {63<..255} \<longrightarrow> Q i = [])"
  proof (cases c1)
    case (Some a)
    then show ?thesis using assms s1 t1 by auto
  next
    case None
    then have q1: "q1 = Q" "T1 = T" using s1 by (auto simp: spec_any_def split: option.splits)
    let ?T = "refresh_queues Q {1<..63} T"
    have s2: "spec_any now Q ?T = (c, q, T')" using assms s1 None q1 by simp
    note t2 = spec_any_took [OF s2]
    have "evolved (T p) (?T p)" by (simp add: refresh_queues_def)
    then have "evolved (T p) (T' p)" using t2(2) evolved_trans by blast
    moreover have "\<not> (status (T x) = TASK_READY \<or> status (T x) = TASK_RUNNING)" if "c = None" "i \<in> {1<..63}" "x \<in> set (Q i)"
    proof
      assume "status (T x) = TASK_READY \<or> status (T x) = TASK_RUNNING"
      moreover have "?T x = refreshed (T x)" using that by (auto simp: refresh_queues_def)
      ultimately have "runnable now (?T x)" using refreshed_runs by metis
      moreover have "choose_task (\<lambda>p. runnable now (?T p)) Q (down 64 1) = None"
        using s2 that(1) by (auto simp: spec_any_def split: option.splits)
      ultimately show False using that(2,3) unfolding choose_task_None by auto
    qed
    moreover have "Q i = []" if "c = None" "i \<in> {63<..255}"
    proof -
      have "choose_task (\<lambda>_. True) Q (down 255 63) = None" using s2 that(1) by (auto simp: spec_any_def split: option.splits)
      then show ?thesis using that(2) unfolding choose_task_None set_down by auto
    qed
    ultimately show ?thesis using t2(1) by blast
  qed
  then show "took 2 Q c q" "evolved (T p) (T' p)"
    "c = None \<Longrightarrow> i \<in> {1<..63} \<Longrightarrow> x \<in> set (Q i) \<Longrightarrow> \<not> (status (T x) = TASK_READY \<or> status (T x) = TASK_RUNNING)"
    "c = None \<Longrightarrow> i \<in> {63<..255} \<Longrightarrow> Q i = []" by blast+
qed

text \<open>The queues with the current thread put back.\<close>

definition back_in :: "queues \<Rightarrow> tasks \<Rightarrow> ptr \<Rightarrow> queues" where
  "back_in q T cur =
     (if status (T cur) \<in> {TASK_RUNNING, TASK_READY, TASK_SLEEP} then enqueue q (unat (priority (T cur))) cur else q)"

lemma spec_replace_back:
  "spec_replace now q T cur idle =
     (case spec_idle now (case spec_any now (back_in q T cur) T of (None, q, T) \<Rightarrow> spec_any now q (refresh_queues q {1<..63} T) | r \<Rightarrow> r) of
        (c, q, T) \<Rightarrow> (q, T, case c of Some p \<Rightarrow> p | None \<Rightarrow> idle))"
  by (simp only: spec_replace_def Let_def back_in_def)

lemma queues_ok_back:
  assumes "queues_ok q T cur idle"
  shows "placed (back_in q T cur) T" "priority (T idle) \<noteq> 0 \<Longrightarrow> idle \<in> set (back_in q T cur 1)"
    "threads_of (back_in q T cur) = (if status (T cur) \<in> {TASK_RUNNING, TASK_READY, TASK_SLEEP} then insert cur (threads_of q) else threads_of q)"
    "priority (T idle) = 0 \<Longrightarrow> set (back_in q T cur 0) \<subseteq> {idle}"
  using assms enqueue_placed [of q T cur] unfolding queues_ok_def idle_ok_def back_in_def by (auto simp: enqueue_set unat_eq_0 split: if_splits)

lemma spec_replace_ok:
  assumes ok: "queues_ok q T cur idle" and r: "spec_replace now q T cur idle = (q', T', cur')"
  shows "queues_ok q' T' cur' idle" "evolved (T p) (T' p)"
    "\<forall>p \<in> set (back_in q T cur 1). \<not> runnable now (T p) \<Longrightarrow>
      insert idle (insert cur' (threads_of q')) = insert idle (threads_of (back_in q T cur))"
proof -
  let ?Q = "back_in q T cur"
  note Q = queues_ok_back [OF ok]
  obtain c1 q1 T1 where s1: "(case spec_any now ?Q T of (None, q, T) \<Rightarrow> spec_any now q (refresh_queues q {1<..63} T) | r \<Rightarrow> r) = (c1, q1, T1)"
    by (cases "case spec_any now ?Q T of (None, q, T) \<Rightarrow> spec_any now q (refresh_queues q {1<..63} T) | r \<Rightarrow> r")
  note a = spec_any_refresh [OF s1]
  obtain d q2 T2 where s2: "spec_idle now (c1, q1, T1) = (d, q2, T2)" by (cases "spec_idle now (c1, q1, T1)")
  note b = spec_idle_took [OF s2]
  have e: "evolved (T p) (T2 p)" for p using evolved_trans a(2) b(2) by blast
  have res: "q' = q2" "T' = T2" "cur' = (case d of Some p \<Rightarrow> p | None \<Rightarrow> idle)" using r s1 s2 by (auto simp: spec_replace_back)
  have p1: "placed q1 T \<and> q1 1 = ?Q 1 \<and> q1 0 = ?Q 0"
  proof (cases c1)
    case None
    then show ?thesis using a(1) Q(1) by (simp add: took_def)
  next
    case (Some y)
    then show ?thesis using took_placed(1) [of 2 ?Q y q1 T] took_placed(8) [of 2 ?Q y q1 T 1] took_placed(8) [of 2 ?Q y q1 T 0] a(1) Q(1) by simp
  qed
  have st: "status (T idle) = TASK_READY \<or> status (T idle) = TASK_RUNNING" and p01: "priority (T idle) = 0 \<or> priority (T idle) = 1"
    using ok by (auto simp: queues_ok_def idle_ok_def split: if_splits)
  have st1: "status (T1 idle) = TASK_READY \<or> status (T1 idle) = TASK_RUNNING" using a(2) [of idle] st by (auto simp: evolved_def)
  have from_any: "took 2 ?Q (Some x) q2" if "d = Some x" "d = c1 \<and> q2 = q1" for x using that a(1) by simp
  have from_idle: "took 1 q1 (Some x) q2" if "d = Some x" "\<not> (d = c1 \<and> q2 = q1)" for x using that b(1) by auto
  show "evolved (T p) (T' p)" using e res by simp
  have "queues_ok q2 T cur' idle"
  proof (cases d)
    case None
    then have n: "c1 = None" "q2 = q1" using b(1) by auto
    then have q2: "q2 = ?Q" using a(1) by (simp add: took_def)
    have z: "priority (T idle) = 0" using b(4) [of idle] st1 None n(2) q2 Q(2) by auto
    have i0: "set (?Q 0) \<subseteq> {idle}" using Q(4) [OF z] .
    have "fresh_for ?Q 0 idle"
      unfolding fresh_for_def
    proof (intro allI impI)
      fix i assume i: "i < 256" "idle \<in> set (?Q i)"
      then have "i = 0" using placedD [OF Q(1) i] z by simp
      moreover have "distinct (?Q 0)" using Q(1) by (simp add: placed_def)
      ultimately show "i = 0 \<and> ?Q i = [idle]" using i(2) i0 by (cases "?Q 0"; cases "tl (?Q 0)") auto
    qed
    then show ?thesis using Q(1) q2 None res(3) z i0 st by (simp add: queues_ok_def idle_ok_def)
  next
    case d: (Some x)
    have *: "placed q2 T \<and> (\<forall>j < 256. x \<notin> set (q2 j)) \<and> priority (T x) < 256 \<and> 0 < unat (priority (T x)) \<and>
      (idle \<in> set (?Q 1) \<longrightarrow> idle = x \<or> idle \<in> set (q2 1)) \<and> q2 0 = ?Q 0"
    proof (cases "d = c1 \<and> q2 = q1")
      case True
      note t = took_placed [OF from_any [OF d True] Q(1)]
      show ?thesis using t(1,2,5,7) True p1 by auto
    next
      case False
      note t = took_placed [OF from_idle [OF d False] conjunct1 [OF p1]]
      show ?thesis using t(1,2,5,7) t(6) [of idle 1] t(8) [of 0] p1 by auto
    qed
    have "fresh_for q2 n x" for n using * by (auto simp: fresh_for_def)
    moreover have "idle_ok q2 T x idle"
      using * Q(2,4) st p01 by (auto simp: idle_ok_def unat_gt_0)
    ultimately show ?thesis using * d res(3) by (simp add: queues_ok_def)
  qed
  then show "queues_ok q' T' cur' idle" unfolding res(1,2) using e by (rule queues_ok_evolved)
  assume calm: "\<forall>p \<in> set (?Q 1). \<not> runnable now (T p)"
  show "insert idle (insert cur' (threads_of q')) = insert idle (threads_of ?Q)"
  proof (cases c1)
    case None
    then have q1: "q1 = ?Q" using a(1) by (simp add: took_def)
    show ?thesis
    proof (cases d)
      case None
      then have "q2 = q1" using b(1) by auto
      then show ?thesis using None q1 res by simp
    next
      case d: (Some x)
      have "\<not> (d = c1 \<and> q2 = q1)" using None d by simp
      then show ?thesis using took_placed(4) [OF from_idle [OF d] conjunct1 [OF p1]] q1 d res by simp
    qed
  next
    case (Some y)
    have "T1 p = T p" if p: "p \<in> set (?Q 1)" for p
    proof (rule spec_any_refresh_other [OF s1])
      show "p \<notin> set (?Q i)" if "i \<in> {1<..255}" for i
        using placedD [OF Q(1) _ p] placedD [OF Q(1), of i p] that by auto
    qed
    then have "d = c1 \<and> q2 = q1" using b(3) Some calm p1 by simp
    then show ?thesis using took_placed(4) [OF from_any Q(1)] Some res by simp
  qed
qed

text \<open>The thread that is chosen has time slices left.\<close>

lemma choose_realtime_prio:
  assumes "choose_task P q (down 255 lo) = Some (p, q')" "63 \<le> lo" "placed q T"
  shows "\<not> priority (T p) < PRIORITY_DISPATCH"
proof -
  have "took (Suc lo) q (Some p) q'" using took_choose [OF assms(1)] by simp
  from took_placed(7) [OF this assms(3)] show ?thesis using assms(2) by (simp add: word_less_nat_alt)
qed

lemma spec_any_slice:
  assumes "spec_any now q T = (Some p, q', T')" "placed q T"
  shows "has_slice (T' p)"
proof (cases "choose_task (\<lambda>_. True) q (down 255 63)")
  case None
  then obtain q1 where c: "choose_task (\<lambda>p. runnable now (T p)) q (down 64 1) = Some (p, q1)" "T' = T(p := woken now (T p))"
    using assms(1) by (auto simp: spec_any_def split: option.splits)
  from c(1) have "runnable now (T p)" by (rule choose_task_Some) simp
  then show ?thesis using c(2) has_slice_woken by simp
next
  case (Some x)
  then have "choose_task (\<lambda>_. True) q (down 255 63) = Some (p, q')" "T' = T" using assms(1) by (auto simp: spec_any_def split: prod.splits)
  then show ?thesis using choose_realtime_prio [OF _ _ assms(2)] by (simp add: has_slice_def)
qed

lemma spec_idle_fit_slice:
  assumes "spec_idle_fit now (c, q, T) = (Some p, q', T')" "c = Some p \<Longrightarrow> has_slice (T p)"
  shows "has_slice (T' p)"
proof (cases "first_fit (\<lambda>p. runnable now (T p)) (q 1)")
  case None
  then show ?thesis using assms by (simp add: spec_idle_fit_def)
next
  case (Some x)
  then obtain xs where f: "first_fit (\<lambda>p. runnable now (T p)) (q 1) = Some (p, xs)" "T' = T(p := woken now (T p))"
    using assms(1) by (auto simp: spec_idle_fit_def split: prod.splits)
  from f(1) have "runnable now (T p)" by (rule first_fit_Some) simp
  then show ?thesis using f(2) has_slice_woken by simp
qed

lemma spec_idle_slice:
  assumes "spec_idle now (c, q, T) = (Some p, q', T')" "c = Some p \<Longrightarrow> has_slice (T p)"
  shows "has_slice (T' p)"
proof (cases "q 1 = []")
  case True
  then show ?thesis using assms by (simp add: spec_idle_def)
next
  case False
  obtain d1 q1 T1 where f1: "spec_idle_fit now (c, q, T) = (d1, q1, T1)" by (cases "spec_idle_fit now (c, q, T)")
  show ?thesis
  proof (cases d1)
    case None
    then have "spec_idle_fit now (None, q1, refresh_queues q1 {1} T1) = (Some p, q', T')" using assms(1) f1 False by (simp add: spec_idle_def)
    then show ?thesis by (rule spec_idle_fit_slice) simp
  next
    case (Some a)
    then have "spec_idle_fit now (c, q, T) = (Some p, q', T')" using assms(1) f1 False by (simp add: spec_idle_def)
    then show ?thesis using assms(2) by (rule spec_idle_fit_slice)
  qed
qed

lemma spec_preempt_slice:
  assumes "spec_preempt now q T cur pri = (q', T', cur')" "placed q T" "has_slice (T cur)"
  shows "has_slice (T' cur')"
proof (cases "choose_task (\<lambda>_. True) q (down 255 (max pri 63))")
  case None
  note n = this
  show ?thesis
  proof (cases "choose_task (\<lambda>p. runnable now (T p)) q (down 63 (max pri 1))")
    case None
    then show ?thesis using n assms by (simp add: spec_preempt_def Let_def)
  next
    case (Some x)
    then obtain q1 where c: "choose_task (\<lambda>p. runnable now (T p)) q (down 63 (max pri 1)) = Some (cur', q1)" "T' = T(cur' := woken now (T cur'))"
      using n assms(1) by (cases x) (auto simp: spec_preempt_def Let_def)
    from c(1) have "runnable now (T cur')" by (rule choose_task_Some) simp
    then show ?thesis using c(2) has_slice_woken by simp
  qed
next
  case (Some x)
  then obtain q1 where "choose_task (\<lambda>_. True) q (down 255 (max pri 63)) = Some (cur', q1)" "T' = T"
    using assms(1) by (cases x) (auto simp: spec_preempt_def Let_def)
  then show ?thesis using choose_realtime_prio [OF _ _ assms(2)] by (simp add: has_slice_def)
qed

lemma spec_replace_slice:
  assumes ok: "queues_ok q T cur idle" and r: "spec_replace now q T cur idle = (q', T', cur')"
  shows "has_slice (T' cur')"
proof -
  let ?Q = "back_in q T cur"
  note Q = queues_ok_back [OF ok]
  obtain c0 q0 T0 where s0: "spec_any now ?Q T = (c0, q0, T0)" by (cases "spec_any now ?Q T")
  obtain c1 q1 T1 where s1: "(case spec_any now ?Q T of (None, q, T) \<Rightarrow> spec_any now q (refresh_queues q {1<..63} T) | r \<Rightarrow> r) = (c1, q1, T1)"
    by (cases "case spec_any now ?Q T of (None, q, T) \<Rightarrow> spec_any now q (refresh_queues q {1<..63} T) | r \<Rightarrow> r")
  have c1: "has_slice (T1 p)" if "c1 = Some p" for p
  proof (cases c0)
    case None
    then have q0: "q0 = ?Q" "T0 = T" using s0 by (auto simp: spec_any_def split: option.splits)
    have "spec_any now ?Q (refresh_queues ?Q {1<..63} T) = (Some p, q1, T1)" using s0 s1 None q0 that by simp
    moreover have "placed ?Q (refresh_queues ?Q {1<..63} T)" using Q(1) by (rule placed_evolved) (simp add: refresh_queues_def)
    ultimately show ?thesis by (rule spec_any_slice)
  next
    case (Some a)
    then have "spec_any now ?Q T = (Some p, q1, T1)" using s0 s1 that by simp
    then show ?thesis using Q(1) by (rule spec_any_slice)
  qed
  obtain d q2 T2 where s2: "spec_idle now (c1, q1, T1) = (d, q2, T2)" by (cases "spec_idle now (c1, q1, T1)")
  have res: "T' = T2" "cur' = (case d of Some p \<Rightarrow> p | None \<Rightarrow> idle)" using r s1 s2 by (auto simp: spec_replace_back)
  show ?thesis
  proof (cases d)
    case (Some x)
    then show ?thesis using spec_idle_slice [OF s2 [unfolded Some] c1] res by simp
  next
    case None
    have e: "evolved (T idle) (T1 idle)" by (rule spec_any_refresh(2) [OF s1])
    then have "status (T1 idle) = TASK_READY \<or> status (T1 idle) = TASK_RUNNING" using ok by (auto simp: queues_ok_def idle_ok_def evolved_def)
    then have "idle \<notin> set (q1 1)" using spec_idle_took(4) [OF s2] None by blast
    then have "idle \<notin> set (?Q 1)"
      using spec_any_refresh(1) [OF s1] Q(1) took_placed(8) [of 2 ?Q _ q1 T 1] by (cases c1) (auto simp: took_def)
    then have "priority (T idle) = 0" using Q(2) by blast
    then have "priority (T2 idle) = 0" using e spec_idle_took(2) [OF s2, of idle] by (simp add: evolved_def)
    then show ?thesis using None res by (simp add: has_slice_def)
  qed
qed

subsection \<open>A tick\<close>

lemma spec_next_ok:
  assumes ok: "queues_ok q T cur idle" and r: "spec_next now q T cur pri idle = (q', T', cur')" and pri: "pri < 256"
  shows "queues_ok q' T' cur' idle" "evolved (T p) (T' p)" "has_slice (T' cur')"
proof -
  let ?T = "T(cur := woken now (T cur))"
  have e: "evolved (T p) (?T p)" for p by simp
  note ok' = queues_ok_evolved [OF ok e]
  have "queues_ok q' T' cur' idle \<and> evolved (?T p) (T' p) \<and> has_slice (T' cur')"
  proof (cases "runnable now (T cur)")
    case False
    then have r': "spec_replace now q ?T cur idle = (q', T', cur')" using r by (simp add: spec_next_def Let_def)
    show ?thesis using spec_replace_ok(1,2) [OF ok' r'] spec_replace_slice [OF ok' r'] by blast
  next
    case True
    then have h: "has_slice (?T cur)" by (simp add: has_slice_woken)
    show ?thesis
    proof (cases "priority (T cur) = PRIORITY_HIGHEST")
      case p: True
      then have "q' = q \<and> T' = ?T \<and> cur' = cur" using r True by (auto simp: spec_next_def Let_def)
      then show ?thesis using ok' h by (metis evolved_refl)
    next
      case False
      then have r': "spec_preempt now q ?T cur pri = (q', T', cur')" using r True by (simp add: spec_next_def Let_def)
      have "placed q ?T" using ok' unfolding queues_ok_def by blast
      from spec_preempt_slice [OF r' this h] show ?thesis using spec_preempt_ok(1,2) [OF ok' r' pri] by blast
    qed
  qed
  then show "queues_ok q' T' cur' idle" "evolved (T p) (T' p)" "has_slice (T' cur')" using e evolved_trans by blast+
qed

lemma spec_tick_ok:
  assumes ok: "queues_ok q T cur idle" and r: "spec_tick now cpu ctx q T cur pri idle = (q', T', cur')" and pri: "pri < 256"
  shows "queues_ok q' T' cur' idle" "evolved (T p) (T' p)"
proof -
  let ?T = "T(cur := saved ctx (T cur))"
  have e: "evolved (T p) (?T p)" for p by simp
  obtain T1 where s: "spec_next now q ?T cur pri idle = (q', T1, cur')" "T' = T1(cur' := resumed cpu (T1 cur'))"
    using r by (auto simp: spec_tick_def split: prod.splits)
  note n = spec_next_ok [OF queues_ok_evolved [OF ok e] s(1) pri]
  have e1: "evolved (T1 p) (T' p)" for p using s(2) evolved_resumed [OF n(3)] by simp
  show "queues_ok q' T' cur' idle" using n(1) e1 by (rule queues_ok_evolved)
  show "evolved (T p) (T' p)" using evolved_trans [OF e evolved_trans [OF n(2) e1]] .
qed

end
