(* ===== verification/SchedSpec.thy ===== *)
theory SchedSpec
  imports SchedInv RtlArrayProofs
begin

text \<open>
  The properties of the scheduler, on a sample machine of three threads where they have hypotheses.
\<close>

subsection \<open>One CPU between two ticks\<close>

definition sched_ok :: "sched \<Rightarrow> u32 \<Rightarrow> queues \<Rightarrow> tasks \<Rightarrow> ptr \<Rightarrow> bool" where
  "sched_ok s cpu q T cur \<longleftrightarrow>
     cpu_runs s cpu q T cur \<and> queues_ok q T cur (p_idle_thread (cpu_infos s cpu)) \<and> (\<forall>p \<in> dom (threads s). slice_ok (T p))"

lemma sched_okD:
  assumes "sched_ok s cpu q T cur"
  shows "cpu_runs s cpu q T cur" "queues_ok q T cur (p_idle_thread (cpu_infos s cpu))" "placed q T" "sched_q s q T"
    "unat (ci_priority (cpu_infos s cpu)) < 256" "cur \<in> dom (threads s)"
  using assms by (simp_all add: sched_ok_def queues_ok_def cpu_runs_def word_less_nat_alt)

text \<open>A tick that does not switch changes nothing.\<close>

lemma on_tick_stays:
  assumes r: "cpu_runs s cpu q T cur" and m: "\<not> may_switch s cpu (T cur)"
  shows "\<exists>s'. on_tick s cpu ctx = Some (s', ctx) \<and> cpu_runs s' cpu q T cur \<and> threads s' = threads s \<and>
    p_idle_thread (cpu_infos s' cpu) = p_idle_thread (cpu_infos s cpu)"
proof -
  let ?i = "cpu_infos s cpu"
  have q: "sched_q s q T" "cur \<in> dom (threads s)" "current_node ?i = node_of cur" "\<not> in_sched ?i" using r by (simp_all add: cpu_runs_def)
  have t: "threads s cur = Some (T cur)" "get_item (list_nodes s) (node_of cur) = Some cur"
    using sched_qD(4) [OF q(1,2)] get_item_node [OF q(1,2)] by simp_all
  have l: "list_nodes (upd_cpu u s cpu) = list_nodes s" for u by (simp add: upd_cpu_def)
  have "\<exists>s'. on_tick s cpu ctx = Some (s', ctx) \<and> (s' = upd_cpu (in_sched_update (\<lambda>_. False)) s cpu \<or>
      s' = upd_cpu (in_sched_update (\<lambda>_. False)) (upd_cpu (in_sched_update (\<lambda>_. True)) s cpu) cpu)"
    using m q(3,4) t l by (auto simp: on_tick_def Let_def may_switch_def)
  then show ?thesis using r by (auto simp: cpu_runs_def)
qed

lemma tick_switches:
  assumes ok: "sched_ok s cpu q T cur" and m: "may_switch s cpu (T cur)"
    and sp: "spec_tick (micro_sec s) cpu ctx q T cur (unat (ci_priority (cpu_infos s cpu))) (p_idle_thread (cpu_infos s cpu)) = (q', T', cur')"
  shows "\<exists>s'. on_tick s cpu ctx = Some (s', p_context (T' cur')) \<and> sched_ok s' cpu q' T' cur' \<and>
    (\<forall>c. c \<noteq> cpu \<longrightarrow> cpu_infos s' c = cpu_infos s c)"
proof -
  note d = sched_okD [OF ok]
  note k = spec_tick_ok [OF d(2) sp d(5)]
  obtain s' where s': "on_tick s cpu ctx = Some (s', p_context (T' cur'))" "sched_q s' q' T'" "cur' \<in> dom (threads s')"
    "current_node (cpu_infos s' cpu) = node_of cur'" "ci_priority (cpu_infos s' cpu) = priority (T' cur')"
    "\<not> in_sched (cpu_infos s' cpu)" "p_idle_thread (cpu_infos s' cpu) = p_idle_thread (cpu_infos s cpu)" "dom (threads s') = dom (threads s)"
    "\<forall>c. c \<noteq> cpu \<longrightarrow> cpu_infos s' c = cpu_infos s c"
    using on_tick_q [OF d(1) m sp] by blast
  have "slice_ok (T' p)" if "p \<in> dom (threads s)" for p using k(2) [of p] ok that by (simp add: sched_ok_def evolved_def)
  moreover have "cpu_runs s' cpu q' T' cur'" using s' k(1) d(1) by (simp add: cpu_runs_def queues_ok_def)
  ultimately have "sched_ok s' cpu q' T' cur'" using s'(7,8) k(1) unfolding sched_ok_def by metis
  then show ?thesis using s'(1,9) by blast
qed

lemma tick_invariant:
  assumes ok: "sched_ok s cpu q T cur"
  shows "\<exists>s' ctx' q' T' cur'. on_tick s cpu ctx = Some (s', ctx') \<and> sched_ok s' cpu q' T' cur'"
proof (cases "may_switch s cpu (T cur)")
  case False
  obtain s' where "on_tick s cpu ctx = Some (s', ctx)" "cpu_runs s' cpu q T cur" "threads s' = threads s"
    "p_idle_thread (cpu_infos s' cpu) = p_idle_thread (cpu_infos s cpu)"
    using on_tick_stays [OF sched_okD(1) [OF ok] False] by blast
  then show ?thesis using ok unfolding sched_ok_def by metis
next
  case True
  obtain q' T' cur' where "spec_tick (micro_sec s) cpu ctx q T cur (unat (ci_priority (cpu_infos s cpu))) (p_idle_thread (cpu_infos s cpu)) = (q', T', cur')"
    by (metis prod.exhaust)
  from tick_switches [OF ok True this] show ?thesis by blast
qed

lemma runnable_saved [simp]: "runnable now (saved ctx t) = runnable now t"
  by (auto simp: runnable_def saved_def sleep_over_def sleep_begin_micro_sec_def)

lemma back_in_keeps: "p \<in> set (q i) \<Longrightarrow> p \<in> set (back_in q T cur i)"
  by (auto simp: back_in_def enqueue_set)

lemma back_in_other: "i \<noteq> unat (priority (T cur)) \<Longrightarrow> back_in q T cur i = q i"
  by (simp add: back_in_def enqueue_def)

text \<open>The first thread of the highest queue.\<close>

lemma choose_highest:
  assumes "lo < i" "i \<le> hi" "q i = p # ps" "\<And>j. i < j \<Longrightarrow> j \<le> hi \<Longrightarrow> q j = []"
  shows "choose_task (\<lambda>_. True) q (down hi lo) = Some (p, q(i := ps))"
  using assms
proof (induction hi)
  case (Suc h)
  show ?case
  proof (cases "i = Suc h")
    case True
    then show ?thesis using Suc.prems by (simp add: down_rec [of "Suc h"] first_fit_def fun_upd_def)
  next
    case False
    then have "q (Suc h) = []" "i \<le> h" using Suc.prems by auto
    then show ?thesis using Suc by (simp add: down_rec [of "Suc h"] first_fit_def)
  qed
qed simp

text \<open>\<open>p\<close> is the first real-time thread, of a higher priority than the current thread.\<close>

definition first_realtime :: "queues \<Rightarrow> tasks \<Rightarrow> ptr \<Rightarrow> nat \<Rightarrow> ptr \<Rightarrow> ptr list \<Rightarrow> bool" where
  "first_realtime q T cur i p ps \<longleftrightarrow>
     64 \<le> i \<and> i < 256 \<and> q i = p # ps \<and> (\<forall>j. i < j \<and> j < 256 \<longrightarrow> q j = []) \<and> unat (priority (T cur)) < i"

lemma realtime_replace:
  assumes f: "first_realtime q T cur i p ps"
  shows "spec_any now (back_in q T cur) T' = (Some p, (back_in q T cur)(i := ps), T')"
proof -
  have "back_in q T cur i = p # ps" "\<And>j. i < j \<Longrightarrow> j \<le> 255 \<Longrightarrow> back_in q T cur j = []"
    using f back_in_other [of _ T cur q] by (auto simp: first_realtime_def)
  then have "choose_task (\<lambda>_. True) (back_in q T cur) (down 255 63) = Some (p, (back_in q T cur)(i := ps))"
    using f by (intro choose_highest) (simp_all add: first_realtime_def)
  then show ?thesis unfolding spec_any_def by simp
qed

text \<open>No thread of priority 1 can run.\<close>

definition idle_calm :: "u64 \<Rightarrow> queues \<Rightarrow> tasks \<Rightarrow> bool" where
  "idle_calm now q T \<longleftrightarrow> (\<forall>w \<in> set (q 1). \<not> runnable now (T w))"

lemma idle_calm_back:
  assumes "idle_calm now q T" "\<not> runnable now (T cur)" "T' = T(cur := woken now (saved ctx (T cur)))"
  shows "\<forall>w \<in> set (back_in q T' cur 1). \<not> runnable now (T' w)"
proof -
  have "woken now (saved ctx (T cur)) = saved ctx (T cur)" using assms(2) by (simp add: not_runnable_woken)
  then show ?thesis using assms by (auto simp: idle_calm_def enqueue_set back_in_def)
qed

text \<open>A tick when the current thread cannot go on.\<close>

lemma spec_tick_replace:
  assumes "\<not> runnable now (T cur)" "T0 = T(cur := woken now (saved ctx (T cur)))"
    "(case spec_any now (back_in q T0 cur) T0 of (None, q, T) \<Rightarrow> spec_any now q (refresh_queues q {1<..63} T) | r \<Rightarrow> r) = (c1, q1, T1)"
    "spec_idle now (c1, q1, T1) = (c, q2, T2)"
  shows "spec_tick now cpu ctx q T cur pri idle =
    (q2, T2((case c of Some p \<Rightarrow> p | None \<Rightarrow> idle) := resumed cpu (T2 (case c of Some p \<Rightarrow> p | None \<Rightarrow> idle))), case c of Some p \<Rightarrow> p | None \<Rightarrow> idle)"
proof -
  have "spec_replace now q T0 cur idle = (q2, T2, case c of Some p \<Rightarrow> p | None \<Rightarrow> idle)"
    unfolding spec_replace_back assms(3,4) by simp
  then have "spec_next now q (T(cur := saved ctx (T cur))) cur pri idle = (q2, T2, case c of Some p \<Rightarrow> p | None \<Rightarrow> idle)"
    using assms(1,2) by (simp add: spec_next_def)
  then show ?thesis by (simp add: spec_tick_def)
qed

lemma first_realtime_tick: "first_realtime q T cur i p ps \<Longrightarrow> priority t = priority (T cur) \<Longrightarrow> first_realtime q (T(cur := t)) cur i p ps"
  by (simp add: first_realtime_def)

lemma spec_tick_realtime:
  assumes f: "first_realtime q T cur i p ps" and pl: "placed q T" and pri: "pri < i" and calm: "idle_calm now q T"
  shows "\<exists>q' T'. spec_tick now cpu ctx q T cur pri idle = (q', T', p) \<and> T' p = resumed cpu (T p)"
proof -
  let ?T = "T(cur := woken now (saved ctx (T cur)))"
  have f': "first_realtime q ?T cur i p ps" using f by (rule first_realtime_tick) simp
  have i: "64 \<le> i" "i < 256" "q i = p # ps" "unat (priority (T cur)) < i" using f by (simp_all add: first_realtime_def)
  have "unat (priority (T p)) = i" using placedD [OF pl i(2), of p] i(3) by simp
  then have ne: "p \<noteq> cur" using i(4) by auto
  have "\<exists>q' T'. spec_next now q (T(cur := saved ctx (T cur))) cur pri idle = (q', T', p) \<and> T' p = T p"
  proof (cases "runnable now (T cur)")
    case True
    have "priority (T cur) \<noteq> PRIORITY_HIGHEST" using i(2,4) by auto
    moreover have "choose_task (\<lambda>_. True) q (down 255 (max pri 63)) = Some (p, q(i := ps))"
      using f pri by (intro choose_highest) (auto simp: first_realtime_def)
    ultimately show ?thesis using True ne by (simp add: spec_next_def spec_preempt_def Let_def)
  next
    case False
    note a = realtime_replace [OF f', of now ?T]
    have c1: "((back_in q ?T cur)(i := ps)) 1 = back_in q ?T cur 1" using i(1) by simp
    obtain d q2 T2 where b: "spec_idle now (Some p, (back_in q ?T cur)(i := ps), ?T) = (d, q2, T2)"
      by (cases "spec_idle now (Some p, (back_in q ?T cur)(i := ps), ?T)")
    have "d = Some p \<and> q2 = (back_in q ?T cur)(i := ps) \<and> T2 = ?T"
      using spec_idle_took(3) [OF b] idle_calm_back [OF calm False refl] c1 by simp
    then have "spec_replace now q ?T cur idle = (q2, ?T, p)" using a b by (simp add: spec_replace_back)
    then show ?thesis using False ne by (simp add: spec_next_def Let_def)
  qed
  then show ?thesis by (auto simp: spec_tick_def)
qed

subsection \<open>A machine with three threads\<close>

text \<open>
  The thread at \<open>0x1000\<close> runs on CPU 0, the one at \<open>0x2000\<close> is in the list of priority \<open>k\<close>, the idle thread at
  \<open>0x3000\<close> in that of priority 1. The first two have the ids 0 and 1.
\<close>

definition sample :: "thread_obj \<Rightarrow> thread_obj \<Rightarrow> thread_obj \<Rightarrow> nat \<Rightarrow> u32 \<Rightarrow> sched" where
  "sample ta tb tc k ci =
     \<lparr>threads = [0x1000 \<mapsto> ta, 0x2000 \<mapsto> tb, 0x3000 \<mapsto> tc], ns_vars = [0x4000 \<mapsto> 500],
      list_nodes = [0x103C \<mapsto> \<lparr>p_prev = 0, p_next = 0, p_item = 0x1000\<rparr>,
                    0x203C \<mapsto> \<lparr>p_prev = 0x203C, p_next = 0x203C, p_item = 0x2000\<rparr>,
                    0x303C \<mapsto> \<lparr>p_prev = 0x303C, p_next = 0x303C, p_item = 0x3000\<rparr>],
      sched_lists = (\<lambda>_. NULL)(of_nat k := 0x203C, 1 := 0x303C),
      cpu_infos = (\<lambda>_. \<lparr>enabled = True, in_sched = False, enable_sched = True, ci_priority = ci, cpu_use_stat_h = 0,
        cpu_use_stat_l = 0, current_node = 0x103C, p_idle_thread = 0x3000\<rparr>),
      micro_sec = 10, table_mem = \<lparr>vecs = [100 \<mapsto> [200, 0], 300 \<mapsto> [0x1000, 0x2000]], blks = [200 \<mapsto> \<lparr>blk_ref = 2, blk_items = 300\<rparr>]\<rparr>,
      thread_table = \<lparr>ar_size = 4, ar_scale = 2, ar_blks = 100, ar_heap = 0\<rparr>, initialized = True\<rparr>"

abbreviation sample_q :: "nat \<Rightarrow> queues" where "sample_q k \<equiv> (\<lambda>_. [])(k := [0x2000], 1 := [0x3000])"

abbreviation sample_T :: "thread_obj \<Rightarrow> thread_obj \<Rightarrow> thread_obj \<Rightarrow> tasks" where
  "sample_T ta tb tc \<equiv> (\<lambda>_. ta)(0x2000 := tb, 0x3000 := tc)"

abbreviation thread :: "u32 \<Rightarrow> u32 \<Rightarrow> u32 \<Rightarrow> u32 \<Rightarrow> thread_obj" where
  "thread i st pri n \<equiv> \<lparr>thread_id = i, status = st, process_id = 0, priority = pri, p_context = 0x5000 + i, info_lo = n, info_hi = 0,
     awake_micro_sec = 0, p_ns = 0x4000\<rparr>"

lemma of_nat_eq_256: "i < 256 \<Longrightarrow> j < 256 \<Longrightarrow> (of_nat i :: u32) = of_nat j \<longleftrightarrow> i = j"
  using unat_of_nat_256 by metis

lemma sample_threads: "k < 256 \<Longrightarrow> k \<noteq> 1 \<Longrightarrow> threads_of (sample_q k) = {0x2000, 0x3000}"
  by (auto simp: threads_of_def split: if_splits)

lemma sample_ring: "cyc (list_nodes (sample ta tb tc k ci)) [p + 60]" if "p \<in> {0x2000, 0x3000}"
  using that by (auto simp: cyc_def linked_def sample_def)

lemma sample_is:
  assumes k: "k < 256" "k \<noteq> 1" and ns: "p_ns ta = 0x4000" "p_ns tb = 0x4000" "p_ns tc = 0x4000"
  shows "sched_q (sample ta tb tc k ci) (sample_q k) (sample_T ta tb tc)"
proof -
  have l: "sched_lists (sample ta tb tc k ci) (of_nat i) = (if i = 1 then 0x303C else if i = k then 0x203C else NULL)" if "i < 256" for i
    using of_nat_eq_256 [OF that k(1)] of_nat_eq_256 [OF that, of 1] by (simp add: sample_def)
  have "cyc (list_nodes (sample ta tb tc k ci)) []" by (simp add: cyc_def linked_def)
  then have "ring (list_nodes (sample ta tb tc k ci)) (sched_lists (sample ta tb tc k ci) (of_nat i)) (map node_of (sample_q k i))" if "i < 256" for i
    using l [OF that] k(2) sample_ring [of "0x2000" ta tb tc k ci] sample_ring [of "0x3000" ta tb tc k ci] by (auto simp: ring_def node_of_def)
  moreover have "dom (threads (sample ta tb tc k ci)) = {0x1000, 0x2000, 0x3000}" "dom (ns_vars (sample ta tb tc k ci)) = {0x4000}"
    by (auto simp: sample_def)
  ultimately show ?thesis using k(2) ns by (auto simp: sched_q_def node_of_def) (auto simp: sample_def)
qed

lemma sample_ok:
  assumes k: "k < 256" "k \<noteq> 1" and ns: "p_ns ta = 0x4000" "p_ns tb = 0x4000" "p_ns tc = 0x4000"
    and p: "priority ta < 256" "priority tb = of_nat k" "priority tc = 1" "status tc = TASK_READY \<or> status tc = TASK_RUNNING"
    and sl: "slice_ok ta" "slice_ok tb" "slice_ok tc" and ci: "ci < 256"
  shows "sched_ok (sample ta tb tc k ci) 0 (sample_q k) (sample_T ta tb tc) 0x1000"
proof -
  have u: "unat (priority tb) = k" using p(2) k(1) by (simp add: unat_of_nat_256)
  have i: "cpu_infos (sample ta tb tc k ci) 0 = \<lparr>enabled = True, in_sched = False, enable_sched = True, ci_priority = ci,
      cpu_use_stat_h = 0, cpu_use_stat_l = 0, current_node = 0x103C, p_idle_thread = 0x3000\<rparr>" by (simp add: sample_def)
  have d: "dom (threads (sample ta tb tc k ci)) = {0x1000, 0x2000, 0x3000}" by (auto simp: sample_def)
  have f: "fresh_for (sample_q k) n 0x1000" for n using k(2) by (auto simp: fresh_for_def)
  have "placed (sample_q k) (sample_T ta tb tc)" using k u p(3) by (auto simp: placed_def)
  then have "queues_ok (sample_q k) (sample_T ta tb tc) 0x1000 0x3000" using f p by (simp add: queues_ok_def idle_ok_def)
  moreover have "cpu_runs (sample ta tb tc k ci) 0 (sample_q k) (sample_T ta tb tc) 0x1000"
    using sample_is [OF k ns, of ci] f p ci unfolding cpu_runs_def i d by (simp add: node_of_def)
  ultimately show ?thesis using sl unfolding sched_ok_def i d by simp
qed

subsection \<open>Properties\<close>

text \<open>
  C9. A tick on a CPU that may switch saves the context of the current thread, chooses the next thread as
  \<open>spec_next\<close> does on the queues (real-time lists in the order of priority, then the threads that have time
  slices left or have slept enough, new slices when there is none, then the tasks of priority 1), resumes it
  with one slice less and continues with its context. Lists, threads and the data of the CPU are those of the
  specification afterwards, the other CPUs are left alone.
\<close>

theorem on_tick_refines:
  assumes "cpu_runs s cpu q T cur" and "may_switch s cpu (T cur)"
    and "spec_tick (micro_sec s) cpu ctx q T cur (unat (ci_priority (cpu_infos s cpu))) (p_idle_thread (cpu_infos s cpu)) = (q', T', cur')"
  shows "\<exists>s'. on_tick s cpu ctx = Some (s', p_context (T' cur')) \<and> sched_q s' q' T' \<and> cur' \<in> dom (threads s') \<and>
    current_node (cpu_infos s' cpu) = node_of cur' \<and> ci_priority (cpu_infos s' cpu) = priority (T' cur') \<and>
    \<not> in_sched (cpu_infos s' cpu) \<and> (\<forall>c. c \<noteq> cpu \<longrightarrow> cpu_infos s' c = cpu_infos s c) \<and> dom (threads s') = dom (threads s)"
  using on_tick_q [OF assms] by blast

theorem on_tick_refines_witness:
  "\<exists>s'. on_tick (sample (thread 0 TASK_RUNNING 32 0) (thread 1 TASK_READY 200 0) (thread 2 TASK_READY 1 0) 200 32) 0 0x77 = Some (s', 0x5001) \<and>
    threads s' 0x2000 = Some (thread 1 TASK_RUNNING 200 0)"
proof -
  let ?s = "sample (thread 0 TASK_RUNNING 32 0) (thread 1 TASK_READY 200 0) (thread 2 TASK_READY 1 0) 200 32"
  let ?T = "sample_T (thread 0 TASK_RUNNING 32 0) (thread 1 TASK_READY 200 0) (thread 2 TASK_READY 1 0)"
  have ok: "sched_ok ?s 0 (sample_q 200) ?T 0x1000" by (rule sample_ok) (simp_all add: slice_ok_def)
  have m: "may_switch ?s 0 (?T 0x1000)" by (simp add: may_switch_def sample_def)
  have f: "first_realtime (sample_q 200) ?T 0x1000 200 0x2000 []" by (simp add: first_realtime_def)
  have "idle_calm 10 (sample_q 200) ?T" by (simp add: idle_calm_def runnable_def word_le_nat_alt)
  then obtain q' T' where r: "spec_tick 10 0 0x77 (sample_q 200) ?T 0x1000 32 0x3000 = (q', T', 0x2000)" "T' 0x2000 = resumed 0 (?T 0x2000)"
    using spec_tick_realtime [OF f sched_okD(3) [OF ok], of 32 10 0 "0x77" "0x3000"] by auto
  then have "spec_tick (micro_sec ?s) 0 0x77 (sample_q 200) ?T 0x1000 (unat (ci_priority (cpu_infos ?s 0))) (p_idle_thread (cpu_infos ?s 0)) =
      (q', T', 0x2000)" by (simp add: sample_def)
  from on_tick_refines [OF sched_okD(1) [OF ok] m this]
  obtain s' where "on_tick ?s 0 0x77 = Some (s', p_context (T' 0x2000))" "sched_q s' q' T'" "0x2000 \<in> dom (threads s')" by blast
  then show ?thesis using sched_qD(4) [of s' q' T' "0x2000"] r(2) by (simp add: resumed_def)
qed

text \<open>
  C10. The scheduler of one CPU never fails: a tick returns and keeps the invariant. The lists are circular
  lists of live threads, each thread is in at most one of them, in the one of its priority; the current thread
  is in none (or alone in its own), the idle thread is ready and runs, waits in the list of priority 1 or has
  the priority 0; no other thread has more slices than \<^verbatim>\<open>MAX_TIME_SLICE_NUM\<close>, since the count never wraps.
\<close>

theorem on_tick_invariant:
  assumes "sched_ok s cpu q T cur"
  shows "\<exists>s' ctx' q' T' cur'. on_tick s cpu ctx = Some (s', ctx') \<and> sched_ok s' cpu q' T' cur'"
  using assms by (rule tick_invariant)

theorem on_tick_invariant_witness:
  "\<exists>s' ctx'. on_tick (sample (thread 0 TASK_RUNNING 32 0) (thread 1 TASK_READY 40 0) (thread 2 TASK_READY 1 0) 40 32) 0 0x77 = Some (s', ctx')"
  using on_tick_invariant [OF sample_ok [of 40 "thread 0 TASK_RUNNING 32 0" "thread 1 TASK_READY 40 0" "thread 2 TASK_READY 1 0" 32], of "0x77"]
  by (auto simp: slice_ok_def)

text \<open>
  C11. The highest real-time thread wins: when the first thread of the highest list has a real-time priority
  above that of the current thread and of the CPU, the next tick on a CPU that may switch continues with it,
  whether the current thread could go on or not. Provided that no task of priority 1 can run, see C14.
\<close>

theorem on_tick_realtime_first:
  assumes "sched_ok s cpu q T cur" and "may_switch s cpu (T cur)" and "first_realtime q T cur i p ps"
    and "unat (ci_priority (cpu_infos s cpu)) < i" and "idle_calm (micro_sec s) q T"
  shows "\<exists>s'. on_tick s cpu ctx = Some (s', p_context (T p)) \<and> current_node (cpu_infos s' cpu) = node_of p \<and>
    threads s' p = Some (resumed cpu (T p))"
proof -
  note d = sched_okD [OF assms(1)]
  obtain q' T' where sp: "spec_tick (micro_sec s) cpu ctx q T cur (unat (ci_priority (cpu_infos s cpu))) (p_idle_thread (cpu_infos s cpu)) = (q', T', p)"
    "T' p = resumed cpu (T p)" using spec_tick_realtime [OF assms(3) d(3) assms(4,5)] by blast
  from on_tick_q [OF d(1) assms(2) sp(1)] show ?thesis using sp(2) sched_qD(4) by fastforce
qed

theorem on_tick_realtime_first_witness:
  "\<exists>s'. on_tick (sample (thread 0 TASK_RUNNING 32 3) (thread 1 TASK_READY 200 0) (thread 2 TASK_READY 1 0) 200 32) 0 0x77 = Some (s', 0x5001)"
proof -
  let ?s = "sample (thread 0 TASK_RUNNING 32 3) (thread 1 TASK_READY 200 0) (thread 2 TASK_READY 1 0) 200 32"
  let ?T = "sample_T (thread 0 TASK_RUNNING 32 3) (thread 1 TASK_READY 200 0) (thread 2 TASK_READY 1 0)"
  have ok: "sched_ok ?s 0 (sample_q 200) ?T 0x1000" by (rule sample_ok) (simp_all add: slice_ok_def)
  have m: "may_switch ?s 0 (?T 0x1000)" by (simp add: may_switch_def sample_def)
  have f: "first_realtime (sample_q 200) ?T 0x1000 200 0x2000 []" by (simp add: first_realtime_def)
  have "idle_calm (micro_sec ?s) (sample_q 200) ?T" "unat (ci_priority (cpu_infos ?s 0)) < 200" by (simp_all add: idle_calm_def runnable_def sample_def word_le_nat_alt)
  then show ?thesis using on_tick_realtime_first [OF ok, OF m f, of "0x77"] by auto
qed

text \<open>
  C12. No thread is lost: after a tick on a CPU that may switch the threads in the lists and the current thread are those from before,
  besides the idle thread. Provided that the current thread is neither suspended nor finished and no task of
  priority 1 can run.
\<close>

theorem on_tick_keeps_threads:
  assumes "sched_ok s cpu q T cur" and "may_switch s cpu (T cur)" and "idle_calm (micro_sec s) q T"
    and "status (T cur) \<in> {TASK_RUNNING, TASK_READY, TASK_SLEEP}"
  shows "\<exists>s' ctx' q' T' cur'. on_tick s cpu ctx = Some (s', ctx') \<and> sched_ok s' cpu q' T' cur' \<and>
    insert (p_idle_thread (cpu_infos s cpu)) (insert cur' (threads_of q')) = insert (p_idle_thread (cpu_infos s cpu)) (insert cur (threads_of q))"
proof -
  note d = sched_okD [OF assms(1)]
  let ?idle = "p_idle_thread (cpu_infos s cpu)" and ?pri = "unat (ci_priority (cpu_infos s cpu))"
  let ?T = "T(cur := saved ctx (T cur))" and ?T2 = "T(cur := woken (micro_sec s) (saved ctx (T cur)))"
  obtain q' T' cur' where sp: "spec_next (micro_sec s) q ?T cur ?pri ?idle = (q', T', cur')" by (cases "spec_next (micro_sec s) q ?T cur ?pri ?idle")
  then have tick: "spec_tick (micro_sec s) cpu ctx q T cur ?pri ?idle = (q', T'(cur' := resumed cpu (T' cur')), cur')"
    by (simp add: spec_tick_def)
  have ok2: "queues_ok q ?T2 cur ?idle" using d(2) by (rule queues_ok_evolved) (simp add: evolved_trans [OF evolved_saved evolved_woken])
  have "insert ?idle (insert cur' (threads_of q')) = insert ?idle (insert cur (threads_of q))"
  proof (cases "runnable (micro_sec s) (T cur)")
    case True
    show ?thesis
    proof (cases "priority (T cur) = PRIORITY_HIGHEST")
      case p: True
      then show ?thesis using sp True by (simp add: spec_next_def Let_def)
    next
      case False
      then have "spec_preempt (micro_sec s) q ?T2 cur ?pri = (q', T', cur')" using sp True by (simp add: spec_next_def Let_def)
      from spec_preempt_ok(3) [OF ok2 this d(5)] show ?thesis by simp
    qed
  next
    case False
    then have r: "spec_replace (micro_sec s) q ?T2 cur ?idle = (q', T', cur')" using sp by (simp add: spec_next_def Let_def)
    have "woken (micro_sec s) (saved ctx (T cur)) = saved ctx (T cur)" using False by (simp add: not_runnable_woken)
    then have "status (?T2 cur) \<in> {TASK_RUNNING, TASK_READY, TASK_SLEEP}" using assms(4) by (auto simp: saved_def)
    then show ?thesis using spec_replace_ok(3) [OF ok2 r idle_calm_back [OF assms(3) False refl]] queues_ok_back(3) [OF ok2] by simp
  qed
  moreover obtain s' where "on_tick s cpu ctx = Some (s', p_context ((T'(cur' := resumed cpu (T' cur'))) cur'))"
    "sched_ok s' cpu q' (T'(cur' := resumed cpu (T' cur'))) cur'"
    using tick_switches [OF assms(1,2) tick] by blast
  ultimately show ?thesis by blast
qed

theorem on_tick_keeps_threads_witness:
  "\<exists>s' ctx' q' T' cur'. on_tick (sample (thread 0 TASK_RUNNING 32 0) (thread 1 TASK_READY 40 0) (thread 2 TASK_READY 1 0) 40 32) 0 0x77 = Some (s', ctx') \<and>
    sched_ok s' 0 q' T' cur' \<and> insert 0x3000 (insert cur' (threads_of q')) = {0x1000, 0x2000, 0x3000}"
proof -
  let ?s = "sample (thread 0 TASK_RUNNING 32 0) (thread 1 TASK_READY 40 0) (thread 2 TASK_READY 1 0) 40 32"
  let ?T = "sample_T (thread 0 TASK_RUNNING 32 0) (thread 1 TASK_READY 40 0) (thread 2 TASK_READY 1 0)"
  have ok: "sched_ok ?s 0 (sample_q 40) ?T 0x1000" by (rule sample_ok) (simp_all add: slice_ok_def)
  have "may_switch ?s 0 (?T 0x1000)" "idle_calm (micro_sec ?s) (sample_q 40) ?T" "status (?T 0x1000) \<in> {TASK_RUNNING, TASK_READY, TASK_SLEEP}"
    by (simp_all add: may_switch_def idle_calm_def runnable_def sample_def word_le_nat_alt)
  note on_tick_keeps_threads [OF ok, OF this, of "0x77"]
  moreover have "p_idle_thread (cpu_infos ?s 0) = 0x3000" by (simp add: sample_def)
  moreover have "threads_of (sample_q 40) = {0x2000, 0x3000}" by (rule sample_threads) simp_all
  then have "insert 0x3000 (insert 0x1000 (threads_of (sample_q 40))) = {0x1000, 0x2000, 0x3000}" by (simp only: insert_commute insert_absorb2)
  ultimately show ?thesis by metis
qed

text \<open>
  C13. A thread that is ready keeps the CPU from going idle: when the current thread cannot go on and a thread in
  a list of a priority above 1 is ready, the next tick on a CPU that may switch continues with a thread of a
  priority above 1. Provided that no task of priority 1 can run; C14 shows what the code does when one can.
\<close>

theorem on_tick_not_idle:
  assumes "sched_ok s cpu q T cur" and "may_switch s cpu (T cur)" and "idle_calm (micro_sec s) q T"
    and "\<not> runnable (micro_sec s) (T cur)" and "1 < i" and "i < 256" and "p \<in> set (q i)" and "status (T p) = TASK_READY"
  shows "\<exists>s' ctx'. on_tick s cpu ctx = Some (s', ctx') \<and> 1 < ci_priority (cpu_infos s' cpu)"
proof -
  note d = sched_okD [OF assms(1)]
  let ?idle = "p_idle_thread (cpu_infos s cpu)" and ?pri = "unat (ci_priority (cpu_infos s cpu))" and ?now = "micro_sec s"
  let ?T = "T(cur := saved ctx (T cur))" and ?T2 = "T(cur := woken (micro_sec s) (saved ctx (T cur)))"
  let ?Q = "back_in q ?T2 cur"
  have ok2: "queues_ok q ?T2 cur ?idle" using d(2) by (rule queues_ok_evolved) (simp add: evolved_trans [OF evolved_saved evolved_woken])
  note Q = queues_ok_back [OF ok2]
  obtain c1 q1 T1 where s1: "(case spec_any ?now ?Q ?T2 of (None, q, T) \<Rightarrow> spec_any ?now q (refresh_queues q {1<..63} T) | r \<Rightarrow> r) = (c1, q1, T1)"
    by (cases "case spec_any ?now ?Q ?T2 of (None, q, T) \<Rightarrow> spec_any ?now q (refresh_queues q {1<..63} T) | r \<Rightarrow> r")
  have p: "p \<in> set (?Q i)" using assms(7) by (rule back_in_keeps)
  have st: "status (?T2 p) = TASK_READY \<or> status (?T2 p) = TASK_RUNNING"
  proof -
    have "woken ?now (saved ctx (T cur)) = saved ctx (T cur)" using assms(4) by (simp add: not_runnable_woken)
    then show ?thesis using assms(8) by (cases "p = cur") simp_all
  qed
  have "c1 \<noteq> None"
  proof
    assume n: "c1 = None"
    show False
    proof (cases "i \<le> 63")
      case True
      then show ?thesis using spec_any_refresh(3) [OF s1 n _ p] st assms(5) by simp
    next
      case False
      then have "?Q i = []" using spec_any_refresh(4) [OF s1 n, of i] assms(6) by simp
      with p show ?thesis by (simp only: list.set empty_iff)
    qed
  qed
  then obtain x where x: "c1 = Some x" by blast
  have t: "took 2 ?Q (Some x) q1" using spec_any_refresh(1) [OF s1] x by simp
  note k = took_placed [OF t Q(1)]
  have same: "T1 w = ?T2 w" if w: "w \<in> set (?Q 1)" for w
  proof (rule spec_any_refresh_other [OF s1])
    show "w \<notin> set (?Q i)" if "i \<in> {1<..255}" for i using placedD [OF Q(1) _ w] placedD [OF Q(1), of i w] that by auto
  qed
  have q1: "q1 1 = ?Q 1" using k(8) by simp
  obtain d2 q2 T2 where s2: "spec_idle ?now (c1, q1, T1) = (d2, q2, T2)" by (cases "spec_idle ?now (c1, q1, T1)")
  have r: "d2 = c1 \<and> q2 = q1 \<and> T2 = T1"
    using spec_idle_took(3) [OF s2] x idle_calm_back [OF assms(3,4) refl, of ctx] same q1 by simp
  have tick: "spec_tick ?now cpu ctx q T cur ?pri ?idle = (q1, T1(x := resumed cpu (T1 x)), x)"
    using spec_tick_replace [OF assms(4) refl s1 s2] r x by simp
  obtain s' where s': "on_tick s cpu ctx = Some (s', p_context ((T1(x := resumed cpu (T1 x))) x))"
    "ci_priority (cpu_infos s' cpu) = priority ((T1(x := resumed cpu (T1 x))) x)"
    using on_tick_q [OF d(1) assms(2) tick] by blast
  have "priority (T1 x) = priority (?T2 x)" using spec_any_refresh(2) [OF s1, of x] by (simp add: evolved_def)
  then have "1 < ci_priority (cpu_infos s' cpu)" using s'(2) k(7) by (simp add: word_less_nat_alt)
  then show ?thesis using s'(1) by blast
qed

theorem on_tick_not_idle_witness:
  "\<exists>s' ctx'. on_tick (sample (thread 0 TASK_SUSPEND 32 0) (thread 1 TASK_READY 40 0) (thread 2 TASK_READY 1 0) 40 32) 0 0x77 = Some (s', ctx') \<and>
    1 < ci_priority (cpu_infos s' 0)"
proof -
  let ?s = "sample (thread 0 TASK_SUSPEND 32 0) (thread 1 TASK_READY 40 0) (thread 2 TASK_READY 1 0) 40 32"
  let ?T = "sample_T (thread 0 TASK_SUSPEND 32 0) (thread 1 TASK_READY 40 0) (thread 2 TASK_READY 1 0)"
  have ok: "sched_ok ?s 0 (sample_q 40) ?T 0x1000" by (rule sample_ok) (simp_all add: slice_ok_def)
  have "may_switch ?s 0 (?T 0x1000)" "idle_calm (micro_sec ?s) (sample_q 40) ?T" "\<not> runnable (micro_sec ?s) (?T 0x1000)"
    by (simp_all add: may_switch_def idle_calm_def runnable_def sample_def word_le_nat_alt)
  from on_tick_not_idle [OF ok, OF this, of 40 "0x2000" "0x77"] show ?thesis by simp
qed

text \<open>
  C14. A real-time thread is lost when the current thread of a CPU that may switch cannot go on and a task of
  priority 1 in its list can run. Let
  \<open>p\<close> be ready, the first thread of the highest list in use, of a real-time priority above that of the current
  thread, and running on no other CPU. \<^verbatim>\<open>next_task\<close> takes \<open>p\<close> out of its list, looks at the list of priority 1
  nevertheless and continues with the task found there: after the tick \<open>p\<close> is unchanged and ready, is in no
  list, and is the current thread of no CPU.
\<close>

theorem on_tick_loses_thread:
  assumes "sched_ok s cpu q T cur" and "may_switch s cpu (T cur)" and "first_realtime q T cur i p ps"
    and "\<not> runnable (micro_sec s) (T cur)" and "w \<in> set (q 1)" and "runnable (micro_sec s) (T w)"
    and "status (T p) = TASK_READY" and "\<forall>c. c \<noteq> cpu \<longrightarrow> current_node (cpu_infos s c) \<noteq> node_of p"
  shows "\<exists>s' ctx' q' T' cur'. on_tick s cpu ctx = Some (s', ctx') \<and> sched_ok s' cpu q' T' cur' \<and>
    cur' \<noteq> p \<and> p \<notin> threads_of q' \<and> T' p = T p \<and> status (T' p) = TASK_READY \<and>
    (\<forall>c. current_node (cpu_infos s' c) \<noteq> node_of p)"
proof -
  note d = sched_okD [OF assms(1)]
  let ?idle = "p_idle_thread (cpu_infos s cpu)" and ?pri = "unat (ci_priority (cpu_infos s cpu))" and ?now = "micro_sec s"
  let ?T = "T(cur := saved ctx (T cur))" and ?T2 = "T(cur := woken (micro_sec s) (saved ctx (T cur)))"
  let ?Q = "back_in q ?T2 cur"
  have ok2: "queues_ok q ?T2 cur ?idle" using d(2) by (rule queues_ok_evolved) (simp add: evolved_trans [OF evolved_saved evolved_woken])
  note Q = queues_ok_back [OF ok2]
  have f: "first_realtime q ?T2 cur i p ps" using assms(3) by (rule first_realtime_tick) simp
  have i: "64 \<le> i" "i < 256" "q i = p # ps" "unat (priority (T cur)) < i" using assms(3) by (simp_all add: first_realtime_def)
  have Qi: "?Q i = [] @ p # ps" using i back_in_other [of i ?T2 cur q] by simp
  have pri: "unat (priority (?T2 p)) = i" using placedD [OF Q(1) i(2), of p] Qi by simp
  have ne: "p \<noteq> cur" using pri i(4) by auto
  have t: "took 64 ?Q (Some p) (?Q(i := ps))" by (rule tookI [where i = i and us = "[]"]) (use i(1,2) Qi in simp_all)
  note k = took_placed [OF t Q(1)]
  have w: "w \<noteq> cur" "w \<in> set (?Q 1)" using assms(4,5,6) back_in_keeps [of w q 1] by auto
  have "\<not> (\<forall>x \<in> set (?Q 1). \<not> runnable ?now (?T2 x))" using w assms(6) by auto
  then obtain a xs where fit: "first_fit (\<lambda>x. runnable ?now (?T2 x)) (?Q 1) = Some (a, xs)"
    using first_fit_None [of "\<lambda>x. runnable ?now (?T2 x)" "?Q 1"] by (cases "first_fit (\<lambda>x. runnable ?now (?T2 x)) (?Q 1)") auto
  then obtain us vs where uv: "?Q 1 = us @ a # vs" "xs = vs @ us" by (rule first_fit_Some)
  have q1: "(?Q(i := ps)) 1 = ?Q 1" "?Q 1 \<noteq> []" using i(1) uv by simp_all
  let ?q' = "(?Q(i := ps))(1 := xs)"
  have "spec_idle ?now (Some p, ?Q(i := ps), ?T2) = (Some a, ?q', ?T2(a := woken ?now (?T2 a)))"
    unfolding spec_idle_def spec_idle_fit_def prod.case q1(1) fit option.case using q1(2) by simp
  then have "spec_tick ?now cpu ctx q T cur ?pri ?idle = (?q', ?T2(a := resumed cpu (woken ?now (?T2 a))), a)"
    using spec_tick_replace [where T = T and cur = cur and ctx = ctx and q = q, OF assms(4) refl] realtime_replace [OF f, of ?now ?T2] by simp
  note sw = tick_switches [OF assms(1,2) this]
  have a: "a \<in> set (?Q 1)" using uv(1) by simp
  have "a \<noteq> p" using placedD [OF Q(1) _ a] pri i(1) by auto
  moreover have "p \<notin> threads_of ?q'"
  proof -
    have "p \<notin> set xs" using k(2) [of 1] q1(1) uv by simp
    then have "p \<notin> set (?q' j)" if "j < 256" for j using k(2) [OF that] by (cases "j = 1") simp_all
    then show ?thesis by (simp add: threads_of_def)
  qed
  moreover have "(?T2(a := resumed cpu (woken ?now (?T2 a)))) p = T p" using \<open>a \<noteq> p\<close> ne by simp
  moreover obtain s' ctx' where s': "on_tick s cpu ctx = Some (s', ctx')"
    "sched_ok s' cpu ?q' (?T2(a := resumed cpu (woken ?now (?T2 a)))) a" "\<forall>c. c \<noteq> cpu \<longrightarrow> cpu_infos s' c = cpu_infos s c"
    using sw by blast
  moreover have "current_node (cpu_infos s' cpu) = node_of a" using sched_okD(1) [OF s'(2)] by (simp add: cpu_runs_def)
  then have "current_node (cpu_infos s' c) \<noteq> node_of p" for c using \<open>a \<noteq> p\<close> s'(3) assms(8) by (cases "c = cpu") simp_all
  ultimately show ?thesis using assms(7) by metis
qed

theorem on_tick_loses_thread_witness:
  "\<exists>s' ctx' q' T' cur'. on_tick (sample (thread 0 TASK_RUNNING 32 0) (thread 1 TASK_READY 200 0) (thread 2 TASK_READY 1 1) 200 32) 0 0x77 = Some (s', ctx') \<and>
    sched_ok s' 0 q' T' cur' \<and> cur' \<noteq> 0x2000 \<and> 0x2000 \<notin> threads_of q' \<and> status (T' 0x2000) = TASK_READY \<and>
    (\<forall>c. current_node (cpu_infos s' c) \<noteq> node_of 0x2000)"
proof -
  let ?s = "sample (thread 0 TASK_RUNNING 32 0) (thread 1 TASK_READY 200 0) (thread 2 TASK_READY 1 1) 200 32"
  let ?T = "sample_T (thread 0 TASK_RUNNING 32 0) (thread 1 TASK_READY 200 0) (thread 2 TASK_READY 1 1)"
  have ok: "sched_ok ?s 0 (sample_q 200) ?T 0x1000" by (rule sample_ok) (simp_all add: slice_ok_def word_le_nat_alt)
  have "may_switch ?s 0 (?T 0x1000)" "first_realtime (sample_q 200) ?T 0x1000 200 0x2000 []" "\<not> runnable (micro_sec ?s) (?T 0x1000)"
    "0x3000 \<in> set (sample_q 200 1)" "runnable (micro_sec ?s) (?T 0x3000)" "status (?T 0x2000) = TASK_READY"
    "\<forall>c. c \<noteq> 0 \<longrightarrow> current_node (cpu_infos ?s c) \<noteq> node_of 0x2000"
    by (simp_all add: may_switch_def first_realtime_def runnable_def sample_def node_of_def)
  from on_tick_loses_thread [OF ok, OF this, of "0x77"] show ?thesis by fastforce
qed

end
