(* ===== verification/SchedFaults.thy ===== *)
theory SchedFaults
  imports SchedSpec
begin

text \<open>
  Sleeping, suspending, resuming and priorities together with the tick: where the operations of
  \<^verbatim>\<open>thread.c\<close> and the lists of the scheduler do not fit.
\<close>

subsection \<open>core\_pm\_sleep\<close>

lemma two_halves [simp]: "push_bit 32 (ucast (ucast (drop_bit 32 v) :: u32)) OR (ucast (ucast v :: u32) :: u64) = v"
proof -
  have "(ucast (ucast (drop_bit 32 v) :: u32) :: u64) = drop_bit 32 v"
    by (rule bit_eqI) (auto simp: bit_ucast_iff bit_drop_bit_eq bit_imp_le_length dest: bit_imp_le_length)
  moreover have "push_bit 32 (drop_bit 32 v) OR (ucast (ucast v :: u32) :: u64) = v"
    by (rule bit_eqI) (auto simp: bit_simps not_le dest: bit_imp_le_length)
  ultimately show ?thesis by simp
qed

lemma sleep_begin_of [simp]: "sleep_begin_micro_sec (set_sleep_begin v t) = v"
  by (simp add: sleep_begin_micro_sec_def set_sleep_begin_def)

definition slept :: "u64 \<Rightarrow> ptr \<Rightarrow> u64 \<Rightarrow> thread_obj \<Rightarrow> thread_obj" where
  "slept now ns v t =
     (set_sleep_begin now (t\<lparr>status := TASK_SLEEP, p_ns := ns\<rparr>))\<lparr>awake_micro_sec := now + v div 1000\<rparr>"

lemma slept_sel [simp]: "status (slept now ns v t) = TASK_SLEEP" "priority (slept now ns v t) = priority t"
  "p_ns (slept now ns v t) = ns" "awake_micro_sec (slept now ns v t) = now + v div 1000"
  "sleep_begin_micro_sec (slept now ns v t) = now"
  using sleep_begin_of [of now "t\<lparr>status := TASK_SLEEP, p_ns := ns\<rparr>"]
  by (simp_all add: slept_def set_sleep_begin_def sleep_begin_micro_sec_def)

lemma sleep_eq:
  assumes "current_thread s cpu = Some p" "threads s p = Some t" "ns_vars s ns = Some v"
  shows "core_pm_sleep s cpu ns = Some (s\<lparr>threads := (threads s)(p \<mapsto> slept (micro_sec s) ns v t)\<rparr>, [Tick])"
proof -
  have c: "current_thread (upd_cpu (enable_sched_update f) s cpu) cpu = current_thread s cpu" for f
    by (simp add: current_thread_def upd_cpu_def Let_def)
  have i: "(cpu_infos s)(cpu := cpu_infos s cpu\<lparr>enable_sched := True\<rparr>) = cpu_infos s" if "enable_sched (cpu_infos s cpu)"
    using that by (auto simp: fun_eq_iff intro: core_sched_info.equality)
  show ?thesis using assms c
    by (cases "enable_sched (cpu_infos s cpu)")
      (auto simp: core_pm_sleep_def core_pm_disable_sched_def core_pm_enable_sched_def upd_thread_eq set_sleep_time_def slept_def
        upd_cpu_def Let_def i set_sleep_begin_def sleep_begin_micro_sec_def)
qed

text \<open>
  C16. A sleep of less than a microsecond never ends: \<^verbatim>\<open>ns / 1000\<close> is 0, so the time to wake up is the time the
  sleep began, and \<^verbatim>\<open>can_run\<close> waits for a time that is both before and after it. This is what the locks ask
  for when they wait with a timeout of 0.
\<close>

theorem core_pm_sleep_never_ends:
  assumes "current_thread s cpu = Some p" and "threads s p = Some t" and "ns_vars s ns = Some v" and "v < 1000"
  shows "\<exists>s'. core_pm_sleep s cpu ns = Some (s', [Tick]) \<and> (\<forall>now. can_run (s'\<lparr>micro_sec := now\<rparr>) p = Some (s'\<lparr>micro_sec := now\<rparr>, False))"
proof -
  have "v div 1000 = 0" using assms(4) by (simp add: div_word_less)
  then have "\<not> sleep_over now (slept (micro_sec s) ns v t)" for now by (auto simp: sleep_over_def)
  then show ?thesis using sleep_eq [OF assms(1-3)] by (simp add: can_run_def)
qed

theorem core_pm_sleep_never_ends_witness:
  "\<exists>s'. core_pm_sleep (sample (thread 0 TASK_RUNNING 32 0) (thread 1 TASK_READY 40 0) (thread 2 TASK_READY 1 0) 40 32) 0 0x4000 = Some (s', [Tick]) \<and>
    (\<forall>now. can_run (s'\<lparr>micro_sec := now\<rparr>) 0x1000 = Some (s'\<lparr>micro_sec := now\<rparr>, False))"
  by (rule core_pm_sleep_never_ends [where v = 500])
    (simp_all add: sample_def current_thread_def get_item_def word_less_nat_alt)

text \<open>
  C15. A real-time thread that sleeps goes on at once: \<^verbatim>\<open>next_task\<close> puts the sleeping thread into its list and
  then takes the first thread of the highest real-time list without asking \<^verbatim>\<open>can_run\<close>. When no other real-time
  thread of at least its priority is in the lists, this is the thread itself, and the tick of \<^verbatim>\<open>core_pm_sleep\<close>
  returns to it with the status \<^verbatim>\<open>TASK_SLEEP\<close>, provided that no task of priority 1 can run (one that can would
  replace it, see C14) and that scheduling is enabled on the CPU.
\<close>

theorem realtime_sleep_ignored:
  assumes "sched_ok s cpu q T cur" and "enable_sched (cpu_infos s cpu)" and "ns_vars s ns = Some v"
    and "PRIORITY_DISPATCH \<le> priority (T cur)" and "\<forall>j < 256. unat (priority (T cur)) \<le> j \<longrightarrow> q j = []" and "idle_calm (micro_sec s) q T"
  shows "\<exists>s1 s2 t. core_pm_sleep s cpu ns = Some (s1, [Tick]) \<and> on_tick s1 cpu ctx = Some (s2, ctx) \<and>
    current_node (cpu_infos s2 cpu) = node_of cur \<and> threads s2 cur = Some t \<and> status t = TASK_SLEEP"
proof -
  note d = sched_okD [OF assms(1)]
  let ?now = "micro_sec s" and ?pri = "unat (priority (T cur))" and ?idle = "p_idle_thread (cpu_infos s cpu)"
  let ?t = "slept ?now ns v (T cur)" and ?s1 = "s\<lparr>threads := (threads s)(cur \<mapsto> slept (micro_sec s) ns v (T cur))\<rparr>"
  let ?T = "T(cur := ?t)"
  have cur: "threads s cur = Some (T cur)" "current_node (cpu_infos s cpu) = node_of cur" "node_of cur \<noteq> NULL"
    using sched_qD(4,6) [OF d(4,6)] d(1) by (simp_all add: cpu_runs_def)
  have "current_thread s cpu = Some cur" using cur get_item_node [OF d(4,6)] by (simp add: current_thread_def Let_def)
  then have sl: "core_pm_sleep s cpu ns = Some (?s1, [Tick])" using sleep_eq cur(1) assms(3) by blast
  have q1: "sched_q ?s1 q ?T" using put_thread_q(1) [OF d(4,6), of ?t] assms(3) by auto
  have r1: "cpu_runs ?s1 cpu q ?T cur" using d(1) q1 by (auto simp: cpu_runs_def)
  have m: "may_switch ?s1 cpu (?T cur)" using assms(2) by (simp add: may_switch_def)
  have pri: "64 \<le> ?pri" "?pri < 256" using assms(4) d(1) by (simp_all add: cpu_runs_def word_le_nat_alt word_less_nat_alt)
  have nr: "\<not> runnable ?now (?T cur)" by (auto simp: runnable_def sleep_over_def)
  have over: "\<not> sleep_over ?now (saved ctx ?t)"
    using nr runnable_saved [of ?now ctx ?t] by (simp add: runnable_def)
  define T2 where "T2 = ?T(cur := woken ?now (saved ctx (?T cur)))"
  have T2: "T2 cur = saved ctx ?t" using over by (simp add: T2_def woken_def)
  have Q: "back_in q T2 cur = q(?pri := [cur])" using assms(5) pri(2) T2 by (simp add: back_in_def enqueue_def)
  have "choose_task (\<lambda>_. True) (q(?pri := [cur])) (down 255 63) = Some (cur, (q(?pri := [cur]))(?pri := []))"
    by (rule choose_highest) (use pri assms(5) in auto)
  then have any: "spec_any ?now (back_in q T2 cur) T2 = (Some cur, (q(?pri := [cur]))(?pri := []), T2)" unfolding Q spec_any_def by simp
  obtain c q2 T3 where id: "spec_idle ?now (Some cur, (q(?pri := [cur]))(?pri := []), T2) = (c, q2, T3)"
    by (cases "spec_idle ?now (Some cur, (q(?pri := [cur]))(?pri := []), T2)")
  have "\<forall>w \<in> set (((q(?pri := [cur]))(?pri := [])) 1). \<not> runnable ?now (T2 w)"
    using assms(6) pri(1) T2 over by (auto simp: idle_calm_def T2_def runnable_def)
  then have c: "c = Some cur \<and> T3 = T2" using spec_idle_took(3) [OF id] by blast
  have "spec_tick (micro_sec ?s1) cpu ctx q ?T cur (unat (ci_priority (cpu_infos ?s1 cpu))) (p_idle_thread (cpu_infos ?s1 cpu)) = (q2, T2(cur := resumed cpu (T2 cur)), cur)"
    using spec_tick_replace [OF nr T2_def _ id, of q] any c by simp
  from on_tick_q [OF r1 m this] obtain s2 where
    "on_tick ?s1 cpu ctx = Some (s2, p_context (resumed cpu (T2 cur)))" "sched_q s2 q2 (T2(cur := resumed cpu (T2 cur)))"
    "cur \<in> dom (threads s2)" "current_node (cpu_infos s2 cpu) = node_of cur" by auto
  then show ?thesis using sl T2 sched_qD(4) [of s2 q2 "T2(cur := resumed cpu (T2 cur))" cur] by auto
qed

theorem realtime_sleep_ignored_witness:
  "\<exists>s1 s2 t. core_pm_sleep (sample (thread 0 TASK_RUNNING 200 0) (thread 1 TASK_READY 40 0) (thread 2 TASK_READY 1 0) 40 200) 0 0x4000 = Some (s1, [Tick]) \<and>
    on_tick s1 0 0x77 = Some (s2, 0x77) \<and> threads s2 0x1000 = Some t \<and> status t = TASK_SLEEP"
proof -
  let ?s = "sample (thread 0 TASK_RUNNING 200 0) (thread 1 TASK_READY 40 0) (thread 2 TASK_READY 1 0) 40 200"
  let ?T = "sample_T (thread 0 TASK_RUNNING 200 0) (thread 1 TASK_READY 40 0) (thread 2 TASK_READY 1 0)"
  have ok: "sched_ok ?s 0 (sample_q 40) ?T 0x1000" by (rule sample_ok) (simp_all add: slice_ok_def)
  have "enable_sched (cpu_infos ?s 0)" "ns_vars ?s 0x4000 = Some 500" "PRIORITY_DISPATCH \<le> priority (?T 0x1000)"
    "\<forall>j < 256. unat (priority (?T 0x1000)) \<le> j \<longrightarrow> sample_q 40 j = []" "idle_calm (micro_sec ?s) (sample_q 40) ?T"
    by (simp_all add: idle_calm_def runnable_def sample_def word_le_nat_alt)
  from realtime_sleep_ignored [OF ok, OF this, of "0x77"] show ?thesis by blast
qed

subsection \<open>core\_pm\_suspend, core\_pm\_resume\<close>

definition runs_as :: "sched \<Rightarrow> u32 \<Rightarrow> ptr \<Rightarrow> bool" where
  "runs_as s cpu c \<longleftrightarrow> initialized s \<and> c \<in> dom (threads s) \<and> current_node (cpu_infos s cpu) = node_of c"

lemma currnt_thread_q:
  assumes "sched_q s q T" "runs_as s cpu c"
  shows "core_pm_get_currnt_thread_id s cpu = Some (thread_id (T c))"
  using assms get_item_node [of s q T c] sched_qD(4,6) [of s q T c]
  by (simp add: runs_as_def core_pm_get_currnt_thread_id_def current_thread_def rd_def Let_def)

lemma runs_as_rest: "same_rest s s' \<Longrightarrow> runs_as s cpu c \<Longrightarrow> runs_as s' cpu c"
  by (simp add: runs_as_def same_rest_def)

lemma insert_first_again:
  assumes "ring ns l (x # xs)"
  shows "\<exists>ns'. core_rtl_list_insert_node_before ns NULL l x = Some (ns', x, x) \<and> get_next ns' x = Some x"
proof -
  have c: "cyc ns (x # xs)" "l = x" "x \<noteq> NULL" using assms by (auto simp: ring_def cyc_def)
  then obtain n where n: "ns x = Some n" by (cases xs) (auto simp: cyc_def linked_def)
  let ?z = "last (x # xs)"
  have z: "p_prev n = ?z" "?z \<in> dom ns" "nx ns ?z = x"
    using c n cyc_ends [of ns "[]" "x # xs"] by (auto simp: linked_def)
  show ?thesis using c n z
    by (auto simp: core_rtl_list_insert_node_before_def get_prev_def set_prev_def set_next_def get_next_def Let_def split: if_splits)
qed

text \<open>Two threads of priority 40 wait, for the witnesses.\<close>

definition pair_sample :: sched where
  "pair_sample =
     (let s = sample (thread 0 TASK_RUNNING 32 3) (thread 1 TASK_READY 40 3) (thread 2 TASK_READY 40 3) 40 32
      in s\<lparr>list_nodes := [0x103C \<mapsto> \<lparr>p_prev = 0, p_next = 0, p_item = 0x1000\<rparr>,
                          0x203C \<mapsto> \<lparr>p_prev = 0x303C, p_next = 0x303C, p_item = 0x2000\<rparr>,
                          0x303C \<mapsto> \<lparr>p_prev = 0x203C, p_next = 0x203C, p_item = 0x3000\<rparr>],
           sched_lists := (\<lambda>_. NULL)(40 := 0x203C)\<rparr>)"

abbreviation "pair_T \<equiv> sample_T (thread 0 TASK_RUNNING 32 3) (thread 1 TASK_READY 40 3) (thread 2 TASK_READY 40 3)"

lemma pair_sample_is: "sched_q pair_sample ((\<lambda>_. [])(40 := [0x2000, 0x3000])) pair_T"
proof -
  have l: "sched_lists pair_sample (of_nat i) = (if i = 40 then 0x203C else NULL)" if "i < 256" for i
    using of_nat_eq_256 [OF that, of 40] by (simp add: pair_sample_def Let_def)
  have "cyc (list_nodes pair_sample) [0x203C, 0x303C]" "cyc (list_nodes pair_sample) []"
    by (auto simp: cyc_def linked_def pair_sample_def Let_def)
  then have "ring (list_nodes pair_sample) (sched_lists pair_sample (of_nat i)) (map node_of (((\<lambda>_. [])(40 := [0x2000, 0x3000])) i))" if "i < 256" for i
    using l [OF that] by (auto simp: ring_def node_of_def)
  moreover have "dom (threads pair_sample) = {0x1000, 0x2000, 0x3000}" "dom (ns_vars pair_sample) = {0x4000}"
    by (auto simp: pair_sample_def sample_def Let_def)
  ultimately show ?thesis by (auto simp: sched_q_def node_of_def) (auto simp: pair_sample_def sample_def Let_def)
qed

lemma pair_sample_simps [simp]: "runs_as pair_sample 0 0x1000"
  "core_rtl_array_get (table_mem pair_sample) (thread_table pair_sample) 1 = Some 0x2000"
  by (auto simp: runs_as_def pair_sample_def sample_def Let_def node_of_def core_rtl_array_get_def vec_get_def rd_def word_le_nat_alt)

text \<open>
  C17. Suspending a thread that waits and resuming it destroys its list. \<^verbatim>\<open>core_pm_suspend\<close> leaves the node of
  the thread in the schedule list, \<^verbatim>\<open>core_pm_resume\<close> inserts it again: a thread \<open>x\<close> at the head of its list is its
  own successor afterwards, and the threads behind it are not reached any more.
\<close>

theorem core_pm_resume_breaks_list:
  assumes "sched_q s q T" and "i < 256" and "q i = x # y # ys" and "priority (T x) = of_nat i" and "status (T x) = TASK_READY"
    and "core_rtl_array_get (table_mem s) (thread_table s) tid = Some x" and "x \<noteq> NULL"
    and "runs_as s cpu c" and "thread_id (T c) \<noteq> tid"
  shows "\<exists>s1 s2. core_pm_suspend s cpu tid = Some (s1, [Ipi_preempt]) \<and>
    core_pm_resume s1 tid = Some (s2, [List_lock, List_unlock, Ipi_preempt]) \<and>
    sched_lists s2 (of_nat i) = node_of x \<and> get_next (list_nodes s2) (node_of x) = Some (node_of x)"
proof -
  have x: "x \<in> dom (threads s)" using sched_qD(2) [OF assms(1,2)] assms(3) by simp
  have t: "threads s x = Some (T x)" using sched_qD(4) [OF assms(1) x] .
  have r: "ring (list_nodes s) (sched_lists s (of_nat i)) (node_of x # map node_of (y # ys))" using sched_qD(1) [OF assms(1,2)] assms(3) by simp
  obtain ns where ns: "core_rtl_list_insert_node_before (list_nodes s) NULL (sched_lists s (of_nat i)) (node_of x) = Some (ns, node_of x, node_of x)"
    "get_next ns (node_of x) = Some (node_of x)" using insert_first_again [OF r] by blast
  have l: "(of_nat i :: u32) \<le> PRIORITY_HIGHEST" using assms(2) by (simp add: word_le_nat_alt unat_of_nat_256)
  let ?s1 = "s\<lparr>threads := (threads s)(x \<mapsto> (T x)\<lparr>status := TASK_SUSPEND\<rparr>)\<rparr>"
  have "core_pm_suspend s cpu tid = Some (?s1, [Ipi_preempt])"
    using assms(5-7,9) t currnt_thread_q [OF assms(1,8)] by (simp add: core_pm_suspend_def Let_def upd_thread_eq)
  moreover have "\<exists>s2. core_pm_resume ?s1 tid = Some (s2, [List_lock, List_unlock, Ipi_preempt]) \<and>
      sched_lists s2 (of_nat i) = node_of x \<and> get_next (list_nodes s2) (node_of x) = Some (node_of x)"
    using assms(4,6,7) ns l
    by (simp add: core_pm_resume_def resume_suspended_def upd_thread_eq reset_timeslice_eq insert_first_at_def get_list_def put_list_def)
  ultimately show ?thesis by blast
qed

theorem core_pm_resume_breaks_list_witness:
  "\<exists>s1 s2. core_pm_suspend pair_sample 0 1 = Some (s1, [Ipi_preempt]) \<and> core_pm_resume s1 1 = Some (s2, [List_lock, List_unlock, Ipi_preempt]) \<and>
    sched_lists s2 40 = 0x203C \<and> get_next (list_nodes s2) 0x203C = Some 0x203C"
  using core_pm_resume_breaks_list [where i = 40 and x = "0x2000" and y = "0x3000" and ys = "[]" and tid = 1 and cpu = 0 and c = "0x1000", OF pair_sample_is]
  by (simp add: node_of_def)

subsection \<open>Priorities\<close>

text \<open>
  C18. \<^verbatim>\<open>core_pm_set_thrd_priority\<close> on a thread that waits moves its node to the list of the new priority, and
  leaves the field: \<^verbatim>\<open>core_pm_get_thrd_priority\<close> returns the old priority, by which the scheduler puts the thread
  back after its next turn.
\<close>

theorem core_pm_set_thrd_priority_forgets:
  assumes "sched_q s q T" and "i < 256" and "q i = us @ x # vs" and "priority (T x) = of_nat i" and "status (T x) = TASK_READY"
    and "core_rtl_array_get (table_mem s) (thread_table s) tid = Some x" and "x \<noteq> NULL"
    and "runs_as s cpu c" and "thread_id (T c) \<noteq> tid" and "pri < 256"
  shows "\<exists>s'. core_pm_set_thrd_priority s cpus tmp cpu tid (of_nat pri) = Some (s', tmp, [List_lock, List_unlock]) \<and>
    sched_q s' ((q(i := us @ vs))(pri := x # (q(i := us @ vs)) pri)) T \<and>
    core_pm_get_thrd_priority s' tmp cpu tid = Some (of_nat i, [])"
proof -
  have x: "x \<in> dom (threads s)" using sched_qD(2) [OF assms(1,2)] assms(3) by simp
  have t: "threads s x = Some (T x)" using sched_qD(4) [OF assms(1) x] .
  obtain s1 where s1: "remove_node_at s (of_nat i) (node_of x) = Some s1" "sched_q s1 (q(i := us @ vs)) T" "same_rest s s1"
    using remove_q [OF assms(1-3)] by blast
  have "x \<notin> set ((q(i := us @ vs)) j)" if "j < 256" for j
    using sched_qD(3) [OF assms(1) that assms(2)] queue_distinct [OF assms(1,2)] assms(3) by auto
  then obtain s2 where s2: "insert_first_at s1 (of_nat pri) (node_of x) = Some s2"
    "sched_q s2 ((q(i := us @ vs))(pri := x # (q(i := us @ vs)) pri)) T" "same_rest s1 s2"
    using insert_first_q [OF s1(2) assms(10), of x] x s1(3) by (auto simp: same_rest_def)
  have rest: "same_rest s s2" using same_rest_trans [OF s1(3) s2(3)] .
  have x2: "threads s2 x = Some (T x)" using sched_qD(4) [OF s2(2)] x rest by (simp add: same_rest_def)
  have set: "core_pm_set_thrd_priority s cpus tmp cpu tid (of_nat pri) = Some (s2, tmp, [List_lock, List_unlock])"
    using assms(4-7,9) t s1(1) s2(1) currnt_thread_q [OF assms(1,8)] by (simp add: core_pm_set_thrd_priority_def)
  note cur = currnt_thread_q [OF s2(2) runs_as_rest [OF rest assms(8)]]
  have "core_pm_get_thrd_priority s2 tmp cpu tid = Some (of_nat i, [])"
    using cur assms(4,6,7,9) rest x2 by (simp add: core_pm_get_thrd_priority_def rd_def same_rest_def)
  then show ?thesis using set s2(2) by blast
qed

theorem core_pm_set_thrd_priority_forgets_witness:
  "\<exists>s'. core_pm_set_thrd_priority pair_sample [0] 5 0 1 200 = Some (s', 5, [List_lock, List_unlock]) \<and>
    core_pm_get_thrd_priority s' 5 0 1 = Some (40, [])"
  using core_pm_set_thrd_priority_forgets [where i = 40 and us = "[]" and x = "0x2000" and vs = "[0x3000]" and tid = 1 and cpu = 0 and c = "0x1000"
      and pri = 200 and cpus = "[0]" and tmp = 5, OF pair_sample_is]
  by auto

subsection \<open>The idle thread\<close>

lemma none_above:
  assumes "\<And>i. i \<in> {1<..255} \<Longrightarrow> q i = []"
  shows "spec_any now q T = (None, q, T)"
proof -
  have "choose_task P q (down 255 63) = None" "choose_task P q (down 64 1) = None" for P
    using assms unfolding choose_task_None set_down by auto
  then show ?thesis by (simp add: spec_any_def)
qed

text \<open>
  C19. The time slices of the idle thread wrap. When the current thread is suspended and no other thread waits, the
  tick falls back on the idle thread without asking \<^verbatim>\<open>can_run\<close> or giving it slices; \<^verbatim>\<open>switch_task\<close> would
  do so if \<^verbatim>\<open>current_node\<close> were \<^verbatim>\<open>NULL\<close>, which it never is, and \<^verbatim>\<open>resume\<close> counts down from 0.
\<close>

theorem idle_slices_wrap:
  assumes "cpu_runs s cpu q T cur" and "enable_sched (cpu_infos s cpu)" and "status (T cur) = TASK_SUSPEND"
    and "\<forall>i \<in> {0<..255}. q i = []" and "p_idle_thread (cpu_infos s cpu) = idle" and "idle \<noteq> cur"
    and "time_slices (T idle) = 0" and "priority (T idle) = 0"
  shows "\<exists>s' t. on_tick s cpu ctx = Some (s', p_context (T idle)) \<and> current_node (cpu_infos s' cpu) = node_of idle \<and>
    threads s' idle = Some t \<and> time_slices t = 0xFFFFFFFF"
proof -
  let ?now = "micro_sec s" and ?T0 = "T(cur := woken (micro_sec s) (saved ctx (T cur)))"
  have m: "may_switch s cpu (T cur)" using assms(2,3) by (simp add: may_switch_def)
  have nr: "\<not> runnable ?now (T cur)" using assms(3) by (simp add: runnable_def)
  have "woken ?now (saved ctx (T cur)) = saved ctx (T cur)" using assms(3) by (simp add: woken_def)
  then have Q: "back_in q ?T0 cur = q" using assms(3) by (simp add: back_in_def)
  have e: "q i = []" if "i \<in> {1<..255}" for i using assms(4) that by auto
  have r: "refresh_queues q {1<..63} ?T0 = ?T0" using e by (auto simp: refresh_queues_def)
  have any: "(case spec_any ?now (back_in q ?T0 cur) ?T0 of (None, q, T) \<Rightarrow> spec_any ?now q (refresh_queues q {1<..63} T) | r \<Rightarrow> r) = (None, q, ?T0)"
    unfolding Q none_above [OF e] by (simp only: prod.case option.case r none_above [OF e])
  have "spec_idle ?now (None, q, ?T0) = (None, q, ?T0)" using assms(4) by (simp add: spec_idle_def)
  from spec_tick_replace [OF nr refl any this]
  have "spec_tick ?now cpu ctx q T cur (unat (ci_priority (cpu_infos s cpu))) (p_idle_thread (cpu_infos s cpu)) =
      (q, ?T0(idle := resumed cpu (T idle)), idle)" using assms(5,6) by simp
  from on_tick_q [OF assms(1) m this] obtain s' where s': "on_tick s cpu ctx = Some (s', p_context (resumed cpu (T idle)))"
    "sched_q s' q (?T0(idle := resumed cpu (T idle)))" "idle \<in> dom (threads s')" "current_node (cpu_infos s' cpu) = node_of idle" by auto
  have "threads s' idle = Some (resumed cpu (T idle))" using sched_qD(4) [OF s'(2,3)] by simp
  then show ?thesis using s'(1,4) assms(7,8) by (simp add: resumed_def)
qed

text \<open>The thread at \<open>0x1000\<close> is suspended and no thread waits, for the witness.\<close>

definition lone_sample :: sched where
  "lone_sample =
     sample (thread 0 TASK_SUSPEND 32 3) (thread 1 TASK_ZOMBIE 40 3) (thread 2 TASK_READY 0 0) 40 32\<lparr>sched_lists := \<lambda>_. NULL\<rparr>"

lemma lone_sample_runs:
  "cpu_runs lone_sample 0 (\<lambda>_. []) (sample_T (thread 0 TASK_SUSPEND 32 3) (thread 1 TASK_ZOMBIE 40 3) (thread 2 TASK_READY 0 0)) 0x1000"
proof -
  have "ring (list_nodes lone_sample) NULL []" by (simp add: ring_def cyc_def linked_def)
  moreover have "dom (threads lone_sample) = {0x1000, 0x2000, 0x3000}" "dom (ns_vars lone_sample) = {0x4000}"
    by (auto simp: lone_sample_def sample_def)
  ultimately have "sched_q lone_sample (\<lambda>_. []) (sample_T (thread 0 TASK_SUSPEND 32 3) (thread 1 TASK_ZOMBIE 40 3) (thread 2 TASK_READY 0 0))"
    by (auto simp: sched_q_def node_of_def) (auto simp: lone_sample_def sample_def)
  then show ?thesis by (auto simp: cpu_runs_def fresh_for_def) (auto simp: lone_sample_def sample_def node_of_def)
qed

theorem idle_slices_wrap_witness:
  "\<exists>s' t. on_tick lone_sample 0 0x77 = Some (s', 0x5002) \<and> threads s' 0x3000 = Some t \<and> time_slices t = 0xFFFFFFFF"
proof -
  have "enable_sched (cpu_infos lone_sample 0)" "p_idle_thread (cpu_infos lone_sample 0) = 0x3000"
    by (simp_all add: lone_sample_def sample_def)
  from idle_slices_wrap [OF lone_sample_runs this(1) _ _ this(2), of "0x77"] show ?thesis by auto
qed

end
