(* ===== verification/MmHeap.thy ===== *)
theory MmHeap
  imports Prelude "HOL-Library.Monad_Syntax"
begin

text \<open>
  The kernel heap of \<^verbatim>\<open>kernel/core/mm/heap/heap.c\<close>. A heap is a list of page blocks, each cut into
  memory blocks that lie next to each other; the free blocks are in one red-black tree ordered by
  size, the allocated ones in another. The state has the heap objects, the headers of the page
  blocks and the headers of the memory blocks, each by address; \<open>None\<close> means that the code does
  not come back: it reads where there is no header, or it raises \<^verbatim>\<open>EHPCORRUPTION\<close> in the kernel,
  which panics. What \<^verbatim>\<open>core_mm_pg_alloc\<close> returns is an argument.
\<close>

subsection \<open>Data\<close>

record heap_pg_blck =
  pb_prev :: ptr
  pb_next :: ptr
  pb_index :: u32
  pb_attr :: u32
  pb_size :: u32
  pb_ref :: u64
  pb_heap :: ptr

record heap_mem_blck =
  mb_magic :: u32
  mb_allocated :: bool
  mb_prev :: ptr
  mb_next :: ptr
  mb_parent :: ptr
  mb_lchild :: ptr
  mb_rchild :: ptr
  mb_pg_block :: ptr
  mb_color :: u32
  mb_size :: u32
  mb_heap :: ptr

text \<open>\<^verbatim>\<open>lock\<close> is the multithread lock: whether it is held. \<^verbatim>\<open>prealloc_lock\<close> is never taken.\<close>

record heap_t =
  ht_type :: u32
  p_pg_block_list :: ptr
  p_used_block_tree :: ptr
  p_empty_block_tree :: ptr
  ht_scale :: u32
  ht_lock :: bool

type_synonym hblocks = "ptr \<rightharpoonup> heap_mem_blck"

type_synonym hpages = "ptr \<rightharpoonup> heap_pg_blck"

text \<open>
  The statics of the file and the debug switch of \<^verbatim>\<open>hal_debug_is_on_dbg\<close> belong to the state; the
  addresses \<^verbatim>\<open>&default_heap\<close> and \<^verbatim>\<open>default_heap_pg_block\<close> are fixed when the kernel is linked.
\<close>

record heap_state =
  heaps :: "ptr \<rightharpoonup> heap_t"
  pages :: hpages
  blocks :: hblocks
  is_default_heap_ready :: bool
  default_heap :: ptr
  default_heap_pg_block :: ptr
  on_dbg :: bool

abbreviation HEAP_MEMBLOCK_MAGIC :: u32 where "HEAP_MEMBLOCK_MAGIC \<equiv> 0xFFF23333"
abbreviation HEAP_MULITHREAD :: u32 where "HEAP_MULITHREAD \<equiv> 1"
abbreviation HEAP_PREALLOC :: u32 where "HEAP_PREALLOC \<equiv> 2"
abbreviation HEAP_PAGEBLOCK_FIX :: u32 where "HEAP_PAGEBLOCK_FIX \<equiv> 1"
abbreviation HEAP_MEMBLOCK_BLACK :: u32 where "HEAP_MEMBLOCK_BLACK \<equiv> 0"
abbreviation HEAP_MEMBLOCK_RED :: u32 where "HEAP_MEMBLOCK_RED \<equiv> 1"

text \<open>The sizes of the headers on x86, rounded up to a multiple of 8, and of the default heap.\<close>

abbreviation HEAP_PG_BLCK_SZ :: u32 where "HEAP_PG_BLCK_SZ \<equiv> 32"
abbreviation HEAP_MEM_BLCK_SZ :: u32 where "HEAP_MEM_BLCK_SZ \<equiv> 48"
abbreviation DEFAULT_HEAP_SCALE :: u32 where "DEFAULT_HEAP_SCALE \<equiv> 8192"

abbreviation set_mb_prev where "set_mb_prev v \<equiv> wr (mb_prev_update (\<lambda>_. v))"
abbreviation set_mb_next where "set_mb_next v \<equiv> wr (mb_next_update (\<lambda>_. v))"
abbreviation set_mb_parent where "set_mb_parent v \<equiv> wr (mb_parent_update (\<lambda>_. v))"
abbreviation set_mb_lchild where "set_mb_lchild v \<equiv> wr (mb_lchild_update (\<lambda>_. v))"
abbreviation set_mb_rchild where "set_mb_rchild v \<equiv> wr (mb_rchild_update (\<lambda>_. v))"
abbreviation set_mb_color where "set_mb_color v \<equiv> wr (mb_color_update (\<lambda>_. v))"
abbreviation set_mb_size where "set_mb_size v \<equiv> wr (mb_size_update (\<lambda>_. v))"
abbreviation set_mb_allocated where "set_mb_allocated v \<equiv> wr (mb_allocated_update (\<lambda>_. v))"

definition INIT_HEAP :: "u32 \<Rightarrow> u32 \<Rightarrow> heap_t" where
  "INIT_HEAP hp_scale heap_type =
     \<lparr>ht_type = heap_type, p_pg_block_list = NULL, p_used_block_tree = NULL, p_empty_block_tree = NULL,
      ht_scale = hp_scale, ht_lock = False\<rparr>"

definition INIT_PG_BLOCK :: "u32 \<Rightarrow> u32 \<Rightarrow> ptr \<Rightarrow> heap_pg_blck" where
  "INIT_PG_BLOCK blk_attr blk_size p_heap =
     \<lparr>pb_prev = NULL, pb_next = NULL, pb_index = 0, pb_attr = blk_attr, pb_size = blk_size, pb_ref = 0,
      pb_heap = p_heap\<rparr>"

definition INIT_MEMBLOCK :: "u32 \<Rightarrow> ptr \<Rightarrow> ptr \<Rightarrow> heap_mem_blck" where
  "INIT_MEMBLOCK blk_size p_pg_block p_heap =
     \<lparr>mb_magic = HEAP_MEMBLOCK_MAGIC, mb_allocated = False, mb_prev = NULL, mb_next = NULL,
      mb_parent = NULL, mb_lchild = NULL, mb_rchild = NULL, mb_pg_block = p_pg_block,
      mb_color = HEAP_MEMBLOCK_BLACK, mb_size = blk_size, mb_heap = p_heap\<rparr>"

text \<open>\<^verbatim>\<open>RAISE(ehpcorruption_except(p_heap), NULL)\<close> does not return.\<close>

abbreviation RAISE_EHPCORRUPTION :: "'a option" where "RAISE_EHPCORRUPTION \<equiv> None"

subsection \<open>compare\_node, l\_rotate, r\_rotate\<close>

definition compare_node :: "hpages \<Rightarrow> hblocks \<Rightarrow> ptr \<Rightarrow> ptr \<Rightarrow> int option" where
  "compare_node pgs s p1 p2 =
     do {
       s1 \<leftarrow> rd mb_size s p1;
       s2 \<leftarrow> rd mb_size s p2;
       if s1 > s2 then Some 1
       else if s1 < s2 then Some (-1)
       else do {
         g1 \<leftarrow> rd mb_pg_block s p1;
         g2 \<leftarrow> rd mb_pg_block s p2;
         i1 \<leftarrow> rd pb_index pgs g1;
         i2 \<leftarrow> rd pb_index pgs g2;
         Some (if i1 > i2 then 1 else if i1 < i2 then -1 else 0) } }"

definition hp_l_rotate :: "hblocks \<Rightarrow> ptr \<Rightarrow> ptr \<Rightarrow> (hblocks \<times> ptr \<times> ptr) option" where
  "hp_l_rotate s p_tree p_node =
     do {
       p_new_parent \<leftarrow> rd mb_rchild s p_node;
       (if p_new_parent = NULL then RAISE_EHPCORRUPTION else Some ());
       parent \<leftarrow> rd mb_parent s p_node;
       s \<leftarrow> set_mb_parent parent s p_new_parent;
       parent \<leftarrow> rd mb_parent s p_node;
       (s, p_tree) \<leftarrow>
         (if parent = NULL then Some (s, p_new_parent)
          else do {
            c \<leftarrow> rd mb_lchild s parent;
            s \<leftarrow> (if p_node = c then set_mb_lchild p_new_parent s parent
                   else set_mb_rchild p_new_parent s parent);
            Some (s, p_tree) });
       c \<leftarrow> rd mb_lchild s p_new_parent;
       s \<leftarrow> set_mb_rchild c s p_node;
       c \<leftarrow> rd mb_rchild s p_node;
       s \<leftarrow> (if c \<noteq> NULL then set_mb_parent p_node s c else Some s);
       s \<leftarrow> set_mb_lchild p_node s p_new_parent;
       s \<leftarrow> set_mb_parent p_new_parent s p_node;
       Some (s, p_tree, p_new_parent) }"

definition hp_r_rotate :: "hblocks \<Rightarrow> ptr \<Rightarrow> ptr \<Rightarrow> (hblocks \<times> ptr \<times> ptr) option" where
  "hp_r_rotate s p_tree p_node =
     do {
       p_new_parent \<leftarrow> rd mb_lchild s p_node;
       (if p_new_parent = NULL then RAISE_EHPCORRUPTION else Some ());
       parent \<leftarrow> rd mb_parent s p_node;
       s \<leftarrow> set_mb_parent parent s p_new_parent;
       parent \<leftarrow> rd mb_parent s p_node;
       (s, p_tree) \<leftarrow>
         (if parent = NULL then Some (s, p_new_parent)
          else do {
            c \<leftarrow> rd mb_lchild s parent;
            s \<leftarrow> (if p_node = c then set_mb_lchild p_new_parent s parent
                   else set_mb_rchild p_new_parent s parent);
            Some (s, p_tree) });
       c \<leftarrow> rd mb_rchild s p_new_parent;
       s \<leftarrow> set_mb_lchild c s p_node;
       c \<leftarrow> rd mb_lchild s p_node;
       s \<leftarrow> (if c \<noteq> NULL then set_mb_parent p_node s c else Some s);
       s \<leftarrow> set_mb_rchild p_node s p_new_parent;
       s \<leftarrow> set_mb_parent p_new_parent s p_node;
       Some (s, p_tree, p_new_parent) }"

subsection \<open>check\_tree, check\_node\<close>

text \<open>\<^verbatim>\<open>IS_RED\<close>; \<^verbatim>\<open>CHECK_COUNT\<close> records the first count and ignores the others.\<close>

definition hp_is_red :: "hblocks \<Rightarrow> ptr \<Rightarrow> bool option" where
  "hp_is_red s p = (if p = NULL then Some False else do { c \<leftarrow> rd mb_color s p; Some (c = HEAP_MEMBLOCK_RED) })"

definition check_count :: "int \<Rightarrow> int \<Rightarrow> int" where
  "check_count num count = (if num = -1 then count else num)"

definition red_around :: "hblocks \<Rightarrow> ptr \<Rightarrow> bool option" where
  "red_around s p_node =
     do {
       par \<leftarrow> rd mb_parent s p_node;
       rp \<leftarrow> hp_is_red s par;
       if rp then Some True
       else do {
         l \<leftarrow> rd mb_lchild s p_node;
         rl \<leftarrow> hp_is_red s l;
         if rl then Some True
         else do { r \<leftarrow> rd mb_rchild s p_node; hp_is_red s r } } }"

partial_function (option) check_node :: "hblocks \<Rightarrow> ptr \<Rightarrow> int \<Rightarrow> int \<Rightarrow> int option" where
  "check_node s p_node num count =
     do {
       magic \<leftarrow> rd mb_magic s p_node;
       (if magic \<noteq> HEAP_MEMBLOCK_MAGIC then RAISE_EHPCORRUPTION else Some ());
       c \<leftarrow> rd mb_color s p_node;
       count \<leftarrow>
         (if c = HEAP_MEMBLOCK_RED
          then do { bad \<leftarrow> red_around s p_node; if bad then RAISE_EHPCORRUPTION else Some count }
          else if c = HEAP_MEMBLOCK_BLACK then Some (count + 1)
          else RAISE_EHPCORRUPTION);
       l \<leftarrow> rd mb_lchild s p_node;
       num \<leftarrow>
         (if l = NULL then Some (check_count num count)
          else do {
            par \<leftarrow> rd mb_parent s l;
            (if par \<noteq> p_node then RAISE_EHPCORRUPTION else Some ());
            check_node s l num count });
       r \<leftarrow> rd mb_rchild s p_node;
       if r = NULL then Some (check_count num count)
       else do {
         par \<leftarrow> rd mb_parent s r;
         (if par \<noteq> p_node then RAISE_EHPCORRUPTION else Some ());
         check_node s r num count } }"

definition check_tree :: "hblocks \<Rightarrow> ptr \<Rightarrow> unit option" where
  "check_tree s p_tree =
     (if p_tree = NULL then Some ()
      else do {
        c \<leftarrow> rd mb_color s p_tree;
        (if c = HEAP_MEMBLOCK_RED then RAISE_EHPCORRUPTION else Some ());
        num \<leftarrow> check_node s p_tree (-1) 0;
        Some () })"

subsection \<open>insert\_node\<close>

partial_function (option) hp_insert_link :: "hpages \<Rightarrow> hblocks \<Rightarrow> ptr \<Rightarrow> ptr \<Rightarrow> hblocks option" where
  "hp_insert_link pgs s p_node p_insert_node =
     do {
       cmp_result \<leftarrow> compare_node pgs s p_node p_insert_node;
       if cmp_result \<le> 0
       then do {
         c \<leftarrow> rd mb_lchild s p_insert_node;
         if c = NULL
         then do { s \<leftarrow> set_mb_lchild p_node s p_insert_node; set_mb_parent p_insert_node s p_node }
         else hp_insert_link pgs s p_node c }
       else do {
         c \<leftarrow> rd mb_rchild s p_insert_node;
         if c = NULL
         then do { s \<leftarrow> set_mb_rchild p_node s p_insert_node; set_mb_parent p_insert_node s p_node }
         else hp_insert_link pgs s p_node c } }"

text \<open>
  One round of the repair loop; the two halves of the code differ in the direction. \<open>Inl\<close> goes on
  with \<^verbatim>\<open>p_z\<close>, \<open>Inr\<close> is the \<^verbatim>\<open>break\<close>.
\<close>

definition hp_insert_fix_left :: "hblocks \<Rightarrow> ptr \<Rightarrow> ptr \<Rightarrow> (hblocks \<times> ptr \<times> (ptr + unit)) option" where
  "hp_insert_fix_left s p_tree p_z =
     do {
       parent \<leftarrow> rd mb_parent s p_z;
       grand \<leftarrow> rd mb_parent s parent;
       p_y \<leftarrow> rd mb_rchild s grand;
       cy \<leftarrow> (if p_y \<noteq> NULL then rd mb_color s p_y else Some HEAP_MEMBLOCK_BLACK);
       if p_y \<noteq> NULL \<and> cy = HEAP_MEMBLOCK_RED
       then do {
         s \<leftarrow> set_mb_color HEAP_MEMBLOCK_BLACK s parent;
         s \<leftarrow> set_mb_color HEAP_MEMBLOCK_BLACK s p_y;
         s \<leftarrow> set_mb_color HEAP_MEMBLOCK_RED s grand;
         Some (s, p_tree, Inl grand) }
       else do {
         c \<leftarrow> rd mb_rchild s parent;
         (s, p_tree, p_z) \<leftarrow>
           (if p_z = c
            then do { (s, p_tree, _) \<leftarrow> hp_l_rotate s p_tree parent; Some (s, p_tree, parent) }
            else Some (s, p_tree, p_z));
         parent \<leftarrow> rd mb_parent s p_z;
         grand \<leftarrow> (if parent \<noteq> NULL then rd mb_parent s parent else Some NULL);
         if parent \<noteq> NULL \<and> grand \<noteq> NULL
         then do {
           s \<leftarrow> set_mb_color HEAP_MEMBLOCK_BLACK s parent;
           s \<leftarrow> set_mb_color HEAP_MEMBLOCK_RED s grand;
           (s, p_tree, _) \<leftarrow> hp_r_rotate s p_tree grand;
           Some (s, p_tree, Inr ()) }
         else Some (s, p_tree, Inl p_z) } }"

definition hp_insert_fix_right :: "hblocks \<Rightarrow> ptr \<Rightarrow> ptr \<Rightarrow> (hblocks \<times> ptr \<times> (ptr + unit)) option" where
  "hp_insert_fix_right s p_tree p_z =
     do {
       parent \<leftarrow> rd mb_parent s p_z;
       grand \<leftarrow> rd mb_parent s parent;
       p_y \<leftarrow> rd mb_lchild s grand;
       cy \<leftarrow> (if p_y \<noteq> NULL then rd mb_color s p_y else Some HEAP_MEMBLOCK_BLACK);
       if p_y \<noteq> NULL \<and> cy = HEAP_MEMBLOCK_RED
       then do {
         s \<leftarrow> set_mb_color HEAP_MEMBLOCK_BLACK s parent;
         s \<leftarrow> set_mb_color HEAP_MEMBLOCK_BLACK s p_y;
         s \<leftarrow> set_mb_color HEAP_MEMBLOCK_RED s grand;
         Some (s, p_tree, Inl grand) }
       else do {
         c \<leftarrow> rd mb_lchild s parent;
         (s, p_tree, p_z) \<leftarrow>
           (if p_z = c
            then do { (s, p_tree, _) \<leftarrow> hp_r_rotate s p_tree parent; Some (s, p_tree, parent) }
            else Some (s, p_tree, p_z));
         parent \<leftarrow> rd mb_parent s p_z;
         grand \<leftarrow> (if parent \<noteq> NULL then rd mb_parent s parent else Some NULL);
         if parent \<noteq> NULL \<and> grand \<noteq> NULL
         then do {
           s \<leftarrow> set_mb_color HEAP_MEMBLOCK_BLACK s parent;
           s \<leftarrow> set_mb_color HEAP_MEMBLOCK_RED s grand;
           (s, p_tree, _) \<leftarrow> hp_l_rotate s p_tree grand;
           Some (s, p_tree, Inr ()) }
         else Some (s, p_tree, Inl p_z) } }"

partial_function (option) hp_insert_fix :: "hblocks \<Rightarrow> ptr \<Rightarrow> ptr \<Rightarrow> (hblocks \<times> ptr) option" where
  "hp_insert_fix s p_tree p_z =
     do {
       parent \<leftarrow> rd mb_parent s p_z;
       cp \<leftarrow> (if parent \<noteq> NULL then rd mb_color s parent else Some HEAP_MEMBLOCK_BLACK);
       if parent \<noteq> NULL \<and> cp = HEAP_MEMBLOCK_RED
       then do {
         grand \<leftarrow> rd mb_parent s parent;
         l \<leftarrow> rd mb_lchild s grand;
         (s, p_tree, r) \<leftarrow>
           (if parent = l then hp_insert_fix_left s p_tree p_z else hp_insert_fix_right s p_tree p_z);
         (case r of Inl p_z \<Rightarrow> hp_insert_fix s p_tree p_z | Inr _ \<Rightarrow> Some (s, p_tree)) }
       else Some (s, p_tree) }"

definition hp_insert_node :: "bool \<Rightarrow> hpages \<Rightarrow> hblocks \<Rightarrow> ptr \<Rightarrow> ptr \<Rightarrow> (hblocks \<times> ptr) option" where
  "hp_insert_node dbg pgs s p_tree p_node =
     do {
       s \<leftarrow> set_mb_parent NULL s p_node;
       s \<leftarrow> set_mb_lchild NULL s p_node;
       s \<leftarrow> set_mb_rchild NULL s p_node;
       (s, p_tree) \<leftarrow>
         (if p_tree = NULL
          then do { s \<leftarrow> set_mb_color HEAP_MEMBLOCK_BLACK s p_node; Some (s, p_node) }
          else do {
            s \<leftarrow> hp_insert_link pgs s p_node p_tree;
            s \<leftarrow> set_mb_color HEAP_MEMBLOCK_RED s p_node;
            (s, p_tree) \<leftarrow> hp_insert_fix s p_tree p_node;
            s \<leftarrow> set_mb_color HEAP_MEMBLOCK_BLACK s p_tree;
            Some (s, p_tree) });
       (if dbg then check_tree s p_tree else Some ());
       Some (s, p_tree) }"

subsection \<open>remove\_rebalance\<close>

definition hp_color_of :: "hblocks \<Rightarrow> ptr \<Rightarrow> u32 option" where
  "hp_color_of s p =
     (if p = NULL then Some HEAP_MEMBLOCK_BLACK
      else do { c \<leftarrow> rd mb_color s p; Some (if c = HEAP_MEMBLOCK_BLACK then HEAP_MEMBLOCK_BLACK else HEAP_MEMBLOCK_RED) })"

definition hp_both_black :: "hblocks \<Rightarrow> ptr \<Rightarrow> bool option" where
  "hp_both_black s p_sibling =
     do {
       c \<leftarrow> rd mb_color s p_sibling;
       if c \<noteq> HEAP_MEMBLOCK_BLACK then Some False
       else do {
         l \<leftarrow> rd mb_lchild s p_sibling;
         cl \<leftarrow> hp_color_of s l;
         if cl \<noteq> HEAP_MEMBLOCK_BLACK then Some False
         else do { r \<leftarrow> rd mb_rchild s p_sibling; cr \<leftarrow> hp_color_of s r; Some (cr = HEAP_MEMBLOCK_BLACK) } } }"

definition hp_child_red :: "(heap_mem_blck \<Rightarrow> ptr) \<Rightarrow> hblocks \<Rightarrow> ptr \<Rightarrow> bool option" where
  "hp_child_red child s p_sibling =
     do {
       c \<leftarrow> hp_color_of s p_sibling;
       if c = HEAP_MEMBLOCK_BLACK then do { p \<leftarrow> rd child s p_sibling; cp \<leftarrow> hp_color_of s p; Some (cp = HEAP_MEMBLOCK_RED) }
       else Some False }"

definition hp_blacken :: "hblocks \<Rightarrow> ptr \<Rightarrow> hblocks option" where
  "hp_blacken s p = (if p \<noteq> NULL then set_mb_color HEAP_MEMBLOCK_BLACK s p else Some s)"

text \<open>One round for a left (right) child, case 1 first; \<open>Inl\<close> goes on, \<open>Inr\<close> is the \<^verbatim>\<open>break\<close>.\<close>

definition hp_rebalance_left_rest ::
    "hblocks \<Rightarrow> ptr \<Rightarrow> ptr \<Rightarrow> ptr \<Rightarrow> (hblocks \<times> ptr \<times> (ptr + unit)) option" where
  "hp_rebalance_left_rest s p_tree p_node parent =
     do {
       p_sibling \<leftarrow> rd mb_rchild s parent;
       case2 \<leftarrow> hp_both_black s p_sibling;
       if case2
       then do { s \<leftarrow> set_mb_color HEAP_MEMBLOCK_RED s p_sibling; Some (s, p_tree, Inl parent) }
       else do {
         case3 \<leftarrow> hp_child_red mb_lchild s p_sibling;
         (s, p_tree, p_sibling) \<leftarrow>
           (if case3
            then do {
              s \<leftarrow> set_mb_color HEAP_MEMBLOCK_RED s p_sibling;
              l \<leftarrow> rd mb_lchild s p_sibling;
              s \<leftarrow> set_mb_color HEAP_MEMBLOCK_BLACK s l;
              (s, p_tree, _) \<leftarrow> hp_r_rotate s p_tree p_sibling;
              p_sibling \<leftarrow> rd mb_rchild s parent;
              Some (s, p_tree, p_sibling) }
            else Some (s, p_tree, p_sibling));
         case4 \<leftarrow> hp_child_red mb_rchild s p_sibling;
         if case4
         then do {
           (s, p_tree, _) \<leftarrow> hp_l_rotate s p_tree parent;
           c \<leftarrow> rd mb_color s parent;
           s \<leftarrow> set_mb_color c s p_sibling;
           l \<leftarrow> rd mb_lchild s p_sibling;
           s \<leftarrow> hp_blacken s l;
           r \<leftarrow> rd mb_rchild s p_sibling;
           s \<leftarrow> hp_blacken s r;
           Some (s, p_tree, Inr ()) }
         else Some (s, p_tree, Inl p_node) } }"

definition hp_rebalance_left ::
    "hblocks \<Rightarrow> ptr \<Rightarrow> ptr \<Rightarrow> ptr \<Rightarrow> (hblocks \<times> ptr \<times> (ptr + unit)) option" where
  "hp_rebalance_left s p_tree p_node parent =
     do {
       p_sibling \<leftarrow> rd mb_rchild s parent;
       c \<leftarrow> rd mb_color s p_sibling;
       (s, p_tree) \<leftarrow>
         (if c = HEAP_MEMBLOCK_RED
          then do {
            s \<leftarrow> set_mb_color HEAP_MEMBLOCK_BLACK s p_sibling;
            s \<leftarrow> set_mb_color HEAP_MEMBLOCK_RED s parent;
            (s, p_tree, _) \<leftarrow> hp_l_rotate s p_tree parent;
            Some (s, p_tree) }
          else Some (s, p_tree));
       hp_rebalance_left_rest s p_tree p_node parent }"

definition hp_rebalance_right_rest ::
    "hblocks \<Rightarrow> ptr \<Rightarrow> ptr \<Rightarrow> ptr \<Rightarrow> (hblocks \<times> ptr \<times> (ptr + unit)) option" where
  "hp_rebalance_right_rest s p_tree p_node parent =
     do {
       p_sibling \<leftarrow> rd mb_lchild s parent;
       case2 \<leftarrow> hp_both_black s p_sibling;
       if case2
       then do { s \<leftarrow> set_mb_color HEAP_MEMBLOCK_RED s p_sibling; Some (s, p_tree, Inl parent) }
       else do {
         case3 \<leftarrow> hp_child_red mb_rchild s p_sibling;
         (s, p_tree, p_sibling) \<leftarrow>
           (if case3
            then do {
              s \<leftarrow> set_mb_color HEAP_MEMBLOCK_RED s p_sibling;
              r \<leftarrow> rd mb_rchild s p_sibling;
              s \<leftarrow> set_mb_color HEAP_MEMBLOCK_BLACK s r;
              (s, p_tree, _) \<leftarrow> hp_l_rotate s p_tree p_sibling;
              p_sibling \<leftarrow> rd mb_lchild s parent;
              Some (s, p_tree, p_sibling) }
            else Some (s, p_tree, p_sibling));
         case4 \<leftarrow> hp_child_red mb_lchild s p_sibling;
         if case4
         then do {
           (s, p_tree, _) \<leftarrow> hp_r_rotate s p_tree parent;
           c \<leftarrow> rd mb_color s parent;
           s \<leftarrow> set_mb_color c s p_sibling;
           l \<leftarrow> rd mb_lchild s p_sibling;
           s \<leftarrow> hp_blacken s l;
           r \<leftarrow> rd mb_rchild s p_sibling;
           s \<leftarrow> hp_blacken s r;
           Some (s, p_tree, Inr ()) }
         else Some (s, p_tree, Inl p_node) } }"

definition hp_rebalance_right ::
    "hblocks \<Rightarrow> ptr \<Rightarrow> ptr \<Rightarrow> ptr \<Rightarrow> (hblocks \<times> ptr \<times> (ptr + unit)) option" where
  "hp_rebalance_right s p_tree p_node parent =
     do {
       p_sibling \<leftarrow> rd mb_lchild s parent;
       c \<leftarrow> rd mb_color s p_sibling;
       (s, p_tree) \<leftarrow>
         (if c = HEAP_MEMBLOCK_RED
          then do {
            s \<leftarrow> set_mb_color HEAP_MEMBLOCK_BLACK s p_sibling;
            s \<leftarrow> set_mb_color HEAP_MEMBLOCK_RED s parent;
            (s, p_tree, _) \<leftarrow> hp_r_rotate s p_tree parent;
            Some (s, p_tree) }
          else Some (s, p_tree));
       hp_rebalance_right_rest s p_tree p_node parent }"

partial_function (option) hp_remove_rebalance :: "hblocks \<Rightarrow> ptr \<Rightarrow> ptr \<Rightarrow> ptr \<Rightarrow> (hblocks \<times> ptr) option" where
  "hp_remove_rebalance s p_tree p_node parent =
     do {
       parent \<leftarrow> (if p_node \<noteq> NULL then rd mb_parent s p_node else Some parent);
       c \<leftarrow> hp_color_of s p_node;
       if c = HEAP_MEMBLOCK_RED then do { s \<leftarrow> set_mb_color HEAP_MEMBLOCK_BLACK s p_node; Some (s, p_tree) }
       else if p_node = p_tree then Some (s, p_tree)
       else do {
         l \<leftarrow> rd mb_lchild s parent;
         (s, p_tree, r) \<leftarrow>
           (if l = p_node then hp_rebalance_left s p_tree p_node parent
            else hp_rebalance_right s p_tree p_node parent);
         (case r of
            Inl p_node \<Rightarrow> hp_remove_rebalance s p_tree p_node parent
          | Inr _ \<Rightarrow> Some (s, p_tree)) } }"

subsection \<open>remove\_node\<close>

text \<open>\<^verbatim>\<open>p1->p_parent->child = p2\<close>, on the side of \<open>p1\<close>, or the root.\<close>

definition redirect :: "hblocks \<Rightarrow> ptr \<Rightarrow> ptr \<Rightarrow> ptr \<Rightarrow> (hblocks \<times> ptr) option" where
  "redirect s p_tree p1 p2 =
     do {
       par \<leftarrow> rd mb_parent s p1;
       if par = NULL then Some (s, p2)
       else do {
         l \<leftarrow> rd mb_lchild s par;
         s \<leftarrow> (if p1 = l then set_mb_lchild p2 s par else set_mb_rchild p2 s par);
         Some (s, p_tree) } }"

definition adopt :: "hblocks \<Rightarrow> ptr \<Rightarrow> ptr \<Rightarrow> hblocks option" where
  "adopt s c p = (if c \<noteq> NULL then set_mb_parent p s c else Some s)"

definition swap_node :: "hblocks \<Rightarrow> ptr \<Rightarrow> ptr \<Rightarrow> ptr \<Rightarrow> (hblocks \<times> ptr) option" where
  "swap_node s p1 p2 p_tree =
     do {
       (s, p_tree) \<leftarrow> redirect s p_tree p1 p2;
       (s, p_tree) \<leftarrow> redirect s p_tree p2 p1;
       tmp \<leftarrow> rd mb_parent s p1;
       v \<leftarrow> rd mb_parent s p2;
       s \<leftarrow> set_mb_parent v s p1;
       s \<leftarrow> set_mb_parent tmp s p2;
       tmp \<leftarrow> rd mb_lchild s p1;
       v \<leftarrow> rd mb_lchild s p2;
       s \<leftarrow> set_mb_lchild v s p1;
       s \<leftarrow> set_mb_lchild tmp s p2;
       c \<leftarrow> rd mb_lchild s p1;
       s \<leftarrow> adopt s c p1;
       c \<leftarrow> rd mb_lchild s p2;
       s \<leftarrow> adopt s c p2;
       tmp \<leftarrow> rd mb_rchild s p1;
       v \<leftarrow> rd mb_rchild s p2;
       s \<leftarrow> set_mb_rchild v s p1;
       s \<leftarrow> set_mb_rchild tmp s p2;
       c \<leftarrow> rd mb_rchild s p1;
       s \<leftarrow> adopt s c p1;
       c \<leftarrow> rd mb_rchild s p2;
       s \<leftarrow> adopt s c p2;
       tmp_color \<leftarrow> rd mb_color s p1;
       v \<leftarrow> rd mb_color s p2;
       s \<leftarrow> set_mb_color v s p1;
       s \<leftarrow> set_mb_color tmp_color s p2;
       Some (s, p_tree) }"

partial_function (option) hp_rightmost :: "hblocks \<Rightarrow> ptr \<Rightarrow> ptr option" where
  "hp_rightmost s p_node =
     do { c \<leftarrow> rd mb_rchild s p_node; if c \<noteq> NULL then hp_rightmost s c else Some p_node }"

definition hp_replace_child :: "hblocks \<Rightarrow> ptr \<Rightarrow> ptr \<Rightarrow> hblocks option" where
  "hp_replace_child s p_node c =
     do {
       parent \<leftarrow> rd mb_parent s p_node;
       l \<leftarrow> rd mb_lchild s parent;
       if l = p_node then set_mb_lchild c s parent else set_mb_rchild c s parent }"

definition hp_unlink_node :: "hblocks \<Rightarrow> ptr \<Rightarrow> ptr \<Rightarrow> (hblocks \<times> ptr) option" where
  "hp_unlink_node s p_tree p_node =
     do {
       c \<leftarrow> rd mb_color s p_node;
       l \<leftarrow> rd mb_lchild s p_node;
       r \<leftarrow> rd mb_rchild s p_node;
       parent \<leftarrow> rd mb_parent s p_node;
       if c = HEAP_MEMBLOCK_RED
       then if l \<noteq> NULL
            then do { s \<leftarrow> hp_replace_child s p_node l; s \<leftarrow> set_mb_parent parent s l; Some (s, p_tree) }
            else do { s \<leftarrow> hp_replace_child s p_node NULL; Some (s, p_tree) }
       else if p_node = p_tree
       then do {
         (s, p_tree) \<leftarrow>
           (if l = NULL \<and> r = NULL then Some (s, NULL)
            else if l \<noteq> NULL then do { s \<leftarrow> set_mb_parent NULL s l; Some (s, l) }
            else do { s \<leftarrow> set_mb_parent NULL s r; Some (s, r) });
         s \<leftarrow> (if p_tree \<noteq> NULL then set_mb_color HEAP_MEMBLOCK_BLACK s p_tree else Some s);
         Some (s, p_tree) }
       else if l \<noteq> NULL
       then do {
         s \<leftarrow> hp_replace_child s p_node l;
         s \<leftarrow> set_mb_parent parent s l;
         hp_remove_rebalance s p_tree l NULL }
       else if r \<noteq> NULL
       then do {
         s \<leftarrow> hp_replace_child s p_node r;
         s \<leftarrow> set_mb_parent parent s r;
         hp_remove_rebalance s p_tree r NULL }
       else do {
         s \<leftarrow> hp_replace_child s p_node NULL;
         hp_remove_rebalance s p_tree NULL parent } }"

definition hp_remove_node :: "bool \<Rightarrow> hblocks \<Rightarrow> ptr \<Rightarrow> ptr \<Rightarrow> (hblocks \<times> ptr) option" where
  "hp_remove_node dbg s p_tree p_node =
     do {
       l \<leftarrow> rd mb_lchild s p_node;
       r \<leftarrow> rd mb_rchild s p_node;
       (s, p_tree) \<leftarrow>
         (if l \<noteq> NULL \<and> r \<noteq> NULL
          then do { p_tmp_node \<leftarrow> hp_rightmost s l; swap_node s p_node p_tmp_node p_tree }
          else Some (s, p_tree));
       (s, p_tree) \<leftarrow> hp_unlink_node s p_tree p_node;
       (if dbg then check_tree s p_tree else Some ());
       Some (s, p_tree) }"

end
