(* ===== verification/MmHeapOps.thy ===== *)
theory MmHeapOps
  imports MmHeap
begin

text \<open>
  Creating heaps, allocating from them, freeing and checking: the functions of
  \<^verbatim>\<open>kernel/core/mm/heap/heap.c\<close> on the state of \<open>MmHeap\<close>.
\<close>

subsection \<open>Parts of the state\<close>

definition on_heap :: "(heap_t \<Rightarrow> heap_t) \<Rightarrow> heap_state \<Rightarrow> ptr \<Rightarrow> heap_state option" where
  "on_heap u st p_heap = do { hs \<leftarrow> wr u (heaps st) p_heap; Some (st\<lparr>heaps := hs\<rparr>) }"

definition on_pages :: "(heap_pg_blck \<Rightarrow> heap_pg_blck) \<Rightarrow> heap_state \<Rightarrow> ptr \<Rightarrow> heap_state option" where
  "on_pages u st p = do { pgs \<leftarrow> wr u (pages st) p; Some (st\<lparr>pages := pgs\<rparr>) }"

definition on_blocks :: "(heap_mem_blck \<Rightarrow> heap_mem_blck) \<Rightarrow> heap_state \<Rightarrow> ptr \<Rightarrow> heap_state option" where
  "on_blocks u st p = do { bs \<leftarrow> wr u (blocks st) p; Some (st\<lparr>blocks := bs\<rparr>) }"

text \<open>\<^verbatim>\<open>if(p_heap->type & HEAP_MULITHREAD) core_pm_spnlck_lock\<close>; a lock that is held is never got.\<close>

definition heap_lock :: "heap_state \<Rightarrow> ptr \<Rightarrow> heap_state option" where
  "heap_lock st p_heap =
     do {
       h \<leftarrow> heaps st p_heap;
       if ht_type h AND HEAP_MULITHREAD \<noteq> 0
       then if ht_lock h then None else on_heap (ht_lock_update (\<lambda>_. True)) st p_heap
       else Some st }"

definition heap_unlock :: "heap_state \<Rightarrow> ptr \<Rightarrow> heap_state option" where
  "heap_unlock st p_heap =
     do {
       h \<leftarrow> heaps st p_heap;
       if ht_type h AND HEAP_MULITHREAD \<noteq> 0 then on_heap (ht_lock_update (\<lambda>_. False)) st p_heap else Some st }"

text \<open>The tree operations on the two trees of a heap.\<close>

definition empty_insert :: "heap_state \<Rightarrow> ptr \<Rightarrow> ptr \<Rightarrow> heap_state option" where
  "empty_insert st p_heap p_node =
     do {
       h \<leftarrow> heaps st p_heap;
       (bs, root) \<leftarrow> hp_insert_node (on_dbg st) (pages st) (blocks st) (p_empty_block_tree h) p_node;
       on_heap (p_empty_block_tree_update (\<lambda>_. root)) (st\<lparr>blocks := bs\<rparr>) p_heap }"

definition used_insert :: "heap_state \<Rightarrow> ptr \<Rightarrow> ptr \<Rightarrow> heap_state option" where
  "used_insert st p_heap p_node =
     do {
       h \<leftarrow> heaps st p_heap;
       (bs, root) \<leftarrow> hp_insert_node (on_dbg st) (pages st) (blocks st) (p_used_block_tree h) p_node;
       on_heap (p_used_block_tree_update (\<lambda>_. root)) (st\<lparr>blocks := bs\<rparr>) p_heap }"

definition empty_remove :: "heap_state \<Rightarrow> ptr \<Rightarrow> ptr \<Rightarrow> heap_state option" where
  "empty_remove st p_heap p_node =
     do {
       h \<leftarrow> heaps st p_heap;
       (bs, root) \<leftarrow> hp_remove_node (on_dbg st) (blocks st) (p_empty_block_tree h) p_node;
       on_heap (p_empty_block_tree_update (\<lambda>_. root)) (st\<lparr>blocks := bs\<rparr>) p_heap }"

definition used_remove :: "heap_state \<Rightarrow> ptr \<Rightarrow> ptr \<Rightarrow> heap_state option" where
  "used_remove st p_heap p_node =
     do {
       h \<leftarrow> heaps st p_heap;
       (bs, root) \<leftarrow> hp_remove_node (on_dbg st) (blocks st) (p_used_block_tree h) p_node;
       on_heap (p_used_block_tree_update (\<lambda>_. root)) (st\<lparr>blocks := bs\<rparr>) p_heap }"

subsection \<open>core\_mm\_heap\_chk\<close>

definition links_bad :: "hblocks \<Rightarrow> ptr \<Rightarrow> bool option" where
  "links_bad s p =
     do {
       nx \<leftarrow> rd mb_next s p;
       bad \<leftarrow> (if nx \<noteq> NULL then do { b \<leftarrow> rd mb_prev s nx; Some (b \<noteq> p) } else Some False);
       if bad then Some True
       else do {
         pv \<leftarrow> rd mb_prev s p;
         if pv \<noteq> NULL then do { b \<leftarrow> rd mb_next s pv; Some (b \<noteq> p) } else Some False } }"

definition parent_bad :: "hblocks \<Rightarrow> heap_t \<Rightarrow> ptr \<Rightarrow> bool option" where
  "parent_bad s h p =
     do {
       par \<leftarrow> rd mb_parent s p;
       al \<leftarrow> rd mb_allocated s p;
       if par = NULL
       then Some (al \<and> p \<noteq> p_used_block_tree h \<or> \<not> al \<and> p \<noteq> p_empty_block_tree h)
       else do {
         l \<leftarrow> rd mb_lchild s par;
         if p \<noteq> l then do { r \<leftarrow> rd mb_rchild s par; Some (p \<noteq> r) } else Some False } }"

partial_function (option) chk_blocks :: "hblocks \<Rightarrow> heap_t \<Rightarrow> ptr \<Rightarrow> unit option" where
  "chk_blocks s h p_mem_blk =
     (if p_mem_blk \<noteq> NULL
      then do {
        magic \<leftarrow> rd mb_magic s p_mem_blk;
        (if magic \<noteq> HEAP_MEMBLOCK_MAGIC then RAISE_EHPCORRUPTION else Some ());
        bad \<leftarrow> links_bad s p_mem_blk;
        (if bad then RAISE_EHPCORRUPTION else Some ());
        bad \<leftarrow> parent_bad s h p_mem_blk;
        (if bad then RAISE_EHPCORRUPTION else Some ());
        nx \<leftarrow> rd mb_next s p_mem_blk;
        chk_blocks s h nx }
      else Some ())"

partial_function (option) chk_pages :: "hpages \<Rightarrow> hblocks \<Rightarrow> heap_t \<Rightarrow> ptr \<Rightarrow> unit option" where
  "chk_pages pgs s h p_pg_blk =
     (if p_pg_blk \<noteq> NULL
      then do {
        u \<leftarrow> chk_blocks s h (p_pg_blk + HEAP_PG_BLCK_SZ);
        nx \<leftarrow> rd pb_next pgs p_pg_blk;
        chk_pages pgs s h nx }
      else Some ())"

definition core_mm_heap_chk :: "heap_state \<Rightarrow> ptr \<Rightarrow> heap_state option" where
  "core_mm_heap_chk st heap =
     do {
       let p_heap = (if heap = NULL then default_heap st else heap);
       st \<leftarrow> heap_lock st p_heap;
       h \<leftarrow> heaps st p_heap;
       u \<leftarrow> chk_pages (pages st) (blocks st) h (p_pg_block_list h);
       u \<leftarrow> check_tree (blocks st) (p_empty_block_tree h);
       u \<leftarrow> check_tree (blocks st) (p_used_block_tree h);
       heap_unlock st p_heap }"

definition HEAP_CHECK :: "heap_state \<Rightarrow> ptr \<Rightarrow> heap_state option" where
  "HEAP_CHECK st heap = (if on_dbg st then core_mm_heap_chk st heap else Some st)"

subsection \<open>core\_mm\_heap\_alloc\<close>

definition init_default_heap :: "heap_state \<Rightarrow> heap_state" where
  "init_default_heap st =
     (let p_heap = default_heap st; pg = default_heap_pg_block st; p_mem_block = pg + HEAP_PG_BLCK_SZ
      in st\<lparr>heaps := (heaps st)(p_heap \<mapsto> (INIT_HEAP DEFAULT_HEAP_SCALE HEAP_MULITHREAD)
               \<lparr>p_pg_block_list := pg, p_empty_block_tree := p_mem_block\<rparr>),
             pages := (pages st)(pg \<mapsto> INIT_PG_BLOCK HEAP_PAGEBLOCK_FIX DEFAULT_HEAP_SCALE p_heap),
             blocks := (blocks st)(p_mem_block \<mapsto> INIT_MEMBLOCK (DEFAULT_HEAP_SCALE - HEAP_PG_BLCK_SZ) pg p_heap),
             is_default_heap_ready := True\<rparr>)"

text \<open>The two climbs of \<^verbatim>\<open>get_free_mem_block\<close>: the first reads the size before it tests for \<^verbatim>\<open>NULL\<close>.\<close>

partial_function (option) free_climb_left :: "hblocks \<Rightarrow> u32 \<Rightarrow> ptr \<Rightarrow> ptr option" where
  "free_climb_left s want p_block =
     do {
       sz \<leftarrow> rd mb_size s p_block;
       if sz < want \<and> p_block \<noteq> NULL
       then do { par \<leftarrow> rd mb_parent s p_block; free_climb_left s want par }
       else Some p_block }"

partial_function (option) free_climb_right :: "hblocks \<Rightarrow> u32 \<Rightarrow> ptr \<Rightarrow> ptr option" where
  "free_climb_right s want p_block =
     (if p_block \<noteq> NULL
      then do {
        sz \<leftarrow> rd mb_size s p_block;
        if sz < want then do { par \<leftarrow> rd mb_parent s p_block; free_climb_right s want par } else Some p_block }
      else Some p_block)"

partial_function (option) free_search :: "hblocks \<Rightarrow> u32 \<Rightarrow> ptr \<Rightarrow> ptr option" where
  "free_search s want p_block =
     do {
       sz \<leftarrow> rd mb_size s p_block;
       if sz = want then Some p_block
       else if sz > want
       then do {
         l \<leftarrow> rd mb_lchild s p_block;
         if l = NULL then free_climb_left s want p_block else free_search s want l }
       else do {
         r \<leftarrow> rd mb_rchild s p_block;
         if r = NULL then free_climb_right s want p_block else free_search s want r } }"

definition get_free_mem_block :: "hblocks \<Rightarrow> ptr \<Rightarrow> u32 \<Rightarrow> ptr option" where
  "get_free_mem_block s p_empty want =
     (if p_empty = NULL then Some NULL else free_search s (want + HEAP_MEM_BLCK_SZ) p_empty)"

partial_function (option) append_page :: "hpages \<Rightarrow> ptr \<Rightarrow> ptr \<Rightarrow> hpages option" where
  "append_page pgs p_new p_node =
     do {
       nx \<leftarrow> rd pb_next pgs p_node;
       if nx = NULL
       then do {
         pgs \<leftarrow> wr (pb_next_update (\<lambda>_. p_new)) pgs p_node;
         wr (pb_prev_update (\<lambda>_. p_node)) pgs p_new }
       else append_page pgs p_new nx }"

definition new_page :: "heap_state \<Rightarrow> ptr \<Rightarrow> ptr \<Rightarrow> (heap_state \<times> ptr) option" where
  "new_page st p_heap p_new =
     do {
       h \<leftarrow> heaps st p_heap;
       let p_mem_block = p_new + HEAP_PG_BLCK_SZ;
       let st = st\<lparr>pages := (pages st)(p_new \<mapsto> INIT_PG_BLOCK 0 (ht_scale h) p_heap)\<rparr>;
       let st = st\<lparr>blocks := (blocks st)(p_mem_block \<mapsto> INIT_MEMBLOCK (ht_scale h - HEAP_PG_BLCK_SZ) p_new p_heap)\<rparr>;
       st \<leftarrow>
         (if p_pg_block_list h = NULL
          then do {
            st \<leftarrow> on_pages (\<lambda>b. b\<lparr>pb_next := NULL, pb_prev := NULL\<rparr>) st p_new;
            on_heap (p_pg_block_list_update (\<lambda>_. p_new)) st p_heap }
          else do { pgs \<leftarrow> append_page (pages st) p_new (p_pg_block_list h); Some (st\<lparr>pages := pgs\<rparr>) });
       Some (st, p_mem_block) }"

definition split_block :: "heap_state \<Rightarrow> ptr \<Rightarrow> ptr \<Rightarrow> u32 \<Rightarrow> heap_state option" where
  "split_block st p_heap p_mem_block want =
     do {
       bsz \<leftarrow> rd mb_size (blocks st) p_mem_block;
       if bsz > want + HEAP_MEM_BLCK_SZ * 2 + 8
       then do {
         let p_new_mem_block = p_mem_block + want + HEAP_MEM_BLCK_SZ;
         pg \<leftarrow> rd mb_pg_block (blocks st) p_mem_block;
         hp \<leftarrow> rd mb_heap (blocks st) p_mem_block;
         let st = st\<lparr>blocks := (blocks st)(p_new_mem_block \<mapsto> INIT_MEMBLOCK (bsz - want - HEAP_MEM_BLCK_SZ) pg hp)\<rparr>;
         st \<leftarrow> on_blocks (mb_size_update (\<lambda>_. want + HEAP_MEM_BLCK_SZ)) st p_mem_block;
         st \<leftarrow> empty_insert st p_heap p_new_mem_block;
         nx \<leftarrow> rd mb_next (blocks st) p_mem_block;
         st \<leftarrow> on_blocks (mb_next_update (\<lambda>_. nx)) st p_new_mem_block;
         st \<leftarrow> on_blocks (mb_prev_update (\<lambda>_. p_mem_block)) st p_new_mem_block;
         st \<leftarrow> on_blocks (mb_next_update (\<lambda>_. p_new_mem_block)) st p_mem_block;
         nx \<leftarrow> rd mb_next (blocks st) p_new_mem_block;
         if nx \<noteq> NULL then on_blocks (mb_prev_update (\<lambda>_. p_new_mem_block)) st nx else Some st }
       else Some st }"

text \<open>Marking a block allocated: into the tree of used blocks, and one more reference to its page.\<close>

definition take_block :: "heap_state \<Rightarrow> ptr \<Rightarrow> ptr \<Rightarrow> heap_state option" where
  "take_block st p_heap p_mem_block =
     do {
       st \<leftarrow> used_insert st p_heap p_mem_block;
       st \<leftarrow> on_blocks (mb_allocated_update (\<lambda>_. True)) st p_mem_block;
       pg \<leftarrow> rd mb_pg_block (blocks st) p_mem_block;
       on_pages (\<lambda>b. b\<lparr>pb_ref := pb_ref b + 1\<rparr>) st pg }"

definition round_up_8 :: "u32 \<Rightarrow> u32" where
  "round_up_8 want = (if want mod 8 \<noteq> 0 then (want div 8 + 1) * 8 else want)"

definition core_mm_heap_alloc :: "heap_state \<Rightarrow> u32 \<Rightarrow> ptr \<Rightarrow> ptr \<Rightarrow> (heap_state \<times> ptr) option" where
  "core_mm_heap_alloc st want heap p_new_pg_block =
     do {
       let p_heap = (if heap = NULL then default_heap st else heap);
       let st = (if heap = NULL \<and> \<not> is_default_heap_ready st then init_default_heap st else st);
       let want = round_up_8 want;
       h \<leftarrow> heaps st p_heap;
       if want + HEAP_MEM_BLCK_SZ > ht_scale h then Some (st, NULL)
       else do {
         st \<leftarrow> heap_lock st p_heap;
         p_mem_block \<leftarrow> get_free_mem_block (blocks st) (p_empty_block_tree h) want;
         (st, p_mem_block) \<leftarrow>
           (if p_mem_block = NULL
            then if ht_type h AND HEAP_PREALLOC \<noteq> 0 \<or> p_new_pg_block = NULL then Some (st, NULL)
                 else new_page st p_heap p_new_pg_block
            else do { st \<leftarrow> empty_remove st p_heap p_mem_block; Some (st, p_mem_block) });
         if p_mem_block = NULL then do { st \<leftarrow> heap_unlock st p_heap; Some (st, NULL) }
         else do {
           st \<leftarrow> split_block st p_heap p_mem_block want;
           st \<leftarrow> take_block st p_heap p_mem_block;
           st \<leftarrow> heap_unlock st p_heap;
           st \<leftarrow> HEAP_CHECK st p_heap;
           Some (st, p_mem_block + HEAP_MEM_BLCK_SZ) } } }"

subsection \<open>core\_mm\_heap\_free\<close>

text \<open>
  Taking a page block out of the list and giving it back: \<^verbatim>\<open>core_mm_pg_free\<close> unmaps it, so that no
  header in it is live any more.
\<close>

definition unlink_page :: "heap_state \<Rightarrow> ptr \<Rightarrow> ptr \<Rightarrow> heap_state option" where
  "unlink_page st p_heap pg =
     do {
       pv \<leftarrow> rd pb_prev (pages st) pg;
       nx \<leftarrow> rd pb_next (pages st) pg;
       st \<leftarrow> (if pv \<noteq> NULL then on_pages (pb_next_update (\<lambda>_. nx)) st pv else Some st);
       st \<leftarrow> (if nx \<noteq> NULL then on_pages (pb_prev_update (\<lambda>_. pv)) st nx else Some st);
       if pv = NULL then on_heap (p_pg_block_list_update (\<lambda>_. nx)) st p_heap else Some st }"

definition unmap_pages :: "heap_state \<Rightarrow> ptr \<Rightarrow> heap_state option" where
  "unmap_pages st pg =
     do {
       sz \<leftarrow> rd pb_size (pages st) pg;
       Some (st\<lparr>pages := (pages st)(pg := None),
                blocks := (\<lambda>p. if p - pg < sz then None else blocks st p)\<rparr>) }"

definition release_page :: "heap_state \<Rightarrow> ptr \<Rightarrow> ptr \<Rightarrow> heap_state option" where
  "release_page st p_heap p_mem_block =
     do {
       pg \<leftarrow> rd mb_pg_block (blocks st) p_mem_block;
       pv \<leftarrow> rd mb_prev (blocks st) p_mem_block;
       st \<leftarrow> (if pv \<noteq> NULL then empty_remove st p_heap pv else Some st);
       nx \<leftarrow> rd mb_next (blocks st) p_mem_block;
       st \<leftarrow> (if nx \<noteq> NULL then empty_remove st p_heap nx else Some st);
       st \<leftarrow> unlink_page st p_heap pg;
       unmap_pages st pg }"

text \<open>Taking in the following block \<open>b\<close>: its size is added and it leaves the list of its page.\<close>

definition absorb_next :: "heap_state \<Rightarrow> ptr \<Rightarrow> ptr \<Rightarrow> heap_state option" where
  "absorb_next st a b =
     do {
       sa \<leftarrow> rd mb_size (blocks st) a;
       sb \<leftarrow> rd mb_size (blocks st) b;
       st \<leftarrow> on_blocks (mb_size_update (\<lambda>_. sa + sb)) st a;
       nx \<leftarrow> rd mb_next (blocks st) b;
       st \<leftarrow> on_blocks (mb_next_update (\<lambda>_. nx)) st a;
       if nx \<noteq> NULL then on_blocks (mb_prev_update (\<lambda>_. a)) st nx else Some st }"

definition join_prev :: "heap_state \<Rightarrow> ptr \<Rightarrow> ptr \<Rightarrow> (heap_state \<times> ptr) option" where
  "join_prev st p_heap p_mem_block =
     do {
       pv \<leftarrow> rd mb_prev (blocks st) p_mem_block;
       al \<leftarrow> (if pv \<noteq> NULL then rd mb_allocated (blocks st) pv else Some True);
       if pv \<noteq> NULL \<and> \<not> al
       then do {
         st \<leftarrow> empty_remove st p_heap pv;
         st \<leftarrow> absorb_next st pv p_mem_block;
         Some (st, pv) }
       else Some (st, p_mem_block) }"

definition join_next :: "heap_state \<Rightarrow> ptr \<Rightarrow> ptr \<Rightarrow> heap_state option" where
  "join_next st p_heap p_mem_block =
     do {
       nx \<leftarrow> rd mb_next (blocks st) p_mem_block;
       al \<leftarrow> (if nx \<noteq> NULL then rd mb_allocated (blocks st) nx else Some True);
       if nx \<noteq> NULL \<and> \<not> al
       then do { st \<leftarrow> empty_remove st p_heap nx; absorb_next st p_mem_block nx }
       else Some st }"

text \<open>Marking a block free: out of the tree of used blocks, one reference less to its page.\<close>

definition drop_block :: "heap_state \<Rightarrow> ptr \<Rightarrow> ptr \<Rightarrow> heap_state option" where
  "drop_block st p_heap p_mem_block =
     do {
       st \<leftarrow> used_remove st p_heap p_mem_block;
       st \<leftarrow> on_blocks (mb_allocated_update (\<lambda>_. False)) st p_mem_block;
       pg \<leftarrow> rd mb_pg_block (blocks st) p_mem_block;
       on_pages (\<lambda>b. b\<lparr>pb_ref := pb_ref b - 1\<rparr>) st pg }"

definition core_mm_heap_free :: "heap_state \<Rightarrow> ptr \<Rightarrow> ptr \<Rightarrow> heap_state option" where
  "core_mm_heap_free st p_mem heap =
     do {
       let p_heap = (if heap = NULL then default_heap st else heap);
       st \<leftarrow> heap_lock st p_heap;
       let p_mem_block = p_mem - HEAP_MEM_BLCK_SZ;
       st \<leftarrow> drop_block st p_heap p_mem_block;
       pg \<leftarrow> rd mb_pg_block (blocks st) p_mem_block;
       ref \<leftarrow> rd pb_ref (pages st) pg;
       attr \<leftarrow> rd pb_attr (pages st) pg;
       st \<leftarrow>
         (if ref = 0 \<and> attr AND HEAP_PAGEBLOCK_FIX = 0 then release_page st p_heap p_mem_block
          else do {
            (st, p_mem_block) \<leftarrow> join_prev st p_heap p_mem_block;
            st \<leftarrow> join_next st p_heap p_mem_block;
            empty_insert st p_heap p_mem_block });
       st \<leftarrow> heap_unlock st p_heap;
       HEAP_CHECK st p_heap }"

subsection \<open>core\_mm\_heap\_create, core\_mm\_heap\_create\_on\_buf\<close>

text \<open>\<^verbatim>\<open>sizeof(heap_t)\<close> on x86: five words and two spinlocks of three words.\<close>

definition core_mm_heap_create :: "heap_state \<Rightarrow> u32 \<Rightarrow> u32 \<Rightarrow> ptr \<Rightarrow> (heap_state \<times> ptr) option" where
  "core_mm_heap_create st attribute scale p_new_pg_block =
     do {
       (st, ret) \<leftarrow> core_mm_heap_alloc st 44 NULL p_new_pg_block;
       if ret = NULL then Some (st, NULL)
       else Some (st\<lparr>heaps := (heaps st)(ret \<mapsto> INIT_HEAP scale attribute)\<rparr>, ret) }"

definition core_mm_heap_create_on_buf ::
    "heap_state \<Rightarrow> u32 \<Rightarrow> u32 \<Rightarrow> ptr \<Rightarrow> u32 \<Rightarrow> ptr \<Rightarrow> (heap_state \<times> ptr) option" where
  "core_mm_heap_create_on_buf st attribute scale init_buf init_buf_size p_new_pg_block =
     do {
       (st, ret) \<leftarrow> core_mm_heap_alloc st 44 NULL p_new_pg_block;
       if ret = NULL then Some (st, NULL)
       else let p_mem_block = init_buf + HEAP_PG_BLCK_SZ
         in Some (st\<lparr>heaps := (heaps st)(ret \<mapsto> (INIT_HEAP scale attribute)
                        \<lparr>p_pg_block_list := init_buf, p_empty_block_tree := p_mem_block\<rparr>),
                     pages := (pages st)(init_buf \<mapsto> INIT_PG_BLOCK HEAP_PAGEBLOCK_FIX init_buf_size ret),
                     blocks := (blocks st)(p_mem_block \<mapsto> INIT_MEMBLOCK (init_buf_size - HEAP_PG_BLCK_SZ) init_buf ret)\<rparr>,
                   ret) }"

end
