(* ===== verification/MmHeapTree.thy ===== *)
theory MmHeapTree
  imports MmHeap RtlMapRemove
begin

text \<open>
  The trees of the heap are the trees of the map: \<open>emb R t\<close> are the block headers with the links of
  the nodes \<open>t\<close> and the rest of the fields from \<open>R\<close>, and the tree functions of \<^verbatim>\<open>heap.c\<close> do on
  \<open>emb R t\<close> what those of \<^verbatim>\<open>map.c\<close> do on \<open>t\<close>. So what \<open>RtlMapInsert\<close> and \<open>RtlMapRebalance\<close> prove
  of the repairs holds for the heap.
\<close>

subsection \<open>Headers as tree nodes and the rest\<close>

definition links :: "hblocks \<Rightarrow> rbnodes" where
  "links s p = map_option (\<lambda>n. \<lparr>p_parent = mb_parent n, p_lchild = mb_lchild n, p_rchild = mb_rchild n, color = mb_color n,
     p_key = p, p_value = p\<rparr>) (s p)"

definition rest :: "hblocks \<Rightarrow> ptr \<Rightarrow> heap_mem_blck" where
  "rest s p = (case s p of Some n \<Rightarrow> n | None \<Rightarrow> INIT_MEMBLOCK 0 0 0)"

definition emb :: "(ptr \<Rightarrow> heap_mem_blck) \<Rightarrow> rbnodes \<Rightarrow> hblocks" where
  "emb R t p = map_option (\<lambda>n. (R p)\<lparr>mb_parent := p_parent n, mb_lchild := p_lchild n, mb_rchild := p_rchild n,
     mb_color := color n\<rparr>) (t p)"

lemma emb_links: "emb (rest s) (links s) = s"
  by (rule ext) (auto simp: emb_def links_def rest_def split: option.split)

lemma emb_rd [simp]:
  "rd mb_parent (emb R t) p = rd p_parent t p" "rd mb_lchild (emb R t) p = rd p_lchild t p"
  "rd mb_rchild (emb R t) p = rd p_rchild t p" "rd mb_color (emb R t) p = rd color t p"
  by (cases "t p"; simp add: rd_def emb_def)+

lemma emb_wr [simp]:
  "wr (mb_parent_update (\<lambda>_. v)) (emb R t) p = map_option (emb R) (wr (p_parent_update (\<lambda>_. v)) t p)"
  "wr (mb_lchild_update (\<lambda>_. v)) (emb R t) p = map_option (emb R) (wr (p_lchild_update (\<lambda>_. v)) t p)"
  "wr (mb_rchild_update (\<lambda>_. v)) (emb R t) p = map_option (emb R) (wr (p_rchild_update (\<lambda>_. v)) t p)"
  "wr (mb_color_update (\<lambda>_. c)) (emb R t) p = map_option (emb R) (wr (color_update (\<lambda>_. c)) t p)"
  by (cases "t p"; force simp: wr_def emb_def fun_eq_iff)+

lemma map_bind: "map_option f (m \<bind> g) = (m \<bind> (\<lambda>x. map_option f (g x)))"
  by (cases m) auto

lemma bind_map: "map_option f m \<bind> g = (m \<bind> (\<lambda>x. g (f x)))"
  by (cases m) auto

text \<open>The nodes are keyed by their addresses, and there is none at \<^verbatim>\<open>NULL\<close>.\<close>

definition lnk :: "rbnodes \<Rightarrow> bool" where
  "lnk t \<longleftrightarrow> t NULL = None \<and> (\<forall>p n. t p = Some n \<longrightarrow> p_key n = p \<and> p_value n = p)"

lemma lnk_links: "s NULL = None \<Longrightarrow> lnk (links s)"
  by (auto simp: lnk_def links_def)

lemma links_emb: "lnk t \<Longrightarrow> links (emb R t) = t"
proof (rule ext)
  fix p assume "lnk t"
  then show "links (emb R t) p = t p" by (cases "t p") (auto simp: links_def emb_def lnk_def)
qed

lemma rd_NULL: "lnk t \<Longrightarrow> rd f t NULL = None"
  by (simp add: rd_def lnk_def)

lemma wr_NULL: "lnk t \<Longrightarrow> wr f t NULL = None"
  by (simp add: wr_def lnk_def)

lemma wr_keeps:
  "wr (p_parent_update (\<lambda>_. v)) t p = Some t' \<Longrightarrow> lnk t \<Longrightarrow> lnk t'"
  "wr (p_lchild_update (\<lambda>_. v)) t p = Some t' \<Longrightarrow> lnk t \<Longrightarrow> lnk t'"
  "wr (p_rchild_update (\<lambda>_. v)) t p = Some t' \<Longrightarrow> lnk t \<Longrightarrow> lnk t'"
  "wr (color_update (\<lambda>_. c)) t p = Some t' \<Longrightarrow> lnk t \<Longrightarrow> lnk t'"
  by (auto simp: wr_def lnk_def split: if_splits)

lemmas emb_bind = map_bind bind_map if_distrib [of "map_option f" for f] case_prod_beta

lemma emb_l_rotate:
  "lnk t \<Longrightarrow> hp_l_rotate (emb R t) root a = map_option (\<lambda>(t, r). (emb R t, r)) (l_rotate t root a)"
  by (auto simp: hp_l_rotate_def l_rotate_def emb_bind rd_NULL wr_NULL intro!: Option.bind_cong)

lemma emb_r_rotate:
  "lnk t \<Longrightarrow> hp_r_rotate (emb R t) root a = map_option (\<lambda>(t, r). (emb R t, r)) (r_rotate t root a)"
  by (auto simp: hp_r_rotate_def r_rotate_def emb_bind rd_NULL wr_NULL intro!: Option.bind_cong)

lemma l_rotate_keeps: "l_rotate t root a = Some (t', r) \<Longrightarrow> lnk t \<Longrightarrow> lnk t'"
  by (auto simp: l_rotate_def bind_eq_Some_conv wr_keeps split: if_splits)

lemma r_rotate_keeps: "r_rotate t root a = Some (t', r) \<Longrightarrow> lnk t \<Longrightarrow> lnk t'"
  by (auto simp: r_rotate_def bind_eq_Some_conv wr_keeps split: if_splits)

lemmas keeps_lnk = wr_keeps l_rotate_keeps r_rotate_keeps

lemma emb_color_of: "hp_color_of (emb R t) p = color_of t p"
  by (simp add: hp_color_of_def color_of_def)

lemma emb_both_black: "hp_both_black (emb R t) p = both_black t p"
  by (simp add: hp_both_black_def both_black_def emb_color_of cong: if_cong)

lemma emb_child_red:
  "hp_child_red mb_lchild (emb R t) p = child_red p_lchild t p" "hp_child_red mb_rchild (emb R t) p = child_red p_rchild t p"
  by (simp_all add: hp_child_red_def child_red_def emb_color_of cong: if_cong)

lemma emb_blacken: "hp_blacken (emb R t) p = map_option (emb R) (blacken t p)"
  by (simp add: hp_blacken_def blacken_def)

lemma emb_replace_child: "hp_replace_child (emb R t) p c = map_option (emb R) (replace_child t p c)"
  by (simp add: hp_replace_child_def replace_child_def emb_bind cong: if_cong)

lemma emb_insert_fix_left:
  "lnk t \<Longrightarrow> hp_insert_fix_left (emb R t) root a = map_option (\<lambda>(t, r). (emb R t, r)) (insert_fix_left t root a)"
  by (auto simp: hp_insert_fix_left_def insert_fix_left_def emb_bind keeps_lnk emb_l_rotate emb_r_rotate intro!: Option.bind_cong)

lemma emb_insert_fix_right:
  "lnk t \<Longrightarrow> hp_insert_fix_right (emb R t) root a = map_option (\<lambda>(t, r). (emb R t, r)) (insert_fix_right t root a)"
  by (auto simp: hp_insert_fix_right_def insert_fix_right_def emb_bind keeps_lnk emb_l_rotate emb_r_rotate intro!: Option.bind_cong)

definition keeps :: "(rbnodes \<times> 'a) option \<Rightarrow> bool" where
  "keeps m \<longleftrightarrow> (\<forall>t r. m = Some (t, r) \<longrightarrow> lnk t)"

lemma keeps_bind: "(\<And>x. m = Some x \<Longrightarrow> keeps (g x)) \<Longrightarrow> keeps (m \<bind> g)"
  by (cases m) (simp_all add: keeps_def)

lemma keeps_if: "(b \<Longrightarrow> keeps m) \<Longrightarrow> (\<not> b \<Longrightarrow> keeps n) \<Longrightarrow> keeps (if b then m else n)"
  by simp

lemma keeps_Some [simp]: "keeps (Some (t, r)) \<longleftrightarrow> lnk t"
  by (simp add: keeps_def)

lemma insert_fix_left_keeps: "lnk t \<Longrightarrow> keeps (insert_fix_left t root a)"
  by (auto simp: insert_fix_left_def keeps_lnk split_def bind_eq_Some_conv intro!: keeps_bind split: if_splits)

lemma insert_fix_right_keeps: "lnk t \<Longrightarrow> keeps (insert_fix_right t root a)"
  by (auto simp: insert_fix_right_def keeps_lnk split_def bind_eq_Some_conv intro!: keeps_bind split: if_splits)

lemma keepsD: "keeps m \<Longrightarrow> m = Some (t, r) \<Longrightarrow> lnk t"
  by (simp add: keeps_def)

text \<open>\<open>sim R m n\<close>: where \<open>m\<close> returns, \<open>n\<close> returns the same on the headers with the rest \<open>R\<close>.\<close>

definition sim :: "(ptr \<Rightarrow> heap_mem_blck) \<Rightarrow> (rbnodes \<times> 'a) option \<Rightarrow> (hblocks \<times> 'a) option \<Rightarrow> bool" where
  "sim R m n \<longleftrightarrow> (\<forall>t r. m = Some (t, r) \<longrightarrow> n = Some (emb R t, r) \<and> lnk t)"

lemma sim_bind: "(\<And>x. m = Some x \<Longrightarrow> sim R (g x) (g' x)) \<Longrightarrow> sim R (m \<bind> g) (m \<bind> g')"
  by (cases m) (simp_all add: sim_def)

lemma sim_if: "(b \<Longrightarrow> sim R m n) \<Longrightarrow> (\<not> b \<Longrightarrow> sim R m' n') \<Longrightarrow> sim R (if b then m else m') (if b then n else n')"
  by simp

lemma sim_Some [simp]: "sim R (Some (t, r)) (Some (emb R t, r)) \<longleftrightarrow> lnk t"
  by (simp add: sim_def)

lemma emb_insert_fix:
  assumes "insert_fix t root a = Some y"
  shows "lnk t \<longrightarrow> sim R (Some y) (hp_insert_fix (emb R t) root a)"
  using assms
proof (rule insert_fix.raw_induct [where P = "\<lambda>t root a y. lnk t \<longrightarrow> sim R (Some y) (hp_insert_fix (emb R t) root a)", rotated], goal_cases)
  case (1 f t root a y)
  note keep = insert_fix_left_keeps [THEN keepsD, rotated] insert_fix_right_keeps [THEN keepsD, rotated]
  have rec: "sim R (f t root a) (hp_insert_fix (emb R t) root a)" if "lnk t" for t root a
    using 1(1) [of t root a] that by (cases "f t root a") (auto simp: sim_def)
  show ?case
  proof
    assume "lnk t"
    then show "sim R (Some y) (hp_insert_fix (emb R t) root a)"
      unfolding 1(2) [symmetric]
      by (subst hp_insert_fix.simps)
        (auto simp: emb_bind emb_insert_fix_left emb_insert_fix_right keep split: sum.split cong: if_cong intro!: sim_bind rec split: if_splits)
  qed
qed

lemma emb_rebalance_left_rest:
  "lnk t \<Longrightarrow> hp_rebalance_left_rest (emb R t) root a q = map_option (\<lambda>(t, r). (emb R t, r)) (rebalance_left_rest t root a q)"
  by (auto simp: hp_rebalance_left_rest_def rebalance_left_rest_def emb_bind keeps_lnk emb_l_rotate emb_r_rotate
      emb_both_black emb_child_red emb_blacken intro!: Option.bind_cong)

lemma emb_rebalance_right_rest:
  "lnk t \<Longrightarrow> hp_rebalance_right_rest (emb R t) root a q = map_option (\<lambda>(t, r). (emb R t, r)) (rebalance_right_rest t root a q)"
  by (auto simp: hp_rebalance_right_rest_def rebalance_right_rest_def emb_bind keeps_lnk emb_l_rotate emb_r_rotate
      emb_both_black emb_child_red emb_blacken intro!: Option.bind_cong)

lemma emb_rebalance_left:
  "lnk t \<Longrightarrow> hp_rebalance_left (emb R t) root a q = map_option (\<lambda>(t, r). (emb R t, r)) (rebalance_left t root a q)"
  by (auto simp: hp_rebalance_left_def rebalance_left_def emb_bind keeps_lnk emb_l_rotate emb_rebalance_left_rest intro!: Option.bind_cong)

lemma emb_rebalance_right:
  "lnk t \<Longrightarrow> hp_rebalance_right (emb R t) root a q = map_option (\<lambda>(t, r). (emb R t, r)) (rebalance_right t root a q)"
  by (auto simp: hp_rebalance_right_def rebalance_right_def emb_bind keeps_lnk emb_r_rotate emb_rebalance_right_rest intro!: Option.bind_cong)

lemma blacken_keeps: "blacken t p = Some t' \<Longrightarrow> lnk t \<Longrightarrow> lnk t'"
  by (auto simp: blacken_def keeps_lnk split: if_splits)

lemma rebalance_left_rest_keeps: "lnk t \<Longrightarrow> keeps (rebalance_left_rest t root a q)"
  by (auto simp: rebalance_left_rest_def keeps_lnk blacken_keeps split_def bind_eq_Some_conv intro!: keeps_bind split: if_splits)

lemma rebalance_right_rest_keeps: "lnk t \<Longrightarrow> keeps (rebalance_right_rest t root a q)"
  by (auto simp: rebalance_right_rest_def keeps_lnk blacken_keeps split_def bind_eq_Some_conv intro!: keeps_bind split: if_splits)

lemma rebalance_left_keeps: "lnk t \<Longrightarrow> keeps (rebalance_left t root a q)"
  by (auto simp: rebalance_left_def keeps_lnk split_def bind_eq_Some_conv intro!: keeps_bind rebalance_left_rest_keeps split: if_splits)

lemma rebalance_right_keeps: "lnk t \<Longrightarrow> keeps (rebalance_right t root a q)"
  by (auto simp: rebalance_right_def keeps_lnk split_def bind_eq_Some_conv intro!: keeps_bind rebalance_right_rest_keeps split: if_splits)

lemma emb_remove_rebalance:
  assumes "remove_rebalance t root a q = Some y"
  shows "lnk t \<longrightarrow> sim R (Some y) (hp_remove_rebalance (emb R t) root a q)"
  using assms
proof (rule remove_rebalance.raw_induct [where P = "\<lambda>t root a q y. lnk t \<longrightarrow> sim R (Some y) (hp_remove_rebalance (emb R t) root a q)", rotated], goal_cases)
  case (1 f t root a q y)
  note keep = rebalance_left_keeps [THEN keepsD, rotated] rebalance_right_keeps [THEN keepsD, rotated]
  have rec: "sim R (f t root a q) (hp_remove_rebalance (emb R t) root a q)" if "lnk t" for t root a q
    using 1(1) [of t root a q] that by (cases "f t root a q") (auto simp: sim_def)
  show ?case
  proof
    assume "lnk t"
    then show "sim R (Some y) (hp_remove_rebalance (emb R t) root a q)"
      unfolding 1(2) [symmetric]
      by (subst hp_remove_rebalance.simps)
        (auto simp: emb_bind emb_rebalance_left emb_rebalance_right emb_color_of keep keeps_lnk split: sum.split cong: if_cong intro!: sim_bind rec split: if_splits)
  qed
qed

lemma replace_child_keeps: "replace_child t p c = Some t' \<Longrightarrow> lnk t \<Longrightarrow> lnk t'"
  by (auto simp: replace_child_def bind_eq_Some_conv keeps_lnk split: if_splits)

lemma sim_remove_rebalance: "lnk t \<Longrightarrow> sim R (remove_rebalance t root a q) (hp_remove_rebalance (emb R t) root a q)"
  using emb_remove_rebalance [of t root a q] by (cases "remove_rebalance t root a q") (auto simp: sim_def)

lemma sim_unlink_node: "lnk t \<Longrightarrow> sim R (unlink_node t root a) (hp_unlink_node (emb R t) root a)"
  by (auto simp: hp_unlink_node_def unlink_node_def emb_bind emb_replace_child replace_child_keeps keeps_lnk
    intro!: sim_bind sim_remove_rebalance cong: if_cong split: if_splits)

lemma emb_rightmost: "rightmost t p = Some q \<Longrightarrow> hp_rightmost (emb R t) p = Some q"
proof (rule rightmost.raw_induct [where P = "\<lambda>t p q. hp_rightmost (emb R t) p = Some q", rotated], goal_cases)
  case (2 f t p q)
  then show ?case by (subst hp_rightmost.simps) (auto simp: bind_eq_Some_conv split: if_splits)
qed

end
