(* ===== verification/MmHeapSwap.thy ===== *)
theory MmHeapSwap
  imports MmHeapTree
begin

text \<open>
  \<^verbatim>\<open>swap_node\<close> and \<^verbatim>\<open>remove_node\<close> of the heap, where a node cannot give away its key: the node with two
  children changes places with the last node of its left subtree, links and colour, also when that
  is its own child.
\<close>

subsection \<open>swap\_node\<close>

text \<open>The same on the nodes.\<close>

definition redirect_link :: "rbnodes \<Rightarrow> ptr \<Rightarrow> ptr \<Rightarrow> ptr \<Rightarrow> (rbnodes \<times> ptr) option" where
  "redirect_link s root p1 p2 =
     do {
       par \<leftarrow> rd p_parent s p1;
       if par = NULL then Some (s, p2)
       else do {
         l \<leftarrow> rd p_lchild s par;
         s \<leftarrow> (if p1 = l then set_lchild p2 s par else set_rchild p2 s par);
         Some (s, root) } }"

definition adopt_link :: "rbnodes \<Rightarrow> ptr \<Rightarrow> ptr \<Rightarrow> rbnodes option" where
  "adopt_link s c p = (if c \<noteq> NULL then set_parent p s c else Some s)"

definition swap_links :: "rbnodes \<Rightarrow> ptr \<Rightarrow> ptr \<Rightarrow> ptr \<Rightarrow> (rbnodes \<times> ptr) option" where
  "swap_links s p1 p2 root =
     do {
       (s, root) \<leftarrow> redirect_link s root p1 p2;
       (s, root) \<leftarrow> redirect_link s root p2 p1;
       tmp \<leftarrow> rd p_parent s p1;
       v \<leftarrow> rd p_parent s p2;
       s \<leftarrow> set_parent v s p1;
       s \<leftarrow> set_parent tmp s p2;
       tmp \<leftarrow> rd p_lchild s p1;
       v \<leftarrow> rd p_lchild s p2;
       s \<leftarrow> set_lchild v s p1;
       s \<leftarrow> set_lchild tmp s p2;
       c \<leftarrow> rd p_lchild s p1;
       s \<leftarrow> adopt_link s c p1;
       c \<leftarrow> rd p_lchild s p2;
       s \<leftarrow> adopt_link s c p2;
       tmp \<leftarrow> rd p_rchild s p1;
       v \<leftarrow> rd p_rchild s p2;
       s \<leftarrow> set_rchild v s p1;
       s \<leftarrow> set_rchild tmp s p2;
       c \<leftarrow> rd p_rchild s p1;
       s \<leftarrow> adopt_link s c p1;
       c \<leftarrow> rd p_rchild s p2;
       s \<leftarrow> adopt_link s c p2;
       tmp_color \<leftarrow> rd color s p1;
       v \<leftarrow> rd color s p2;
       s \<leftarrow> set_color v s p1;
       s \<leftarrow> set_color tmp_color s p2;
       Some (s, root) }"

lemma redirect_keeps: "redirect_link t root a b = Some (t', r) \<Longrightarrow> lnk t \<Longrightarrow> lnk t'"
  by (auto simp: redirect_link_def bind_eq_Some_conv keeps_lnk split: if_splits)

lemma adopt_keeps: "adopt_link t a b = Some t' \<Longrightarrow> lnk t \<Longrightarrow> lnk t'"
  by (auto simp: adopt_link_def bind_eq_Some_conv keeps_lnk split: if_splits)

lemma emb_redirect: "redirect (emb R t) root a b = map_option (\<lambda>(t, r). (emb R t, r)) (redirect_link t root a b)"
  by (auto simp: redirect_def redirect_link_def emb_bind intro!: Option.bind_cong cong: if_cong)

lemma emb_adopt: "adopt (emb R t) a b = map_option (emb R) (adopt_link t a b)"
  by (simp add: adopt_def adopt_link_def)

lemma emb_swap_node: "swap_node (emb R t) a b root = map_option (\<lambda>(t, r). (emb R t, r)) (swap_links t a b root)"
  by (simp add: swap_node_def swap_links_def emb_bind emb_redirect emb_adopt)

lemma swap_keeps: "lnk t \<Longrightarrow> keeps (swap_links t a b root)"
  by (auto simp: swap_links_def keeps_lnk redirect_keeps adopt_keeps split_def bind_eq_Some_conv intro!: keeps_bind split: if_splits)

lemma swap_adjacent:
  assumes "foc s0 s root (Nd a c k v (Nd b d k' v' m Tip) r) x"
  shows "\<exists>s' root'. swap_links s a b root = Some (s', root') \<and> foc s0 s' root' (Nd b c k' v' (Nd a d k v m Tip) r) x"
  using assms
  by (cases x; cases m; cases r)
    (auto simp: foc_def swap_links_def redirect_link_def adopt_link_def rd_def wr_def addr_plug)

fun cxs :: "rbnodes \<Rightarrow> ptr \<Rightarrow> ptr \<Rightarrow> rbctx \<Rightarrow> bool" where
  "cxs s par h Top \<longleftrightarrow> True"
| "cxs s par h (Lc a c k v z r) \<longleftrightarrow> a \<noteq> NULL \<and>
     s a = Some \<lparr>p_parent = (if z = Top then par else caddr z), p_lchild = h, p_rchild = addr r, color = c, p_key = k, p_value = v\<rparr> \<and>
     tr s a r \<and> cxs s par a z"
| "cxs s par h (Rc a c k v l z) \<longleftrightarrow> a \<noteq> NULL \<and>
     s a = Some \<lparr>p_parent = (if z = Top then par else caddr z), p_lchild = addr l, p_rchild = h, color = c, p_key = k, p_value = v\<rparr> \<and>
     tr s a l \<and> cxs s par a z"

lemma caddr_capp: "caddr (capp z w) = (if z = Top then caddr w else caddr z)"
  by (cases z) auto

lemma cx_capp: "cx s h (capp z w) \<longleftrightarrow> cxs s (caddr w) h z \<and> cx s (if z = Top then h else croot z) w"
  by (induction z arbitrary: h) (auto simp: caddr_capp)

lemma cxs_upd [simp]: "a \<notin> set (cnodes z) \<Longrightarrow> cxs (s(a := n)) par h z = cxs s par h z"
  by (induction z arbitrary: h) auto

lemma distinct_capp:
  "distinct (cnodes (capp z w)) \<longleftrightarrow> distinct (cnodes z) \<and> distinct (cnodes w) \<and> set (cnodes z) \<inter> set (cnodes w) = {}"
  by (induction z) (auto simp: ctx_capp)

lemma croot_capp: "w \<noteq> Top \<Longrightarrow> croot (capp z w) = croot w"
proof (induction z)
  case (Lc a c k v z r)
  then show ?case by (cases z; cases w) auto
next
  case (Rc a c k v l z)
  then show ?case by (cases z; cases w) auto
qed simp

lemma capp_Top [simp]: "capp z w = Top \<longleftrightarrow> z = Top \<and> w = Top"
  by (cases z) auto

lemma right_spine: "cr z = [] \<Longrightarrow> z = Top \<or> (\<exists>y q f qk qv ql. z = capp y (Rc q f qk qv ql Top))"
proof (induction z)
  case (Rc a c k v l z)
  then consider "z = Top" | y q f qk qv ql where "z = capp y (Rc q f qk qv ql Top)" by auto
  then show ?case
  proof cases
    case 1
    then show ?thesis by (intro disjI2 exI [of _ Top]) auto
  next
    case 2
    then have "Rc a c k v l z = capp (Rc a c k v l y) (Rc q f qk qv ql Top)" by simp
    then show ?thesis by blast
  qed
qed simp_all

text \<open>
  What the swap of two nodes does where the lower one hangs below another node \<open>p\<close>: the two nodes
  take each other's links and colour and the neighbours follow.
\<close>

definition up :: "ptr \<Rightarrow> (rbtree_node \<Rightarrow> rbtree_node) \<Rightarrow> rbnodes \<Rightarrow> rbnodes" where
  "up p f s = (if p = NULL then s else s(p := map_option f (s p)))"

definition turn :: "ptr \<Rightarrow> ptr \<Rightarrow> rbtree_node \<Rightarrow> rbtree_node" where
  "turn a b n = (if a = p_lchild n then n\<lparr>p_lchild := b\<rparr> else n\<lparr>p_rchild := b\<rparr>)"

lemma swap_links_run:
  assumes s: "s a = Some \<lparr>p_parent = g, p_lchild = q, p_rchild = i, color = c, p_key = ak, p_value = av\<rparr>"
    "s b = Some \<lparr>p_parent = p, p_lchild = h, p_rchild = NULL, color = d, p_key = bk, p_value = bv\<rparr>"
    "s p = Some np" "p_lchild np \<noteq> b" "s q = Some nq"
    and opt: "g = NULL \<or> s g = Some ng" "h = NULL \<or> s h = Some nh" "i = NULL \<or> s i = Some ni"
    and ne: "a \<noteq> NULL" "b \<noteq> NULL" "p \<noteq> NULL" "q \<noteq> NULL" "b \<noteq> a" "p \<noteq> a" "p \<noteq> b" "q \<noteq> a" "q \<noteq> b" "g \<noteq> a" "g \<noteq> b" "g \<noteq> p" "g \<noteq> q"
      "h \<noteq> a" "h \<noteq> b" "h \<noteq> p" "h \<noteq> q" "h = NULL \<or> h \<noteq> g" "i \<noteq> a" "i \<noteq> b" "i \<noteq> p" "i \<noteq> q" "i = NULL \<or> i \<noteq> g" "i = NULL \<or> i \<noteq> h"
  shows "swap_links s a b root = Some
    (up g (turn a b) (up h (p_parent_update (\<lambda>_. a)) (up i (p_parent_update (\<lambda>_. b)) (up q (p_parent_update (\<lambda>_. b))
      (up p (p_rchild_update (\<lambda>_. a)) (s(
        a \<mapsto> \<lparr>p_parent = p, p_lchild = h, p_rchild = NULL, color = d, p_key = ak, p_value = av\<rparr>,
        b \<mapsto> \<lparr>p_parent = g, p_lchild = q, p_rchild = i, color = c, p_key = bk, p_value = bv\<rparr>)))))), if g = NULL then b else root)"
proof -
  show ?thesis
  proof (cases "q = p")
    case True
    then have n: "nq = np" using s by simp
    show ?thesis
      using ne not_sym [OF ne(5)] not_sym [OF ne(6)] not_sym [OF ne(7)] not_sym [OF ne(10)] not_sym [OF ne(11)] not_sym [OF ne(12)]
        not_sym [OF ne(14)] not_sym [OF ne(15)] not_sym [OF ne(16)] not_sym [OF ne(19)] not_sym [OF ne(20)] not_sym [OF ne(21)] s opt
      unfolding True n
      by (cases "g = NULL"; cases "p_lchild ng = a"; cases "h = NULL"; cases "i = NULL")
        (simp_all add: not_sym [of "p_lchild ng" a] swap_links_def redirect_link_def adopt_link_def rd_def wr_def up_def turn_def fun_upd_twist)
  next
    case False
    show ?thesis
      using ne not_sym [OF ne(5)] not_sym [OF ne(6)] not_sym [OF ne(7)] not_sym [OF ne(10)] not_sym [OF ne(11)] not_sym [OF ne(12)]
        not_sym [OF ne(14)] not_sym [OF ne(15)] not_sym [OF ne(16)] not_sym [OF ne(19)] not_sym [OF ne(20)] not_sym [OF ne(21)] s opt
        False not_sym [OF False] not_sym [OF ne(8)] not_sym [OF ne(9)] not_sym [OF ne(13)] not_sym [OF ne(17)] not_sym [OF ne(22)]
      by (cases "g = NULL"; cases "p_lchild ng = a"; cases "h = NULL"; cases "i = NULL")
        (simp_all add: not_sym [of "p_lchild ng" a] swap_links_def redirect_link_def adopt_link_def rd_def wr_def up_def turn_def fun_upd_twist)
  qed
qed


lemma opt_ne: "y = NULL \<or> y \<in> S \<Longrightarrow> z \<noteq> NULL \<Longrightarrow> z \<notin> S \<Longrightarrow> y \<noteq> z"
  by auto

lemma opt_ne2: "y = NULL \<or> y \<in> S \<Longrightarrow> z = NULL \<or> z \<in> T \<Longrightarrow> S \<inter> T = {} \<Longrightarrow> y = NULL \<or> y \<noteq> z"
  by auto

lemma swap_far_run:
  assumes "foc s0 s root (Nd b d k' v' m Tip) (Rc p e pk pv pl (capp z (Rc q f qk qv ql (Lc a c k v x r))))"
  shows "swap_links s a b root = Some
    (up (caddr x) (turn a b) (up (addr m) (p_parent_update (\<lambda>_. a)) (up (addr r) (p_parent_update (\<lambda>_. b)) (up q (p_parent_update (\<lambda>_. b))
      (up p (p_rchild_update (\<lambda>_. a)) (s(
        a \<mapsto> \<lparr>p_parent = p, p_lchild = addr m, p_rchild = NULL, color = d, p_key = k, p_value = v\<rparr>,
        b \<mapsto> \<lparr>p_parent = caddr x, p_lchild = q, p_rchild = addr r, color = c, p_key = k', p_value = v'\<rparr>)))))), if caddr x = NULL then b else root)"
proof -
  note cx = cx_capp caddr_capp distinct_capp ctx_capp croot_capp
  have "distinct (tnodes (Nd b d k' v' m Tip) @ cnodes (Rc p e pk pv pl (capp z (Rc q f qk qv ql (Lc a c k v x r)))))"
    using assms unfolding foc_def by blast
  then have D: "b \<noteq> a" "p \<noteq> a" "p \<noteq> b" "q \<noteq> a" "q \<noteq> b"
    "a \<notin> set (cnodes x)" "b \<notin> set (cnodes x)" "p \<notin> set (cnodes x)" "q \<notin> set (cnodes x)"
    "a \<notin> set (tnodes m)" "b \<notin> set (tnodes m)" "p \<notin> set (tnodes m)" "q \<notin> set (tnodes m)" "set (tnodes m) \<inter> set (cnodes x) = {}"
    "a \<notin> set (tnodes r)" "b \<notin> set (tnodes r)" "p \<notin> set (tnodes r)" "q \<notin> set (tnodes r)" "set (tnodes r) \<inter> set (cnodes x) = {}"
    "set (tnodes r) \<inter> set (tnodes m) = {}" "b \<notin> set (tnodes pl)"
    by (auto simp: distinct_capp ctx_capp)
  have s: "s a = Some \<lparr>p_parent = caddr x, p_lchild = q, p_rchild = addr r, color = c, p_key = k, p_value = v\<rparr>"
    "s b = Some \<lparr>p_parent = p, p_lchild = addr m, p_rchild = NULL, color = d, p_key = k', p_value = v'\<rparr>"
    "s p = Some (the (s p))" "p_lchild (the (s p)) = addr pl" "s q = Some (the (s q))"
    and nn: "a \<noteq> NULL" "b \<noteq> NULL" "p \<noteq> NULL" "q \<noteq> NULL" using assms by (simp_all add: foc_def cx)
  have opt: "caddr x = NULL \<or> s (caddr x) = Some (the (s (caddr x)))" using assms by (cases x) (simp_all add: foc_def cx)
  have opt': "addr m = NULL \<or> s (addr m) = Some (the (s (addr m)))" using assms by (cases m) (simp_all add: foc_def cx)
  have opt'': "addr r = NULL \<or> s (addr r) = Some (the (s (addr r)))" using assms by (cases r) (simp_all add: foc_def cx)
  have adr: "addr t = NULL \<or> addr t \<in> set (tnodes t)" for t by (cases t) simp_all
  have "caddr x = NULL \<or> caddr x \<in> set (cnodes x)" by (cases x) simp_all
  note mem = this adr [of m] adr [of r] adr [of pl]
  have "addr pl \<noteq> b" using mem(4) D nn(2) by blast
  then have pl: "p_lchild (the (s p)) \<noteq> b" using s(4) by simp
  show ?thesis
    by (rule swap_links_run [OF s(1-3) pl s(5) opt opt' opt'' nn D(1-5)
      opt_ne [OF mem(1) nn(1) D(6)] opt_ne [OF mem(1) nn(2) D(7)] opt_ne [OF mem(1) nn(3) D(8)] opt_ne [OF mem(1) nn(4) D(9)]
      opt_ne [OF mem(2) nn(1) D(10)] opt_ne [OF mem(2) nn(2) D(11)] opt_ne [OF mem(2) nn(3) D(12)] opt_ne [OF mem(2) nn(4) D(13)]
      opt_ne2 [OF mem(2,1) D(14)]
      opt_ne [OF mem(3) nn(1) D(15)] opt_ne [OF mem(3) nn(2) D(16)] opt_ne [OF mem(3) nn(3) D(17)] opt_ne [OF mem(3) nn(4) D(18)]
      opt_ne2 [OF mem(3,1) D(19)] opt_ne2 [OF mem(3,2) D(20)]])
qed


lemma swap_near_run:
  assumes "foc s0 s root (Nd a c k v (Nd p e pk pv pl (Nd b d k' v' m Tip)) r) x"
  shows "swap_links s a b root = Some
    (up (caddr x) (turn a b) (up (addr m) (p_parent_update (\<lambda>_. a)) (up (addr r) (p_parent_update (\<lambda>_. b)) (up p (p_parent_update (\<lambda>_. b))
      (up p (p_rchild_update (\<lambda>_. a)) (s(
        a \<mapsto> \<lparr>p_parent = p, p_lchild = addr m, p_rchild = NULL, color = d, p_key = k, p_value = v\<rparr>,
        b \<mapsto> \<lparr>p_parent = caddr x, p_lchild = p, p_rchild = addr r, color = c, p_key = k', p_value = v'\<rparr>)))))), if caddr x = NULL then b else root)"
proof -
  have "distinct (tnodes (Nd a c k v (Nd p e pk pv pl (Nd b d k' v' m Tip)) r) @ cnodes x)"
    using assms unfolding foc_def by blast
  then have D: "b \<noteq> a" "p \<noteq> a" "p \<noteq> b" 
    "a \<notin> set (cnodes x)" "b \<notin> set (cnodes x)" "p \<notin> set (cnodes x)"
    "a \<notin> set (tnodes m)" "b \<notin> set (tnodes m)" "p \<notin> set (tnodes m)" "set (tnodes m) \<inter> set (cnodes x) = {}"
    "a \<notin> set (tnodes r)" "b \<notin> set (tnodes r)" "p \<notin> set (tnodes r)" "set (tnodes r) \<inter> set (cnodes x) = {}"
    "set (tnodes r) \<inter> set (tnodes m) = {}" "b \<notin> set (tnodes pl)"
    by auto
  have s: "s a = Some \<lparr>p_parent = caddr x, p_lchild = p, p_rchild = addr r, color = c, p_key = k, p_value = v\<rparr>"
    "s b = Some \<lparr>p_parent = p, p_lchild = addr m, p_rchild = NULL, color = d, p_key = k', p_value = v'\<rparr>"
    "s p = Some (the (s p))" "p_lchild (the (s p)) = addr pl"
    and nn: "a \<noteq> NULL" "b \<noteq> NULL" "p \<noteq> NULL" using assms by (simp_all add: foc_def)
  have opt: "caddr x = NULL \<or> s (caddr x) = Some (the (s (caddr x)))" using assms by (cases x) (simp_all add: foc_def)
  have opt': "addr m = NULL \<or> s (addr m) = Some (the (s (addr m)))" using assms by (cases m) (simp_all add: foc_def)
  have opt'': "addr r = NULL \<or> s (addr r) = Some (the (s (addr r)))" using assms by (cases r) (simp_all add: foc_def)
  have adr: "addr t = NULL \<or> addr t \<in> set (tnodes t)" for t by (cases t) simp_all
  have "caddr x = NULL \<or> caddr x \<in> set (cnodes x)" by (cases x) simp_all
  note mem = this adr [of m] adr [of r] adr [of pl]
  have "addr pl \<noteq> b" using mem(4) D nn(2) by blast
  then have pl: "p_lchild (the (s p)) \<noteq> b" using s(4) by simp
  show ?thesis
    by (rule swap_links_run [OF s(1-3) pl s(3) opt opt' opt'' nn nn(3) D(1-3) D(2,3)
      opt_ne [OF mem(1) nn(1) D(4)] opt_ne [OF mem(1) nn(2) D(5)] opt_ne [OF mem(1) nn(3) D(6)] opt_ne [OF mem(1) nn(3) D(6)]
      opt_ne [OF mem(2) nn(1) D(7)] opt_ne [OF mem(2) nn(2) D(8)] opt_ne [OF mem(2) nn(3) D(9)] opt_ne [OF mem(2) nn(3) D(9)]
      opt_ne2 [OF mem(2,1) D(10)]
      opt_ne [OF mem(3) nn(1) D(11)] opt_ne [OF mem(3) nn(2) D(12)] opt_ne [OF mem(3) nn(3) D(13)] opt_ne [OF mem(3) nn(3) D(13)]
      opt_ne2 [OF mem(3,1) D(14)] opt_ne2 [OF mem(3,2) D(15)]])
qed

lemma swap_near:
  assumes f: "foc s0 s root (Nd a c k v (Nd p e pk pv pl (Nd b d k' v' m Tip)) r) x"
  shows "\<exists>s' root'. swap_links s a b root = Some (s', root') \<and>
    foc s0 s' root' (Nd b c k' v' (Nd p e pk pv pl (Nd a d k v m Tip)) r) x"
proof (cases x)
  case Top
  then show ?thesis unfolding swap_near_run [OF f] using f
    by (cases m; cases r) (auto simp: foc_def up_def turn_def addr_plug)
next
  case (Lc h hc hk hv y hr)
  then show ?thesis unfolding swap_near_run [OF f] using f
    by (cases m; cases r) (auto simp: foc_def up_def turn_def addr_plug)
next
  case (Rc h hc hk hv hl y)
  then show ?thesis unfolding swap_near_run [OF f] using f
    by (cases m; cases r) (auto simp: foc_def up_def turn_def addr_plug)
qed

lemma swap_far:
  assumes f: "foc s0 s root (Nd b d k' v' m Tip) (Rc p e pk pv pl (capp z (Rc q f qk qv ql (Lc a c k v x r))))"
  shows "\<exists>s' root'. swap_links s a b root = Some (s', root') \<and>
    foc s0 s' root' (Nd a d k v m Tip) (Rc p e pk pv pl (capp z (Rc q f qk qv ql (Lc b c k' v' x r))))"
proof (cases x)
  case Top
  then show ?thesis unfolding swap_far_run [OF f] using f
    by (cases m; cases r) (auto simp: foc_def up_def turn_def addr_plug cx_capp caddr_capp distinct_capp ctx_capp croot_capp)
next
  case (Lc h hc hk hv y hr)
  then show ?thesis unfolding swap_far_run [OF f] using f
    by (cases m; cases r) (auto simp: foc_def up_def turn_def addr_plug cx_capp caddr_capp distinct_capp ctx_capp croot_capp)
next
  case (Rc h hc hk hv hl y)
  then show ?thesis unfolding swap_far_run [OF f] using f
    by (cases m; cases r) (auto simp: foc_def up_def turn_def addr_plug cx_capp caddr_capp distinct_capp ctx_capp croot_capp)
qed

lemma swap_foc:
  assumes f: "foc s0 s root (Nd a c k v (plug (Nd b d k' v' m Tip) z) r) x" and z: "cr z = []"
  shows "\<exists>s' root'. swap_links s a b root = Some (s', root') \<and>
    foc s0 s' root' (Nd b c k' v' (plug (Nd a d k v m Tip) z) r) x"
proof (cases z)
  case Top
  then show ?thesis using swap_adjacent [of s0 s root a c k v b d k' v' m r x] f by simp
next
  case (Lc p e pk pv z' pr)
  then show ?thesis using z by simp
next
  case (Rc p e pk pv pl z')
  then have "cr z' = []" using z by simp
  then consider "z' = Top" | y q f qk qv ql where "z' = capp y (Rc q f qk qv ql Top)" using right_spine by blast
  then show ?thesis
  proof cases
    case 1
    then show ?thesis using swap_near [of s0 s root a c k v p e pk pv pl b d k' v' m r x] f Rc by simp
  next
    case (2 y q g qk qv ql)
    have e: "plug t (Rc p e pk pv pl (capp y (Rc q g qk qv ql (Lc h ch kh vh x r)))) = plug (Nd h ch kh vh (plug t z) r) x" for t h ch kh vh
      by (simp add: Rc 2 plug_capp)
    have e': "foc s0 s root t (Rc p e pk pv pl (capp y (Rc q g qk qv ql (Lc h ch kh vh x r)))) \<longleftrightarrow> foc s0 s root (Nd h ch kh vh (plug t z) r) x" for s root t h ch kh vh
      using foc_plug [of s0 s root t "Rc p e pk pv pl (capp y (Rc q g qk qv ql (Lc h ch kh vh x r)))"]
        foc_plug [of s0 s root "Nd h ch kh vh (plug t z) r" x] e by simp
    show ?thesis using swap_far [of s0 s root b d k' v' m p e pk pv pl y q g qk qv ql a c k v x r] f unfolding e' by simp
  qed
qed

subsection \<open>Removing a node\<close>

definition remove_links :: "rbnodes \<Rightarrow> ptr \<Rightarrow> ptr \<Rightarrow> (rbnodes \<times> ptr) option" where
  "remove_links s root p_node =
     do {
       l \<leftarrow> rd p_lchild s p_node;
       r \<leftarrow> rd p_rchild s p_node;
       (s, root) \<leftarrow>
         (if l \<noteq> NULL \<and> r \<noteq> NULL
          then do { p_tmp_node \<leftarrow> rightmost s l; swap_links s p_node p_tmp_node root }
          else Some (s, root));
       unlink_node s root p_node }"

lemma remove_links_tree:
  assumes f: "foc s s root (Nd a c k v l r) x" and t: "rb_tree s s root (plug (Nd a c k v l r) x)"
  shows "\<exists>s' root' T. remove_links s root a = Some (s', root') \<and> rb_tree s' s' root' T \<and>
    inorder T = cl x @ inorder l @ inorder r @ cr x \<and>
    set (tnodes T) = set (tnodes (plug (Nd a c k v l r) x)) - {a} \<and> s' a \<noteq> None \<and>
    (\<forall>p. p \<notin> set (tnodes (plug (Nd a c k v l r) x)) \<longrightarrow> s' p = s p)"
proof (cases "l = Tip \<or> r = Tip")
  case True
  then have "remove_links s root a = unlink_node s root a" using foc_rd [OF f] by (auto simp: remove_links_def)
  moreover obtain s' root' T where u: "unlink_node s root a = Some (s', root')" "rb_tree s s' root' T"
    "inorder T = cl x @ inorder l @ inorder r @ cr x" "set (tnodes T) = set (tnodes l) \<union> set (tnodes r) \<union> set (cnodes x)"
    using unlink_node_foc [OF f t True] by (auto simp: node_unlinked_def)
  moreover have "a \<notin> set (tnodes T)" using f u(4) by (auto simp: foc_def)
  moreover have fr: "\<forall>p. p \<notin> set (tnodes T) \<longrightarrow> s' p = s p" using u(2) by (simp add: rb_tree_def foc_def)
  moreover have "s' a \<noteq> None"
  proof -
    have "a \<notin> set (tnodes T)" using f u(4) by (auto simp: foc_def)
    then show ?thesis using fr f by (simp add: foc_def)
  qed
  moreover have "rb_tree s' s' root' T" using u(2) foc_rebase [of s s' root' T Top] by (simp add: rb_tree_def)
  ultimately show ?thesis by (intro exI [of _ s'] exI [of _ root'] exI [of _ T]) (auto simp: set_tnodes_plug)
next
  case False
  have fl: "foc s s root l (Lc a c k v x r)" using f by (simp add: foc_Lc)
  obtain b d k' v' m z where z: "rightmost s (addr l) = Some b" "l = plug (Nd b d k' v' m Tip) z" "cr z = []"
    using rightmost_foc [OF fl] False by blast
  obtain s1 root1 where s1: "swap_links s a b root = Some (s1, root1)"
    "foc s s1 root1 (Nd b c k' v' (plug (Nd a d k v m Tip) z) r) x"
    using swap_foc [OF f [unfolded z(2)] z(3)] by blast
  let ?y = "capp z (Lc b c k' v' x r)"
  have f1: "foc s1 s1 root1 (Nd a d k v m Tip) ?y" using foc_rebase [OF s1(2)] by (simp add: foc_capp foc_Lc)
  have n1: "set (tnodes (plug (Nd a d k v m Tip) ?y)) = set (tnodes (plug (Nd a c k v l r) x))"
    by (auto simp: set_tnodes_plug ctx_capp z)
  have t1: "rb_tree s1 s1 root1 (plug (Nd a d k v m Tip) ?y)"
    using t rb_relabel [of b d k' v' m Tip "capp z (Lc a c k v x r)" a k v]
      rb_relabel [of a c k v "plug (Nd a d k v m Tip) z" r x b k' v'] f1 foc_plug [of s1 s1 root1 "Nd a d k v m Tip" ?y]
    by (simp add: rb_tree_def z plug_capp)
  obtain s' root' T where u: "unlink_node s1 root1 a = Some (s', root')" "rb_tree s1 s' root' T"
    "inorder T = cl ?y @ inorder m @ inorder Tip @ cr ?y" "set (tnodes T) = set (tnodes m) \<union> set (tnodes Tip) \<union> set (cnodes ?y)"
    using unlink_node_foc [OF f1 t1] by (auto simp: node_unlinked_def)
  have "remove_links s root a = Some (s', root')"
    using foc_rd [OF f] False z(1) s1(1) u(1) by (simp add: remove_links_def)
  moreover have aT: "a \<notin> set (tnodes T)" using f1 u(4) by (auto simp: foc_def)
  moreover have "s' a \<noteq> None" using aT u(2) f1 by (auto simp: rb_tree_def foc_def)
  moreover have "set (tnodes T) = set (tnodes (plug (Nd a c k v l r) x)) - {a}"
    using u(4) n1 aT by (auto simp: set_tnodes_plug)
  moreover have "\<forall>p. p \<notin> set (tnodes (plug (Nd a c k v l r) x)) \<longrightarrow> s' p = s p"
  proof (intro allI impI)
    fix p assume p: "p \<notin> set (tnodes (plug (Nd a c k v l r) x))"
    then have "p \<notin> set (tnodes T)" using u(4) n1 by (auto simp: set_tnodes_plug)
    moreover have "p \<notin> set (tnodes (Nd b c k' v' (plug (Nd a d k v m Tip) z) r) @ cnodes x)"
      using p by (auto simp: set_tnodes_plug z)
    ultimately show "s' p = s p" using u(2) s1(2) by (simp add: rb_tree_def foc_def)
  qed
  moreover have "rb_tree s' s' root' T" using u(2) foc_rebase [of s1 s' root' T Top] by (simp add: rb_tree_def)
  moreover have "inorder T = cl x @ inorder l @ inorder r @ cr x"
    using u(3) z by (simp add: ctx_capp inorder_plug_ctx)
  ultimately show ?thesis by (intro exI [of _ s'] exI [of _ root'] exI [of _ T]) simp
qed

end
