(* ===== verification/MmHeapIndex.thy ===== *)
theory MmHeapIndex
  imports MmHeapSwap MmHeapOps
begin

text \<open>
  The trees of a heap as sorted lists of headers: \<open>insert_node\<close> inserts a header before the first
  one that is not smaller, \<open>remove_node\<close> takes it out, \<open>check_tree\<close> accepts the tree, and no other
  field of any header changes.
\<close>

subsection \<open>Fields that the trees do not own\<close>

definition data :: "heap_mem_blck \<Rightarrow> heap_mem_blck" where
  "data n = n\<lparr>mb_parent := NULL, mb_lchild := NULL, mb_rchild := NULL, mb_color := 0\<rparr>"

definition same_data :: "hblocks \<Rightarrow> hblocks \<Rightarrow> bool" where
  "same_data s s' \<longleftrightarrow> (\<forall>p. map_option data (s' p) = map_option data (s p))"

lemma same_data_refl [simp]: "same_data s s"
  by (simp add: same_data_def)

lemma same_data_trans: "same_data s s' \<Longrightarrow> same_data s' s'' \<Longrightarrow> same_data s s''"
  by (simp add: same_data_def)

lemma same_data_emb: "(\<And>p. t' p = None \<longleftrightarrow> t p = None) \<Longrightarrow> same_data (emb R t) (emb R t')"
  unfolding same_data_def
proof
  fix p assume "\<And>p. t' p = None \<longleftrightarrow> t p = None"
  then have "t' p = None \<longleftrightarrow> t p = None" .
  then show "map_option data (emb R t' p) = map_option data (emb R t p)"
    by (cases "t p"; cases "t' p") (auto simp: emb_def data_def)
qed

lemma rd_data: "(\<And>n. f (data n) = f n) \<Longrightarrow> rd f s p = map_option f (map_option data (s p))"
  by (cases "s p") (simp_all add: rd_def)

lemma same_data_rd:
  assumes "same_data s s'"
  shows "rd mb_magic s' p = rd mb_magic s p" "rd mb_allocated s' p = rd mb_allocated s p"
    "rd mb_prev s' p = rd mb_prev s p" "rd mb_next s' p = rd mb_next s p"
    "rd mb_pg_block s' p = rd mb_pg_block s p" "rd mb_size s' p = rd mb_size s p" "rd mb_heap s' p = rd mb_heap s p"
proof -
  have e: "map_option data (s' p) = map_option data (s p)" using assms by (simp add: same_data_def)
  have f: "rd f s' p = rd f s p" if "\<And>n. f (data n) = f n" for f :: "heap_mem_blck \<Rightarrow> 'b"
    using that e by (simp only: rd_data)
  show "rd mb_magic s' p = rd mb_magic s p" "rd mb_allocated s' p = rd mb_allocated s p"
    "rd mb_prev s' p = rd mb_prev s p" "rd mb_next s' p = rd mb_next s p"
    "rd mb_pg_block s' p = rd mb_pg_block s p" "rd mb_size s' p = rd mb_size s p" "rd mb_heap s' p = rd mb_heap s p"
    by (rule rd_data [THEN trans, OF _ trans [OF _ rd_data [symmetric]]]; simp add: data_def e)+
qed

lemma same_data_live: "same_data s s' \<Longrightarrow> s' p = None \<longleftrightarrow> s p = None"
  using option.map_disc_iff unfolding same_data_def by metis

subsection \<open>A tree of headers\<close>

definition htree :: "hblocks \<Rightarrow> ptr \<Rightarrow> rbt \<Rightarrow> bool" where
  "htree s root t \<longleftrightarrow> s NULL = None \<and> rb_tree (links s) (links s) root t"

definition addrs :: "rbt \<Rightarrow> ptr list" where
  "addrs t = map fst (inorder t)"

lemma lnkD: "s p = Some n \<Longrightarrow> lnk s \<Longrightarrow> p_key n = p \<and> p_value n = p"
  by (simp add: lnk_def)

lemma tr_labels: "tr s par t \<Longrightarrow> lnk s \<Longrightarrow> (\<forall>kv \<in> set (inorder t). kv = (fst kv, fst kv)) \<and> fst ` set (inorder t) = set (tnodes t)"
proof (induction t arbitrary: par)
  case (Nd a c k v l r)
  then have "k = a" "v = a" using lnkD [of s a] by auto
  then show ?case using Nd.IH(1) [of a] Nd.IH(2) [of a] Nd.prems by auto
qed simp

lemma htree_tr: "htree s root t \<Longrightarrow> tr (links s) NULL t \<and> lnk (links s) \<and> root = addr t"
  by (auto simp: htree_def rb_tree_def foc_def lnk_links)

lemma htree_addrs:
  assumes "htree s root t"
  shows "inorder t = map (\<lambda>a. (a, a)) (addrs t)" "set (addrs t) = set (tnodes t)"
proof -
  have l: "(\<forall>kv \<in> set (inorder t). kv = (fst kv, fst kv)) \<and> fst ` set (inorder t) = set (tnodes t)"
    using tr_labels [of "links s" NULL t] htree_tr [OF assms] by blast
  then show "set (addrs t) = set (tnodes t)" by (simp add: addrs_def)
  have "map (\<lambda>kv. (fst kv, fst kv)) (inorder t) = inorder t" using l by (intro map_idI) auto
  then show "inorder t = map (\<lambda>a. (a, a)) (addrs t)" by (simp add: addrs_def comp_def)
qed

lemma htree_live: "htree s root t \<Longrightarrow> a \<in> set (tnodes t) \<Longrightarrow> s a \<noteq> None \<and> a \<noteq> NULL"
proof -
  have "tr u par t \<Longrightarrow> a \<in> set (tnodes t) \<Longrightarrow> u a \<noteq> None \<and> a \<noteq> NULL" for u par
    by (induction t arbitrary: par) auto
  from this [of "links s" NULL] show "htree s root t \<Longrightarrow> a \<in> set (tnodes t) \<Longrightarrow> s a \<noteq> None \<and> a \<noteq> NULL"
    using htree_tr [of s root t] by (auto simp: links_def)
qed

lemma rb_tree_cong:
  assumes "rb_tree s s root t" "\<And>p. p \<in> set (tnodes t) \<Longrightarrow> s' p = s p"
  shows "rb_tree s' s' root t"
proof -
  have "tr s par u \<Longrightarrow> (\<forall>p \<in> set (tnodes u). s' p = s p) \<Longrightarrow> tr s' par u" for par u
    by (induction u arbitrary: par) simp_all
  then have "tr s NULL t \<Longrightarrow> tr s' NULL t" using assms(2) by blast
  then show ?thesis using assms(1) by (simp add: rb_tree_def foc_def)
qed

lemma htree_cong:
  assumes "htree s root t" "s' NULL = None" "\<And>p. p \<in> set (tnodes t) \<Longrightarrow> links s' p = links s p"
  shows "htree s' root t"
proof -
  have "rb_tree (links s) (links s) root t" using assms(1) by (simp add: htree_def)
  then have "rb_tree (links s') (links s') root t" using assms(3) by (rule rb_tree_cong)
  then show ?thesis using assms(2) by (simp add: htree_def)
qed

lemma htree_same:
  assumes "htree s root t" "s' NULL = None" "\<And>p. p \<in> set (tnodes t) \<Longrightarrow> s' p = s p"
  shows "htree s' root t"
  using assms(1,2)
proof (rule htree_cong)
  show "links s' p = links s p" if "p \<in> set (tnodes t)" for p using assms(3) [OF that] by (simp add: links_def)
qed

lemma htree_Tip: "htree s root Tip \<longleftrightarrow> s NULL = None \<and> root = NULL"
  by (auto simp: htree_def rb_tree_def foc_def)

subsection \<open>check\_tree accepts it\<close>

lemma check_node_ok:
  assumes "foc (links s) (links s) root t x" "t \<noteq> Tip" "rbs t n" "tcol t = BLACK \<or> ccol x = BLACK"
    "\<forall>p \<in> set (tnodes t). rd mb_magic s p = Some HEAP_MEMBLOCK_MAGIC"
  shows "\<exists>num'. check_node s (addr t) num count = Some num'"
  using assms
proof (induction t arbitrary: x n num count)
  case (Nd a c k v l r)
  have e: "s = emb (rest s) (links s)" by (simp add: emb_links)
  have rdl: "rd mb_parent s q = rd p_parent (links s) q" "rd mb_lchild s q = rd p_lchild (links s) q"
    "rd mb_rchild s q = rd p_rchild (links s) q" "rd mb_color s q = rd color (links s) q" for q
    by (subst e, simp)+
  note rd = foc_rd [OF Nd.prems(1)]
  have fl: "foc (links s) (links s) root l (Lc a c k v x r)" and fr: "foc (links s) (links s) root r (Rc a c k v l x)"
    using Nd.prems(1) by (simp_all add: foc_Lc foc_Rc)
  have pl: "l \<noteq> Tip \<Longrightarrow> rd p_parent (links s) (addr l) = Some a" and pr: "r \<noteq> Tip \<Longrightarrow> rd p_parent (links s) (addr r) = Some a"
    using foc_parent [OF fl, of NULL] foc_parent [OF fr, of NULL] rd(8,9) by auto
  have col: "(if q \<noteq> NULL then rd color (links s) q else Some BLACK) = Some cq \<Longrightarrow> hp_is_red s q = Some (cq = RED)" for q cq
    by (auto simp: hp_is_red_def rdl split: if_splits)
  note reds = col [OF foc_parent_col [OF Nd.prems(1)]] col [OF foc_col(1) [OF Nd.prems(1)]] col [OF foc_col(2) [OF Nd.prems(1)]]
  have lr: "\<exists>m. rbs l m \<and> rbs r m" using Nd.prems(3) by (auto split: if_splits)
  then obtain m where m: "rbs l m" "rbs r m" by blast
  let ?count = "if c = RED then count else count + 1"
  have cc: "c = RED \<or> c = BLACK" using Nd.prems(3) by (auto split: if_splits)
  have red: "c = RED \<Longrightarrow> red_around s a = Some False"
    using Nd.prems(3,4) rd reds by (simp add: red_around_def rdl)
  have cl: "l \<noteq> Tip \<Longrightarrow> \<exists>num'. check_node s (addr l) num ?count = Some num'" for num
    using Nd.prems(3,5) cc by (intro Nd.IH(1) [OF fl _ m(1)]) auto
  have cr: "r \<noteq> Tip \<Longrightarrow> \<exists>num'. check_node s (addr r) num ?count = Some num'" for num
    using Nd.prems(3,5) cc by (intro Nd.IH(2) [OF fr _ m(2)]) auto
  obtain nl where nl: "l \<noteq> Tip \<Longrightarrow> check_node s (addr l) num ?count = Some nl" using cl by blast
  define n1 where "n1 = (if l = Tip then check_count num ?count else nl)"
  obtain nr where nr: "r \<noteq> Tip \<Longrightarrow> check_node s (addr r) n1 ?count = Some nr" using cr by blast
  have "check_node s a num count = Some (if r = Tip then check_count n1 ?count else nr)"
    using cc rd red Nd.prems(5) nl nr pl pr n1_def
    by (subst check_node.simps) (cases "l = Tip"; cases "r = Tip"; auto simp: rdl)
  then show ?case by auto
qed simp

lemma check_tree_ok:
  assumes "htree s root t" "\<forall>p \<in> set (tnodes t). rd mb_magic s p = Some HEAP_MEMBLOCK_MAGIC"
  shows "check_tree s root = Some ()"
proof (cases "t = Tip")
  case True
  then show ?thesis using htree_tr [OF assms(1)] by (simp add: check_tree_def)
next
  case False
  then obtain a c k v l r where t: "t = Nd a c k v l r" by (cases t) auto
  have f: "foc (links s) (links s) root t Top" and rb: "tcol t = BLACK" and root: "root = a"
    using assms(1) by (auto simp: htree_def rb_tree_def foc_def t)
  obtain n where n: "rbs t n" using assms(1) by (auto simp: htree_def rb_tree_def)
  have "rd mb_color s a = Some BLACK"
    using foc_rd(4) [OF f [unfolded t]] rb emb_rd(4) [of "rest s" "links s" a] by (simp add: t emb_links)
  moreover have "a \<noteq> NULL" using foc_rd(7) [OF f [unfolded t]] .
  moreover obtain num where "check_node s (addr t) (-1) 0 = Some num"
    using check_node_ok [OF f False n _ assms(2)] rb by blast
  ultimately show ?thesis using root t by (simp add: check_tree_def)
qed

subsection \<open>Insertion\<close>

text \<open>\<open>compares pgs s cmp A\<close>: the comparisons of blocks in \<open>A\<close> have the results of \<open>cmp\<close>.\<close>

definition compares :: "hpages \<Rightarrow> hblocks \<Rightarrow> (ptr \<Rightarrow> ptr \<Rightarrow> int) \<Rightarrow> ptr set \<Rightarrow> bool" where
  "compares pgs s cmp A \<longleftrightarrow> (\<forall>a \<in> A. \<forall>b \<in> A. compare_node pgs s a b = Some (cmp a b))"

lemma compare_same: "same_data s s' \<Longrightarrow> compare_node pgs s' a b = compare_node pgs s a b"
  by (simp add: compare_node_def same_data_rd cong: if_cong)

lemma compares_same: "same_data s s' \<Longrightarrow> compares pgs s' cmp A \<longleftrightarrow> compares pgs s cmp A"
  by (simp add: compares_def compare_same)

lemma emb_insert_link:
  assumes "foc s0 u root t x" "t \<noteq> Tip" "lnk u" "compares pgs (emb R u) cmp (insert p (set (tnodes t)))" "u p \<noteq> None"
  shows "hp_insert_link pgs (emb R u) p (addr t) = map_option (emb R) (insert_link u cmp p (addr t))"
  using assms
proof (induction t arbitrary: x)
  case (Nd a c k v l r)
  note rd = foc_rd [OF Nd.prems(1)]
  have key: "rd p_key u p = Some p" using Nd.prems(3,5) by (auto simp: rd_def lnk_def)
  have "k = a" using rd(5) Nd.prems(3) by (auto simp: rd_def lnk_def)
  moreover have cmp: "compare_node pgs (emb R u) p a = Some (cmp p a)" using Nd.prems(4) by (auto simp: compares_def)
  moreover have "l \<noteq> Tip \<Longrightarrow> hp_insert_link pgs (emb R u) p (addr l) = map_option (emb R) (insert_link u cmp p (addr l))"
    using Nd.prems by (intro Nd.IH(1) [of "Lc a c k v x r"]) (auto simp: foc_Lc compares_def)
  moreover have "r \<noteq> Tip \<Longrightarrow> hp_insert_link pgs (emb R u) p (addr r) = map_option (emb R) (insert_link u cmp p (addr r))"
    using Nd.prems by (intro Nd.IH(2) [of "Rc a c k v l x"]) (auto simp: foc_Rc compares_def)
  ultimately show ?case using rd key
    by (subst hp_insert_link.simps, subst insert_link.simps) (auto simp: emb_bind)
qed simp

lemma insert_link_keeps: "insert_link t cmp p q = Some t' \<Longrightarrow> lnk t \<longrightarrow> lnk t'"
proof (rule insert_link.raw_induct [where P = "\<lambda>t cmp p q t'. lnk t \<longrightarrow> lnk t'", rotated], goal_cases)
  case (2 f t cmp p q t')
  then show ?case by (auto simp: bind_eq_Some_conv keeps_lnk split: if_splits)
qed

definition clear_node :: "heap_mem_blck \<Rightarrow> heap_mem_blck" where
  "clear_node n = n\<lparr>mb_parent := NULL, mb_lchild := NULL, mb_rchild := NULL\<rparr>"

lemma emb_clear: "s p = Some n \<Longrightarrow> emb (rest s) ((links s)(p \<mapsto> (new_node p p)\<lparr>color := mb_color n\<rparr>)) = s(p \<mapsto> clear_node n)"
  by (rule ext) (auto simp: emb_def links_def rest_def new_node_def clear_node_def split: option.split)

lemma hp_insert_node_clear:
  "s p = Some n \<Longrightarrow> hp_insert_node dbg pgs s root p = do {
     (s, root) \<leftarrow>
       (if root = NULL
        then do { s \<leftarrow> set_mb_color BLACK (s(p \<mapsto> clear_node n)) p; Some (s, p) }
        else do {
          s \<leftarrow> hp_insert_link pgs (s(p \<mapsto> clear_node n)) p root;
          s \<leftarrow> set_mb_color RED s p;
          (s, root) \<leftarrow> hp_insert_fix s root p;
          s \<leftarrow> set_mb_color BLACK s root;
          Some (s, root) });
     (if dbg then check_tree s root else Some ());
     Some (s, root) }"
  by (simp add: hp_insert_node_def wr_def clear_node_def)

lemma insert_tail_emb:
  assumes "foc u u r t x" "t \<noteq> Tip" "lnk u" "compares pgs (emb R u) cmp (insert p (set (tnodes t)))" "u p \<noteq> None"
    "do {
      s \<leftarrow> insert_link u cmp p (addr t);
      s \<leftarrow> set_color RED s p;
      (s, root) \<leftarrow> insert_fix s root p;
      s \<leftarrow> set_color BLACK s root;
      Some (s, root) } = Some (u', root')"
  shows "do {
      s \<leftarrow> hp_insert_link pgs (emb R u) p (addr t);
      s \<leftarrow> set_mb_color RED s p;
      (s, root) \<leftarrow> hp_insert_fix s root p;
      s \<leftarrow> set_mb_color BLACK s root;
      Some (s, root) } = Some (emb R u', root') \<and> lnk u'"
proof -
  obtain u1 where u1: "insert_link u cmp p (addr t) = Some u1" using assms(6) by (auto simp: bind_eq_Some_conv)
  obtain u2 where u2: "set_color RED u1 p = Some u2" using assms(6) u1 by (auto simp: bind_eq_Some_conv)
  obtain u3 r3 where u3: "insert_fix u2 root p = Some (u3, r3)" using assms(6) u1 u2 by (auto simp: bind_eq_Some_conv)
  have u4: "set_color BLACK u3 r3 = Some u'" "r3 = root'" using assms(6) u1 u2 u3 by (auto simp: bind_eq_Some_conv)
  have l2: "lnk u2" using insert_link_keeps [OF u1] u2 assms(3) keeps_lnk(4) by blast
  have l3: "hp_insert_fix (emb R u2) root p = Some (emb R u3, r3)" "lnk u3"
    using emb_insert_fix [OF u3, of R] l2 by (simp_all add: sim_def)
  have "lnk u'" using u4 l3(2) keeps_lnk(4) by blast
  then show ?thesis using emb_insert_link [OF assms(1-5)] u1 u2 u3 u4 l3 by (simp add: emb_bind)
qed

lemma htree_emb:
  assumes "rb_tree u' u' root' t'" "lnk u'"
  shows "htree (emb R u') root' t'"
  using assms by (simp add: htree_def links_emb) (simp add: lnk_def emb_def)

lemma hp_insert_ok:
  assumes t: "htree s root t" and p: "p \<notin> set (tnodes t)" "s p \<noteq> None"
    and cmp: "compares pgs s cmp (insert p (set (tnodes t)))"
    and magic: "\<forall>q \<in> insert p (set (tnodes t)). rd mb_magic s q = Some HEAP_MEMBLOCK_MAGIC"
  shows "\<exists>s' root' t'. hp_insert_node dbg pgs s root p = Some (s', root') \<and> htree s' root' t' \<and>
    inorder t' = inorder (plug (Nd p BLACK p p Tip Tip) (ins_ctx cmp p t Top)) \<and>
    set (tnodes t') = insert p (set (tnodes t)) \<and> same_data s s' \<and> (\<forall>q. q \<notin> insert p (set (tnodes t)) \<longrightarrow> s' q = s q)"
proof -
  have pN: "p \<noteq> NULL" "s NULL = None" using t p(2) by (auto simp: htree_def)
  obtain n where n: "s p = Some n" using p(2) by auto
  define u where "u = (links s)(p \<mapsto> (new_node p p)\<lparr>color := mb_color n\<rparr>)"
  have e: "emb (rest s) u = s(p \<mapsto> clear_node n)" using emb_clear [of s p n] n by (simp add: u_def)
  have lnk: "lnk u" using lnk_links [of s] pN by (auto simp: lnk_def new_node_def u_def)
  have root: "root = addr t" using htree_tr [OF t] by simp
  have up: "u p = Some ((new_node p p)\<lparr>color := mb_color n\<rparr>)" by (simp add: u_def)
  have sd: "same_data s (emb (rest s) u)" by (simp add: e n same_data_def data_def clear_node_def)
  have "\<exists>u' root' t'. (if root = NULL
        then do { s \<leftarrow> set_mb_color BLACK (emb (rest s) u) p; Some (s, p) }
        else do {
          s \<leftarrow> hp_insert_link pgs (emb (rest s) u) p root;
          s \<leftarrow> set_mb_color RED s p;
          (s, root) \<leftarrow> hp_insert_fix s root p;
          s \<leftarrow> set_mb_color BLACK s root;
          Some (s, root) }) = Some (emb (rest s) u', root') \<and> lnk u' \<and> rb_tree u u' root' t' \<and>
    inorder t' = inorder (plug (Nd p BLACK p p Tip Tip) (ins_ctx cmp p t Top)) \<and>
    set (tnodes t') = insert p (set (tnodes t))"
  proof (cases "t = Tip")
    case True
    let ?u' = "u(p \<mapsto> new_node p p)"
    have "set_color BLACK u p = Some ?u'" using up by (simp add: wr_def new_node_def)
    moreover have "lnk ?u'" using lnk pN by (auto simp: lnk_def new_node_def)
    moreover have "rb_tree u ?u' p (Nd p BLACK p p Tip Tip)" using pN by (auto simp: rb_tree_def foc_def new_node_def)
    ultimately show ?thesis using True root
      by (intro exI [of _ ?u'] exI [of _ p] exI [of _ "Nd p BLACK p p Tip Tip"]) simp
  next
    case False
    have rbt: "rb_tree (links s) (links s) root t" using t by (simp add: htree_def)
    then have "rb_tree u u root t" using p(1) by (elim rb_tree_cong) (auto simp: u_def)
    then have f: "foc u u root t Top" "\<exists>N. rbs t N" "tcol t = BLACK" by (auto simp: rb_tree_def)
    then obtain N where N: "rbs t N" by blast
    from insert_linked [OF f(1) N f(3) False up pN(1) p(1), of cmp] obtain u' root' t' where u': "do {
        s \<leftarrow> insert_link u cmp p root;
        s \<leftarrow> set_color RED s p;
        (s, root) \<leftarrow> insert_fix s root p;
        s \<leftarrow> set_color BLACK s root;
        Some (s, root) } = Some (u', root')" "rb_tree u u' root' t'"
      "inorder t' = inorder (plug (Nd p BLACK p p Tip Tip) (ins_ctx cmp p t Top))"
      "set (tnodes t') = insert p (set (tnodes t))" by blast
    have c: "compares pgs (emb (rest s) u) cmp (insert p (set (tnodes t)))" using cmp compares_same [OF sd] by blast
    have "root \<noteq> NULL" using f(1) False by (auto simp: foc_def)
    then show ?thesis
      using insert_tail_emb [OF f(1) False lnk c _ u'(1) [unfolded root]] up u'(2-4) unfolding root by auto
  qed
  then obtain u' root' t' where u': "(if root = NULL
        then do { s \<leftarrow> set_mb_color BLACK (emb (rest s) u) p; Some (s, p) }
        else do {
          s \<leftarrow> hp_insert_link pgs (emb (rest s) u) p root;
          s \<leftarrow> set_mb_color RED s p;
          (s, root) \<leftarrow> hp_insert_fix s root p;
          s \<leftarrow> set_mb_color BLACK s root;
          Some (s, root) }) = Some (emb (rest s) u', root')" "lnk u'" "rb_tree u u' root' t'"
    "inorder t' = inorder (plug (Nd p BLACK p p Tip Tip) (ins_ctx cmp p t Top))"
    "set (tnodes t') = insert p (set (tnodes t))" by blast
  have fr: "\<forall>q. q \<notin> insert p (set (tnodes t)) \<longrightarrow> u' q = u q"
    using foc_frame [of u u' root' t'] u'(3,5) by (simp add: rb_tree_def)
  have h: "htree (emb (rest s) u') root' t'"
    using u'(2,3) foc_rebase [of u u' root' t' Top] by (intro htree_emb) (simp_all add: rb_tree_def)
  have live: "u q \<noteq> None" if "q \<in> insert p (set (tnodes t))" for q
    using that htree_live [OF t, of q] by (auto simp: u_def links_def)
  have live': "u' q \<noteq> None" if "q \<in> insert p (set (tnodes t))" for q
    using that htree_live [OF h, of q] u'(5) by (auto simp: emb_def)
  have "u' q = None \<longleftrightarrow> u q = None" for q using fr live [of q] live' [of q] by metis
  then have sd': "same_data s (emb (rest s) u')" using same_data_trans [OF sd same_data_emb, of u'] by blast
  have chk: "check_tree (emb (rest s) u') root' = Some ()"
    using check_tree_ok [OF h] magic u'(5) same_data_rd(1) [OF sd'] by simp
  have frame: "\<forall>q. q \<notin> insert p (set (tnodes t)) \<longrightarrow> emb (rest s) u' q = s q"
    using fr fun_cong [OF e] by (simp add: emb_def fun_upd_def)
  have "hp_insert_node dbg pgs s root p = Some (emb (rest s) u', root')"
    unfolding hp_insert_node_clear [of s p n, OF n, folded e] u'(1) by (simp add: chk)
  then show ?thesis using h u'(4,5) sd' frame by blast
qed

subsection \<open>Removal\<close>

lemma hp_remove_node_emb:
  assumes "lnk u" "remove_links u root a = Some (u', root')"
  shows "hp_remove_node dbg (emb R u) root a = do { (if dbg then check_tree (emb R u') root' else Some ()); Some (emb R u', root') } \<and> lnk u'"
proof -
  obtain l r where lr: "rd p_lchild u a = Some l" "rd p_rchild u a = Some r" using assms(2)
    by (auto simp: remove_links_def bind_eq_Some_conv)
  obtain u1 r1 where u1: "(if l \<noteq> NULL \<and> r \<noteq> NULL then do { p_tmp_node \<leftarrow> rightmost u l; swap_links u a p_tmp_node root }
       else Some (u, root)) = Some (u1, r1)" "unlink_node u1 r1 a = Some (u', root')"
    using assms(2) lr by (auto simp: remove_links_def bind_eq_Some_conv)
  have "(if l \<noteq> NULL \<and> r \<noteq> NULL then do { p_tmp_node \<leftarrow> hp_rightmost (emb R u) l; swap_node (emb R u) a p_tmp_node root }
       else Some (emb R u, root)) = Some (emb R u1, r1) \<and> lnk u1"
    using u1(1) assms(1) swap_keeps [OF assms(1), THEN keepsD]
    by (auto simp: emb_rightmost emb_swap_node bind_eq_Some_conv split: if_splits)
  moreover from this have "hp_unlink_node (emb R u1) r1 a = Some (emb R u', root') \<and> lnk u'"
    using sim_unlink_node [of u1 R r1 a] u1(2) by (simp add: sim_def)
  ultimately show ?thesis using lr by (simp add: hp_remove_node_def)
qed

lemma tnodes_split: "a \<in> set (tnodes t) \<Longrightarrow> \<exists>c k v l r x. t = plug (Nd a c k v l r) x"
proof (induction t)
  case (Nd b c k v l r)
  consider "a = b" | "a \<in> set (tnodes l)" | "a \<in> set (tnodes r)" using Nd.prems by auto
  then show ?case
  proof cases
    case 1
    then have "Nd b c k v l r = plug (Nd a c k v l r) Top" by simp
    then show ?thesis by blast
  next
    case 2
    then obtain c' k' v' l' r' x where "l = plug (Nd a c' k' v' l' r') x" using Nd.IH(1) by blast
    then have "Nd b c k v l r = plug (Nd a c' k' v' l' r') (capp x (Lc b c k v Top r))" by (simp add: plug_capp)
    then show ?thesis by blast
  next
    case 3
    then obtain c' k' v' l' r' x where "r = plug (Nd a c' k' v' l' r') x" using Nd.IH(2) by blast
    then have "Nd b c k v l r = plug (Nd a c' k' v' l' r') (capp x (Rc b c k v l Top))" by (simp add: plug_capp)
    then show ?thesis by blast
  qed
qed simp

lemma htree_distinct: "htree s root t \<Longrightarrow> distinct (addrs t)"
proof -
  assume t: "htree s root t"
  have "length (inorder t) = length (tnodes t)" for t by (induction t) auto
  then have "length (addrs t) = length (tnodes t)" by (simp add: addrs_def)
  moreover have "distinct (tnodes t)" using t by (simp add: htree_def rb_tree_def foc_def)
  ultimately show "distinct (addrs t)"
    using htree_addrs(2) [OF t] by (metis card_distinct distinct_card)
qed

lemma hp_remove_ok:
  assumes t: "htree s root t" and a: "a \<in> set (tnodes t)"
    and magic: "\<forall>q \<in> set (tnodes t). rd mb_magic s q = Some HEAP_MEMBLOCK_MAGIC"
  shows "\<exists>s' root' t'. hp_remove_node dbg s root a = Some (s', root') \<and> htree s' root' t' \<and>
    addrs t' = remove1 a (addrs t) \<and> set (tnodes t') = set (tnodes t) - {a} \<and> same_data s s' \<and>
    (\<forall>q. q \<notin> set (tnodes t) \<longrightarrow> s' q = s q)"
proof -
  obtain c k v l r x where e: "t = plug (Nd a c k v l r) x" using tnodes_split [OF a] by blast
  let ?u = "links s"
  have rb: "rb_tree ?u ?u root t" and lnk: "lnk ?u" using t htree_tr [OF t] by (simp_all add: htree_def)
  have f: "foc ?u ?u root (Nd a c k v l r) x"
    using rb foc_plug [of ?u ?u root "Nd a c k v l r" x] by (simp add: rb_tree_def e)
  from remove_links_tree [OF f rb [unfolded e]] obtain u' root' T where u':
    "remove_links ?u root a = Some (u', root')" "rb_tree u' u' root' T" "inorder T = cl x @ inorder l @ inorder r @ cr x"
    "set (tnodes T) = set (tnodes t) - {a}" "u' a \<noteq> None" "\<forall>p. p \<notin> set (tnodes t) \<longrightarrow> u' p = ?u p" unfolding e by blast
  note rem = hp_remove_node_emb [OF lnk u'(1), of dbg "rest s", unfolded emb_links]
  have h: "htree (emb (rest s) u') root' T" using u'(2) rem by (intro htree_emb) simp_all
  have k: "k = a" using foc_rd(5) [OF f] lnk by (auto simp: rd_def lnk_def)
  have "addrs t = map fst (cl x @ inorder l) @ a # map fst (inorder r @ cr x)"
    by (simp add: e addrs_def inorder_plug_ctx k)
  moreover from this have "a \<notin> set (map fst (cl x @ inorder l))" using htree_distinct [OF t] by auto
  ultimately have "addrs T = remove1 a (addrs t)" by (simp add: addrs_def u'(3) remove1_append)
  moreover have sd: "same_data s (emb (rest s) u')"
  proof -
    have "u' q = None \<longleftrightarrow> ?u q = None" for q
      using u'(4,5,6) htree_live [OF t, of q] htree_live [OF h, of q] by (cases "q = a"; cases "q \<in> set (tnodes t)") (auto simp: emb_def links_def)
    from same_data_emb [of u' ?u "rest s", OF this] show ?thesis by (simp add: emb_links)
  qed
  moreover have "emb (rest s) u' q = s q" if "q \<notin> set (tnodes t)" for q
    using u'(6) that fun_cong [OF emb_links, of s q] by (simp add: emb_def)
  moreover have "check_tree (emb (rest s) u') root' = Some ()"
    using magic u'(4) same_data_rd(1) [OF sd] by (intro check_tree_ok [OF h]) simp
  then have "hp_remove_node dbg s root a = Some (emb (rest s) u', root')" using rem by simp
  ultimately show ?thesis using h u'(4) by blast
qed

subsection \<open>The tree as an index sorted by size\<close>

text \<open>\<open>cmp_by f\<close> is the comparison by a number, \<open>blk_key\<close> the number \<^verbatim>\<open>compare_node\<close> compares by.\<close>

definition cmp_by :: "(ptr \<Rightarrow> nat) \<Rightarrow> ptr \<Rightarrow> ptr \<Rightarrow> int" where
  "cmp_by f a b = (if f a > f b then 1 else if f a < f b then -1 else 0)"

lemma cmp_by_le [simp]: "cmp_by f a b \<le> 0 \<longleftrightarrow> f a \<le> f b"
  by (simp add: cmp_by_def)

definition blk_key :: "hpages \<Rightarrow> hblocks \<Rightarrow> ptr \<Rightarrow> nat" where
  "blk_key pgs s p =
     (case s p of
        Some n \<Rightarrow> unat (mb_size n) * 2 ^ 32 + (case pgs (mb_pg_block n) of Some g \<Rightarrow> unat (pb_index g) | None \<Rightarrow> 0)
      | None \<Rightarrow> 0)"

lemma key_less:
  fixes i j :: u32
  shows "a < b \<Longrightarrow> a * 2 ^ 32 + unat i < b * 2 ^ 32 + unat j"
proof -
  assume "a < b"
  then have "a * 2 ^ 32 + 2 ^ 32 \<le> b * 2 ^ 32" using mult_le_mono1 [of "Suc a" b "2 ^ 32"] by simp
  moreover have "unat i < 2 ^ 32" using unsigned_less [of i] by simp
  ultimately show ?thesis by linarith
qed

definition sized :: "hpages \<Rightarrow> hblocks \<Rightarrow> ptr set \<Rightarrow> bool" where
  "sized pgs s A \<longleftrightarrow> (\<forall>a \<in> A. \<exists>n. s a = Some n \<and> pgs (mb_pg_block n) \<noteq> None)"

lemma compare_node_key:
  assumes "s a = Some m" "s b = Some n" "pgs (mb_pg_block m) \<noteq> None" "pgs (mb_pg_block n) \<noteq> None"
  shows "compare_node pgs s a b = Some (cmp_by (blk_key pgs s) a b)"
proof -
  obtain g h where gh: "pgs (mb_pg_block m) = Some g" "pgs (mb_pg_block n) = Some h" using assms(3,4) by auto
  show ?thesis
  proof (cases "mb_size m" "mb_size n" rule: linorder_cases)
    case less
    then have "blk_key pgs s a < blk_key pgs s b" using assms(1,2) gh key_less by (simp add: blk_key_def word_less_nat_alt)
    then show ?thesis using assms(1,2) less by (auto simp: compare_node_def rd_def cmp_by_def)
  next
    case equal
    then have "blk_key pgs s a < blk_key pgs s b \<longleftrightarrow> pb_index g < pb_index h"
      "blk_key pgs s b < blk_key pgs s a \<longleftrightarrow> pb_index h < pb_index g"
      using assms(1,2) gh by (simp_all add: blk_key_def word_less_nat_alt)
    then show ?thesis using assms(1,2) equal gh by (simp add: compare_node_def rd_def cmp_by_def)
  next
    case greater
    then have "blk_key pgs s b < blk_key pgs s a" using assms(1,2) gh key_less by (simp add: blk_key_def word_less_nat_alt)
    then show ?thesis using assms(1,2) greater by (auto simp: compare_node_def rd_def cmp_by_def)
  qed
qed

lemma sized_compares: "sized pgs s A \<Longrightarrow> compares pgs s (cmp_by (blk_key pgs s)) A"
  unfolding compares_def sized_def by (metis compare_node_key)

lemma data_sel: "mb_size (data n) = mb_size n" "mb_pg_block (data n) = mb_pg_block n"
  by (simp_all add: data_def)

lemma blk_key_data:
  "blk_key pgs s p = (case map_option data (s p) of
     Some n \<Rightarrow> unat (mb_size n) * 2 ^ 32 + (case pgs (mb_pg_block n) of Some g \<Rightarrow> unat (pb_index g) | None \<Rightarrow> 0)
   | None \<Rightarrow> 0)"
  by (simp add: blk_key_def data_sel split: option.split)

lemma blk_key_same: "same_data s s' \<Longrightarrow> blk_key pgs s' = blk_key pgs s"
  by (rule ext) (simp add: blk_key_data same_data_def)

lemma sorted_insert_split:
  assumes "sorted (map f (xs @ k # ys))"
  shows "f p \<le> f k \<Longrightarrow> insort_key f p (xs @ k # ys) = insort_key f p xs @ k # ys"
    "\<not> f p \<le> f k \<Longrightarrow> insort_key f p (xs @ k # ys) = xs @ k # insort_key f p ys"
proof -
  show "f p \<le> f k \<Longrightarrow> insort_key f p (xs @ k # ys) = insort_key f p xs @ k # ys"
    by (induction xs) auto
  show "\<not> f p \<le> f k \<Longrightarrow> insort_key f p (xs @ k # ys) = xs @ k # insort_key f p ys"
    using assms by (induction xs) auto
qed

lemma ins_ctx_insort:
  assumes "sorted (map (f \<circ> fst) (inorder t))" "\<forall>kv \<in> set (inorder t). snd kv = fst kv"
  shows "map fst (inorder (plug (Nd p c p p Tip Tip) (ins_ctx (cmp_by f) p t x))) =
    map fst (cl x) @ insort_key f p (map fst (inorder t)) @ map fst (cr x)"
  using assms
proof (induction t arbitrary: x)
  case Tip
  then show ?case by (simp add: inorder_plug_ctx)
next
  case (Nd a d k v l r)
  have s: "sorted (map f (map fst (inorder l) @ k # map fst (inorder r)))" using Nd.prems(1) by (simp add: comp_def)
  have sl: "sorted (map (f \<circ> fst) (inorder l))" "sorted (map (f \<circ> fst) (inorder r))"
    using Nd.prems(1) by (auto simp: sorted_append comp_def)
  show ?case
  proof (cases "f p \<le> f k")
    case True
    then show ?thesis using Nd.IH(1) [OF sl(1), of "Lc a d k v x r"] sorted_insert_split(1) [OF s True] Nd.prems(2)
      by simp
  next
    case False
    then show ?thesis using Nd.IH(2) [OF sl(2), of "Rc a d k v l x"] sorted_insert_split(2) [OF s False] Nd.prems(2) by simp
  qed
qed

text \<open>\<open>indexed pgs s root L\<close>: the tree at \<open>root\<close> holds the headers \<open>L\<close>, in the order of their sizes.\<close>

definition indexed :: "hpages \<Rightarrow> hblocks \<Rightarrow> ptr \<Rightarrow> ptr list \<Rightarrow> bool" where
  "indexed pgs s root L \<longleftrightarrow> (\<exists>t. htree s root t \<and> addrs t = L) \<and> sorted (map (blk_key pgs s) L) \<and>
     (\<forall>a \<in> set L. rd mb_magic s a = Some HEAP_MEMBLOCK_MAGIC) \<and> sized pgs s (set L)"

lemma sized_same: "same_data s s' \<Longrightarrow> sized pgs s A \<Longrightarrow> sized pgs s' A"
  unfolding sized_def
proof
  fix a assume "same_data s s'" "\<forall>a\<in>A. \<exists>n. s a = Some n \<and> pgs (mb_pg_block n) \<noteq> None" "a \<in> A"
  then obtain n where sn: "s a = Some n" "pgs (mb_pg_block n) \<noteq> None" by blast
  then have n: "rd mb_pg_block s a = Some (mb_pg_block n)" "pgs (mb_pg_block n) \<noteq> None" by (simp_all add: rd_def)
  then have "rd mb_pg_block s' a = Some (mb_pg_block n)" using same_data_rd(5) [OF \<open>same_data s s'\<close>] by simp
  then show "\<exists>n. s' a = Some n \<and> pgs (mb_pg_block n) \<noteq> None" using n(2) by (auto simp: rd_def)
qed

lemma indexed_distinct: "indexed pgs s root L \<Longrightarrow> distinct L"
  using htree_distinct by (auto simp: indexed_def)

lemma indexed_live: "indexed pgs s root L \<Longrightarrow> a \<in> set L \<Longrightarrow> s a \<noteq> None \<and> a \<noteq> NULL"
  using htree_live htree_addrs(2) unfolding indexed_def by metis

lemma indexed_check: "indexed pgs s root L \<Longrightarrow> check_tree s root = Some ()"
  using check_tree_ok htree_addrs(2) unfolding indexed_def by metis

lemma index_insert:
  assumes "indexed pgs s root L" "p \<notin> set L" "s p = Some n" "mb_magic n = HEAP_MEMBLOCK_MAGIC" "pgs (mb_pg_block n) \<noteq> None"
  shows "\<exists>s' root'. hp_insert_node dbg pgs s root p = Some (s', root') \<and>
    indexed pgs s' root' (insort_key (blk_key pgs s) p L) \<and> same_data s s' \<and> (\<forall>q. q \<notin> insert p (set L) \<longrightarrow> s' q = s q)"
proof -
  obtain t where t: "htree s root t" "addrs t = L" using assms(1) by (auto simp: indexed_def)
  note L = htree_addrs [OF t(1), unfolded t(2)]
  let ?f = "blk_key pgs s"
  have "sized pgs s (insert p (set (tnodes t)))" using assms L by (auto simp: indexed_def sized_def)
  then have c: "compares pgs s (cmp_by ?f) (insert p (set (tnodes t)))" by (rule sized_compares)
  have m: "\<forall>q \<in> insert p (set (tnodes t)). rd mb_magic s q = Some HEAP_MEMBLOCK_MAGIC"
    using assms L by (simp add: indexed_def rd_def)
  from hp_insert_ok [OF t(1) _ _ c m, of dbg] assms(2,3) obtain s' root' t' where s': "hp_insert_node dbg pgs s root p = Some (s', root')"
    "htree s' root' t'" "inorder t' = inorder (plug (Nd p BLACK p p Tip Tip) (ins_ctx (cmp_by ?f) p t Top))"
    "same_data s s'" "\<forall>q. q \<notin> insert p (set L) \<longrightarrow> s' q = s q" unfolding L by auto
  have srt: "sorted (map ?f L)" using assms(1) by (simp add: indexed_def)
  have sr: "sorted (map (?f \<circ> fst) (inorder t))" using srt unfolding L(1) by (simp add: comp_def)
  have vals: "\<forall>kv \<in> set (inorder t). snd kv = fst kv" unfolding L(1) by auto
  have "addrs t' = insort_key ?f p L"
    using ins_ctx_insort [OF sr vals, of p BLACK Top] t(2) by (simp add: addrs_def s'(3))
  moreover have "sorted (map (blk_key pgs s') (insort_key ?f p L))"
    using sorted_insort_key [of ?f p L] srt by (simp add: blk_key_same [OF s'(4)])
  moreover have "sized pgs s' (set (insort_key ?f p L))"
    using assms by (intro sized_same [OF s'(4)]) (auto simp: indexed_def sized_def set_insort_key)
  moreover have "\<forall>a \<in> set (insort_key ?f p L). rd mb_magic s' a = Some HEAP_MEMBLOCK_MAGIC"
    using m L(2) by (simp add: set_insort_key same_data_rd(1) [OF s'(4)])
  ultimately have "indexed pgs s' root' (insort_key ?f p L)" using s'(2) by (auto simp: indexed_def)
  then show ?thesis using s'(1,4,5) by blast
qed

lemma index_remove:
  assumes "indexed pgs s root L" "a \<in> set L"
  shows "\<exists>s' root'. hp_remove_node dbg s root a = Some (s', root') \<and> indexed pgs s' root' (remove1 a L) \<and>
    same_data s s' \<and> (\<forall>q. q \<notin> set L \<longrightarrow> s' q = s q)"
proof -
  obtain t where t: "htree s root t" "addrs t = L" using assms(1) by (auto simp: indexed_def)
  note L = htree_addrs(2) [OF t(1), unfolded t(2)]
  have "a \<in> set (tnodes t)" "\<forall>q \<in> set (tnodes t). rd mb_magic s q = Some HEAP_MEMBLOCK_MAGIC"
    using assms L by (simp_all add: indexed_def)
  from hp_remove_ok [OF t(1) this, of dbg] obtain s' root' t' where s': "hp_remove_node dbg s root a = Some (s', root')"
    "htree s' root' t'" "addrs t' = remove1 a L" "same_data s s'" "\<forall>q. q \<notin> set L \<longrightarrow> s' q = s q"
    unfolding L t(2) by blast
  have "sorted (map (blk_key pgs s') (remove1 a L))"
    using assms(1) sorted_map_remove1 [of "blk_key pgs s" L a] by (simp add: indexed_def blk_key_same [OF s'(4)])
  moreover have "sized pgs s' (set (remove1 a L))"
    using assms(1) notin_set_remove1 by (intro sized_same [OF s'(4)]) (force simp: indexed_def sized_def)
  moreover have "\<forall>b \<in> set (remove1 a L). rd mb_magic s' b = Some HEAP_MEMBLOCK_MAGIC"
    using assms(1) notin_set_remove1 [of _ L a] by (auto simp: indexed_def same_data_rd(1) [OF s'(4)])
  ultimately have "indexed pgs s' root' (remove1 a L)" using s'(2,3) by (auto simp: indexed_def)
  then show ?thesis using s'(1,4,5) by blast
qed

end
