(* ===== verification/MmHeapFit.thy ===== *)
theory MmHeapFit
  imports MmHeapIndex
begin

text \<open>
  \<open>get_free_mem_block\<close> on a tree of free blocks: it finds a smallest block that is large enough, and
  \<^verbatim>\<open>NULL\<close> exactly when there is none.
\<close>

subsection \<open>The smallest block that fits\<close>

definition bsize :: "hblocks \<Rightarrow> ptr \<Rightarrow> nat" where
  "bsize s p = (case s p of Some n \<Rightarrow> unat (mb_size n) | None \<Rightarrow> 0)"

lemma bsize_same: "same_data s s' \<Longrightarrow> bsize s' = bsize s"
proof (rule ext)
  fix p assume "same_data s s'"
  then have "map_option data (s' p) = map_option data (s p)" by (simp add: same_data_def)
  then have "map_option mb_size (s' p) = map_option mb_size (s p)"
    by (metis (no_types, lifting) data_sel(1) option.map_comp option.map_cong comp_apply)
  then show "bsize s' p = bsize s p" by (auto simp: bsize_def split: option.splits)
qed

lemma sorted_bsize: "sorted (map (blk_key pgs s) L) \<Longrightarrow> sorted (map (bsize s) L)"
proof -
  have "bsize s a \<le> bsize s b" if "blk_key pgs s a \<le> blk_key pgs s b" for a b
  proof (rule ccontr)
    assume "\<not> bsize s a \<le> bsize s b"
    moreover have "\<exists>i :: u32. blk_key pgs s p = bsize s p * 2 ^ 32 + unat i" for p
    proof (cases "s p")
      case None
      then show ?thesis by (intro exI [of _ 0]) (simp add: blk_key_def bsize_def)
    next
      case (Some n)
      then show ?thesis
        by (intro exI [of _ "case pgs (mb_pg_block n) of Some g \<Rightarrow> pb_index g | None \<Rightarrow> 0"]) (simp add: blk_key_def bsize_def split: option.split)
    qed
    ultimately have "blk_key pgs s b < blk_key pgs s a" by (metis key_less not_le)
    then show False using that by simp
  qed
  then show "sorted (map (blk_key pgs s) L) \<Longrightarrow> sorted (map (bsize s) L)"
    by (induction L) auto
qed

text \<open>\<open>best_fit s w L p\<close>: \<open>p\<close> is a smallest header of \<open>L\<close> of size at least \<open>w\<close>, or \<^verbatim>\<open>NULL\<close> when there is none.\<close>

definition best_fit :: "hblocks \<Rightarrow> nat \<Rightarrow> ptr list \<Rightarrow> ptr \<Rightarrow> bool" where
  "best_fit s w L p \<longleftrightarrow>
     (if \<exists>a \<in> set L. w \<le> bsize s a
      then p \<in> set L \<and> w \<le> bsize s p \<and> (\<forall>a \<in> set L. w \<le> bsize s a \<longrightarrow> bsize s p \<le> bsize s a)
      else p = NULL)"

lemma rd_size: "rd mb_size s a = Some sz \<Longrightarrow> bsize s a = unat sz"
  by (auto simp: rd_def bsize_def)

lemma links_rd:
  "rd p_parent (links s) a = rd mb_parent s a" "rd p_lchild (links s) a = rd mb_lchild s a"
  "rd p_rchild (links s) a = rd mb_rchild s a" "rd color (links s) a = rd mb_color s a"
  by (cases "s a"; simp add: rd_def links_def)+

lemma links_key: "foc (links s) (links s) root (Nd a c k v l r) x \<Longrightarrow> k = a \<and> s a \<noteq> None \<and> a \<noteq> NULL"
  by (auto simp: foc_def links_def)

lemma climb_right_ok:
  assumes "foc (links s) (links s) root t x" "\<forall>kv \<in> set (cl x). bsize s (fst kv) < unat w" "\<forall>kv \<in> set (cr x). unat w \<le> bsize s (fst kv)"
  shows "free_climb_right s w (caddr x) = Some (case cr x of [] \<Rightarrow> NULL | kv # _ \<Rightarrow> fst kv)"
  using assms
proof (induction x arbitrary: t)
  case Top
  then show ?case by (subst free_climb_right.simps) simp
next
  case (Lc a c k v x r)
  then have f: "foc (links s) (links s) root (Nd a c k v t r) x" by (simp add: foc_Lc)
  obtain sz where sz: "rd mb_size s a = Some sz" using links_key [OF f] by (auto simp: rd_def)
  then show ?case using links_key [OF f] Lc.prems(3) rd_size [OF sz]
    by (subst free_climb_right.simps) (auto simp: word_less_nat_alt)
next
  case (Rc a c k v l x)
  then have f: "foc (links s) (links s) root (Nd a c k v l t) x" by (simp add: foc_Rc)
  obtain sz where sz: "rd mb_size s a = Some sz" using links_key [OF f] by (auto simp: rd_def)
  have "rd mb_parent s a = Some (caddr x)" using foc_rd(1) [OF f] by (simp add: links_rd)
  then show ?case using links_key [OF f] Rc.prems rd_size [OF sz] sz Rc.IH [OF f]
    by (subst free_climb_right.simps) (auto simp: word_less_nat_alt)
qed

lemma best_fit_split:
  assumes "\<forall>a \<in> set xs. bsize s a < w" "\<forall>a \<in> set ys. w \<le> bsize s a" "sorted (map (bsize s) ys)"
  shows "best_fit s w (xs @ ys) (case ys of [] \<Rightarrow> NULL | a # _ \<Rightarrow> a)"
proof (cases ys)
  case Nil
  then show ?thesis using assms by (auto simp: best_fit_def)
next
  case (Cons a zs)
  then have "w \<le> bsize s a" "\<forall>b \<in> set zs. bsize s a \<le> bsize s b" using assms by auto
  then show ?thesis using assms(1) Cons by (force simp: best_fit_def)
qed

lemma all_ge: "\<forall>b \<in> set ys. f a \<le> f b \<Longrightarrow> v \<le> f a \<Longrightarrow> \<forall>b \<in> set (a # ys). (v :: nat) \<le> f b"
  by auto

lemma all_lt: "\<forall>b \<in> set xs. f b \<le> f a \<Longrightarrow> f a < v \<Longrightarrow> \<forall>b \<in> set (xs @ [a]). f b < (v :: nat)"
  by auto

lemma free_search_ok:
  assumes "foc (links s) (links s) root t x" "t \<noteq> Tip" "\<forall>kv \<in> set (cl x). bsize s (fst kv) < unat w"
    "\<forall>kv \<in> set (cr x). unat w \<le> bsize s (fst kv)" "sorted (map (bsize s) (map fst (cl x @ inorder t @ cr x)))"
  shows "\<exists>p. free_search s w (addr t) = Some p \<and> best_fit s (unat w) (map fst (cl x @ inorder t @ cr x)) p"
  using assms
proof (induction t arbitrary: x)
  case (Nd a c k v l r)
  note f = Nd.prems(1)
  have k: "k = a" "a \<noteq> NULL" using links_key [OF f] by auto
  obtain sz where sz: "rd mb_size s a = Some sz" using links_key [OF f] by (auto simp: rd_def)
  note rd = foc_rd(2,3) [OF f, unfolded links_rd] and size = rd_size [OF sz]
  let ?lo = "map fst (cl x @ inorder l)" and ?hi = "map fst (inorder r @ cr x)"
  have e: "map fst (cl x @ inorder (Nd a c k v l r) @ cr x) = ?lo @ a # ?hi" using k by simp
  have srt: "sorted (map (bsize s) (?lo @ a # ?hi))" using Nd.prems(5) unfolding e .
  then have lo: "\<forall>b \<in> set ?lo. bsize s b \<le> bsize s a" and hi: "\<forall>b \<in> set ?hi. bsize s a \<le> bsize s b"
    by (auto simp: sorted_append)
  have N: "addr l = NULL \<longleftrightarrow> l = Tip" "addr r = NULL \<longleftrightarrow> r = Tip" using f by (auto simp: foc_def)
  note ge = all_ge [OF hi] and lt = all_lt [OF lo]
  consider "sz = w" | "sz > w" | "sz < w" by (cases sz w rule: linorder_cases)
  then show ?case
  proof cases
    case 1
    then have "best_fit s (unat w) (?lo @ a # ?hi) a" using size lo hi by (force simp: best_fit_def)
    then show ?thesis using sz 1 unfolding e by (subst free_search.simps) simp
  next
    case 2
    then have w: "unat w < bsize s a" using size by (simp add: word_less_nat_alt)
    have fl: "foc (links s) (links s) root l (Lc a c k v x r)" using f by (simp add: foc_Lc)
    show ?thesis
    proof (cases "l = Tip")
      case True
      have "free_search s w a = free_climb_left s w a" using sz 2 rd True by (subst free_search.simps) auto
      also have "\<dots> = Some a" using sz 2 by (subst free_climb_left.simps) auto
      finally have s: "free_search s w a = Some a" .
      have "\<forall>b \<in> set (a # ?hi). unat w \<le> bsize s b" using ge [OF less_imp_le [OF w]] .
      moreover have "sorted (map (bsize s) (a # ?hi))" using srt by (simp only: map_append sorted_append)
      ultimately have "best_fit s (unat w) (map fst (cl x) @ a # ?hi) a"
        using best_fit_split [of "map fst (cl x)" s "unat w" "a # ?hi"] Nd.prems(3) by simp
      then show ?thesis using s k True unfolding e by simp
    next
      case False
      have "\<forall>kv \<in> set (cr (Lc a c k v x r)). unat w \<le> bsize s (fst kv)" using hi w k by force
      then have "\<exists>p. free_search s w (addr l) = Some p \<and>
          best_fit s (unat w) (map fst (cl (Lc a c k v x r) @ inorder l @ cr (Lc a c k v x r))) p"
        using Nd.prems(3,5) False by (intro Nd.IH(1) [OF fl]) simp_all
      then show ?thesis using sz 2 rd False N by (subst free_search.simps) auto
    qed
  next
    case 3
    then have w: "bsize s a < unat w" using size by (simp add: word_less_nat_alt)
    have fr: "foc (links s) (links s) root r (Rc a c k v l x)" using f by (simp add: foc_Rc)
    have lo': "\<forall>kv \<in> set (cl (Rc a c k v l x)). bsize s (fst kv) < unat w" using lo w k by force
    show ?thesis
    proof (cases "r = Tip")
      case True
      have "free_search s w a = free_climb_right s w a" using sz 3 rd True by (subst free_search.simps) auto
      also have "\<dots> = Some (case cr x of [] \<Rightarrow> NULL | kv # _ \<Rightarrow> fst kv)"
        using climb_right_ok [OF fr lo'] Nd.prems(4) by simp
      finally have s: "free_search s w a = Some (case map fst (cr x) of [] \<Rightarrow> NULL | p # _ \<Rightarrow> p)"
        by (simp split: list.split)
      have "\<forall>b \<in> set (?lo @ [a]). bsize s b < unat w" using lt [OF w] .
      moreover have "sorted (map (bsize s) (map fst (cr x)))" using srt by (simp add: sorted_append True)
      moreover have "\<forall>b \<in> set (map fst (cr x)). unat w \<le> bsize s b" using Nd.prems(4) by auto
      ultimately have "best_fit s (unat w) ((?lo @ [a]) @ map fst (cr x)) (case map fst (cr x) of [] \<Rightarrow> NULL | p # _ \<Rightarrow> p)"
        by (intro best_fit_split)
      then show ?thesis using s True unfolding e by simp
    next
      case False
      then have "\<exists>p. free_search s w (addr r) = Some p \<and>
          best_fit s (unat w) (map fst (cl (Rc a c k v l x) @ inorder r @ cr (Rc a c k v l x))) p"
        using Nd.prems(4,5) by (intro Nd.IH(2) [OF fr _ lo']) simp_all
      then show ?thesis using sz 3 rd False N by (subst free_search.simps) auto
    qed
  qed
qed simp

lemma get_free_best:
  assumes "indexed pgs s root L"
  shows "\<exists>p. get_free_mem_block s root want = Some p \<and> best_fit s (unat (want + HEAP_MEM_BLCK_SZ)) L p"
proof -
  obtain t where t: "htree s root t" "addrs t = L" using assms by (auto simp: indexed_def)
  have rt: "root = addr t" and f: "foc (links s) (links s) root t Top" using t(1) by (auto simp: htree_def rb_tree_def foc_def)
  show ?thesis
  proof (cases "t = Tip")
    case True
    then show ?thesis using rt t(2) by (auto simp: get_free_mem_block_def best_fit_def addrs_def)
  next
    case False
    have "sorted (map (bsize s) (map fst (inorder t)))"
      using assms t(2) sorted_bsize [of pgs s L] by (simp add: indexed_def addrs_def del: map_map)
    then have "\<exists>p. free_search s (want + HEAP_MEM_BLCK_SZ) (addr t) = Some p \<and>
        best_fit s (unat (want + HEAP_MEM_BLCK_SZ)) (map fst (cl Top @ inorder t @ cr Top)) p"
      using False by (intro free_search_ok [OF f]) simp_all
    moreover have "root \<noteq> NULL" using f False rt by (auto simp: foc_def)
    ultimately show ?thesis using t(2) rt by (simp add: get_free_mem_block_def addrs_def)
  qed
qed

end
