(* ===== verification/MmHeapState.thy ===== *)
theory MmHeapState
  imports MmHeapFit
begin

text \<open>
  The state of one heap seen through its parts: the heap object, the page headers, the block
  headers without their links, and the two lists of blocks that the trees hold. Each primitive step
  of \<open>MmHeapOps\<close> is a step between such views.
\<close>

subsection \<open>Headers without their tree links\<close>

definition D :: "hblocks \<Rightarrow> hblocks" where
  "D s p = map_option data (s p)"

lemma same_data_D: "same_data s s' \<longleftrightarrow> D s' = D s"
  by (auto simp: same_data_def D_def fun_eq_iff)

lemma D_live: "D s p = None \<longleftrightarrow> s p = None"
  by (simp add: D_def)

lemma D_rd: "rd mb_magic (D s) p = rd mb_magic s p" "rd mb_allocated (D s) p = rd mb_allocated s p"
    "rd mb_prev (D s) p = rd mb_prev s p" "rd mb_next (D s) p = rd mb_next s p"
    "rd mb_pg_block (D s) p = rd mb_pg_block s p" "rd mb_size (D s) p = rd mb_size s p" "rd mb_heap (D s) p = rd mb_heap s p"
  by (cases "s p"; simp add: rd_def D_def data_def)+

lemma blk_key_D: "blk_key pgs (D s) = blk_key pgs s"
  by (rule ext) (simp add: blk_key_data D_def data_sel split: option.split)

lemma bsize_D: "bsize (D s) = bsize s"
  by (rule ext) (simp add: bsize_def D_def data_sel split: option.split)

text \<open>An update of a field that is not a link.\<close>

definition plain :: "(heap_mem_blck \<Rightarrow> heap_mem_blck) \<Rightarrow> bool" where
  "plain u \<longleftrightarrow> (\<forall>n. data (u n) = u (data n) \<and> mb_parent (u n) = mb_parent n \<and> mb_lchild (u n) = mb_lchild n \<and>
     mb_rchild (u n) = mb_rchild n \<and> mb_color (u n) = mb_color n \<and> mb_magic (u n) = mb_magic n \<and> mb_pg_block (u n) = mb_pg_block n)"

lemma plain_updates [simp]:
  "plain (mb_size_update f)" "plain (mb_next_update f)" "plain (mb_prev_update f)" "plain (mb_allocated_update g)"
  by (simp_all add: plain_def data_def)

lemma wr_plain:
  assumes "plain u" "D s p = Some n"
  shows "\<exists>s'. wr u s p = Some s' \<and> D s' = (D s)(p \<mapsto> u n) \<and> links s' = links s \<and> (\<forall>q. q \<noteq> p \<longrightarrow> s' q = s q)"
proof -
  obtain m where m: "s p = Some m" "n = data m" using assms(2) by (auto simp: D_def)
  let ?s = "s(p \<mapsto> u m)"
  have "wr u s p = Some ?s" using m by (simp add: wr_def)
  moreover have "D ?s = (D s)(p \<mapsto> u n)" using m assms(1) by (auto simp: D_def plain_def)
  moreover have "links ?s = links s" using m assms(1) by (auto simp: links_def plain_def)
  ultimately show ?thesis by auto
qed

lemma indexed_cong:
  assumes "indexed pgs s root L" "s' NULL = None" "\<And>a. a \<in> set L \<Longrightarrow> links s' a = links s a"
    "\<And>a. a \<in> set L \<Longrightarrow> blk_key pgs' s' a = blk_key pgs s a"
    "\<And>a n. a \<in> set L \<Longrightarrow> s a = Some n \<Longrightarrow> pgs (mb_pg_block n) \<noteq> None \<Longrightarrow>
       \<exists>n'. s' a = Some n' \<and> mb_magic n' = mb_magic n \<and> pgs' (mb_pg_block n') \<noteq> None"
  shows "indexed pgs' s' root L"
proof -
  obtain t where t: "htree s root t" "addrs t = L" using assms(1) by (auto simp: indexed_def)
  have "htree s' root t" using t(1) assms(2)
    by (rule htree_cong) (use assms(3) htree_addrs(2) [OF t(1)] t(2) in auto)
  moreover have "sorted (map (blk_key pgs' s') L)"
  proof -
    have e: "map (blk_key pgs' s') L = map (blk_key pgs s) L" using assms(4) by simp
    have "sorted (map (blk_key pgs s) L)" using assms(1) by (simp add: indexed_def)
    then show ?thesis unfolding e .
  qed
  moreover have "rd mb_magic s' a = Some HEAP_MEMBLOCK_MAGIC" "\<exists>n'. s' a = Some n' \<and> pgs' (mb_pg_block n') \<noteq> None" if aL: "a \<in> set L" for a
  proof -
    have "sized pgs s (set L)" using assms(1) by (simp add: indexed_def)
    then obtain n where n: "s a = Some n" "pgs (mb_pg_block n) \<noteq> None" using aL unfolding sized_def by blast
    moreover have "rd mb_magic s a = Some HEAP_MEMBLOCK_MAGIC" using assms(1) aL by (simp add: indexed_def)
    then have "mb_magic n = HEAP_MEMBLOCK_MAGIC" using n by (simp add: rd_def)
    ultimately have n: "s a = Some n" "pgs (mb_pg_block n) \<noteq> None" "mb_magic n = HEAP_MEMBLOCK_MAGIC" by blast+
    with assms(5) [OF aL n(1,2)] show "rd mb_magic s' a = Some HEAP_MEMBLOCK_MAGIC"
      "\<exists>n'. s' a = Some n' \<and> pgs' (mb_pg_block n') \<noteq> None" by (auto simp: rd_def)
  qed
  ultimately show ?thesis using t(2) by (auto simp: indexed_def sized_def)
qed

lemma indexed_frame:
  assumes "indexed pgs s root L" "s' NULL = None" "\<And>a. a \<in> set L \<Longrightarrow> s' a = s a"
  shows "indexed pgs s' root L"
  using assms(1,2) by (rule indexed_cong) (simp_all add: links_def blk_key_def assms(3))

subsection \<open>A heap, taken apart\<close>

text \<open>
  \<open>hs st hp x h pgs d E U\<close>: the heap at \<open>hp\<close> in the state \<open>st\<close> has the object \<open>h\<close> up to its two roots,
  the page headers \<open>pgs\<close>, the block headers \<open>d\<close> up to their links, the blocks \<open>E\<close> in the tree of
  free blocks and \<open>U\<close> in the other; \<open>x\<close> is the rest of the state.
\<close>

definition no_roots :: "heap_t \<Rightarrow> heap_t" where
  "no_roots h = h\<lparr>p_used_block_tree := NULL, p_empty_block_tree := NULL\<rparr>"

definition other :: "heap_state \<Rightarrow> ptr \<Rightarrow> heap_state" where
  "other st hp = st\<lparr>heaps := (heaps st)(hp := None), pages := \<lambda>_. None, blocks := \<lambda>_. None\<rparr>"

definition hs :: "heap_state \<Rightarrow> ptr \<Rightarrow> heap_state \<Rightarrow> heap_t \<Rightarrow> hpages \<Rightarrow> hblocks \<Rightarrow> ptr list \<Rightarrow> ptr list \<Rightarrow> bool" where
  "hs st hp x h pgs d E U \<longleftrightarrow> other st hp = x \<and> pages st = pgs \<and> D (blocks st) = d \<and> set E \<inter> set U = {} \<and>
     (\<exists>h'. heaps st hp = Some h' \<and> no_roots h' = h \<and> indexed pgs (blocks st) (p_empty_block_tree h') E \<and>
        indexed pgs (blocks st) (p_used_block_tree h') U)"

lemma other_simps [simp]:
  "other (st\<lparr>blocks := b\<rparr>) hp = other st hp" "other (st\<lparr>pages := g\<rparr>) hp = other st hp"
  "other (st\<lparr>heaps := (heaps st)(hp := v)\<rparr>) hp = other st hp"
  by (simp_all add: other_def)

lemma on_heap_Some: "heaps st hp = Some h \<Longrightarrow> on_heap u st hp = Some (st\<lparr>heaps := (heaps st)(hp \<mapsto> u h)\<rparr>)"
  by (simp add: on_heap_def wr_def)

lemma indexed_NULL: "indexed pgs s root L \<Longrightarrow> s NULL = None"
  by (auto simp: indexed_def htree_def)

text \<open>The four tree operations.\<close>

lemma hs_empty_insert:
  assumes "hs st hp x h pgs d E U" "p \<notin> set E" "p \<notin> set U" "d p = Some n" "mb_magic n = HEAP_MEMBLOCK_MAGIC" "pgs (mb_pg_block n) \<noteq> None"
  shows "\<exists>st'. empty_insert st hp p = Some st' \<and> hs st' hp x h pgs d (insort_key (blk_key pgs d) p E) U"
proof -
  obtain h' where st: "other st hp = x" "pages st = pgs" "D (blocks st) = d" "set E \<inter> set U = {}" "heaps st hp = Some h'"
    "no_roots h' = h" "indexed pgs (blocks st) (p_empty_block_tree h') E" "indexed pgs (blocks st) (p_used_block_tree h') U"
    using assms(1) by (auto simp: hs_def)
  obtain m where m: "blocks st p = Some m" "mb_magic m = HEAP_MEMBLOCK_MAGIC" "pgs (mb_pg_block m) \<noteq> None"
    using assms(4-6) st(3) by (auto simp: D_def data_def)
  from index_insert [OF st(7) assms(2) m, of "on_dbg st"] obtain bs r where bs:
    "hp_insert_node (on_dbg st) pgs (blocks st) (p_empty_block_tree h') p = Some (bs, r)"
    "indexed pgs bs r (insort_key (blk_key pgs (blocks st)) p E)" "same_data (blocks st) bs"
    "\<forall>q. q \<notin> insert p (set E) \<longrightarrow> bs q = blocks st q" by blast
  have U: "indexed pgs bs (p_used_block_tree h') U"
    using st(8) indexed_NULL [OF bs(2)] by (rule indexed_frame) (use bs(4) assms(3) st(4) in auto)
  have "empty_insert st hp p = Some (st\<lparr>blocks := bs, heaps := (heaps st)(hp \<mapsto> h'\<lparr>p_empty_block_tree := r\<rparr>)\<rparr>)"
    using st bs(1) on_heap_Some [of "st\<lparr>blocks := bs\<rparr>" hp h'] by (simp add: empty_insert_def)
  moreover have "blk_key pgs d = blk_key pgs (blocks st)" using st(3) blk_key_D by metis
  moreover have "D bs = d" using bs(3) st(3) by (simp add: same_data_D)
  ultimately show ?thesis using st U bs(2) assms(3) by (auto simp: hs_def other_def no_roots_def set_insort_key)
qed

lemma hs_used_insert:
  assumes "hs st hp x h pgs d E U" "p \<notin> set E" "p \<notin> set U" "d p = Some n" "mb_magic n = HEAP_MEMBLOCK_MAGIC" "pgs (mb_pg_block n) \<noteq> None"
  shows "\<exists>st'. used_insert st hp p = Some st' \<and> hs st' hp x h pgs d E (insort_key (blk_key pgs d) p U)"
proof -
  obtain h' where st: "other st hp = x" "pages st = pgs" "D (blocks st) = d" "set E \<inter> set U = {}" "heaps st hp = Some h'"
    "no_roots h' = h" "indexed pgs (blocks st) (p_empty_block_tree h') E" "indexed pgs (blocks st) (p_used_block_tree h') U"
    using assms(1) by (auto simp: hs_def)
  obtain m where m: "blocks st p = Some m" "mb_magic m = HEAP_MEMBLOCK_MAGIC" "pgs (mb_pg_block m) \<noteq> None"
    using assms(4-6) st(3) by (auto simp: D_def data_def)
  from index_insert [OF st(8) assms(3) m, of "on_dbg st"] obtain bs r where bs:
    "hp_insert_node (on_dbg st) pgs (blocks st) (p_used_block_tree h') p = Some (bs, r)"
    "indexed pgs bs r (insort_key (blk_key pgs (blocks st)) p U)" "same_data (blocks st) bs"
    "\<forall>q. q \<notin> insert p (set U) \<longrightarrow> bs q = blocks st q" by blast
  have E: "indexed pgs bs (p_empty_block_tree h') E"
    using st(7) indexed_NULL [OF bs(2)] by (rule indexed_frame) (use bs(4) assms(2) st(4) in auto)
  have "used_insert st hp p = Some (st\<lparr>blocks := bs, heaps := (heaps st)(hp \<mapsto> h'\<lparr>p_used_block_tree := r\<rparr>)\<rparr>)"
    using st bs(1) on_heap_Some [of "st\<lparr>blocks := bs\<rparr>" hp h'] by (simp add: used_insert_def)
  moreover have "blk_key pgs d = blk_key pgs (blocks st)" using st(3) blk_key_D by metis
  moreover have "D bs = d" using bs(3) st(3) by (simp add: same_data_D)
  ultimately show ?thesis using st E bs(2) assms(2) by (auto simp: hs_def other_def no_roots_def set_insort_key)
qed

lemma hs_empty_remove:
  assumes "hs st hp x h pgs d E U" "p \<in> set E"
  shows "\<exists>st'. empty_remove st hp p = Some st' \<and> hs st' hp x h pgs d (remove1 p E) U"
proof -
  obtain h' where st: "other st hp = x" "pages st = pgs" "D (blocks st) = d" "set E \<inter> set U = {}" "heaps st hp = Some h'"
    "no_roots h' = h" "indexed pgs (blocks st) (p_empty_block_tree h') E" "indexed pgs (blocks st) (p_used_block_tree h') U"
    using assms(1) by (auto simp: hs_def)
  from index_remove [OF st(7) assms(2), of "on_dbg st"] obtain bs r where bs:
    "hp_remove_node (on_dbg st) (blocks st) (p_empty_block_tree h') p = Some (bs, r)"
    "indexed pgs bs r (remove1 p E)" "same_data (blocks st) bs" "\<forall>q. q \<notin> set E \<longrightarrow> bs q = blocks st q" by blast
  have U: "indexed pgs bs (p_used_block_tree h') U"
    using st(8) indexed_NULL [OF bs(2)] by (rule indexed_frame) (use bs(4) st(4) in auto)
  have "empty_remove st hp p = Some (st\<lparr>blocks := bs, heaps := (heaps st)(hp \<mapsto> h'\<lparr>p_empty_block_tree := r\<rparr>)\<rparr>)"
    using st bs(1) on_heap_Some [of "st\<lparr>blocks := bs\<rparr>" hp h'] by (simp add: empty_remove_def)
  moreover have "D bs = d" using bs(3) st(3) by (simp add: same_data_D)
  moreover have "set (remove1 p E) \<inter> set U = {}" using st(4) set_remove1_subset [of p E] by blast
  ultimately show ?thesis using st U bs(2) by (auto simp: hs_def other_def no_roots_def)
qed

lemma hs_used_remove:
  assumes "hs st hp x h pgs d E U" "p \<in> set U"
  shows "\<exists>st'. used_remove st hp p = Some st' \<and> hs st' hp x h pgs d E (remove1 p U)"
proof -
  obtain h' where st: "other st hp = x" "pages st = pgs" "D (blocks st) = d" "set E \<inter> set U = {}" "heaps st hp = Some h'"
    "no_roots h' = h" "indexed pgs (blocks st) (p_empty_block_tree h') E" "indexed pgs (blocks st) (p_used_block_tree h') U"
    using assms(1) by (auto simp: hs_def)
  from index_remove [OF st(8) assms(2), of "on_dbg st"] obtain bs r where bs:
    "hp_remove_node (on_dbg st) (blocks st) (p_used_block_tree h') p = Some (bs, r)"
    "indexed pgs bs r (remove1 p U)" "same_data (blocks st) bs" "\<forall>q. q \<notin> set U \<longrightarrow> bs q = blocks st q" by blast
  have E: "indexed pgs bs (p_empty_block_tree h') E"
    using st(7) indexed_NULL [OF bs(2)] by (rule indexed_frame) (use bs(4) st(4) in auto)
  have "used_remove st hp p = Some (st\<lparr>blocks := bs, heaps := (heaps st)(hp \<mapsto> h'\<lparr>p_used_block_tree := r\<rparr>)\<rparr>)"
    using st bs(1) on_heap_Some [of "st\<lparr>blocks := bs\<rparr>" hp h'] by (simp add: used_remove_def)
  moreover have "D bs = d" using bs(3) st(3) by (simp add: same_data_D)
  moreover have "set E \<inter> set (remove1 p U) = {}" using st(4) set_remove1_subset [of p U] by blast
  ultimately show ?thesis using st E bs(2) by (auto simp: hs_def other_def no_roots_def)
qed

text \<open>Reads and writes of a header; the size of a block in a tree is never written.\<close>

lemma hs_rd: "hs st hp x h pgs d E U \<Longrightarrow> rd mb_magic (blocks st) p = rd mb_magic d p"
  "hs st hp x h pgs d E U \<Longrightarrow> rd mb_allocated (blocks st) p = rd mb_allocated d p"
  "hs st hp x h pgs d E U \<Longrightarrow> rd mb_prev (blocks st) p = rd mb_prev d p"
  "hs st hp x h pgs d E U \<Longrightarrow> rd mb_next (blocks st) p = rd mb_next d p"
  "hs st hp x h pgs d E U \<Longrightarrow> rd mb_pg_block (blocks st) p = rd mb_pg_block d p"
  "hs st hp x h pgs d E U \<Longrightarrow> rd mb_size (blocks st) p = rd mb_size d p"
  "hs st hp x h pgs d E U \<Longrightarrow> rd mb_heap (blocks st) p = rd mb_heap d p"
  "hs st hp x h pgs d E U \<Longrightarrow> pages st = pgs"
  by (auto simp: hs_def D_rd)

lemma hs_on_blocks:
  assumes "hs st hp x h pgs d E U" "plain u" "d p = Some n" "mb_size (u n) = mb_size n \<or> p \<notin> set E \<union> set U"
  shows "\<exists>st'. on_blocks u st p = Some st' \<and> hs st' hp x h pgs (d(p \<mapsto> u n)) E U"
proof -
  obtain h' where st: "other st hp = x" "pages st = pgs" "D (blocks st) = d" "set E \<inter> set U = {}" "heaps st hp = Some h'"
    "no_roots h' = h" "indexed pgs (blocks st) (p_empty_block_tree h') E" "indexed pgs (blocks st) (p_used_block_tree h') U"
    using assms(1) by (auto simp: hs_def)
  have "D (blocks st) p = Some n" using st(3) assms(3) by simp
  from wr_plain [OF assms(2) this] obtain s' where s': "wr u (blocks st) p = Some s'" "D s' = d(p \<mapsto> u n)"
    "links s' = links (blocks st)" "\<forall>q. q \<noteq> p \<longrightarrow> s' q = blocks st q" unfolding st(3) by blast
  have pl: "\<forall>m. mb_pg_block (u m) = mb_pg_block m" "\<forall>m. mb_magic (u m) = mb_magic m" using assms(2) by (auto simp: plain_def)
  have NN: "s' NULL = None"
  proof -
    have "blocks st p = None \<or> p \<noteq> NULL" using indexed_NULL [OF st(7)] by auto
    then have "p \<noteq> NULL" using \<open>D (blocks st) p = Some n\<close> by (auto simp: D_def)
    then show ?thesis using s'(4) indexed_NULL [OF st(7)] by simp
  qed
  obtain m where m: "blocks st p = Some m" "s' p = Some (u m)" using s'(1) by (auto simp: wr_def split: option.splits)
  have keep: "indexed pgs s' root L" if "indexed pgs (blocks st) root L" "mb_size (u n) = mb_size n \<or> p \<notin> set L" for root L
    using that(1) NN
  proof (rule indexed_cong)
    show "links s' a = links (blocks st) a" for a using s'(3) by simp
    show "blk_key pgs s' a = blk_key pgs (blocks st) a" if "a \<in> set L" for a
    proof (cases "a = p")
      case True
      then have "blk_key pgs (D s') p = blk_key pgs (D (blocks st)) p"
        using \<open>mb_size (u n) = mb_size n \<or> p \<notin> set L\<close> that s'(2) st(3) assms(3) pl by (simp add: blk_key_def)
      then show ?thesis using True by (simp add: blk_key_D)
    next
      case False
      then show ?thesis using s'(4) by (simp add: blk_key_def)
    qed
    show "\<exists>n'. s' a = Some n' \<and> mb_magic n' = mb_magic k \<and> pgs (mb_pg_block n') \<noteq> None"
      if "blocks st a = Some k" "pgs (mb_pg_block k) \<noteq> None" for a k
      using that s'(4) m pl by (cases "a = p") auto
  qed
  have "on_blocks u st p = Some (st\<lparr>blocks := s'\<rparr>)" using s'(1) by (simp add: on_blocks_def)
  moreover have "indexed pgs s' (p_empty_block_tree h') E" using keep [OF st(7)] assms(4) by blast
  moreover have "indexed pgs s' (p_used_block_tree h') U" using keep [OF st(8)] assms(4) by blast
  ultimately show ?thesis using st s'(2) by (auto simp: hs_def)
qed

lemma hs_on_pages:
  assumes "hs st hp x h pgs d E U" "pgs g = Some n" "pb_index (u n) = pb_index n"
  shows "\<exists>st'. on_pages u st g = Some st' \<and> hs st' hp x h (pgs(g \<mapsto> u n)) d E U"
proof -
  have keep: "indexed (pgs(g \<mapsto> u n)) s root L" if "indexed pgs s root L" for s root L
    using that indexed_NULL [OF that]
  proof (rule indexed_cong)
    show "blk_key (pgs(g \<mapsto> u n)) s a = blk_key pgs s a" for a
      using assms(2,3) by (simp add: blk_key_def split: option.split)
  qed auto
  have "on_pages u st g = Some (st\<lparr>pages := pgs(g \<mapsto> u n)\<rparr>)"
    using assms(1,2) by (auto simp: on_pages_def wr_def hs_def)
  moreover have "hs (st\<lparr>pages := pgs(g \<mapsto> u n)\<rparr>) hp x h (pgs(g \<mapsto> u n)) d E U"
    using assms(1) keep by (auto simp: hs_def)
  ultimately show ?thesis by blast
qed

definition away :: "hblocks \<Rightarrow> ptr set \<Rightarrow> ptr \<Rightarrow> bool" where
  "away d A g \<longleftrightarrow> (\<forall>a \<in> A. \<forall>n. d a = Some n \<longrightarrow> mb_pg_block n \<noteq> g)"

lemma hs_put_page:
  assumes "hs st hp x h pgs d E U" "away d (set E \<union> set U) g"
  shows "hs (st\<lparr>pages := (pages st)(g := v)\<rparr>) hp x h (pgs(g := v)) d E U"
proof -
  have e: "D (blocks st) = d" "pages st = pgs" using assms(1) by (auto simp: hs_def)
  have away: "mb_pg_block n \<noteq> g" if "a \<in> set E \<union> set U" "blocks st a = Some n" for a n
    using assms(2) that data_sel(2) [of n] by (force simp: away_def e(1) [symmetric] D_def)
  have keep: "indexed (pgs(g := v)) (blocks st) root L" if "indexed pgs (blocks st) root L" "set L \<subseteq> set E \<union> set U" for root L
    using that(1) indexed_NULL [OF that(1)]
  proof (rule indexed_cong)
    show "blk_key (pgs(g := v)) (blocks st) a = blk_key pgs (blocks st) a" if "a \<in> set L" for a
      using away [of a] that \<open>set L \<subseteq> _\<close> by (auto simp: blk_key_def split: option.split)
    show "\<exists>n'. blocks st a = Some n' \<and> mb_magic n' = mb_magic n \<and> (pgs(g := v)) (mb_pg_block n') \<noteq> None"
      if "a \<in> set L" "blocks st a = Some n" "pgs (mb_pg_block n) \<noteq> None" for a n
      using away [of a] that \<open>set L \<subseteq> _\<close> by auto
  qed auto
  show ?thesis using assms(1) keep by (auto simp: hs_def)
qed

lemma hs_blocks_frame:
  assumes "hs st hp x h pgs d E U" "s' NULL = None" "\<And>a. a \<in> set E \<union> set U \<Longrightarrow> s' a = blocks st a"
  shows "hs (st\<lparr>blocks := s'\<rparr>) hp x h pgs (D s') E U"
  using assms(1) indexed_frame [where s' = s', OF _ assms(2)] assms(3) by (auto simp: hs_def)

lemma hs_NULL: "hs st hp x h pgs d E U \<Longrightarrow> blocks st NULL = None"
  using indexed_NULL by (auto simp: hs_def)

lemma hs_put_block:
  assumes "hs st hp x h pgs d E U" "p \<notin> set E" "p \<notin> set U" "p \<noteq> NULL"
  shows "hs (st\<lparr>blocks := (blocks st)(p \<mapsto> b)\<rparr>) hp x h pgs (d(p \<mapsto> data b)) E U"
proof -
  have "hs (st\<lparr>blocks := (blocks st)(p \<mapsto> b)\<rparr>) hp x h pgs (D ((blocks st)(p \<mapsto> b))) E U"
    using assms hs_NULL [OF assms(1)] by (intro hs_blocks_frame) auto
  moreover have "D ((blocks st)(p \<mapsto> b)) = d(p \<mapsto> data b)" using assms(1) by (auto simp: hs_def D_def)
  ultimately show ?thesis by simp
qed

lemma hs_on_list:
  assumes "hs st hp x h pgs d E U"
  shows "\<exists>st'. on_heap (p_pg_block_list_update f) st hp = Some st' \<and> hs st' hp x (p_pg_block_list_update f h) pgs d E U"
proof -
  obtain h' where h': "heaps st hp = Some h'" using assms by (auto simp: hs_def)
  show ?thesis using assms unfolding on_heap_Some [OF h'] by (auto simp: hs_def no_roots_def h')
qed

definition locked :: "heap_t \<Rightarrow> heap_t" where
  "locked h = (if ht_type h AND HEAP_MULITHREAD \<noteq> 0 then h\<lparr>ht_lock := True\<rparr> else h)"

lemma locked_sel [simp]:
  "ht_scale (locked h) = ht_scale h" "ht_type (locked h) = ht_type h" "p_pg_block_list (locked h) = p_pg_block_list h"
  "locked (p_pg_block_list_update f h) = p_pg_block_list_update f (locked h)"
  by (simp_all add: locked_def)

lemma hs_lock:
  assumes "hs st hp x h pgs d E U" "\<not> ht_lock h"
  shows "\<exists>st'. heap_lock st hp = Some st' \<and> hs st' hp x (locked h) pgs d E U"
proof -
  obtain h' where h': "heaps st hp = Some h'" "no_roots h' = h" using assms by (auto simp: hs_def)
  then have e: "ht_type h' = ht_type h" "ht_lock h' = ht_lock h" by (auto simp: no_roots_def)
  show ?thesis
  proof (cases "ht_type h AND HEAP_MULITHREAD = 0")
    case True
    then show ?thesis using assms by (simp add: heap_lock_def locked_def e h'(1))
  next
    case False
    let ?st = "st\<lparr>heaps := (heaps st)(hp \<mapsto> h'\<lparr>ht_lock := True\<rparr>)\<rparr>"
    have "heap_lock st hp = Some ?st" using False assms(2) on_heap_Some [OF h'(1)] by (simp add: heap_lock_def e h'(1))
    moreover have "no_roots (h'\<lparr>ht_lock := True\<rparr>) = locked h"
      using h'(2) False by (auto simp: no_roots_def locked_def)
    ultimately show ?thesis using assms(1) h'(1) by (auto simp: hs_def)
  qed
qed

lemma hs_unlock:
  assumes "hs st hp x (locked h) pgs d E U" "\<not> ht_lock h"
  shows "\<exists>st'. heap_unlock st hp = Some st' \<and> hs st' hp x h pgs d E U"
proof -
  obtain h' where h': "heaps st hp = Some h'" "no_roots h' = locked h" using assms by (auto simp: hs_def)
  then have e: "ht_type h' = ht_type h" by (auto simp: no_roots_def dest!: arg_cong [where f = ht_type])
  have "no_roots (h'\<lparr>ht_lock := False\<rparr>) = h" if "ht_type h AND HEAP_MULITHREAD \<noteq> 0"
  proof -
    have "no_roots (h'\<lparr>ht_lock := False\<rparr>) = (no_roots h')\<lparr>ht_lock := False\<rparr>" by (simp add: no_roots_def)
    then show ?thesis using h'(2) assms(2) by (simp add: locked_def)
  qed
  moreover have "locked h = h" if "ht_type h AND HEAP_MULITHREAD = 0" using that by (simp add: locked_def)
  ultimately have "\<exists>st'. heap_unlock st hp = Some st' \<and> other st' hp = other st hp \<and> pages st' = pages st \<and> blocks st' = blocks st \<and>
      (\<exists>h''. heaps st' hp = Some h'' \<and> no_roots h'' = h \<and> p_empty_block_tree h'' = p_empty_block_tree h' \<and> p_used_block_tree h'' = p_used_block_tree h')"
    using h' on_heap_Some [OF h'(1)]
    by (cases "ht_type h AND HEAP_MULITHREAD = 0") (simp_all add: heap_unlock_def e)
  then show ?thesis using assms(1) h'(1) by (auto simp: hs_def)
qed

end
