(* ===== verification/MmHeapLayout.thy ===== *)
theory MmHeapLayout
  imports MmHeapState
begin

text \<open>
  What a heap stores, as a list of pages and in each page a list of cells, and how it lies in
  memory: the page headers and the block headers are doubly linked, the blocks tile their page, the
  pages do not overlap.
\<close>

subsection \<open>Pages and blocks as lists\<close>

text \<open>A cell is the address of a block header, the size of the block and whether it is allocated.\<close>

type_synonym cell = "ptr \<times> u32 \<times> bool"

text \<open>A page: its address, its attribute, its size and its cells in the order of their addresses.\<close>

type_synonym apage = "ptr \<times> u32 \<times> u32 \<times> cell list"

fun hd_addr :: "(ptr \<times> 'a) list \<Rightarrow> ptr \<Rightarrow> ptr" where
  "hd_addr [] nx = nx"
| "hd_addr (c # cs) nx = fst c"

fun last_addr :: "ptr \<Rightarrow> (ptr \<times> 'a) list \<Rightarrow> ptr" where
  "last_addr pv [] = pv"
| "last_addr pv (c # cs) = last_addr (fst c) cs"

lemma hd_addr_append [simp]: "hd_addr (xs @ ys) nx = hd_addr xs (hd_addr ys nx)"
  by (cases xs) simp_all

lemma last_addr_append [simp]: "last_addr pv (xs @ ys) = last_addr (last_addr pv xs) ys"
  by (induction xs arbitrary: pv) simp_all

lemma hd_addr_in: "hd_addr cs nx = nx \<and> cs = [] \<or> cs \<noteq> [] \<and> hd_addr cs nx \<in> fst ` set cs"
  by (cases cs) auto

definition hdr :: "ptr \<Rightarrow> ptr \<Rightarrow> ptr \<Rightarrow> ptr \<Rightarrow> u32 \<Rightarrow> bool \<Rightarrow> heap_mem_blck" where
  "hdr g hp pv nx n al = (INIT_MEMBLOCK n g hp)\<lparr>mb_prev := pv, mb_next := nx, mb_allocated := al\<rparr>"

lemma hdr_sel [simp]:
  "mb_magic (hdr g hp pv nx n al) = HEAP_MEMBLOCK_MAGIC" "mb_allocated (hdr g hp pv nx n al) = al"
  "mb_prev (hdr g hp pv nx n al) = pv" "mb_next (hdr g hp pv nx n al) = nx" "mb_pg_block (hdr g hp pv nx n al) = g"
  "mb_size (hdr g hp pv nx n al) = n" "mb_heap (hdr g hp pv nx n al) = hp"
  "mb_prev_update (\<lambda>_. pv') (hdr g hp pv nx n al) = hdr g hp pv' nx n al"
  "mb_next_update (\<lambda>_. nx') (hdr g hp pv nx n al) = hdr g hp pv nx' n al"
  "mb_size_update (\<lambda>_. n') (hdr g hp pv nx n al) = hdr g hp pv nx n' al"
  "mb_allocated_update (\<lambda>_. al') (hdr g hp pv nx n al) = hdr g hp pv nx n al'"
  "data (hdr g hp pv nx n al) = hdr g hp pv nx n al"
  by (simp_all add: hdr_def INIT_MEMBLOCK_def data_def)

lemma INIT_MEMBLOCK_hdr: "INIT_MEMBLOCK n g hp = hdr g hp NULL NULL n False"
  by (simp add: hdr_def INIT_MEMBLOCK_def)

fun seg :: "hblocks \<Rightarrow> ptr \<Rightarrow> ptr \<Rightarrow> ptr \<Rightarrow> cell list \<Rightarrow> ptr \<Rightarrow> bool" where
  "seg d g hp pv [] nx \<longleftrightarrow> True"
| "seg d g hp pv ((a, n, al) # cs) nx \<longleftrightarrow> d a = Some (hdr g hp pv (hd_addr cs nx) n al) \<and> seg d g hp a cs nx"

lemma seg_append [simp]:
  "seg d g hp pv (xs @ ys) nx \<longleftrightarrow> seg d g hp pv xs (hd_addr ys nx) \<and> seg d g hp (last_addr pv xs) ys nx"
proof (induction xs arbitrary: pv)
  case (Cons c xs)
  show ?case by (cases c) (simp add: Cons.IH conj_assoc)
qed simp

lemma seg_cong: "(\<And>a. a \<in> fst ` set cs \<Longrightarrow> d' a = d a) \<Longrightarrow> seg d' g hp pv cs nx = seg d g hp pv cs nx"
  by (induction cs arbitrary: pv) auto

lemma seg_upd [simp]: "p \<notin> fst ` set cs \<Longrightarrow> seg (d(p := v)) g hp pv cs nx = seg d g hp pv cs nx"
  by (rule seg_cong) auto

lemma seg_cell: "seg d g hp pv cs nx \<Longrightarrow> (a, n, al) \<in> set cs \<Longrightarrow> \<exists>pv nx. d a = Some (hdr g hp pv nx n al)"
proof (induction cs arbitrary: pv)
  case (Cons c cs)
  then show ?case by (cases c) (elim set_ConsD [THEN disjE] conjE exE; auto)
qed simp

lemma seg_live:
  assumes "seg d g hp pv cs nx" "a \<in> fst ` set cs"
  shows "\<exists>n. d a = Some n \<and> mb_magic n = HEAP_MEMBLOCK_MAGIC \<and> mb_pg_block n = g"
  using assms(2) seg_cell [OF assms(1)] by force

lemma seg_size: "seg d g hp pv cs nx \<Longrightarrow> (a, n, al) \<in> set cs \<Longrightarrow> bsize d a = unat n"
  by (induction cs arbitrary: pv) (auto simp: bsize_def)

definition nused :: "cell list \<Rightarrow> nat" where
  "nused cs = length (filter (\<lambda>(a, n, al). al) cs)"

lemma nused_simps [simp]: "nused [] = 0" "nused ((a, n, al) # cs) = (if al then Suc (nused cs) else nused cs)"
    "nused (xs @ ys) = nused xs + nused ys"
  by (simp_all add: nused_def)

definition phdr :: "ptr \<Rightarrow> ptr \<Rightarrow> ptr \<Rightarrow> u32 \<Rightarrow> u32 \<Rightarrow> nat \<Rightarrow> heap_pg_blck" where
  "phdr hp pv nx at sz k = (INIT_PG_BLOCK at sz hp)\<lparr>pb_prev := pv, pb_next := nx, pb_ref := word_of_nat k\<rparr>"

lemma phdr_sel [simp]:
  "pb_prev (phdr hp pv nx at sz k) = pv" "pb_next (phdr hp pv nx at sz k) = nx" "pb_index (phdr hp pv nx at sz k) = 0"
  "pb_attr (phdr hp pv nx at sz k) = at" "pb_size (phdr hp pv nx at sz k) = sz" "pb_ref (phdr hp pv nx at sz k) = word_of_nat k"
  "pb_prev_update (\<lambda>_. pv') (phdr hp pv nx at sz k) = phdr hp pv' nx at sz k"
  "pb_next_update (\<lambda>_. nx') (phdr hp pv nx at sz k) = phdr hp pv nx' at sz k"
  "pb_ref_update (\<lambda>_. word_of_nat k') (phdr hp pv nx at sz k) = phdr hp pv nx at sz k'"
  by (simp_all add: phdr_def INIT_PG_BLOCK_def)

lemma INIT_PG_BLOCK_phdr: "INIT_PG_BLOCK at sz hp = phdr hp NULL NULL at sz 0"
  by (simp add: phdr_def INIT_PG_BLOCK_def)

fun pseg :: "hpages \<Rightarrow> ptr \<Rightarrow> ptr \<Rightarrow> apage list \<Rightarrow> ptr \<Rightarrow> bool" where
  "pseg pgs hp pv [] nx \<longleftrightarrow> True"
| "pseg pgs hp pv ((g, at, sz, cs) # ps) nx \<longleftrightarrow> pgs g = Some (phdr hp pv (hd_addr ps nx) at sz (nused cs)) \<and> pseg pgs hp g ps nx"

lemma pseg_append [simp]:
  "pseg pgs hp pv (xs @ ys) nx \<longleftrightarrow> pseg pgs hp pv xs (hd_addr ys nx) \<and> pseg pgs hp (last_addr pv xs) ys nx"
proof (induction xs arbitrary: pv)
  case (Cons c xs)
  show ?case by (cases c) (simp add: Cons.IH conj_assoc)
qed simp

lemma pseg_upd [simp]: "g \<notin> fst ` set ps \<Longrightarrow> pseg (pgs(g := v)) hp pv ps nx = pseg pgs hp pv ps nx"
  by (induction ps arbitrary: pv) auto

subsection \<open>Tiling\<close>

text \<open>\<open>tiles x cs e\<close>: the blocks lie next to each other, from \<open>x\<close> to \<open>e\<close>, each with room for its header.\<close>

fun tiles :: "nat \<Rightarrow> cell list \<Rightarrow> nat \<Rightarrow> bool" where
  "tiles x [] e \<longleftrightarrow> x = e"
| "tiles x ((a, n, al) # cs) e \<longleftrightarrow> unat a = x \<and> 48 \<le> unat n \<and> tiles (x + unat n) cs e"

lemma tiles_append: "tiles x (xs @ ys) e \<longleftrightarrow> (\<exists>m. tiles x xs m \<and> tiles m ys e)"
  by (induction xs arbitrary: x) auto

lemma tiles_bounds:
  assumes "tiles x cs e"
  shows "x \<le> e" "(a, n, al) \<in> set cs \<Longrightarrow> x \<le> unat a \<and> unat a + unat n \<le> e \<and> 48 \<le> unat n" "x + 48 * length cs \<le> e"
proof -
  show "x \<le> e" using assms by (induction cs arbitrary: x) force+
  show "x + 48 * length cs \<le> e" using assms by (induction cs arbitrary: x) force+
  show "(a, n, al) \<in> set cs \<Longrightarrow> x \<le> unat a \<and> unat a + unat n \<le> e \<and> 48 \<le> unat n"
    using assms
  proof (induction cs arbitrary: x)
    case (Cons c cs)
    obtain b m bl where c: "c = (b, m, bl)" by (cases c)
    have "x' \<le> e" if "tiles x' cs e" for x' using that by (induction cs arbitrary: x') force+
    then show ?case using Cons by (force simp: c)
  qed simp
qed

lemma tiles_distinct: "tiles x cs e \<Longrightarrow> distinct (map fst cs)"
proof (induction cs arbitrary: x)
  case (Cons c cs)
  obtain a n al where c: "c = (a, n, al)" by (cases c)
  have "a \<notin> fst ` set cs"
  proof
    assume "a \<in> fst ` set cs"
    then obtain m bl where "(a, m, bl) \<in> set cs" by auto
    then show False using tiles_bounds(2) [of "x + unat n" cs e a m bl] Cons.prems by (auto simp: c)
  qed
  then show ?case using Cons by (auto simp: c)
qed simp

fun ivl :: "apage \<Rightarrow> nat set" where
  "ivl (g, at, sz, cs) = {unat g ..< unat g + unat sz}"

definition apart :: "apage \<Rightarrow> apage \<Rightarrow> bool" where
  "apart p q \<longleftrightarrow> ivl p \<inter> ivl q = {}"

lemma apart_sym: "apart p q \<Longrightarrow> apart q p"
  by (auto simp: apart_def)

lemma apart_page: "apart p (g, at, sz, cs) \<longleftrightarrow> apart p (g, 0, sz, [])"
  by (simp add: apart_def)

fun page_ok :: "apage \<Rightarrow> bool" where
  "page_ok (g, at, sz, cs) \<longleftrightarrow> g \<noteq> NULL \<and> tiles (unat g + 32) cs (unat g + unat sz) \<and> unat g + unat sz \<le> 2 ^ 32 \<and> cs \<noteq> []"

lemma page_cells:
  assumes "page_ok (g, at, sz, cs)" "(a, n, al) \<in> set cs"
  shows "unat g + 32 \<le> unat a" "unat a + unat n \<le> unat g + unat sz" "48 \<le> unat n" "unat a \<in> ivl (g, at, sz, cs)" "a \<noteq> NULL"
  using assms tiles_bounds(2) [of "unat g + 32" cs "unat g + unat sz" a n al] by (auto simp: unat_eq_0)

lemma page_addrs:
  assumes "page_ok p" "a \<in> fst ` set (snd (snd (snd p)))"
  shows "unat a \<in> ivl p \<and> a \<noteq> NULL"
proof -
  obtain g at sz cs where p: "p = (g, at, sz, cs)" by (cases p)
  then obtain n al where "(a, n, al) \<in> set cs" using assms(2) by auto
  then show ?thesis using page_cells(4,5) [of g at sz cs a n al] assms(1) p by blast
qed

lemma page_self:
  assumes "page_ok p"
  shows "unat (fst p) \<in> ivl p"
proof -
  obtain g at sz cs where p: "p = (g, at, sz, cs)" by (cases p)
  then have "unat g + 32 + 48 * length cs \<le> unat g + unat sz" using assms tiles_bounds(3) by auto
  then show ?thesis using p by simp
qed

subsection \<open>The layout of a heap\<close>

abbreviation cells :: "apage \<Rightarrow> cell list" where "cells p \<equiv> snd (snd (snd p))"

definition layout :: "hpages \<Rightarrow> hblocks \<Rightarrow> ptr \<Rightarrow> apage list \<Rightarrow> bool" where
  "layout pgs d hp ps \<longleftrightarrow> pseg pgs hp NULL ps NULL \<and> (\<forall>p \<in> set ps. seg d (fst p) hp NULL (cells p) NULL \<and> page_ok p) \<and>
     sorted_wrt apart ps"

text \<open>The pages around a page at \<open>g\<close> of size \<open>sz\<close>.\<close>

definition around :: "hpages \<Rightarrow> hblocks \<Rightarrow> ptr \<Rightarrow> apage list \<Rightarrow> ptr \<Rightarrow> u32 \<Rightarrow> apage list \<Rightarrow> bool" where
  "around pgs d hp A g sz B \<longleftrightarrow> pseg pgs hp NULL A g \<and> pseg pgs hp g B NULL \<and>
     (\<forall>p \<in> set A \<union> set B. seg d (fst p) hp NULL (cells p) NULL \<and> page_ok p) \<and>
     (\<forall>p \<in> set A \<union> set B. apart p (g, 0, sz, [])) \<and>
     sorted_wrt apart (A @ B)"

lemma layout_focus:
  "layout pgs d hp (A @ (g, at, sz, cs) # B) \<longleftrightarrow> around pgs d hp A g sz B \<and>
     pgs g = Some (phdr hp (last_addr NULL A) (hd_addr B NULL) at sz (nused cs)) \<and>
     seg d g hp NULL cs NULL \<and> page_ok (g, at, sz, cs)"
  unfolding layout_def around_def using apart_sym apart_page [of _ g at sz cs] by (auto simp: sorted_wrt_append) blast+

lemma around_not: "around pgs d hp A g sz B \<Longrightarrow> 0 < unat sz \<Longrightarrow> g \<notin> fst ` set A \<and> g \<notin> fst ` set B"
proof -
  assume a: "around pgs d hp A g sz B" "0 < unat sz"
  have "g \<noteq> fst p" if "p \<in> set A \<union> set B" for p
    using a that page_self [of p] by (fastforce simp: around_def apart_def)
  then show ?thesis by blast
qed

lemma around_cong:
  assumes "around pgs d hp A g sz B" "0 < unat sz" "\<And>a. unat a \<notin> {unat g ..< unat g + unat sz} \<Longrightarrow> d' a = d a"
  shows "around (pgs(g := v)) d' hp A g sz B"
proof -
  have "seg d' (fst p) hp NULL (cells p) NULL" if "p \<in> set A \<union> set B" for p
  proof -
    have p: "seg d (fst p) hp NULL (cells p) NULL" "page_ok p" "ivl p \<inter> {unat g ..< unat g + unat sz} = {}"
      using assms(1) that by (auto simp: around_def apart_def)
    have "d' a = d a" if "a \<in> fst ` set (cells p)" for a using assms(3) page_addrs [OF p(2) that] p(3) by blast
    then show ?thesis using p(1) seg_cong [of "cells p" d' d] by blast
  qed
  then show ?thesis using assms(1) around_not [OF assms(1,2)] by (auto simp: around_def)
qed

definition all_cells :: "apage list \<Rightarrow> cell list" where
  "all_cells ps = concat (map cells ps)"

definition frees :: "apage list \<Rightarrow> ptr set" where
  "frees ps = {a. \<exists>n. (a, n, False) \<in> set (all_cells ps)}"

definition useds :: "apage list \<Rightarrow> ptr set" where
  "useds ps = {a. \<exists>n. (a, n, True) \<in> set (all_cells ps)}"

lemma all_cells_simps [simp]: "all_cells [] = []" "all_cells (p # ps) = cells p @ all_cells ps"
  "all_cells (ps @ qs) = all_cells ps @ all_cells qs"
  by (simp_all add: all_cells_def)

lemma pages_distinct:
  "\<forall>p \<in> set ps. page_ok p \<Longrightarrow> sorted_wrt apart ps \<Longrightarrow> distinct (map fst (all_cells ps))"
proof (induction ps)
  case (Cons p ps)
  have d: "distinct (map fst (cells p))" using Cons.prems(1) tiles_distinct by (cases p) auto
  have "a \<notin> fst ` set (cells q)" if "q \<in> set ps" "a \<in> fst ` set (cells p)" for a q
    using Cons.prems that page_addrs [of p a] page_addrs [of q a] by (auto simp: apart_def)
  then have "fst ` set (cells p) \<inter> fst ` set (all_cells ps) = {}" by (force simp: all_cells_def)
  then show ?case using Cons d by simp
qed simp

lemma layout_distinct: "layout pgs d hp ps \<Longrightarrow> distinct (map fst (all_cells ps))"
  by (simp add: layout_def pages_distinct)

lemma around_distinct:
  assumes "around pgs d hp A g sz B" "page_ok (g, at, sz, cs)"
  shows "distinct (map fst (all_cells (A @ (g, at, sz, cs) # B)))"
proof (rule pages_distinct)
  show "\<forall>p \<in> set (A @ (g, at, sz, cs) # B). page_ok p" using assms by (auto simp: around_def)
  show "sorted_wrt apart (A @ (g, at, sz, cs) # B)"
    using assms(1) apart_sym apart_page [of _ g at sz cs] by (auto simp: around_def sorted_wrt_append)
qed

lemma layout_cell:
  assumes "layout pgs d hp ps" "(a, n, al) \<in> set (all_cells ps)"
  shows "\<exists>g pv nx. d a = Some (hdr g hp pv nx n al) \<and> pgs g \<noteq> None \<and> a \<noteq> NULL"
proof -
  obtain p where p: "p \<in> set ps" "(a, n, al) \<in> set (cells p)" using assms(2) by (auto simp: all_cells_def)
  obtain A B where ps: "ps = A @ p # B" using p(1) by (auto simp: in_set_conv_decomp)
  obtain g at sz cs where e: "p = (g, at, sz, cs)" by (cases p)
  have "pgs g \<noteq> None" "seg d g hp NULL cs NULL" "page_ok p" using assms(1) by (auto simp: ps e layout_focus)
  then show ?thesis using seg_cell [of d g hp NULL cs NULL a n al] page_addrs [of p a] p(2) e by force
qed

end
