(* ===== verification/MmHeapSteps.thy ===== *)
theory MmHeapSteps
  imports MmHeapLayout
begin

text \<open>
  The parts of \<^verbatim>\<open>core_mm_heap_alloc\<close> and \<^verbatim>\<open>core_mm_heap_free\<close> as steps between lists of pages:
  taking a free block, splitting it, marking it allocated, giving it back.
\<close>

text \<open>
  \<open>mid st hp x h ps X\<close>: the heap stores the pages \<open>ps\<close>; the free cells other than \<open>X\<close> are in one tree and
  the allocated cells in the other. The list head of \<open>h\<close> does not count.
\<close>

definition mid :: "heap_state \<Rightarrow> ptr \<Rightarrow> heap_state \<Rightarrow> heap_t \<Rightarrow> apage list \<Rightarrow> ptr set \<Rightarrow> bool" where
  "mid st hp x h ps X \<longleftrightarrow> (\<exists>pgs d E U. hs st hp x (h\<lparr>p_pg_block_list := hd_addr ps NULL\<rparr>) pgs d E U \<and> layout pgs d hp ps \<and>
     set E = frees ps - X \<and> set U = useds ps)"

lemma hs_distinct: "hs st hp x h pgs d E U \<Longrightarrow> distinct E \<and> distinct U"
  using indexed_distinct by (auto simp: hs_def)

lemma mid_empty_remove:
  assumes "mid st hp x h ps X" "a \<in> frees ps - X"
  shows "\<exists>st'. empty_remove st hp a = Some st' \<and> mid st' hp x h ps (insert a X)"
proof -
  let ?h = "h\<lparr>p_pg_block_list := hd_addr ps NULL\<rparr>"
  obtain pgs d E U where m: "hs st hp x ?h pgs d E U" "layout pgs d hp ps" "set E = frees ps - X" "set U = useds ps"
    using assms(1) by (auto simp: mid_def)
  obtain st' where st': "empty_remove st hp a = Some st'" "hs st' hp x ?h pgs d (remove1 a E) U"
    using hs_empty_remove [OF m(1), of a] assms(2) m(3) by auto
  moreover have "set (remove1 a E) = frees ps - insert a X"
    using hs_distinct [OF m(1)] m(3) by (auto simp: set_remove1_eq)
  ultimately show ?thesis using m by (auto simp: mid_def)
qed

lemma frees_sub: "frees ps \<subseteq> fst ` set (all_cells ps)"
  by (force simp: frees_def)

lemma useds_sub: "useds ps \<subseteq> fst ` set (all_cells ps)"
  by (force simp: useds_def)

lemma frees_useds: "distinct (map fst (all_cells ps)) \<Longrightarrow> frees ps \<inter> useds ps = {}"
proof -
  have "distinct (map fst cs) \<Longrightarrow> (a, n, al) \<in> set cs \<Longrightarrow> (a, n', al') \<in> set cs \<Longrightarrow> n = n' \<and> al = al'" for cs :: "cell list" and a n al n' al'
    by (metis eq_key_imp_eq_value prod.inject)
  then show "distinct (map fst (all_cells ps)) \<Longrightarrow> frees ps \<inter> useds ps = {}" unfolding frees_def useds_def by blast
qed

lemma mid_empty_insert:
  assumes "mid st hp x h ps X" "a \<in> X" "a \<in> frees ps"
  shows "\<exists>st'. empty_insert st hp a = Some st' \<and> mid st' hp x h ps (X - {a})"
proof -
  let ?h = "h\<lparr>p_pg_block_list := hd_addr ps NULL\<rparr>"
  obtain pgs d E U where m: "hs st hp x ?h pgs d E U" "layout pgs d hp ps" "set E = frees ps - X" "set U = useds ps"
    using assms(1) by (auto simp: mid_def)
  obtain n where "(a, n, False) \<in> set (all_cells ps)" using assms(3) by (auto simp: frees_def)
  from layout_cell [OF m(2) this] obtain g pv nx where d: "d a = Some (hdr g hp pv nx n False)" "pgs g \<noteq> None" by blast
  have "a \<notin> set E" "a \<notin> set U" using assms m(3,4) frees_useds [OF layout_distinct [OF m(2)]] by auto
  then obtain st' where "empty_insert st hp a = Some st'" "hs st' hp x ?h pgs d (insort_key (blk_key pgs d) a E) U"
    using hs_empty_insert [OF m(1) _ _ d(1)] d(2) by auto
  moreover have "set (insort_key (blk_key pgs d) a E) = frees ps - (X - {a})" using assms m(3) by (auto simp: set_insort_key)
  ultimately show ?thesis using m by (auto simp: mid_def)
qed

lemma hs_at:
  assumes "hs st hp x h pgs d E U" "d p = Some (hdr g hp' pv nx n al)"
  shows "rd mb_magic (blocks st) p = Some HEAP_MEMBLOCK_MAGIC" "rd mb_allocated (blocks st) p = Some al" "rd mb_prev (blocks st) p = Some pv"
    "rd mb_next (blocks st) p = Some nx" "rd mb_pg_block (blocks st) p = Some g" "rd mb_size (blocks st) p = Some n" "rd mb_heap (blocks st) p = Some hp'"
  using hs_rd(1-7) [OF assms(1), of p] assms(2) by (simp_all only: rd_def option.map hdr_sel)

lemma relink:
  assumes "hs st hp x h pgs d E U" "seg d g hp pv ys NULL" "distinct (map fst ys)" "NULL \<notin> fst ` set ys"
  shows "\<exists>st' d'. (if hd_addr ys NULL \<noteq> NULL then on_blocks (mb_prev_update (\<lambda>_. q)) st (hd_addr ys NULL) else Some st) = Some st' \<and>
    hs st' hp x h pgs d' E U \<and> seg d' g hp q ys NULL \<and> (\<forall>a. a \<notin> fst ` set ys \<longrightarrow> d' a = d a)"
proof (cases ys)
  case Nil
  then show ?thesis using assms by auto
next
  case (Cons c cs)
  obtain b n al where c: "c = (b, n, al)" by (cases c)
  have d: "d b = Some (hdr g hp pv (hd_addr cs NULL) n al)" "seg d g hp b cs NULL" "b \<noteq> NULL" "b \<notin> fst ` set cs"
    using assms Cons c by auto
  obtain st' where "on_blocks (mb_prev_update (\<lambda>_. q)) st b = Some st'"
    "hs st' hp x h pgs (d(b \<mapsto> hdr g hp q (hd_addr cs NULL) n al)) E U"
    using hs_on_blocks [OF assms(1) _ d(1), of "mb_prev_update (\<lambda>_. q)"] by auto
  then show ?thesis using Cons c d by (intro exI [of _ st'] exI [of _ "d(b \<mapsto> hdr g hp q (hd_addr cs NULL) n al)"]) auto
qed

subsection \<open>Splitting a block\<close>

definition carve :: "ptr \<Rightarrow> u32 \<Rightarrow> u32 \<Rightarrow> bool \<Rightarrow> cell list" where
  "carve p n w al =
     (if unat w + 104 < unat n then [(p, w + 48, al), (p + w + 48, n - w - 48, False)] else [(p, n, al)])"

lemma unat_plus32: "unat a + unat b < 2 ^ 32 \<Longrightarrow> unat (a + b :: u32) = unat a + unat b"
  using unat_add_lem [of a b] by simp

lemma split_test: "unat w + 104 < 2 ^ 32 \<Longrightarrow> w + HEAP_MEM_BLCK_SZ * 2 + 8 < (n :: u32) \<longleftrightarrow> unat w + 104 < unat n"
proof -
  assume "unat w + 104 < 2 ^ 32"
  then have e: "unat (w + 104) = unat w + 104" using unat_plus32 [of w 104] by simp
  have "w + HEAP_MEM_BLCK_SZ * 2 + 8 = w + 104" by simp
  then show ?thesis unfolding word_less_nat_alt by (simp only: e)
qed

lemma carve_sizes:
  assumes "unat w + 104 < unat n" "unat (p :: u32) + unat (n :: u32) \<le> 2 ^ 32"
  shows "unat (w + 48) = unat w + 48" "unat (n - w - 48) = unat n - unat w - 48" "unat (p + w + 48) = unat p + unat w + 48"
proof -
  show w: "unat (w + 48) = unat w + 48" using assms unat_plus32 [of w 48] by simp
  then have "unat (n - (w + 48)) = unat n - (unat w + 48)" using assms(1) by (subst unat_sub) (simp_all add: word_le_nat_alt)
  then show "unat (n - w - 48) = unat n - unat w - 48" by (simp add: diff_diff_add)
  have "unat (p + (w + 48)) = unat p + unat (w + 48)" using w assms by (intro unat_plus32) simp
  then show "unat (p + w + 48) = unat p + unat w + 48" using w by (simp add: add.assoc)
qed

lemma page_ok_carve:
  assumes "page_ok (g, at, sz, xs @ (p, n, al) # ys)"
  shows "page_ok (g, at, sz, xs @ carve p n w al' @ ys)"
proof (cases "unat w + 104 < unat n")
  case True
  have b: "unat p + unat n \<le> 2 ^ 32" using assms page_cells(2) [of g at sz "xs @ (p, n, al) # ys" p n al] by auto
  show ?thesis using assms True carve_sizes [OF True b] by (auto simp: carve_def tiles_append)
next
  case False
  then show ?thesis using assms by (auto simp: carve_def tiles_append)
qed

lemma mid_focus:
  assumes "hs st hp x (h\<lparr>p_pg_block_list := hd_addr (A @ (g, at, sz, cs) # B) NULL\<rparr>) pgs d' E U" "around pgs0 d hp A g sz B" "0 < unat sz"
    "\<And>a. unat a \<notin> {unat g ..< unat g + unat sz} \<Longrightarrow> d' a = d a"
    "pgs = pgs0(g \<mapsto> phdr hp (last_addr NULL A) (hd_addr B NULL) at sz (nused cs))" "seg d' g hp NULL cs NULL"
    "page_ok (g, at, sz, cs)" "set E = frees (A @ (g, at, sz, cs) # B) - X" "set U = useds (A @ (g, at, sz, cs) # B)"
  shows "mid st hp x h (A @ (g, at, sz, cs) # B) X"
  unfolding mid_def
  using assms(1,5-) around_cong [OF assms(2-4)]
  by (intro exI [of _ pgs] exI [of _ d'] exI [of _ E] exI [of _ U]) (simp add: layout_focus)

lemma page_pos: "page_ok (g, at, sz, cs) \<Longrightarrow> 0 < unat sz"
  using page_self [of "(g, at, sz, cs)"] by simp

lemma mid_split:
  assumes m: "mid st hp x h (A @ (g, at, sz, xs @ (p, n, False) # ys) # B) {p}" and w: "unat w + 104 < 2 ^ 32"
  shows "\<exists>st'. split_block st hp p w = Some st' \<and> mid st' hp x h (A @ (g, at, sz, xs @ carve p n w False @ ys) # B) {p}"
proof -
  let ?cs = "xs @ (p, n, False) # ys" and ?ps = "A @ (g, at, sz, xs @ (p, n, False) # ys) # B"
  let ?h = "h\<lparr>p_pg_block_list := hd_addr ?ps NULL\<rparr>"
  obtain pgs d E U where M: "hs st hp x ?h pgs d E U" "layout pgs d hp ?ps" "set E = frees ?ps - {p}" "set U = useds ?ps"
    using m by (auto simp: mid_def)
  have L: "around pgs d hp A g sz B" "pgs g = Some (phdr hp (last_addr NULL A) (hd_addr B NULL) at sz (nused ?cs))"
    "seg d g hp NULL ?cs NULL" "page_ok (g, at, sz, ?cs)" using M(2) by (simp_all add: layout_focus)
  have d: "d p = Some (hdr g hp (last_addr NULL xs) (hd_addr ys NULL) n False)" using L(3) by simp
  note sz = hs_at(6) [OF M(1) d]
  note dist = around_distinct [OF L(1,4)]
  have pU: "p \<notin> set U" using M(4) frees_useds [OF dist] by (auto simp: frees_def useds_def)
  show ?thesis
  proof (cases "unat w + 104 < unat n")
    case False
    then have "split_block st hp p w = Some st" using sz split_test [OF w] by (simp add: split_block_def)
    then show ?thesis using m False by (simp add: carve_def)
  next
    case True
    define q where "q = p + w + 48"
    let ?cs' = "xs @ (p, w + 48, False) # (q, n - w - 48, False) # ys"
    have ok: "page_ok (g, at, sz, ?cs')" using page_ok_carve [OF L(4), of w False] True by (simp add: carve_def q_def)
    note dist' = around_distinct [OF L(1) ok]
    have "q \<noteq> NULL" using page_addrs [OF ok, of q] by simp
    moreover have "p \<noteq> q" "q \<notin> fst ` set xs" "q \<notin> fst ` set ys" "p \<notin> fst ` set xs" "p \<notin> fst ` set ys"
      "q \<notin> fst ` set (all_cells A)" "q \<notin> fst ` set (all_cells B)" "distinct (map fst ys)" "fst ` set xs \<inter> fst ` set ys = {}"
      using dist' by (simp_all add: Int_Un_distrib Int_Un_distrib2)
    ultimately have q: "q \<noteq> NULL" "q \<noteq> p" "q \<notin> fst ` set xs" "q \<notin> fst ` set ys" "p \<notin> fst ` set xs" "p \<notin> fst ` set ys"
      "q \<notin> fst ` set (all_cells A)" "q \<notin> fst ` set (all_cells B)" "distinct (map fst ys)" "fst ` set xs \<inter> fst ` set ys = {}"
      by auto
    have "q \<notin> fst ` set (all_cells ?ps)" using q by (simp add: image_Un)
    then have qE: "q \<notin> set E" "q \<notin> set U" using M(3,4) frees_sub [of ?ps] useds_sub [of ?ps] by blast+
    obtain s1 where s1: "s1 = st\<lparr>blocks := (blocks st)(q \<mapsto> INIT_MEMBLOCK (n - w - 48) g hp)\<rparr>"
      "hs s1 hp x ?h pgs (d(q \<mapsto> hdr g hp NULL NULL (n - w - 48) False)) E U"
      using hs_put_block [OF M(1) qE q(1), of "INIT_MEMBLOCK (n - w - 48) g hp"] by (simp add: INIT_MEMBLOCK_hdr)
    let ?P = "hdr g hp (last_addr NULL xs)" and ?n = "n - w - 48" and ?nx = "hd_addr ys NULL"
    obtain s2 d2 where s2: "on_blocks (mb_size_update (\<lambda>_. w + 48)) s1 p = Some s2" "hs s2 hp x ?h pgs d2 E U"
      "d2 = d(q \<mapsto> hdr g hp NULL NULL ?n False, p \<mapsto> ?P ?nx (w + 48) False)"
      using hs_on_blocks [OF s1(2), of "mb_size_update (\<lambda>_. w + 48)" p] d q(2) M(3) pU by auto
    obtain s3 E3 where s3: "empty_insert s2 hp q = Some s3" "hs s3 hp x ?h pgs d2 E3 U" "set E3 = insert q (set E)"
      using hs_empty_insert [OF s2(2) qE, of "hdr g hp NULL NULL ?n False"] s2(3) q(2) L(2) by (auto simp: set_insort_key)
    obtain s4 d4 where s4: "on_blocks (mb_next_update (\<lambda>_. ?nx)) s3 q = Some s4" "hs s4 hp x ?h pgs d4 E3 U"
      "d4 = d2(q \<mapsto> hdr g hp NULL ?nx ?n False)"
      using hs_on_blocks [OF s3(2), of "mb_next_update (\<lambda>_. ?nx)" q] s2(3) q(2) by auto
    obtain s5 d5 where s5: "on_blocks (mb_prev_update (\<lambda>_. p)) s4 q = Some s5" "hs s5 hp x ?h pgs d5 E3 U"
      "d5 = d4(q \<mapsto> hdr g hp p ?nx ?n False)"
      using hs_on_blocks [OF s4(2), of "mb_prev_update (\<lambda>_. p)" q] s4(3) by auto
    obtain s6 d6 where s6: "on_blocks (mb_next_update (\<lambda>_. q)) s5 p = Some s6" "hs s6 hp x ?h pgs d6 E3 U"
      "d6 = d5(p \<mapsto> ?P q (w + 48) False)"
      using hs_on_blocks [OF s5(2), of "mb_next_update (\<lambda>_. q)" p] s5(3) s4(3) s2(3) q(2) by auto
    have ys: "seg d6 g hp p ys NULL" using L(3) q s6(3) s5(3) s4(3) s2(3) by simp
    have nn: "NULL \<notin> fst ` set ys" using page_addrs [OF ok, of NULL] by auto
    obtain s7 d7 where s7: "(if ?nx \<noteq> NULL then on_blocks (mb_prev_update (\<lambda>_. q)) s6 ?nx else Some s6) = Some s7"
      "hs s7 hp x ?h pgs d7 E3 U" "seg d7 g hp q ys NULL" "\<forall>a. a \<notin> fst ` set ys \<longrightarrow> d7 a = d6 a"
      using relink [OF s6(2) ys q(9) nn] by blast
    have rds: "rd mb_pg_block (blocks st) p = Some g" "rd mb_heap (blocks st) p = Some hp"
      "rd mb_next (blocks s3) p = Some ?nx" "rd mb_next (blocks s6) q = Some ?nx"
      using hs_at [OF M(1) d] hs_at [OF s3(2), of p] hs_at [OF s6(2), of q] d q(2) s2(3) s6(3) s5(3) s4(3) by simp_all
    have test: "w + HEAP_MEM_BLCK_SZ * 2 + 8 < n" using split_test [OF w] True by blast
    have run: "split_block st hp p w = Some s7"
      using sz test rds s1(1) s2(1) s3(1) s4(1) s5(1) s6(1) s7(1)
      by (simp add: split_block_def q_def [symmetric])
    have xs: "seg d7 g hp NULL xs p"
      using L(3) q seg_cong [of xs d7 d6] s7(4) s6(3) s5(3) s4(3) s2(3) by (simp add: disjoint_iff)
    have seg: "seg d7 g hp NULL ?cs' NULL" using xs s7(3,4) q s6(3) s5(3) s4(3) by simp
    have off: "d7 a = d a" if "unat a \<notin> {unat g ..< unat g + unat sz}" for a
    proof -
      have "a \<notin> fst ` set ?cs'" using that page_addrs [OF ok, of a] by auto
      then show ?thesis using s7(4) s6(3) s5(3) s4(3) s2(3) by auto
    qed
    have "mid s7 hp x h (A @ (g, at, sz, ?cs') # B) {p}"
    proof (rule mid_focus [where h = h and pgs = pgs and E = E3 and U = U, OF _ L(1) page_pos [OF ok] off _ seg ok])
      show "hs s7 hp x (h\<lparr>p_pg_block_list := hd_addr (A @ (g, at, sz, ?cs') # B) NULL\<rparr>) pgs d7 E3 U" using s7(2) by simp
      show "pgs = pgs(g \<mapsto> phdr hp (last_addr NULL A) (hd_addr B NULL) at sz (nused ?cs'))" using L(2) by (auto simp: fun_upd_idem)
      show "set E3 = frees (A @ (g, at, sz, ?cs') # B) - {p}" using s3(3) M(3) q(2) by (auto simp: frees_def)
      show "set U = useds (A @ (g, at, sz, ?cs') # B)" using M(4) by (auto simp: useds_def)
    qed
    then show ?thesis using run True by (simp add: carve_def q_def)
  qed
qed

subsection \<open>Free and allocated blocks of a page\<close>

definition fr :: "cell list \<Rightarrow> ptr set" where
  "fr cs = {a. \<exists>n. (a, n, False) \<in> set cs}"

definition us :: "cell list \<Rightarrow> ptr set" where
  "us cs = {a. \<exists>n. (a, n, True) \<in> set cs}"

lemma fr_simps [simp]: "fr [] = {}" "fr ((a, n, al) # cs) = (if al then fr cs else insert a (fr cs))" "fr (xs @ ys) = fr xs \<union> fr ys"
  by (auto simp: fr_def)

lemma us_simps [simp]: "us [] = {}" "us ((a, n, al) # cs) = (if al then insert a (us cs) else us cs)" "us (xs @ ys) = us xs \<union> us ys"
  by (auto simp: us_def)

lemma fr_sub: "a \<notin> fst ` set cs \<Longrightarrow> a \<notin> fr cs" "a \<notin> fst ` set cs \<Longrightarrow> a \<notin> us cs"
  by (force simp: fr_def us_def)+

lemma frees_fr: "frees ps = fr (all_cells ps)" "useds ps = us (all_cells ps)"
  by (simp_all add: frees_def useds_def fr_def us_def)

lemma mid_open:
  assumes "mid st hp x h (A @ (g, at, sz, cs) # B) X"
  shows "\<exists>pgs d E U. hs st hp x (h\<lparr>p_pg_block_list := hd_addr (A @ (g, at, sz, cs) # B) NULL\<rparr>) pgs d E U \<and>
    around pgs d hp A g sz B \<and> pgs g = Some (phdr hp (last_addr NULL A) (hd_addr B NULL) at sz (nused cs)) \<and>
    seg d g hp NULL cs NULL \<and> page_ok (g, at, sz, cs) \<and>
    set E = fr (all_cells A) \<union> fr cs \<union> fr (all_cells B) - X \<and> set U = us (all_cells A) \<union> us cs \<union> us (all_cells B)"
  using assms by (auto simp: mid_def layout_focus frees_fr Un_assoc simp del: page_ok.simps)

lemma mid_close:
  assumes "hs st hp x (h\<lparr>p_pg_block_list := hd_addr (A @ (g, at, sz, cs) # B) NULL\<rparr>) pgs' d' E U" "around pgs d hp A g sz B"
    "page_ok (g, at, sz, cs)" "\<And>a. unat a \<notin> {unat g ..< unat g + unat sz} \<Longrightarrow> d' a = d a"
    "pgs' = pgs(g \<mapsto> phdr hp (last_addr NULL A) (hd_addr B NULL) at sz (nused cs))" "seg d' g hp NULL cs NULL"
    "set E = fr (all_cells A) \<union> fr cs \<union> fr (all_cells B) - X" "set U = us (all_cells A) \<union> us cs \<union> us (all_cells B)"
  shows "mid st hp x h (A @ (g, at, sz, cs) # B) X"
  using assms(7,8) by (intro mid_focus [OF assms(1,2) page_pos [OF assms(3)] assms(4,5,6,3)]) (simp_all add: frees_fr Un_assoc)

text \<open>The cells around one cell.\<close>

lemma focus_cell:
  assumes "around pgs d hp A g sz B" "page_ok (g, at, sz, xs @ (p, n, al) # ys)"
  shows "p \<notin> fst ` set xs" "p \<notin> fst ` set ys" "p \<notin> fst ` set (all_cells A)" "p \<notin> fst ` set (all_cells B)"
    "distinct (map fst ys)" "fst ` set xs \<inter> fst ` set ys = {}" "NULL \<notin> fst ` set ys" "p \<noteq> NULL" "NULL \<notin> fst ` set xs"
    "unat p \<in> {unat g ..< unat g + unat sz}"
proof -
  have "unat a \<in> ivl (g, at, sz, xs @ (p, n, al) # ys) \<and> a \<noteq> NULL" if "a \<in> fst ` set (xs @ (p, n, al) # ys)" for a
    using page_addrs [OF assms(2), of a] that by simp
  then show "NULL \<notin> fst ` set ys" "p \<noteq> NULL" "NULL \<notin> fst ` set xs" "unat p \<in> {unat g ..< unat g + unat sz}" by auto
qed (use around_distinct [OF assms] in \<open>simp_all add: Int_Un_distrib Int_Un_distrib2\<close>)

lemma mid_take:
  assumes m: "mid st hp x h (A @ (g, at, sz, xs @ (p, n, False) # ys) # B) {p}"
  shows "\<exists>st'. take_block st hp p = Some st' \<and> mid st' hp x h (A @ (g, at, sz, xs @ (p, n, True) # ys) # B) {}"
proof -
  let ?h = "h\<lparr>p_pg_block_list := hd_addr (A @ (g, at, sz, xs @ (p, n, False) # ys) # B) NULL\<rparr>"
  obtain pgs d E U where M: "hs st hp x ?h pgs d E U" "around pgs d hp A g sz B"
    "pgs g = Some (phdr hp (last_addr NULL A) (hd_addr B NULL) at sz (nused xs + nused ys))"
    "seg d g hp NULL (xs @ (p, n, False) # ys) NULL" "page_ok (g, at, sz, xs @ (p, n, False) # ys)"
    "set E = fr (all_cells A) \<union> fr (xs @ (p, n, False) # ys) \<union> fr (all_cells B) - {p}"
    "set U = us (all_cells A) \<union> us (xs @ (p, n, False) # ys) \<union> us (all_cells B)"
    using mid_open [OF m] by auto
  note p = focus_cell [OF M(2,5)]
  have d: "d p = Some (hdr g hp (last_addr NULL xs) (hd_addr ys NULL) n False)" using M(4) by simp
  have "p \<notin> set E" "p \<notin> set U" using M(6,7) p(1-4) fr_sub by simp_all
  then obtain s1 U1 where s1: "used_insert st hp p = Some s1" "hs s1 hp x ?h pgs d E U1" "set U1 = insert p (set U)"
    using hs_used_insert [OF M(1) _ _ d] M(3) by (auto simp: set_insort_key)
  obtain s2 d2 where s2: "on_blocks (mb_allocated_update (\<lambda>_. True)) s1 p = Some s2" "hs s2 hp x ?h pgs d2 E U1"
    "d2 = d(p \<mapsto> hdr g hp (last_addr NULL xs) (hd_addr ys NULL) n True)"
    using hs_on_blocks [OF s1(2) _ d, of "mb_allocated_update (\<lambda>_. True)"] by auto
  obtain s3 pgs3 where s3: "on_pages (\<lambda>b. b\<lparr>pb_ref := pb_ref b + 1\<rparr>) s2 g = Some s3" "hs s3 hp x ?h pgs3 d2 E U1"
    "pgs3 = pgs(g \<mapsto> phdr hp (last_addr NULL A) (hd_addr B NULL) at sz (nused (xs @ (p, n, True) # ys)))"
    using hs_on_pages [OF s2(2) M(3), of "\<lambda>b. b\<lparr>pb_ref := pb_ref b + 1\<rparr>"]
    by (auto simp: phdr_def INIT_PG_BLOCK_def add.commute)
  have "take_block st hp p = Some s3" using s1(1) s2(1) s3(1) hs_at(5) [OF s2(2), of p] s2(3) by (simp add: take_block_def)
  moreover have "mid s3 hp x h (A @ (g, at, sz, xs @ (p, n, True) # ys) # B) {}"
  proof (rule mid_close [OF _ M(2) _ _ s3(3)])
    show "hs s3 hp x (h\<lparr>p_pg_block_list := hd_addr (A @ (g, at, sz, xs @ (p, n, True) # ys) # B) NULL\<rparr>) pgs3 d2 E U1"
      using s3(2) by simp
    show "page_ok (g, at, sz, xs @ (p, n, True) # ys)" using M(5) by (simp add: tiles_append)
    show "d2 a = d a" if "unat a \<notin> {unat g ..< unat g + unat sz}" for a using that p(10) s2(3) by auto
    show "seg d2 g hp NULL (xs @ (p, n, True) # ys) NULL" using M(4) p(1,2) s2(3) by simp
    show "set E = fr (all_cells A) \<union> fr (xs @ (p, n, True) # ys) \<union> fr (all_cells B) - {}"
      using M(6) p(1-4) fr_sub by auto
    show "set U1 = us (all_cells A) \<union> us (xs @ (p, n, True) # ys) \<union> us (all_cells B)" using s1(3) M(7) by auto
  qed
  ultimately show ?thesis by blast
qed

lemma mid_drop:
  assumes m: "mid st hp x h (A @ (g, at, sz, xs @ (p, n, True) # ys) # B) {}"
  shows "\<exists>st'. drop_block st hp p = Some st' \<and> mid st' hp x h (A @ (g, at, sz, xs @ (p, n, False) # ys) # B) {p}"
proof -
  let ?h = "h\<lparr>p_pg_block_list := hd_addr (A @ (g, at, sz, xs @ (p, n, True) # ys) # B) NULL\<rparr>"
  obtain pgs d E U where M: "hs st hp x ?h pgs d E U" "around pgs d hp A g sz B"
    "pgs g = Some (phdr hp (last_addr NULL A) (hd_addr B NULL) at sz (Suc (nused xs + nused ys)))"
    "seg d g hp NULL (xs @ (p, n, True) # ys) NULL" "page_ok (g, at, sz, xs @ (p, n, True) # ys)"
    "set E = fr (all_cells A) \<union> fr (xs @ (p, n, True) # ys) \<union> fr (all_cells B) - {}"
    "set U = us (all_cells A) \<union> us (xs @ (p, n, True) # ys) \<union> us (all_cells B)"
    using mid_open [OF m] by auto
  note p = focus_cell [OF M(2,5)]
  have d: "d p = Some (hdr g hp (last_addr NULL xs) (hd_addr ys NULL) n True)" using M(4) by simp
  have "p \<in> set U" using M(7) by simp
  then obtain s1 U1 where s1: "used_remove st hp p = Some s1" "hs s1 hp x ?h pgs d E U1" "set U1 = set U - {p}"
    using hs_used_remove [OF M(1), of p] set_remove1_eq [of U p] hs_distinct [OF M(1)] by blast
  obtain s2 d2 where s2: "on_blocks (mb_allocated_update (\<lambda>_. False)) s1 p = Some s2" "hs s2 hp x ?h pgs d2 E U1"
    "d2 = d(p \<mapsto> hdr g hp (last_addr NULL xs) (hd_addr ys NULL) n False)"
    using hs_on_blocks [OF s1(2) _ d, of "mb_allocated_update (\<lambda>_. False)"] by auto
  obtain s3 pgs3 where s3: "on_pages (\<lambda>b. b\<lparr>pb_ref := pb_ref b - 1\<rparr>) s2 g = Some s3" "hs s3 hp x ?h pgs3 d2 E U1"
    "pgs3 = pgs(g \<mapsto> phdr hp (last_addr NULL A) (hd_addr B NULL) at sz (nused (xs @ (p, n, False) # ys)))"
    using hs_on_pages [OF s2(2) M(3), of "\<lambda>b. b\<lparr>pb_ref := pb_ref b - 1\<rparr>"]
    by (auto simp: phdr_def INIT_PG_BLOCK_def)
  have "drop_block st hp p = Some s3" using s1(1) s2(1) s3(1) hs_at(5) [OF s2(2), of p] s2(3) by (simp add: drop_block_def)
  moreover have "mid s3 hp x h (A @ (g, at, sz, xs @ (p, n, False) # ys) # B) {p}"
  proof (rule mid_close [OF _ M(2) _ _ s3(3)])
    show "hs s3 hp x (h\<lparr>p_pg_block_list := hd_addr (A @ (g, at, sz, xs @ (p, n, False) # ys) # B) NULL\<rparr>) pgs3 d2 E U1"
      using s3(2) by simp
    show "page_ok (g, at, sz, xs @ (p, n, False) # ys)" using M(5) by (simp add: tiles_append)
    show "d2 a = d a" if "unat a \<notin> {unat g ..< unat g + unat sz}" for a using that p(10) s2(3) by auto
    show "seg d2 g hp NULL (xs @ (p, n, False) # ys) NULL" using M(4) p(1,2) s2(3) by simp
    show "set E = fr (all_cells A) \<union> fr (xs @ (p, n, False) # ys) \<union> fr (all_cells B) - {p}"
      using M(6) p(1-4) fr_sub by auto
    show "set U1 = us (all_cells A) \<union> us (xs @ (p, n, False) # ys) \<union> us (all_cells B)"
      using s1(3) M(7) p(1-4) fr_sub by auto
  qed
  ultimately show ?thesis by blast
qed

subsection \<open>Joining blocks\<close>

lemma page_ok_join:
  assumes "page_ok (g, at, sz, xs @ (a, m, al) # (b, n, bl) # ys)"
  shows "page_ok (g, at, sz, xs @ (a, m + n, al) # ys)" "unat (m + n) = unat m + unat n"
proof -
  have "unat g + 32 \<le> unat a" "unat b = unat a + unat m" "unat b + unat n \<le> unat g + unat sz" "unat g + unat sz \<le> 2 ^ 32"
    using assms page_cells(1) [OF assms, of a m al] page_cells(2) [OF assms, of b n bl] by (auto simp: tiles_append)
  then show e: "unat (m + n) = unat m + unat n" by (intro unat_plus32) simp
  show "page_ok (g, at, sz, xs @ (a, m + n, al) # ys)" using assms by (auto simp: tiles_append e add.assoc)
qed

lemma mid_absorb:
  assumes m: "mid st hp x h (A @ (g, at, sz, xs @ (a, m, False) # (b, n, False) # ys) # B) {a, b}"
  shows "\<exists>st'. absorb_next st a b = Some st' \<and> mid st' hp x h (A @ (g, at, sz, xs @ (a, m + n, False) # ys) # B) {a}"
proof -
  let ?cs = "xs @ (a, m, False) # (b, n, False) # ys" and ?cs' = "xs @ (a, m + n, False) # ys"
  let ?h = "h\<lparr>p_pg_block_list := hd_addr (A @ (g, at, sz, ?cs) # B) NULL\<rparr>"
  let ?P = "hdr g hp (last_addr NULL xs)" and ?nx = "hd_addr ys NULL"
  obtain pgs d E U where M: "hs st hp x ?h pgs d E U" "around pgs d hp A g sz B"
    "pgs g = Some (phdr hp (last_addr NULL A) (hd_addr B NULL) at sz (nused ?cs))"
    "seg d g hp NULL ?cs NULL" "page_ok (g, at, sz, ?cs)"
    "set E = fr (all_cells A) \<union> fr ?cs \<union> fr (all_cells B) - {a, b}"
    "set U = us (all_cells A) \<union> us ?cs \<union> us (all_cells B)"
    using mid_open [OF m] by blast
  note ok = page_ok_join(1) [OF M(5)]
  note ca = focus_cell [OF M(2,5)]
  have "page_ok (g, at, sz, (xs @ [(a, m, False)]) @ (b, n, False) # ys)" using M(5) by simp
  note cb = focus_cell [OF M(2) this, simplified]
  have d: "d a = Some (?P b m False)" "d b = Some (hdr g hp a ?nx n False)" using M(4) by simp_all
  have "a \<notin> set E" "a \<notin> set U" using M(6,7) ca fr_sub by simp_all
  then obtain s1 d1 where s1: "on_blocks (mb_size_update (\<lambda>_. m + n)) st a = Some s1" "hs s1 hp x ?h pgs d1 E U"
    "d1 = d(a \<mapsto> ?P b (m + n) False)"
    using hs_on_blocks [OF M(1) _ d(1), of "mb_size_update (\<lambda>_. m + n)"] by auto
  obtain s2 d2 where s2: "on_blocks (mb_next_update (\<lambda>_. ?nx)) s1 a = Some s2" "hs s2 hp x ?h pgs d2 E U"
    "d2 = d1(a \<mapsto> ?P ?nx (m + n) False)"
    using hs_on_blocks [OF s1(2), of "mb_next_update (\<lambda>_. ?nx)" a] s1(3) by auto
  have "seg d2 g hp b ys NULL" using M(4) ca s2(3) s1(3) by simp
  from relink [OF s2(2) this cb(5,7), of a] obtain s3 d3 where s3:
    "(if ?nx \<noteq> NULL then on_blocks (mb_prev_update (\<lambda>_. a)) s2 ?nx else Some s2) = Some s3"
    "hs s3 hp x ?h pgs d3 E U" "seg d3 g hp a ys NULL" "\<forall>c. c \<notin> fst ` set ys \<longrightarrow> d3 c = d2 c" by blast
  have "b \<noteq> a" using cb by auto
  then have "rd mb_next (blocks s1) b = Some ?nx" using hs_at(4) [OF s1(2), of b] s1(3) d(2) by simp
  then have "absorb_next st a b = Some s3"
    using s1(1) s2(1) s3(1) hs_at(6) [OF M(1) d(1)] hs_at(6) [OF M(1) d(2)] by (simp add: absorb_next_def)
  moreover have "mid s3 hp x h (A @ (g, at, sz, ?cs') # B) {a}"
  proof (rule mid_close [OF _ M(2) ok])
    show "hs s3 hp x (h\<lparr>p_pg_block_list := hd_addr (A @ (g, at, sz, ?cs') # B) NULL\<rparr>) pgs d3 E U" using s3(2) by simp
    show "d3 c = d c" if "unat c \<notin> {unat g ..< unat g + unat sz}" for c
    proof -
      have "c \<notin> fst ` set ?cs" using that page_addrs [OF M(5), of c] by auto
      then show ?thesis using s3(4) s2(3) s1(3) by auto
    qed
    show "pgs = pgs(g \<mapsto> phdr hp (last_addr NULL A) (hd_addr B NULL) at sz (nused ?cs'))"
      using M(3) by (auto simp: fun_upd_idem)
    have "d3 c = d c" if "c \<in> fst ` set xs" for c
    proof -
      have "c \<noteq> a" "c \<notin> fst ` set ys" using that ca(1,6) by (auto simp: disjoint_iff)
      then show ?thesis using s3(4) s2(3) s1(3) by simp
    qed
    then have "seg d3 g hp NULL xs a" using M(4) seg_cong [of xs d3 d] by simp
    then show "seg d3 g hp NULL ?cs' NULL" using s3(3,4) s2(3) ca by simp
    show "set E = fr (all_cells A) \<union> fr ?cs' \<union> fr (all_cells B) - {a}" using M(6) cb fr_sub by auto
    show "set U = us (all_cells A) \<union> us ?cs' \<union> us (all_cells B)" using M(7) by simp
  qed
  ultimately show ?thesis by blast
qed

end
