(* ===== verification/MmHeapPages.thy ===== *)
theory MmHeapPages
  imports MmHeapSteps
begin

text \<open>
  Adding a page to a heap and giving one back: the list of page headers, the one free block of a
  new page, and the headers that vanish with a released page.
\<close>

subsection \<open>The list of pages\<close>

lemma hs_pages_cong:
  assumes "hs st hp x h pgs d E U" "\<And>g. map_option pb_index (pgs' g) = map_option pb_index (pgs g)"
  shows "hs (st\<lparr>pages := pgs'\<rparr>) hp x h pgs' d E U"
proof -
  have live: "pgs' g = None \<longleftrightarrow> pgs g = None" for g using assms(2) [of g] by (cases "pgs g"; cases "pgs' g") auto
  have key: "blk_key pgs' s a = blk_key pgs s a" for s a
  proof -
    have "(case pgs' g of Some b \<Rightarrow> unat (pb_index b) | None \<Rightarrow> 0) = (case pgs g of Some b \<Rightarrow> unat (pb_index b) | None \<Rightarrow> 0)" for g
      using assms(2) [of g] by (cases "pgs g"; cases "pgs' g") auto
    then show ?thesis by (simp add: blk_key_def split: option.split)
  qed
  have keep: "indexed pgs' s root L" if "indexed pgs s root L" for s root L
    using that indexed_NULL [OF that] by (rule indexed_cong) (auto simp: key live)
  show ?thesis using assms(1) keep by (auto simp: hs_def)
qed

lemma layout_pages:
  assumes "\<forall>p \<in> set ps. page_ok p" "sorted_wrt apart ps"
  shows "distinct (map fst ps)" "NULL \<notin> fst ` set ps"
proof -
  show "distinct (map fst ps)" using assms
  proof (induction ps)
    case (Cons p ps)
    have "fst p \<noteq> fst q" if "q \<in> set ps" for q
    proof -
      have "ivl p \<inter> ivl q = {}" "unat (fst p) \<in> ivl p" "unat (fst q) \<in> ivl q"
        using Cons.prems that page_self by (auto simp: apart_def)
      then show ?thesis by fastforce
    qed
    then show ?case using Cons by auto
  qed simp
  have "fst p \<noteq> NULL" if "page_ok p" for p using that by (cases p) simp
  then show "NULL \<notin> fst ` set ps" using assms(1) by force
qed

lemma relink_page_prev:
  assumes "hs st hp x h pgs d E U" "pseg pgs hp' pv ps nx" "distinct (map fst ps)" "NULL \<notin> fst ` set ps"
  shows "\<exists>st' pgs'. (if hd_addr ps NULL \<noteq> NULL then on_pages (pb_prev_update (\<lambda>_. q)) st (hd_addr ps NULL) else Some st) = Some st' \<and>
    hs st' hp x h pgs' d E U \<and> pseg pgs' hp' q ps nx \<and> (\<forall>a. a \<notin> fst ` set ps \<longrightarrow> pgs' a = pgs a)"
proof (cases ps)
  case Nil
  then show ?thesis using assms by auto
next
  case (Cons p ps')
  obtain g at sz cs where p: "p = (g, at, sz, cs)" by (cases p)
  have d: "pgs g = Some (phdr hp' pv (hd_addr ps' nx) at sz (nused cs))" "pseg pgs hp' g ps' nx" "g \<noteq> NULL" "g \<notin> fst ` set ps'"
    using assms Cons p by auto
  obtain st' where "on_pages (pb_prev_update (\<lambda>_. q)) st g = Some st'"
    "hs st' hp x h (pgs(g \<mapsto> phdr hp' q (hd_addr ps' nx) at sz (nused cs))) d E U"
    using hs_on_pages [OF assms(1) d(1), of "pb_prev_update (\<lambda>_. q)"] by auto
  then show ?thesis using Cons p d
    by (intro exI [of _ st'] exI [of _ "pgs(g \<mapsto> phdr hp' q (hd_addr ps' nx) at sz (nused cs))"]) auto
qed

lemma relink_page_next:
  assumes "hs st hp x h pgs d E U" "pseg pgs hp' NULL ps nx" "distinct (map fst ps)" "NULL \<notin> fst ` set ps"
  shows "\<exists>st' pgs'. (if last_addr NULL ps \<noteq> NULL then on_pages (pb_next_update (\<lambda>_. q)) st (last_addr NULL ps) else Some st) = Some st' \<and>
    hs st' hp x h pgs' d E U \<and> pseg pgs' hp' NULL ps q \<and> (\<forall>a. a \<notin> fst ` set ps \<longrightarrow> pgs' a = pgs a)"
proof (cases ps rule: rev_cases)
  case Nil
  then show ?thesis using assms by auto
next
  case (snoc ps' p)
  obtain g at sz cs where p: "p = (g, at, sz, cs)" by (cases p)
  have d: "pgs g = Some (phdr hp' (last_addr NULL ps') nx at sz (nused cs))" "pseg pgs hp' NULL ps' g" "g \<noteq> NULL" "g \<notin> fst ` set ps'"
    using assms snoc p by auto
  obtain st' where "on_pages (pb_next_update (\<lambda>_. q)) st g = Some st'"
    "hs st' hp x h (pgs(g \<mapsto> phdr hp' (last_addr NULL ps') q at sz (nused cs))) d E U"
    using hs_on_pages [OF assms(1) d(1), of "pb_next_update (\<lambda>_. q)"] by auto
  then show ?thesis using snoc p d
    by (intro exI [of _ st'] exI [of _ "pgs(g \<mapsto> phdr hp' (last_addr NULL ps') q at sz (nused cs))"]) auto
qed

lemma hd_addr_nonNULL: "NULL \<notin> fst ` set ps \<Longrightarrow> ps \<noteq> [] \<Longrightarrow> hd_addr ps nx \<noteq> NULL"
  by (cases ps) auto

lemma append_page_ok:
  assumes "pseg pgs hp pv (ps @ [(l, at, sz, cs)]) NULL" "NULL \<notin> fst ` set (ps @ [(l, at, sz, cs)])" "l \<noteq> g" "pgs g = Some b"
  shows "append_page pgs g (hd_addr (ps @ [(l, at, sz, cs)]) NULL) =
    Some (pgs(l \<mapsto> phdr hp (last_addr pv ps) g at sz (nused cs), g \<mapsto> pb_prev_update (\<lambda>_. l) b))"
  using assms
proof (induction ps arbitrary: pv)
  case Nil
  then show ?case by (subst append_page.simps) (auto simp: rd_def wr_def)
next
  case (Cons p ps)
  obtain g' at' sz' cs' where p: "p = (g', at', sz', cs')" by (cases p)
  let ?L = "ps @ [(l, at, sz, cs)]"
  have "hd_addr ?L NULL \<noteq> NULL" using Cons.prems(2) by (intro hd_addr_nonNULL) simp_all
  moreover have "append_page pgs g (hd_addr ?L NULL) =
      Some (pgs(l \<mapsto> phdr hp (last_addr g' ps) g at sz (nused cs), g \<mapsto> pb_prev_update (\<lambda>_. l) b))"
    using Cons.prems p by (intro Cons.IH) simp_all
  moreover have "rd pb_next pgs g' = Some (hd_addr ?L NULL)" using Cons.prems(1) p by (simp add: rd_def)
  ultimately show ?case using p by (subst append_page.simps) simp
qed

definition fresh_page :: "apage list \<Rightarrow> ptr \<Rightarrow> u32 \<Rightarrow> bool" where
  "fresh_page ps g sz \<longleftrightarrow> g \<noteq> NULL \<and> unat g + unat sz \<le> 2 ^ 32 \<and> 80 \<le> unat sz \<and> (\<forall>p \<in> set ps. apart p (g, 0, sz, []))"

lemma fresh_page_ok:
  assumes "fresh_page ps g sz"
  shows "page_ok (g, 0, sz, [(g + 32, sz - 32, False)])" "unat (sz - 32) = unat sz - 32" "unat (g + 32) = unat g + 32"
proof -
  have "(32 :: u32) \<le> sz" using assms by (simp add: fresh_page_def word_le_nat_alt)
  then show sz: "unat (sz - 32) = unat sz - 32" by (subst unat_sub) simp_all
  show g: "unat (g + 32) = unat g + 32" using assms by (subst unat_plus32) (simp_all add: fresh_page_def)
  show "page_ok (g, 0, sz, [(g + 32, sz - 32, False)])" using assms sz g by (auto simp: fresh_page_def)
qed

lemma fresh_page_out:
  assumes "fresh_page ps g sz" "\<forall>p \<in> set ps. page_ok p"
  shows "g \<notin> fst ` set ps" "a \<in> fst ` set (all_cells ps) \<Longrightarrow> unat a \<notin> {unat g ..< unat g + unat sz}"
proof -
  have pos: "0 < unat sz" using assms(1) by (simp add: fresh_page_def)
  have "fst p \<noteq> g" if "p \<in> set ps" for p
  proof
    assume "fst p = g"
    then have "unat g \<in> ivl p" "ivl p \<inter> {unat g ..< unat g + unat sz} = {}" "unat g \<in> {unat g ..< unat g + unat sz}"
      using assms that page_self [of p] pos by (auto simp: fresh_page_def apart_def)
    then show False by blast
  qed
  then show "g \<notin> fst ` set ps" by auto
  assume "a \<in> fst ` set (all_cells ps)"
  then obtain c p where "p \<in> set ps" "c \<in> set (cells p)" "a = fst c" by (auto simp: all_cells_def)
  then have p: "p \<in> set ps" "a \<in> fst ` set (cells p)" by auto
  show "unat a \<notin> {unat g ..< unat g + unat sz}"
  proof -
    have "ivl p \<inter> {unat g ..< unat g + unat sz} = {}" "unat a \<in> ivl p"
      using assms p page_addrs [of p a] by (auto simp: fresh_page_def apart_def)
    then show ?thesis by blast
  qed
qed

lemma layout_ok: "layout pgs d hp ps \<Longrightarrow> (\<forall>p \<in> set ps. page_ok p) \<and> sorted_wrt apart ps"
  by (simp add: layout_def)

lemma layout_pg:
  assumes "layout pgs d hp ps" "a \<in> fst ` set (all_cells ps)"
  shows "\<exists>n. d a = Some n \<and> mb_pg_block n \<in> fst ` set ps"
proof -
  obtain c p where "p \<in> set ps" "c \<in> set (cells p)" "a = fst c" using assms(2) by (auto simp: all_cells_def)
  then have p: "p \<in> set ps" "a \<in> fst ` set (cells p)" by auto
  then have "seg d (fst p) hp NULL (cells p) NULL" using assms(1) by (simp add: layout_def)
  then show ?thesis using seg_live [of d "fst p" hp NULL "cells p" NULL a] p by blast
qed

lemma mid_new_page:
  assumes m: "mid st hp x h ps {}" and g: "fresh_page ps g (ht_scale h)"
  shows "\<exists>st'. new_page st hp g = Some (st', g + 32) \<and>
    mid st' hp x h (ps @ [(g, 0, ht_scale h, [(g + 32, ht_scale h - 32, False)])]) {g + 32}"
proof -
  let ?sz = "ht_scale h" and ?p = "g + 32"
  let ?P = "(g, 0, ht_scale h, [(g + 32, ht_scale h - 32, False)])"
  let ?h = "h\<lparr>p_pg_block_list := hd_addr ps NULL\<rparr>"
  obtain pgs d E U where M: "hs st hp x ?h pgs d E U" "layout pgs d hp ps" "set E = frees ps" "set U = useds ps"
    using m by (auto simp: mid_def)
  note ok = layout_ok [OF M(2)]
  note out = fresh_page_out [OF g conjunct1 [OF ok]]
  note P = fresh_page_ok [OF g]
  have EU: "set E \<union> set U \<subseteq> fst ` set (all_cells ps)" using M(3,4) frees_sub useds_sub by blast
  have pin: "unat ?p \<in> {unat g ..< unat g + unat ?sz}" using P(3) g by (simp add: fresh_page_def)
  then have pEU: "?p \<notin> set E" "?p \<notin> set U" using EU out(2) [of ?p] by auto
  have pN: "?p \<noteq> NULL" using P(1) page_cells(5) [of g 0 ?sz "[(?p, ?sz - 32, False)]" ?p "?sz - 32" False] by simp
  obtain h' where h': "heaps st hp = Some h'" "no_roots h' = ?h" using M(1) by (auto simp: hs_def)
  have "ht_scale (no_roots h') = ?sz" "p_pg_block_list (no_roots h') = hd_addr ps NULL" unfolding h'(2) by simp_all
  then have h'': "ht_scale h' = ?sz" "p_pg_block_list h' = hd_addr ps NULL" by (simp_all add: no_roots_def)
  have "mb_pg_block n \<noteq> g" if "a \<in> set E \<union> set U" "d a = Some n" for a n
  proof -
    have "a \<in> fst ` set (all_cells ps)" using that(1) EU by blast
    then show ?thesis using layout_pg [OF M(2), of a] that(2) out(1) by auto
  qed
  then have "away d (set E \<union> set U) g" by (simp add: away_def)
  define s1 where "s1 = st\<lparr>pages := (pages st)(g \<mapsto> INIT_PG_BLOCK 0 ?sz hp)\<rparr>"
  define s2 where "s2 = s1\<lparr>blocks := (blocks s1)(?p \<mapsto> INIT_MEMBLOCK (?sz - 32) g hp)\<rparr>"
  define pgs2 where "pgs2 = pgs(g \<mapsto> phdr hp NULL NULL 0 ?sz 0)"
  define d2 where "d2 = d(?p \<mapsto> hdr g hp NULL NULL (?sz - 32) False)"
  have "hs s1 hp x ?h pgs2 d E U"
    using hs_put_page [OF M(1) \<open>away d (set E \<union> set U) g\<close>] by (simp add: s1_def pgs2_def INIT_PG_BLOCK_phdr)
  then have H2: "hs s2 hp x ?h pgs2 d2 E U"
    using hs_put_block [OF _ pEU pN, of s1 hp x ?h pgs2 d "INIT_MEMBLOCK (?sz - 32) g hp"] by (simp add: s2_def d2_def INIT_MEMBLOCK_hdr)
  have heaps2: "heaps s2 hp = Some h'" using h'(1) by (simp add: s2_def s1_def)
  have d2: "d2 a = d a" if "a \<in> fst ` set (all_cells ps)" for a using out(2) [OF that] pin by (auto simp: d2_def)
  have seg2: "seg d2 (fst p) hp NULL (cells p) NULL" if "p \<in> set ps" for p
  proof -
    have "d2 a = d a" if "a \<in> fst ` set (cells p)" for a
      by (rule d2) (use that \<open>p \<in> set ps\<close> in \<open>force simp: all_cells_def\<close>)
    then show ?thesis using M(2) that seg_cong [of "cells p" d2 d] by (auto simp: layout_def)
  qed
  have close: "mid s hp x h (ps @ [?P]) {?p}"
    if "hs s hp x (h\<lparr>p_pg_block_list := hd_addr ps g\<rparr>) pgs' d2 E U" "pseg pgs' hp NULL ps g"
      "pgs' g = Some (phdr hp (last_addr NULL ps) NULL 0 ?sz 0)" for s pgs'
  proof -
    have "around pgs' d2 hp ps g ?sz []"
      using that(2) seg2 ok g by (simp add: around_def fresh_page_def)
    then have "layout pgs' d2 hp (ps @ [?P])" using that(3) P(1) by (simp add: layout_focus d2_def del: page_ok.simps)
    moreover have "set E = frees (ps @ [?P]) - {?p}" "set U = useds (ps @ [?P])"
      using M(3,4) pEU by (auto simp: frees_fr)
    ultimately show ?thesis using that(1) unfolding mid_def
      by (intro exI [of _ pgs'] exI [of _ d2] exI [of _ E] exI [of _ U]) simp
  qed
  show ?thesis
  proof (cases ps rule: rev_cases)
    case Nil
    obtain s3 where s3: "on_pages (\<lambda>b. b\<lparr>pb_next := NULL, pb_prev := NULL\<rparr>) s2 g = Some s3" "hs s3 hp x ?h pgs2 d2 E U"
      using hs_on_pages [OF H2, of g "phdr hp NULL NULL 0 ?sz 0" "\<lambda>b. b\<lparr>pb_next := NULL, pb_prev := NULL\<rparr>"]
      by (auto simp: pgs2_def)
    obtain s4 where s4: "on_heap (p_pg_block_list_update (\<lambda>_. g)) s3 hp = Some s4" "hs s4 hp x (p_pg_block_list_update (\<lambda>_. g) ?h) pgs2 d2 E U"
      using hs_on_list [OF s3(2)] by blast
    have "new_page st hp g = Some (s4, ?p)"
      using s3(1) s4(1) h'(1) h'' Nil by (simp add: new_page_def s1_def s2_def Let_def)
    moreover have "mid s4 hp x h (ps @ [?P]) {?p}"
      by (rule close [of _ pgs2]) (use s4(2) Nil in \<open>simp_all add: pgs2_def\<close>)
    ultimately show ?thesis by blast
  next
    case (snoc ps' q)
    obtain l at sz cs where q: "q = (l, at, sz, cs)" by (cases q)
    have nn: "NULL \<notin> fst ` set ps" "distinct (map fst ps)" using layout_pages ok by blast+
    have ps: "pseg pgs2 hp NULL ps NULL" using M(2) out(1) by (simp add: layout_def pgs2_def)
    define pgs3 where "pgs3 = pgs2(l \<mapsto> phdr hp (last_addr NULL ps') g at sz (nused cs), g \<mapsto> phdr hp l NULL 0 ?sz 0)"
    have lg: "l \<noteq> g" "l \<notin> fst ` set ps'" "g \<notin> fst ` set ps'" using out(1) nn snoc q by auto
    have app: "append_page (pages s2) g (hd_addr ps NULL) = Some pgs3"
      using append_page_ok [of pgs2 hp NULL ps' l at sz cs g "phdr hp NULL NULL 0 ?sz 0"] ps nn(1) lg(1) hs_rd(8) [OF H2]
      by (simp add: snoc q pgs3_def pgs2_def)
    have run: "new_page st hp g = Some (s2\<lparr>pages := pgs3\<rparr>, ?p)"
    proof -
      have "hd_addr ps NULL \<noteq> NULL" using nn(1) by (rule hd_addr_nonNULL) (simp add: snoc)
      then show ?thesis using app h'(1) h'' by (simp add: new_page_def s1_def s2_def Let_def)
    qed
    have "pgs2 l = Some (phdr hp (last_addr NULL ps') NULL at sz (nused cs))" using ps snoc q by simp
    then have "hs (s2\<lparr>pages := pgs3\<rparr>) hp x ?h pgs3 d2 E U"
      by (intro hs_pages_cong [OF H2]) (auto simp: pgs3_def pgs2_def)
    moreover have "pseg pgs3 hp NULL ps g" using ps lg by (simp add: snoc q pgs3_def)
    moreover have "hd_addr ps g = hd_addr ps NULL" by (simp add: snoc)
    moreover have "last_addr NULL ps = l" by (simp add: snoc q)
    ultimately have "mid (s2\<lparr>pages := pgs3\<rparr>) hp x h (ps @ [?P]) {?p}" by (intro close [of _ pgs3]) (simp_all add: pgs3_def)
    then show ?thesis using run by blast
  qed
qed

subsection \<open>Releasing a page\<close>

lemma in_page: "unat g + unat sz \<le> 2 ^ 32 \<Longrightarrow> p - g < (sz :: u32) \<longleftrightarrow> unat (p :: u32) \<in> {unat g ..< unat g + unat sz}"
proof -
  assume "unat g + unat sz \<le> 2 ^ 32"
  moreover have "unat p < 2 ^ 32" by (rule unat_lt_32)
  moreover have "unat (p - g) = (if unat g \<le> unat p then unat p - unat g else unat p + 2 ^ 32 - unat g)"
    using unat_sub_if' [of p g] by simp
  ultimately show ?thesis by (auto simp: word_less_nat_alt split: if_splits)
qed

lemma around_page:
  assumes "around pgs d hp A g sz B" "p \<in> set (A @ B)"
  shows "seg d (fst p) hp NULL (cells p) NULL" "page_ok p" "ivl p \<inter> {unat g ..< unat g + unat sz} = {}"
proof -
  have "p \<in> set A \<union> set B" using assms(2) by simp
  then show "seg d (fst p) hp NULL (cells p) NULL" "page_ok p" "ivl p \<inter> {unat g ..< unat g + unat sz} = {}"
    using assms(1) unfolding around_def apart_def ivl.simps by blast+
qed

lemma mid_release:
  assumes m: "mid st hp x h (A @ (g, at, sz, cs) # B) (fr cs)" and us: "us cs = {}"
  shows "\<exists>st' st''. unlink_page st hp g = Some st' \<and> unmap_pages st' g = Some st'' \<and> mid st'' hp x h (A @ B) {}"
proof -
  let ?h = "h\<lparr>p_pg_block_list := hd_addr (A @ (g, at, sz, cs) # B) NULL\<rparr>"
  let ?pv = "last_addr NULL A" and ?nx = "hd_addr B NULL"
  obtain pgs d E U where M: "hs st hp x ?h pgs d E U" "around pgs d hp A g sz B"
    "pgs g = Some (phdr hp ?pv ?nx at sz (nused cs))" "seg d g hp NULL cs NULL" "page_ok (g, at, sz, cs)"
    "set E = fr (all_cells A) \<union> fr cs \<union> fr (all_cells B) - fr cs" "set U = us (all_cells A) \<union> us cs \<union> us (all_cells B)"
    using mid_open [OF m] by blast
  have AB: "\<forall>p \<in> set (A @ B). page_ok p" "sorted_wrt apart (A @ B)" using M(2) by (auto simp: around_def)
  note nn = layout_pages [OF AB]
  have dis: "distinct (map fst A)" "distinct (map fst B)" "NULL \<notin> fst ` set A" "NULL \<notin> fst ` set B"
    "fst ` set A \<inter> fst ` set B = {}" using nn by auto
  have gAB: "g \<notin> fst ` set A" "g \<notin> fst ` set B" using around_not [OF M(2) page_pos [OF M(5)]] by auto
  have E: "set E = fr (all_cells (A @ B))"
  proof -
    have "fst ` set (all_cells (A @ B)) \<inter> fst ` set cs = {}"
      using around_distinct [OF M(2,5)] by (simp add: image_Un Int_Un_distrib Int_Un_distrib2 Int_commute)
    moreover have "fr cs \<subseteq> fst ` set cs" "fr (all_cells (A @ B)) \<subseteq> fst ` set (all_cells (A @ B))" by (force simp: fr_def)+
    ultimately have "fr (all_cells (A @ B)) \<inter> fr cs = {}" by blast
    then show ?thesis using M(6) by auto
  qed
  have U: "set U = us (all_cells (A @ B))" using M(7) us by simp
  have pA: "pseg pgs hp NULL A g" and pB: "pseg pgs hp g B NULL" using M(2) by (simp_all add: around_def)
  obtain s1 pgs1 where s1: "(if ?pv \<noteq> NULL then on_pages (pb_next_update (\<lambda>_. ?nx)) st ?pv else Some st) = Some s1"
    "hs s1 hp x ?h pgs1 d E U" "pseg pgs1 hp NULL A ?nx" "\<forall>a. a \<notin> fst ` set A \<longrightarrow> pgs1 a = pgs a"
    using relink_page_next [OF M(1) pA dis(1,3)] by blast
  have pB1: "pseg pgs1 hp g B NULL"
  proof -
    have "pseg pgs1 hp pv B nx = pseg pgs hp pv B nx" for pv nx
      using s1(4) dis(5) by (induction B arbitrary: pv) auto
    then show ?thesis using pB by simp
  qed
  obtain s2 pgs2 where s2: "(if ?nx \<noteq> NULL then on_pages (pb_prev_update (\<lambda>_. ?pv)) s1 ?nx else Some s1) = Some s2"
    "hs s2 hp x ?h pgs2 d E U" "pseg pgs2 hp ?pv B NULL" "\<forall>a. a \<notin> fst ` set B \<longrightarrow> pgs2 a = pgs1 a"
    using relink_page_prev [OF s1(2) pB1 dis(2,4)] by blast
  have pA2: "pseg pgs2 hp NULL A ?nx"
  proof -
    have "pseg pgs2 hp pv A nx = pseg pgs1 hp pv A nx" for pv nx
      using s2(4) dis(5) by (induction A arbitrary: pv) auto
    then show ?thesis using s1(3) by simp
  qed
  have g2: "pgs2 g = Some (phdr hp ?pv ?nx at sz (nused cs))" using s1(4) s2(4) gAB M(3) by simp
  have pvA: "?pv = NULL \<longleftrightarrow> A = []"
  proof (cases A rule: rev_cases)
    case (snoc A' p)
    then show ?thesis using dis(3) by auto
  qed simp
  obtain s3 where s3: "(if ?pv = NULL then on_heap (p_pg_block_list_update (\<lambda>_. ?nx)) s2 hp else Some s2) = Some s3"
    "hs s3 hp x (h\<lparr>p_pg_block_list := hd_addr (A @ B) NULL\<rparr>) pgs2 d E U"
  proof (cases "A = []")
    case True
    then obtain s3 where "on_heap (p_pg_block_list_update (\<lambda>_. ?nx)) s2 hp = Some s3"
      "hs s3 hp x (p_pg_block_list_update (\<lambda>_. ?nx) ?h) pgs2 d E U" using hs_on_list [OF s2(2)] by blast
    then show ?thesis using that True by simp
  next
    case False
    then have "hd_addr A g = hd_addr A (hd_addr B NULL)" by (cases A) simp_all
    then show ?thesis using that [of s2] s2(2) pvA False by simp
  qed
  have unlink: "unlink_page st hp g = Some s3"
    using hs_rd(8) [OF M(1)] M(3) s1(1) s2(1) s3(1) by (simp add: unlink_page_def rd_def)
  define s4 where "s4 = s3\<lparr>pages := (pages s3)(g := None)\<rparr>"
  define bs where "bs = (\<lambda>p. if p - g < sz then None else blocks s3 p)"
  have in_sz: "p - g < sz \<longleftrightarrow> unat p \<in> {unat g ..< unat g + unat sz}" for p
    using M(5) by (intro in_page) simp
  have unmap: "unmap_pages s3 g = Some (s4\<lparr>blocks := bs\<rparr>)"
    using hs_rd(8) [OF s3(2)] g2 by (simp add: unmap_pages_def rd_def s4_def bs_def)
  have cell: "\<exists>p \<in> set (A @ B). a \<in> fst ` set (cells p)" if "a \<in> set E \<union> set U" for a
  proof -
    have "a \<in> fr (all_cells (A @ B)) \<union> us (all_cells (A @ B))" using that E U by simp
    then have "a \<in> fst ` set (all_cells (A @ B))" using fr_sub [of a "all_cells (A @ B)"] by blast
    then show ?thesis unfolding all_cells_def by auto
  qed
  have live: "\<exists>n. d a = Some n \<and> mb_pg_block n \<noteq> g \<and> unat a \<notin> {unat g ..< unat g + unat sz}" if aEU: "a \<in> set E \<union> set U" for a
  proof -
    obtain p where p: "p \<in> set (A @ B)" "a \<in> fst ` set (cells p)" using cell [OF aEU] by blast
    note q = around_page [OF M(2) p(1)]
    have "fst p \<noteq> g" using p(1) gAB by auto
    moreover have "unat a \<notin> {unat g ..< unat g + unat sz}"
      using q(3) conjunct1 [OF page_addrs [OF q(2) p(2)]] unfolding disjoint_iff by metis
    ultimately show ?thesis using seg_live [OF q(1) p(2)] by metis
  qed
  have "away d (set E \<union> set U) g" using live by (force simp: away_def)
  then have "hs s4 hp x (h\<lparr>p_pg_block_list := hd_addr (A @ B) NULL\<rparr>) (pgs2(g := None)) d E U"
    using hs_put_page [OF s3(2), of g None] by (simp add: s4_def)
  then have H: "hs (s4\<lparr>blocks := bs\<rparr>) hp x (h\<lparr>p_pg_block_list := hd_addr (A @ B) NULL\<rparr>) (pgs2(g := None)) (D bs) E U"
  proof (rule hs_blocks_frame)
    show "bs NULL = None" using hs_NULL [OF s3(2)] by (simp add: bs_def)
    show "bs a = blocks s4 a" if "a \<in> set E \<union> set U" for a using live [OF that] in_sz by (auto simp: bs_def s4_def)
  qed
  have Dbs: "D bs a = d a" if "unat a \<notin> {unat g ..< unat g + unat sz}" for a
    using that in_sz s3(2) by (auto simp: bs_def D_def hs_def)
  have "layout (pgs2(g := None)) (D bs) hp (A @ B)"
  proof -
    have "seg (D bs) (fst p) hp NULL (cells p) NULL" if "p \<in> set (A @ B)" for p
    proof -
      note q = around_page [OF M(2) that]
      have "D bs a = d a" if "a \<in> fst ` set (cells p)" for a 
        using Dbs conjunct1 [OF page_addrs [OF q(2) that]] q(3) unfolding disjoint_iff by metis
      then show ?thesis using q(1) seg_cong [of "cells p" "D bs" d] by blast
    qed
    then show ?thesis using AB pA2 s2(3) gAB by (simp add: layout_def)
  qed
  then have "mid (s4\<lparr>blocks := bs\<rparr>) hp x h (A @ B) {}"
    using H E U unfolding mid_def by (intro exI [of _ "pgs2(g := None)"] exI [of _ "D bs"] exI [of _ E] exI [of _ U]) (simp add: frees_fr)
  then show ?thesis using unlink unmap by blast
qed

end
