(* ===== verification/MmHeapInv.thy ===== *)
theory MmHeapInv
  imports MmHeapPages
begin

text \<open>
  \<^verbatim>\<open>core_mm_heap_chk\<close> accepts every heap whose headers and trees agree, and the invariant of an
  unlocked heap.
\<close>

subsection \<open>core\_mm\_heap\_chk\<close>

lemma htree_parent:
  assumes "htree s root t" "a \<in> set (tnodes t)"
  shows "\<exists>par. rd mb_parent s a = Some par \<and> (if par = NULL then root = a else
    \<exists>l r. rd mb_lchild s par = Some l \<and> rd mb_rchild s par = Some r \<and> (l = a \<or> r = a))"
proof -
  obtain c k v l r x where e: "t = plug (Nd a c k v l r) x" using tnodes_split [OF assms(2)] by blast
  have f: "foc (links s) (links s) root (Nd a c k v l r) x"
    using assms(1) foc_plug [of "links s" "links s" root "Nd a c k v l r" x] by (simp add: htree_def rb_tree_def e)
  have "rd mb_parent s a = Some (caddr x)" using foc_rd(1) [OF f] by (simp add: links_rd)
  then show ?thesis
  proof (cases x)
    case Top
    then have "root = a" using f by (simp add: foc_def)
    then show ?thesis using \<open>rd mb_parent s a = _\<close> Top by simp
  next
    case (Lc b d k' v' y u)
    then have g: "foc (links s) (links s) root (Nd b d k' v' (Nd a c k v l r) u) y" using f by (simp add: foc_Lc)
    then have "b \<noteq> NULL" using links_key by blast
    then show ?thesis using foc_rd(2,3) [OF g] Lc \<open>rd mb_parent s a = _\<close> by (simp add: links_rd)
  next
    case (Rc b d k' v' u y)
    then have g: "foc (links s) (links s) root (Nd b d k' v' u (Nd a c k v l r)) y" using f by (simp add: foc_Rc)
    then have "b \<noteq> NULL" using links_key by blast
    then show ?thesis using foc_rd(2,3) [OF g] Rc \<open>rd mb_parent s a = _\<close> by (simp add: links_rd)
  qed
qed

lemma index_parent:
  assumes "indexed pgs s root L" "a \<in> set L"
  shows "\<exists>par. rd mb_parent s a = Some par \<and> (if par = NULL then root = a else
    \<exists>l r. rd mb_lchild s par = Some l \<and> rd mb_rchild s par = Some r \<and> (l = a \<or> r = a))"
proof -
  obtain t where t: "htree s root t" "addrs t = L" using assms(1) by (auto simp: indexed_def)
  then have "a \<in> set (tnodes t)" using htree_addrs(2) assms(2) by blast
  then show ?thesis using htree_parent t(1) by blast
qed

lemma parent_fine:
  assumes "indexed pgs s root L" "a \<in> set L" "rd mb_allocated s a = Some al"
    "root = (if al then p_used_block_tree h else p_empty_block_tree h)"
  shows "parent_bad s h a = Some False"
proof -
  obtain par where par: "rd mb_parent s a = Some par" "if par = NULL then root = a else
    \<exists>l r. rd mb_lchild s par = Some l \<and> rd mb_rchild s par = Some r \<and> (l = a \<or> r = a)"
    using index_parent [OF assms(1,2)] by blast
  show ?thesis
  proof (cases "par = NULL")
    case True
    then show ?thesis using par assms(3,4) by (cases al) (simp_all add: parent_bad_def)
  next
    case False
    then obtain l r where "rd mb_lchild s par = Some l" "rd mb_rchild s par = Some r" "l = a \<or> r = a" using par(2) by auto
    then show ?thesis using par(1) False assms(3) by (auto simp: parent_bad_def)
  qed
qed

lemma D_at:
  assumes "D s p = Some (hdr g hp pv nx n al)"
  shows "rd mb_magic s p = Some HEAP_MEMBLOCK_MAGIC" "rd mb_allocated s p = Some al" "rd mb_prev s p = Some pv" "rd mb_next s p = Some nx"
  using D_rd [of s p] assms by (simp_all only: rd_def option.map hdr_sel)

lemma chk_blocks_ok:
  assumes "seg (D s) g hp pv cs NULL" "pv = NULL \<or> rd mb_next s pv = Some (hd_addr cs NULL)" "NULL \<notin> fst ` set cs"
    "\<forall>a \<in> fst ` set cs. parent_bad s h a = Some False"
  shows "chk_blocks s h (hd_addr cs NULL) = Some ()"
  using assms
proof (induction cs arbitrary: pv)
  case Nil
  then show ?case by (subst chk_blocks.simps) simp
next
  case (Cons c cs)
  obtain a n al where c: "c = (a, n, al)" by (cases c)
  have d: "D s a = Some (hdr g hp pv (hd_addr cs NULL) n al)" "a \<noteq> NULL" and rest: "seg (D s) g hp a cs NULL"
    using Cons.prems c by auto
  note rda = D_at [OF d(1)]
  have next_prev: "hd_addr cs NULL \<noteq> NULL \<Longrightarrow> rd mb_prev s (hd_addr cs NULL) = Some a"
  proof (cases cs)
    case (Cons c' cs')
    then show ?thesis using rest D_at(3) by (cases c') auto
  qed simp
  have "links_bad s a = Some False"
  proof (cases "hd_addr cs NULL = NULL")
    case True
    then show ?thesis using rda Cons.prems(2) c by (auto simp: links_bad_def)
  next
    case False
    then show ?thesis using rda next_prev Cons.prems(2) c by (auto simp: links_bad_def)
  qed
  moreover have "chk_blocks s h (hd_addr cs NULL) = Some ()"
    using Cons.prems rda(4) c by (intro Cons.IH [OF rest]) auto
  ultimately show ?case using rda d(2) Cons.prems(4) c by (subst chk_blocks.simps) simp
qed

lemma first_cell:
  assumes "page_ok (g, at, sz, cs)"
  shows "hd_addr cs NULL = g + 32"
proof -
  obtain a n al cs' where cs: "cs = (a, n, al) # cs'" using assms by (cases cs) auto
  have "unat a = unat g + 32" using assms by (simp add: cs)
  moreover from this have "unat (g + 32) = unat g + 32" using unat_lt_32 [of a] by (intro unat_plus32 [of g 32, simplified]) simp
  ultimately show ?thesis using cs by (simp add: word_unat_eq_iff)
qed

lemma chk_pages_ok:
  assumes "pseg pgs hp pv ps NULL" "\<forall>p \<in> set ps. seg (D s) (fst p) hp NULL (cells p) NULL \<and> page_ok p"
    "\<forall>a \<in> fst ` set (all_cells ps). parent_bad s h a = Some False"
  shows "chk_pages pgs s h (hd_addr ps NULL) = Some ()"
  using assms
proof (induction ps arbitrary: pv)
  case Nil
  then show ?case by (subst chk_pages.simps) simp
next
  case (Cons p ps)
  obtain g at sz cs where p: "p = (g, at, sz, cs)" by (cases p)
  have ok: "page_ok (g, at, sz, cs)" "seg (D s) g hp NULL cs NULL" using Cons.prems(2) p by auto
  have "NULL \<notin> fst ` set cs" using page_addrs [OF ok(1), of NULL] by auto
  then have "chk_blocks s h (hd_addr cs NULL) = Some ()"
    using ok(2) Cons.prems(3) p by (intro chk_blocks_ok [where pv = NULL]) auto
  moreover have "chk_pages pgs s h (hd_addr ps NULL) = Some ()"
    using Cons.prems p by (intro Cons.IH [where pv = g]) auto
  moreover have "g \<noteq> NULL" "rd pb_next pgs g = Some (hd_addr ps NULL)" using ok(1) Cons.prems(1) p by (auto simp: rd_def)
  ultimately show ?case using first_cell [OF ok(1)] p by (subst chk_pages.simps) simp
qed

lemma layout_allocated: "layout pgs d hp ps \<Longrightarrow> (a, n, al) \<in> set (all_cells ps) \<Longrightarrow> rd mb_allocated d a = Some al"
  using layout_cell [of pgs d hp ps a n al] by (auto simp: rd_def)

lemma cell_of: "a \<in> fst ` set cs \<Longrightarrow> \<exists>n al. (a, n, al) \<in> set (cs :: cell list)"
  by force

lemma mid_check:
  assumes "mid st hp x h ps {}" "\<not> ht_lock h" "hp = (if heap = NULL then default_heap st else heap)"
  shows "core_mm_heap_chk st heap = Some st"
proof -
  let ?h = "h\<lparr>p_pg_block_list := hd_addr ps NULL\<rparr>"
  obtain pgs d E U where M: "hs st hp x ?h pgs d E U" "layout pgs d hp ps" "set E = frees ps" "set U = useds ps"
    using assms(1) by (auto simp: mid_def)
  obtain h' where h': "heaps st hp = Some h'" "no_roots h' = ?h" "indexed pgs (blocks st) (p_empty_block_tree h') E"
    "indexed pgs (blocks st) (p_used_block_tree h') U" "pages st = pgs" "D (blocks st) = d" using M(1) by (auto simp: hs_def)
  have "p_pg_block_list (no_roots h') = hd_addr ps NULL" "ht_lock (no_roots h') = ht_lock h" unfolding h'(2) by simp_all
  then have e: "p_pg_block_list h' = hd_addr ps NULL" "\<not> ht_lock h'" using assms(2) by (simp_all add: no_roots_def)
  have pgsok: "chk_pages pgs (blocks st) h1 (hd_addr ps NULL) = Some ()"
    if h1: "p_empty_block_tree h1 = p_empty_block_tree h'" "p_used_block_tree h1 = p_used_block_tree h'" for h1
  proof -
    have "parent_bad (blocks st) h1 a = Some False" if aps: "a \<in> fst ` set (all_cells ps)" for a
    proof -
      obtain n al where c: "(a, n, al) \<in> set (all_cells ps)" using cell_of [OF aps] by blast
      then have al: "rd mb_allocated (blocks st) a = Some al" using layout_allocated [OF M(2)] D_rd(2) [of "blocks st" a] h'(6) by simp
      show ?thesis
      proof (cases al)
        case True
        then have "a \<in> set U" using c M(4) by (auto simp: useds_def)
        then show ?thesis using parent_fine [OF h'(4) _ al] True h1 by simp
      next
        case False
        then have "a \<in> set E" using c M(3) by (auto simp: frees_def)
        then show ?thesis using parent_fine [OF h'(3) _ al] False h1 by simp
      qed
    qed
    then show ?thesis using M(2) h'(6) by (intro chk_pages_ok [where pv = NULL and hp = hp]) (auto simp: layout_def)
  qed
  have trees: "check_tree (blocks st) (p_empty_block_tree h') = Some ()" "check_tree (blocks st) (p_used_block_tree h') = Some ()"
    using h'(3,4) indexed_check by blast+
  have same: "h'\<lparr>ht_lock := False\<rparr> = h'" using e(2) by simp
  have restored: "st\<lparr>heaps := (heaps st)(hp \<mapsto> h'\<lparr>ht_lock := False\<rparr>)\<rparr> = st"
    unfolding same using fun_upd_idem [of "heaps st" hp "Some h'"] h'(1) by simp
  show ?thesis
  proof (cases "ht_type h' AND HEAP_MULITHREAD = 0")
    case True
    then show ?thesis
      using h'(1,5) e trees pgsok [of h'] assms(3) by (auto simp: core_mm_heap_chk_def heap_lock_def heap_unlock_def)
  next
    case False
    then show ?thesis
      using h'(1,5) e trees pgsok [of "h'\<lparr>ht_lock := True\<rparr>"] assms(3) restored
      by (auto simp: core_mm_heap_chk_def heap_lock_def heap_unlock_def on_heap_def wr_def)
  qed
qed

subsection \<open>The invariant of a heap\<close>

text \<open>No two free blocks are neighbours.\<close>

fun calm :: "cell list \<Rightarrow> bool" where
  "calm ((a, n, al) # (b, m, bl) # cs) \<longleftrightarrow> (al \<or> bl) \<and> calm ((b, m, bl) # cs)"
| "calm cs \<longleftrightarrow> True"

text \<open>
  \<open>heap_inv st hp x h ps\<close>: the heap at \<open>hp\<close> is unlocked and stores the pages \<open>ps\<close>; \<open>h\<close> has its type and
  scale and \<open>x\<close> is what the state has beside this heap.
\<close>

definition heap_inv :: "heap_state \<Rightarrow> ptr \<Rightarrow> heap_state \<Rightarrow> heap_t \<Rightarrow> apage list \<Rightarrow> bool" where
  "heap_inv st hp x h ps \<longleftrightarrow> mid st hp x h ps {} \<and> \<not> ht_lock h \<and> hp \<noteq> NULL \<and> (\<forall>p \<in> set ps. calm (cells p))"

lemma heap_check: "heap_inv st hp x h ps \<Longrightarrow> HEAP_CHECK st hp = Some st"
  using mid_check [of st hp x h ps hp] by (simp add: heap_inv_def HEAP_CHECK_def)

lemma mid_locked: "mid st hp x h ps X \<Longrightarrow> \<not> ht_lock h \<Longrightarrow> \<exists>st'. heap_lock st hp = Some st' \<and> mid st' hp x (locked h) ps X"
proof -
  assume "mid st hp x h ps X" "\<not> ht_lock h"
  then obtain pgs d E U where M: "hs st hp x (h\<lparr>p_pg_block_list := hd_addr ps NULL\<rparr>) pgs d E U" "layout pgs d hp ps"
    "set E = frees ps - X" "set U = useds ps" by (auto simp: mid_def)
  have "\<not> ht_lock (h\<lparr>p_pg_block_list := hd_addr ps NULL\<rparr>)" using \<open>\<not> ht_lock h\<close> by simp
  from hs_lock [OF M(1) this] obtain st' where "heap_lock st hp = Some st'"
    "hs st' hp x (locked h\<lparr>p_pg_block_list := hd_addr ps NULL\<rparr>) pgs d E U" by auto
  then show ?thesis using M(2-4) unfolding mid_def by blast
qed

lemma mid_unlocked: "mid st hp x (locked h) ps X \<Longrightarrow> \<not> ht_lock h \<Longrightarrow> \<exists>st'. heap_unlock st hp = Some st' \<and> mid st' hp x h ps X"
proof -
  assume "mid st hp x (locked h) ps X" "\<not> ht_lock h"
  then obtain pgs d E U where M: "hs st hp x (locked (h\<lparr>p_pg_block_list := hd_addr ps NULL\<rparr>)) pgs d E U" "layout pgs d hp ps"
    "set E = frees ps - X" "set U = useds ps" by (auto simp: mid_def)
  have "\<not> ht_lock (h\<lparr>p_pg_block_list := hd_addr ps NULL\<rparr>)" using \<open>\<not> ht_lock h\<close> by simp
  from hs_unlock [OF M(1) this] show ?thesis using M(2-4) unfolding mid_def by blast
qed

end
