(* ===== verification/MmHeapAlloc.thy ===== *)
theory MmHeapAlloc
  imports MmHeapInv
begin

text \<open>
  \<^verbatim>\<open>core_mm_heap_alloc\<close> on the pages of a heap: the smallest free block that is large enough is carved,
  or the one block of a new page.
\<close>

subsection \<open>What allocation and release do to the pages\<close>

definition take_cell :: "ptr \<Rightarrow> u32 \<Rightarrow> apage list \<Rightarrow> apage list" where
  "take_cell p w ps =
     map (\<lambda>(g, at, sz, cs). (g, at, sz, concat (map (\<lambda>(a, n, al). if a = p then carve a n w True else [(a, n, al)]) cs))) ps"

fun merge_free :: "cell list \<Rightarrow> cell list" where
  "merge_free ((a, m, al) # (b, n, bl) # cs) =
     (if \<not> al \<and> \<not> bl then merge_free ((a, m + n, False) # cs) else (a, m, al) # merge_free ((b, n, bl) # cs))"
| "merge_free cs = cs"

text \<open>A page goes away when no block of it is allocated any more, unless it is fixed.\<close>

definition put_cell :: "ptr \<Rightarrow> apage \<Rightarrow> apage list" where
  "put_cell p = (\<lambda>(g, at, sz, cs).
     if p \<in> fst ` set cs
     then let cs' = map (\<lambda>(a, n, al). (a, n, al \<and> a \<noteq> p)) cs
       in if nused cs' = 0 \<and> at AND HEAP_PAGEBLOCK_FIX = 0 then [] else [(g, at, sz, merge_free cs')]
     else [(g, at, sz, cs)])"

lemma carve_other: "p \<notin> fst ` set cs \<Longrightarrow> concat (map (\<lambda>(a, n, al). if a = p then carve a n w True else [(a, n, al)]) cs) = cs"
  by (induction cs) auto

lemma take_cell_append: "take_cell p w (xs @ ys) = take_cell p w xs @ take_cell p w ys"
  by (simp add: take_cell_def)

lemma take_cell_other: "p \<notin> fst ` set (all_cells ps) \<Longrightarrow> take_cell p w ps = ps"
proof (induction ps)
  case (Cons q ps)
  then show ?case by (cases q) (auto simp: take_cell_def carve_other image_Un)
qed (simp add: take_cell_def)

lemma take_cell_focus:
  assumes "p \<notin> fst ` set (all_cells A)" "p \<notin> fst ` set (all_cells B)" "p \<notin> fst ` set xs" "p \<notin> fst ` set ys"
  shows "take_cell p w (A @ (g, at, sz, xs @ (p, n, al) # ys) # B) = A @ (g, at, sz, xs @ carve p n w True @ ys) # B"
proof -
  have "take_cell p w [(g, at, sz, xs @ (p, n, al) # ys)] = [(g, at, sz, xs @ carve p n w True @ ys)]"
    using assms(3,4) by (simp add: take_cell_def carve_other)
  then show ?thesis using take_cell_append [of p w A "(g, at, sz, xs @ (p, n, al) # ys) # B"]
      take_cell_append [of p w "[(g, at, sz, xs @ (p, n, al) # ys)]" B] take_cell_other assms(1,2) by simp
qed

lemma put_cell_other: "p \<notin> fst ` set (all_cells ps) \<Longrightarrow> concat (map (put_cell p) ps) = ps"
  by (induction ps) (auto simp: put_cell_def image_Un)

lemma mark_other: "p \<notin> fst ` set cs \<Longrightarrow> map (\<lambda>(a, n, al). (a, n, al \<and> a \<noteq> p)) cs = cs"
  by (induction cs) auto

lemma put_cell_focus:
  assumes "p \<notin> fst ` set (all_cells A)" "p \<notin> fst ` set (all_cells B)" "p \<notin> fst ` set xs" "p \<notin> fst ` set ys"
  shows "concat (map (put_cell p) (A @ (g, at, sz, xs @ (p, n, al) # ys) # B)) =
    A @ (if nused xs + nused ys = 0 \<and> at AND HEAP_PAGEBLOCK_FIX = 0 then [] else [(g, at, sz, merge_free (xs @ (p, n, False) # ys))]) @ B"
proof -
  have "put_cell p (g, at, sz, xs @ (p, n, al) # ys) =
      (if nused xs + nused ys = 0 \<and> at AND HEAP_PAGEBLOCK_FIX = 0 then [] else [(g, at, sz, merge_free (xs @ (p, n, False) # ys))])"
    using assms(3,4) by (simp add: put_cell_def mark_other Let_def)
  then show ?thesis using put_cell_other assms(1,2) by simp
qed

subsection \<open>Neighbours\<close>

lemma calm_append: "calm (xs @ (p, n, True) # ys) \<longleftrightarrow> calm xs \<and> calm ys"
  by (induction xs rule: calm.induct) (auto, (cases ys; auto)+)

lemma calm_tl: "calm (c # cs) \<Longrightarrow> calm cs"
  by (cases c; cases cs) auto

lemma calm_free: "calm cs \<Longrightarrow> nused cs = 0 \<Longrightarrow> cs = [] \<or> (\<exists>a n. cs = [(a, n, False)])"
  by (cases cs rule: calm.cases) (auto split: if_splits)

lemma merge_calm: "calm cs \<Longrightarrow> merge_free cs = cs"
  by (induction cs rule: merge_free.induct) auto

lemma merge_skip: "calm (xs @ [(a, m, al)]) \<Longrightarrow> merge_free (xs @ (a, m, al) # zs) = xs @ merge_free ((a, m, al) # zs)"
proof (induction xs)
  case (Cons c xs)
  then have IH: "merge_free (xs @ (a, m, al) # zs) = xs @ merge_free ((a, m, al) # zs)" using calm_tl [of c "xs @ [(a, m, al)]"] by simp
  obtain b n bl where c: "c = (b, n, bl)" by (cases c)
  show ?case
  proof (cases xs)
    case Nil
    then show ?thesis using Cons.prems c by auto
  next
    case (Cons c' xs')
    obtain b' n' bl' where "c' = (b', n', bl')" by (cases c')
    then show ?thesis using Cons.prems c IH Cons by auto
  qed
qed simp

lemma calm_merge: "calm (merge_free cs)"
proof (induction cs rule: merge_free.induct)
  case (1 a m al b n bl cs)
  have "\<exists>n' cs'. merge_free ((b, n, bl) # cs) = (b, n', bl) # cs'" for b n bl cs
  proof (induction "(b, n, bl) # cs" arbitrary: n cs rule: merge_free.induct)
    case (1 m c k cl ds)
    then show ?case by auto
  qed simp
  then show ?case using 1 by (metis (no_types, lifting) calm.simps(1) merge_free.simps(1))
qed auto

lemma calm_carve:
  assumes "calm (xs @ (p, n, False) # ys)"
  shows "calm (xs @ carve p n w True @ ys)"
proof -
  have "calm xs \<and> calm ((p, n, False) # ys)"
    using assms by (induction xs rule: calm.induct) (auto dest: calm_tl)
  moreover have "calm ((p, n, False) # ys) \<Longrightarrow> calm ((q, m, False) # ys)" for q m by (cases ys) auto
  ultimately show ?thesis by (auto simp: carve_def calm_append dest: calm_tl)
qed

lemma all_cells_focus:
  assumes "(p, n, al) \<in> set (all_cells ps)"
  shows "\<exists>A g at sz xs ys B. ps = A @ (g, at, sz, xs @ (p, n, al) # ys) # B"
proof -
  obtain P where P: "P \<in> set ps" "(p, n, al) \<in> set (cells P)" using assms by (auto simp: all_cells_def)
  obtain A B where "ps = A @ P # B" using P(1) by (auto simp: in_set_conv_decomp)
  moreover obtain xs ys where "cells P = xs @ (p, n, al) # ys" using P(2) by (auto simp: in_set_conv_decomp)
  moreover obtain g at sz cs where "P = (g, at, sz, cs)" by (cases P)
  ultimately have "ps = A @ (g, at, sz, xs @ (p, n, al) # ys) # B" by simp
  then show ?thesis by blast
qed

subsection \<open>Allocation\<close>

lemma round_up_8: "unat (round_up_8 want) = (unat want + 7) div 8 * 8 \<or> 2 ^ 32 < unat want + 8"
proof (cases "2 ^ 32 < unat want + 8")
  case False
  have d: "unat (want div 8) = unat want div 8" "unat (want mod 8) = unat want mod 8" by (simp_all add: unat_div unat_mod)
  have b: "(unat want div 8 + 1) * 8 \<le> 2 ^ 32 \<or> unat want mod 8 = 0" using False by presburger
  show ?thesis
  proof (cases "unat want mod 8 = 0")
    case True
    then have "want mod 8 = 0" using d(2) by (simp add: word_unat_eq_iff)
    then have "round_up_8 want = want" by (simp add: round_up_8_def)
    moreover have "unat want = (unat want + 7) div 8 * 8" using True by presburger
    ultimately show ?thesis by simp
  next
    case F: False
    then have "want mod 8 \<noteq> 0" using d(2) by (metis unat_0)
    moreover have "(unat want div 8 + 1) * 8 < 2 ^ 32" using False F by presburger
    then have "unat ((want div 8 + 1) * 8) = (unat want div 8 + 1) * 8"
      using d(1) by (simp add: unat_word_ariths)
    ultimately have "unat (round_up_8 want) = (unat want div 8 + 1) * 8" by (simp add: round_up_8_def)
    moreover have "(unat want + 7) div 8 = unat want div 8 + 1" using F by presburger
    ultimately show ?thesis by simp
  qed
qed simp

lemma round_up_8_bounds: "unat want + 8 \<le> 2 ^ 32 \<Longrightarrow> unat want \<le> unat (round_up_8 want) \<and> unat (round_up_8 want) \<le> unat want + 7"
  using round_up_8 [of want] by presburger

lemma mid_best:
  assumes "mid st hp x h ps {}"
  shows "\<exists>p h'. heaps st hp = Some h' \<and> ht_scale h' = ht_scale h \<and> ht_type h' = ht_type h \<and>
    get_free_mem_block (blocks st) (p_empty_block_tree h') w = Some p \<and>
    (if \<exists>a n. (a, n, False) \<in> set (all_cells ps) \<and> unat (w + 48) \<le> unat n
     then \<exists>n. (p, n, False) \<in> set (all_cells ps) \<and> unat (w + 48) \<le> unat n \<and>
        (\<forall>a m. (a, m, False) \<in> set (all_cells ps) \<and> unat (w + 48) \<le> unat m \<longrightarrow> unat n \<le> unat m)
     else p = NULL)"
proof -
  let ?h = "h\<lparr>p_pg_block_list := hd_addr ps NULL\<rparr>"
  obtain pgs d E U where M: "hs st hp x ?h pgs d E U" "layout pgs d hp ps" "set E = frees ps" "set U = useds ps"
    using assms(1) by (auto simp: mid_def)
  obtain h' where h': "heaps st hp = Some h'" "no_roots h' = ?h" "indexed pgs (blocks st) (p_empty_block_tree h') E" "D (blocks st) = d"
    using M(1) by (auto simp: hs_def)
  have "ht_scale (no_roots h') = ht_scale h" "ht_type (no_roots h') = ht_type h" unfolding h'(2) by simp_all
  then have e: "ht_scale h' = ht_scale h" "ht_type h' = ht_type h" by (simp_all add: no_roots_def)
  obtain p where p: "get_free_mem_block (blocks st) (p_empty_block_tree h') w = Some p"
    "best_fit (blocks st) (unat (w + 48)) E p" using get_free_best [OF h'(3)] by blast
  have size: "bsize (blocks st) a = unat n" if c: "(a, n, al) \<in> set (all_cells ps)" for a n al
  proof -
    obtain g pv nx where "D (blocks st) a = Some (hdr g hp pv nx n al)" using layout_cell [OF M(2) c] h'(4) by blast
    then have "bsize (D (blocks st)) a = unat n" by (simp add: bsize_def)
    then show ?thesis by (simp add: bsize_D)
  qed
  have mem: "a \<in> set E \<longleftrightarrow> (\<exists>n. (a, n, False) \<in> set (all_cells ps))" for a using M(3) by (simp add: frees_def)
  have "if \<exists>a n. (a, n, False) \<in> set (all_cells ps) \<and> unat (w + 48) \<le> unat n
     then \<exists>n. (p, n, False) \<in> set (all_cells ps) \<and> unat (w + 48) \<le> unat n \<and>
        (\<forall>a m. (a, m, False) \<in> set (all_cells ps) \<and> unat (w + 48) \<le> unat m \<longrightarrow> unat n \<le> unat m)
     else p = NULL"
  proof (cases "\<exists>a n. (a, n, False) \<in> set (all_cells ps) \<and> unat (w + 48) \<le> unat n")
    case True
    then have "\<exists>a \<in> set E. unat (w + 48) \<le> bsize (blocks st) a" using mem size by metis
    then have b: "p \<in> set E" "unat (w + 48) \<le> bsize (blocks st) p"
      "\<forall>a \<in> set E. unat (w + 48) \<le> bsize (blocks st) a \<longrightarrow> bsize (blocks st) p \<le> bsize (blocks st) a"
      using p(2) by (simp_all add: best_fit_def)
    obtain n where n: "(p, n, False) \<in> set (all_cells ps)" using b(1) mem by blast
    have "unat n \<le> unat m" if "(a, m, False) \<in> set (all_cells ps)" "unat (w + 48) \<le> unat m" for a m
      using b(3) mem [of a] size [OF that(1)] size [OF n] that by auto
    then show ?thesis using True n size [OF n] b(2) by auto
  next
    case False
    then have "\<not> (\<exists>a \<in> set E. unat (w + 48) \<le> bsize (blocks st) a)" using mem size by metis
    then have "p = NULL" using p(2) by (simp add: best_fit_def)
    then show ?thesis by (subst if_not_P [OF False])
  qed
  then show ?thesis using h'(1) e p(1) by blast
qed

lemma alloc_tail:
  assumes "mid st hp x (locked h) (A @ (g, at, sz, xs @ (p, n, False) # ys) # B) {p}" "unat w + 104 < 2 ^ 32"
    "\<not> ht_lock h" "hp \<noteq> NULL" "\<forall>P \<in> set (A @ (g, at, sz, xs @ (p, n, False) # ys) # B). calm (cells P)"
  shows "\<exists>st'. do {
      st \<leftarrow> split_block st hp p w;
      st \<leftarrow> take_block st hp p;
      st \<leftarrow> heap_unlock st hp;
      st \<leftarrow> HEAP_CHECK st hp;
      Some (st, p + HEAP_MEM_BLCK_SZ) } = Some (st', p + 48) \<and>
    heap_inv st' hp x h (take_cell p w (A @ (g, at, sz, xs @ (p, n, False) # ys) # B))"
proof -
  let ?ps = "A @ (g, at, sz, xs @ (p, n, False) # ys) # B"
  let ?ps' = "A @ (g, at, sz, xs @ carve p n w True @ ys) # B"
  obtain s1 where s1: "split_block st hp p w = Some s1" "mid s1 hp x (locked h) (A @ (g, at, sz, xs @ carve p n w False @ ys) # B) {p}"
    using mid_split [OF assms(1,2)] by blast
  have "\<exists>m zs. carve p n w False = (p, m, False) # zs \<and> carve p n w True = (p, m, True) # zs" by (simp add: carve_def)
  then obtain m zs where c: "carve p n w False = (p, m, False) # zs" "carve p n w True = (p, m, True) # zs" by blast
  obtain s2 where s2: "take_block s1 hp p = Some s2" "mid s2 hp x (locked h) ?ps' {}"
    using mid_take [of s1 hp x "locked h" A g at sz xs p m "zs @ ys" B] s1(2) by (auto simp: c)
  obtain s3 where s3: "heap_unlock s2 hp = Some s3" "mid s3 hp x h ?ps' {}"
    using mid_unlocked [OF s2(2) assms(3)] by blast
  obtain pgs d E U where "around pgs d hp A g sz B" "page_ok (g, at, sz, xs @ (p, n, False) # ys)"
    using mid_open [OF assms(1)] by blast
  note p = focus_cell [OF this]
  have e: "take_cell p w ?ps = ?ps'" by (rule take_cell_focus) (use p in auto)
  have inv: "heap_inv s3 hp x h ?ps'"
    using s3(2) assms(3-5) calm_carve by (auto simp: heap_inv_def)
  have "HEAP_CHECK s3 hp = Some s3" using heap_check [OF inv] .
  then show ?thesis using s1(1) s2(1) s3(1) inv e by simp
qed

lemma heap_lock_blocks: "heap_lock st hp = Some s \<Longrightarrow> blocks s = blocks st"
  by (auto simp: heap_lock_def on_heap_def bind_eq_Some_conv split: if_splits)

lemma mid_cell_nonNULL: "mid st hp x h ps X \<Longrightarrow> (p, n, al) \<in> set (all_cells ps) \<Longrightarrow> p \<noteq> NULL"
  using layout_cell by (fastforce simp: mid_def)

lemma heap_alloc_ok:
  assumes inv: "heap_inv st hp x h ps"
    and hp: "hp = (if heap = NULL then default_heap st else heap)" "heap \<noteq> NULL \<or> is_default_heap_ready st"
    and w: "w = round_up_8 want" "unat w + 104 < 2 ^ 32" and new: "new = NULL \<or> fresh_page ps new (ht_scale h)"
  shows "\<exists>st' r. core_mm_heap_alloc st want heap new = Some (st', r) \<and>
    (if unat (ht_scale h) < unat w + 48 then r = NULL \<and> st' = st
     else if \<exists>a n. (a, n, False) \<in> set (all_cells ps) \<and> unat w + 48 \<le> unat n
     then \<exists>p n. r = p + 48 \<and> (p, n, False) \<in> set (all_cells ps) \<and> unat w + 48 \<le> unat n \<and>
        (\<forall>a m. (a, m, False) \<in> set (all_cells ps) \<and> unat w + 48 \<le> unat m \<longrightarrow> unat n \<le> unat m) \<and>
        heap_inv st' hp x h (take_cell p w ps)
     else if ht_type h AND HEAP_PREALLOC \<noteq> 0 \<or> new = NULL then r = NULL \<and> heap_inv st' hp x h ps
     else r = new + 32 + 48 \<and>
       heap_inv st' hp x h (take_cell (new + 32) w (ps @ [(new, 0, ht_scale h, [(new + 32, ht_scale h - 32, False)])])))"
proof -
  have m: "mid st hp x h ps {}" "\<not> ht_lock h" "hp \<noteq> NULL" "\<forall>P \<in> set ps. calm (cells P)" using inv by (auto simp: heap_inv_def)
  have w48: "unat (w + 48) = unat w + 48" using w(2) by (intro unat_plus32 [of w 48, simplified]) simp
  obtain p h' where p: "heaps st hp = Some h'" "ht_scale h' = ht_scale h" "ht_type h' = ht_type h"
    "get_free_mem_block (blocks st) (p_empty_block_tree h') w = Some p"
    "if \<exists>a n. (a, n, False) \<in> set (all_cells ps) \<and> unat w + 48 \<le> unat n
     then \<exists>n. (p, n, False) \<in> set (all_cells ps) \<and> unat w + 48 \<le> unat n \<and>
        (\<forall>a m. (a, m, False) \<in> set (all_cells ps) \<and> unat w + 48 \<le> unat m \<longrightarrow> unat n \<le> unat m)
     else p = NULL" using mid_best [OF m(1), of w] unfolding w48 by blast
  have test: "ht_scale h < w + 48 \<longleftrightarrow> unat (ht_scale h) < unat w + 48" by (simp add: word_less_nat_alt w48)
  have alloc: "core_mm_heap_alloc st want heap new =
    (if ht_scale h < w + 48 then Some (st, NULL)
     else do {
       st \<leftarrow> heap_lock st hp;
       p_mem_block \<leftarrow> get_free_mem_block (blocks st) (p_empty_block_tree h') w;
       (st, p_mem_block) \<leftarrow>
         (if p_mem_block = NULL
          then if ht_type h AND HEAP_PREALLOC \<noteq> 0 \<or> new = NULL then Some (st, NULL) else new_page st hp new
          else do { st \<leftarrow> empty_remove st hp p_mem_block; Some (st, p_mem_block) });
       if p_mem_block = NULL then do { st \<leftarrow> heap_unlock st hp; Some (st, NULL) }
       else do {
         st \<leftarrow> split_block st hp p_mem_block w;
         st \<leftarrow> take_block st hp p_mem_block;
         st \<leftarrow> heap_unlock st hp;
         st \<leftarrow> HEAP_CHECK st hp;
         Some (st, p_mem_block + HEAP_MEM_BLCK_SZ) } })"
    using hp p(1-3) w(1) by (auto simp: core_mm_heap_alloc_def Let_def cong: if_cong)
  obtain s0 where s0: "heap_lock st hp = Some s0" "mid s0 hp x (locked h) ps {}" using mid_locked [OF m(1,2)] by blast
  note free = p(4) [folded heap_lock_blocks [OF s0(1)]]
  consider "unat (ht_scale h) < unat w + 48"
    | "unat w + 48 \<le> unat (ht_scale h)" "\<exists>a n. (a, n, False) \<in> set (all_cells ps) \<and> unat w + 48 \<le> unat n"
    | "unat w + 48 \<le> unat (ht_scale h)" "\<not> (\<exists>a n. (a, n, False) \<in> set (all_cells ps) \<and> unat w + 48 \<le> unat n)"
      "ht_type h AND HEAP_PREALLOC \<noteq> 0 \<or> new = NULL"
    | "unat w + 48 \<le> unat (ht_scale h)" "\<not> (\<exists>a n. (a, n, False) \<in> set (all_cells ps) \<and> unat w + 48 \<le> unat n)"
      "\<not> (ht_type h AND HEAP_PREALLOC \<noteq> 0 \<or> new = NULL)" using not_le by blast
  then show ?thesis
  proof cases
    case 1
    then show ?thesis using alloc test by simp
  next
    case 2
    then obtain n where n: "(p, n, False) \<in> set (all_cells ps)" "unat w + 48 \<le> unat n"
      "\<forall>a m. (a, m, False) \<in> set (all_cells ps) \<and> unat w + 48 \<le> unat m \<longrightarrow> unat n \<le> unat m" using p(5) by meson
    obtain A g at sz xs ys B where ps: "ps = A @ (g, at, sz, xs @ (p, n, False) # ys) # B" using all_cells_focus [OF n(1)] by blast
    have "p \<in> frees ps - {}" using n(1) by (auto simp: frees_def)
    then obtain s1 where s1: "empty_remove s0 hp p = Some s1" "mid s1 hp x (locked h) ps {p}"
      using mid_empty_remove [OF s0(2)] by blast
    obtain st' where st': "do {
        st \<leftarrow> split_block s1 hp p w;
        st \<leftarrow> take_block st hp p;
        st \<leftarrow> heap_unlock st hp;
        st \<leftarrow> HEAP_CHECK st hp;
        Some (st, p + HEAP_MEM_BLCK_SZ) } = Some (st', p + 48)" "heap_inv st' hp x h (take_cell p w ps)"
      using alloc_tail [OF s1(2) [unfolded ps] w(2) m(2,3) m(4) [unfolded ps]] unfolding ps by blast
    have "core_mm_heap_alloc st want heap new = Some (st', p + 48)"
      using alloc 2 test s0(1) free s1(1) st'(1) mid_cell_nonNULL [OF m(1) n(1)] by simp
    then show ?thesis using 2 n st'(2) by auto
  next
    case 3
    then have "p = NULL" using p(5) by auto
    obtain s1 where s1: "heap_unlock s0 hp = Some s1" "mid s1 hp x h ps {}" using mid_unlocked [OF s0(2) m(2)] by blast
    have "core_mm_heap_alloc st want heap new = Some (s1, NULL)"
      using alloc 3 test s0(1) free s1(1) \<open>p = NULL\<close> by auto
    then show ?thesis using 3 s1(2) m by (auto simp: heap_inv_def)
  next
    case 4
    then have "p = NULL" and fr: "fresh_page ps new (ht_scale (locked h))" using p(5) new by auto
    let ?P = "(new, 0 :: u32, ht_scale h, [(new + 32, ht_scale h - 32, False)])"
    obtain s1 where s1: "new_page s0 hp new = Some (s1, new + 32)" "mid s1 hp x (locked h) (ps @ [?P]) {new + 32}"
      using mid_new_page [OF s0(2) fr] by auto
    have "(new + 32, ht_scale h - 32, False) \<in> set (all_cells (ps @ [?P]))" by simp
    then have nn: "new + 32 \<noteq> NULL" using mid_cell_nonNULL [OF s1(2)] by blast
    obtain st' where st': "do {
        st \<leftarrow> split_block s1 hp (new + 32) w;
        st \<leftarrow> take_block st hp (new + 32);
        st \<leftarrow> heap_unlock st hp;
        st \<leftarrow> HEAP_CHECK st hp;
        Some (st, new + 32 + HEAP_MEM_BLCK_SZ) } = Some (st', new + 32 + 48)" "heap_inv st' hp x h (take_cell (new + 32) w (ps @ [?P]))"
      using alloc_tail [of s1 hp x h ps new 0 "ht_scale h" "[]" "new + 32" "ht_scale h - 32" "[]" "[]", OF _ w(2) m(2,3)] s1(2) m(4) by auto
    have "core_mm_heap_alloc st want heap new = Some (st', new + 32 + 48)"
      using alloc 4 test s0(1) free s1(1) st'(1) nn \<open>p = NULL\<close> by simp
    then show ?thesis using 4 st'(2) by auto
  qed
qed

end
