(* ===== verification/MmHeapFree.thy ===== *)
theory MmHeapFree
  imports MmHeapAlloc
begin

text \<open>
  \<^verbatim>\<open>core_mm_heap_free\<close> on the pages of a heap: joining with the free neighbours, or giving the page back.
\<close>

lemma mid_at:
  assumes "mid st hp x h (A @ (g, at, sz, xs @ (p, n, al) # ys) # B) X"
  shows "rd mb_prev (blocks st) p = Some (last_addr NULL xs)" "rd mb_next (blocks st) p = Some (hd_addr ys NULL)"
    "rd mb_pg_block (blocks st) p = Some g" "rd mb_allocated (blocks st) p = Some al"
    "rd pb_ref (pages st) g = Some (word_of_nat (nused (xs @ (p, n, al) # ys)))" "rd pb_attr (pages st) g = Some at"
proof -
  let ?h = "h\<lparr>p_pg_block_list := hd_addr (A @ (g, at, sz, xs @ (p, n, al) # ys) # B) NULL\<rparr>"
  obtain pgs d E U where M: "hs st hp x ?h pgs d E U"
    "pgs g = Some (phdr hp (last_addr NULL A) (hd_addr B NULL) at sz (nused (xs @ (p, n, al) # ys)))"
    "seg d g hp NULL (xs @ (p, n, al) # ys) NULL" using mid_open [OF assms] by blast
  have "d p = Some (hdr g hp (last_addr NULL xs) (hd_addr ys NULL) n al)" using M(3) by simp
  note a = hs_at [OF M(1) this]
  show "rd mb_prev (blocks st) p = Some (last_addr NULL xs)" "rd mb_next (blocks st) p = Some (hd_addr ys NULL)"
    "rd mb_pg_block (blocks st) p = Some g" "rd mb_allocated (blocks st) p = Some al" using a by simp_all
  show "rd pb_ref (pages st) g = Some (word_of_nat (nused (xs @ (p, n, al) # ys)))" "rd pb_attr (pages st) g = Some at"
    using hs_rd(8) [OF M(1)] M(2) by (simp_all only: rd_def option.map phdr_sel)
qed

lemma mid_page_ok: "mid st hp x h (A @ (g, at, sz, cs) # B) X \<Longrightarrow> page_ok (g, at, sz, cs)"
  using mid_open by blast

lemma nused_small:
  assumes "page_ok (g, at, sz, cs)"
  shows "(word_of_nat (nused cs) :: u64) = 0 \<longleftrightarrow> nused cs = 0"
proof -
  have "unat g + 32 + 48 * length cs \<le> unat g + unat sz" using assms tiles_bounds(3) by simp
  moreover have "nused cs \<le> length cs" by (simp add: nused_def)
  moreover have "unat g + unat sz \<le> 2 ^ 32" using assms by simp
  ultimately have "nused cs < 2 ^ 64" by simp
  then have "unat (word_of_nat (nused cs) :: u64) = nused cs" by (simp add: unat_of_nat)
  then show ?thesis by (metis unat_0 unat_eq_0)
qed

text \<open>The two joins.\<close>

lemma mid_join_prev:
  assumes m: "mid st hp x h (A @ (g, at, sz, xs @ (p, n, False) # ys) # B) {p}" and c: "calm xs"
  shows "\<exists>st' xs' p' n'. join_prev st hp p = Some (st', p') \<and> mid st' hp x h (A @ (g, at, sz, xs' @ (p', n', False) # ys) # B) {p'} \<and>
    calm xs' \<and> (xs' \<noteq> [] \<longrightarrow> snd (snd (last xs'))) \<and>
    (\<forall>zs. merge_free (xs @ (p, n, False) # zs) = xs' @ merge_free ((p', n', False) # zs))"
proof (cases xs rule: rev_cases)
  case Nil
  then have "join_prev st hp p = Some (st, p)" using mid_at(1) [OF m] by (simp add: join_prev_def)
  then show ?thesis using m Nil by (intro exI [of _ st] exI [of _ "[]"] exI [of _ p] exI [of _ n]) simp
next
  case (snoc xs0 q)
  obtain a k al where q: "q = (a, k, al)" by (cases q)
  have m': "mid st hp x h (A @ (g, at, sz, xs0 @ (a, k, al) # (p, n, False) # ys) # B) {p}" using m snoc q by simp
  have a: "a \<noteq> NULL" "a \<noteq> p"
    using page_addrs [OF mid_page_ok [OF m'], of a] mid_page_ok [OF m'] by (auto simp: tiles_append)
  note rda = mid_at(4) [OF m'] and rdp = mid_at(1) [OF m]
  show ?thesis
  proof (cases al)
    case True
    then have "join_prev st hp p = Some (st, p)" using rda rdp snoc q a by (simp add: join_prev_def)
    moreover have "merge_free (xs @ (p, n, False) # zs) = xs @ merge_free ((p, n, False) # zs)" for zs
      using merge_skip [of xs0 a k al "(p, n, False) # zs"] c snoc q True by simp
    ultimately show ?thesis using m c snoc q True by (intro exI [of _ st] exI [of _ xs] exI [of _ p] exI [of _ n]) simp
  next
    case False
    have "a \<in> frees (A @ (g, at, sz, xs0 @ (a, k, al) # (p, n, False) # ys) # B) - {p}"
      using False a by (simp add: frees_fr)
    then obtain s1 where s1: "empty_remove st hp a = Some s1"
      "mid s1 hp x h (A @ (g, at, sz, xs0 @ (a, k, al) # (p, n, False) # ys) # B) {a, p}"
      using mid_empty_remove [OF m'] by blast
    obtain s2 where s2: "absorb_next s1 a p = Some s2" "mid s2 hp x h (A @ (g, at, sz, xs0 @ (a, k + n, False) # ys) # B) {a}"
      using mid_absorb [of s1 hp x h A g at sz xs0 a k p n ys B] s1(2) False by auto
    have "join_prev st hp p = Some (s2, a)" using rda rdp snoc q a False s1(1) s2(1) by (simp add: join_prev_def)
    moreover have "calm xs0 \<and> (xs0 \<noteq> [] \<longrightarrow> snd (snd (last xs0)))"
      using c snoc q False by (induction xs0 arbitrary: xs rule: calm.induct) (auto simp: last.simps)
    moreover have "merge_free (xs @ (p, n, False) # zs) = xs0 @ merge_free ((a, k + n, False) # zs)" for zs
      using merge_skip [of xs0 a k al "(p, n, False) # zs"] c snoc q False by simp
    ultimately show ?thesis using s2(2) by (intro exI [of _ s2] exI [of _ xs0] exI [of _ a] exI [of _ "k + n"]) simp
  qed
qed

lemma mid_join_next:
  assumes m: "mid st hp x h (A @ (g, at, sz, xs @ (p, n, False) # ys) # B) {p}" and c: "calm ys"
  shows "\<exists>st' m'. join_next st hp p = Some st' \<and>
    (\<exists>ys'. merge_free ((p, n, False) # ys) = (p, m', False) # ys' \<and> mid st' hp x h (A @ (g, at, sz, xs @ (p, m', False) # ys') # B) {p})"
proof (cases ys)
  case Nil
  then have "join_next st hp p = Some st" using mid_at(2) [OF m] by (simp add: join_next_def)
  then show ?thesis using m Nil by auto
next
  case (Cons q ys0)
  obtain b k bl where q: "q = (b, k, bl)" by (cases q)
  have m': "mid st hp x h (A @ (g, at, sz, (xs @ [(p, n, False)]) @ (b, k, bl) # ys0) # B) {p}" using m Cons q by simp
  have b: "b \<noteq> NULL" "b \<noteq> p"
    using page_addrs [OF mid_page_ok [OF m'], of b] mid_page_ok [OF m'] by (auto simp: tiles_append)
  note rdb = mid_at(4) [OF m'] and rdp = mid_at(2) [OF m]
  show ?thesis
  proof (cases bl)
    case True
    then have "join_next st hp p = Some st" using rdb rdp Cons q b by (simp add: join_next_def)
    moreover have "merge_free ((p, n, False) # ys) = (p, n, False) # ys" using c Cons q True merge_calm by simp
    ultimately show ?thesis using m by blast
  next
    case False
    have "b \<in> frees (A @ (g, at, sz, (xs @ [(p, n, False)]) @ (b, k, bl) # ys0) # B) - {p}"
      using False b by (simp add: frees_fr)
    then obtain s1 where s1: "empty_remove st hp b = Some s1"
      "mid s1 hp x h (A @ (g, at, sz, (xs @ [(p, n, False)]) @ (b, k, bl) # ys0) # B) {b, p}"
      using mid_empty_remove [OF m'] by blast
    obtain s2 where s2: "absorb_next s1 p b = Some s2" "mid s2 hp x h (A @ (g, at, sz, xs @ (p, n + k, False) # ys0) # B) {p}"
      using mid_absorb [of s1 hp x h A g at sz xs p n b k ys0 B] s1(2) False by (auto simp: insert_commute)
    have "join_next st hp p = Some s2" using rdb rdp Cons q b False s1(1) s2(1) by (simp add: join_next_def)
    moreover have "merge_free ((p, n, False) # ys) = (p, n + k, False) # ys0"
    proof -
      have "calm ((p, n + k, False) # ys0)" using c Cons q False by (cases ys0) auto
      then show ?thesis using Cons q False merge_calm by simp
    qed
    ultimately show ?thesis using s2(2) by blast
  qed
qed

lemma mid_release_page:
  assumes m: "mid st hp x h (A @ (g, at, sz, xs @ (p, n, False) # ys) # B) {p}" and c: "calm xs" "calm ys" "nused xs + nused ys = 0"
  shows "\<exists>st'. release_page st hp p = Some st' \<and> mid st' hp x h (A @ B) {}"
proof -
  let ?ps = "A @ (g, at, sz, xs @ (p, n, False) # ys) # B"
  have ok: "page_ok (g, at, sz, xs @ (p, n, False) # ys)" using mid_page_ok [OF m] .
  obtain s1 where s1: "(if last_addr NULL xs \<noteq> NULL then empty_remove st hp (last_addr NULL xs) else Some st) = Some s1"
    "mid s1 hp x h ?ps (insert p (fr xs))"
  proof (cases xs)
    case Nil
    then show ?thesis using that [of st] m by simp
  next
    case (Cons q xs0)
    then obtain a k where xs: "xs = [(a, k, False)]" using calm_free [OF c(1)] c(3) by auto
    have "a \<noteq> NULL" "a \<noteq> p" using page_addrs [OF ok, of a] ok xs by auto
    moreover from this have "a \<in> frees ?ps - {p}" using xs by (simp add: frees_fr)
    then obtain s1 where "empty_remove st hp a = Some s1" "mid s1 hp x h ?ps {a, p}" using mid_empty_remove [OF m] by blast
    ultimately show ?thesis using that [of s1] xs by (simp add: insert_commute)
  qed
  obtain s2 where s2: "(if hd_addr ys NULL \<noteq> NULL then empty_remove s1 hp (hd_addr ys NULL) else Some s1) = Some s2"
    "mid s2 hp x h ?ps (insert p (fr xs \<union> fr ys))"
  proof (cases ys)
    case Nil
    then show ?thesis using that [of s1] s1(2) by simp
  next
    case (Cons q ys0)
    then obtain b k where ys: "ys = [(b, k, False)]" using calm_free [OF c(2)] c(3) by auto
    obtain pgs d E U where "around pgs d hp A g sz B" using mid_open [OF m] by blast
    note fc = focus_cell [OF this ok]
    have b: "b \<noteq> NULL" "b \<notin> insert p (fr xs)" using fc ys fr_sub(1) [of b xs] by auto
    then have "b \<in> frees ?ps - insert p (fr xs)" using ys by (simp add: frees_fr)
    then obtain s2 where "empty_remove s1 hp b = Some s2" "mid s2 hp x h ?ps (insert b (insert p (fr xs)))"
      using mid_empty_remove [OF s1(2)] by blast
    then show ?thesis using that [of s2] ys b by (simp add: insert_commute)
  qed
  have rdn: "rd mb_next (blocks s1) p = Some (hd_addr ys NULL)" using mid_at(2) [OF s1(2)] .
  have "us (xs @ (p, n, False) # ys) = {}" using c(3) by (auto simp: us_def nused_def filter_empty_conv)
  moreover have "insert p (fr xs \<union> fr ys) = fr (xs @ (p, n, False) # ys)" by auto
  ultimately obtain s3 s4 where "unlink_page s2 hp g = Some s3" "unmap_pages s3 g = Some s4" "mid s4 hp x h (A @ B) {}"
    using mid_release [of s2 hp x h A g at sz "xs @ (p, n, False) # ys" B] s2(2) by auto
  then show ?thesis using mid_at(1,3) [OF m] s1(1) s2(1) rdn by (auto simp: release_page_def)
qed

subsection \<open>core\_mm\_heap\_free\<close>

lemma heap_free_ok:
  assumes inv: "heap_inv st hp x h ps" and hp: "hp = (if heap = NULL then default_heap st else heap)"
    and p: "(p, n, True) \<in> set (all_cells ps)"
  shows "\<exists>st'. core_mm_heap_free st (p + 48) heap = Some st' \<and> heap_inv st' hp x h (concat (map (put_cell p) ps))"
proof -
  have m: "mid st hp x h ps {}" "\<not> ht_lock h" "hp \<noteq> NULL" "\<forall>P \<in> set ps. calm (cells P)" using inv by (auto simp: heap_inv_def)
  obtain A g at sz xs ys B where ps: "ps = A @ (g, at, sz, xs @ (p, n, True) # ys) # B" using all_cells_focus [OF p] by blast
  have c: "calm xs" "calm ys" "\<forall>P \<in> set (A @ B). calm (cells P)" using m(4) by (auto simp: ps calm_append)
  obtain s0 where s0: "heap_lock st hp = Some s0" "mid s0 hp x (locked h) ps {}" using mid_locked [OF m(1,2)] by blast
  obtain s1 where s1: "drop_block s0 hp p = Some s1" "mid s1 hp x (locked h) (A @ (g, at, sz, xs @ (p, n, False) # ys) # B) {p}"
    using mid_drop [OF s0(2) [unfolded ps]] by blast
  have ok: "page_ok (g, at, sz, xs @ (p, n, False) # ys)" using mid_page_ok [OF s1(2)] .
  obtain pgs d E U where ar: "around pgs d hp A g sz B" using mid_open [OF s1(2)] by blast
  note fc = focus_cell [OF ar ok]
  let ?gone = "nused xs + nused ys = 0 \<and> at AND HEAP_PAGEBLOCK_FIX = 0"
  have e: "concat (map (put_cell p) ps) = A @ (if ?gone then [] else [(g, at, sz, merge_free (xs @ (p, n, False) # ys))]) @ B"
    unfolding ps using fc by (intro put_cell_focus) auto
  have ref: "(word_of_nat (nused (xs @ (p, n, False) # ys)) :: u64) = 0 \<longleftrightarrow> nused xs + nused ys = 0"
    using nused_small [OF ok] by simp
  obtain s2 where s2: "(if ?gone then release_page s1 hp p
      else do { (st, p_mem_block) \<leftarrow> join_prev s1 hp p; st \<leftarrow> join_next st hp p_mem_block; empty_insert st hp p_mem_block }) = Some s2"
    "mid s2 hp x (locked h) (concat (map (put_cell p) ps)) {}"
  proof (cases ?gone)
    case True
    then show ?thesis using that mid_release_page [OF s1(2) c(1,2)] e by auto
  next
    case False
    obtain t1 xs' p' n' where t1: "join_prev s1 hp p = Some (t1, p')"
      "mid t1 hp x (locked h) (A @ (g, at, sz, xs' @ (p', n', False) # ys) # B) {p'}"
      "\<forall>zs. merge_free (xs @ (p, n, False) # zs) = xs' @ merge_free ((p', n', False) # zs)"
      using mid_join_prev [OF s1(2) c(1)] by blast
    obtain t2 m' ys' where t2: "join_next t1 hp p' = Some t2" "merge_free ((p', n', False) # ys) = (p', m', False) # ys'"
      "mid t2 hp x (locked h) (A @ (g, at, sz, xs' @ (p', m', False) # ys') # B) {p'}"
      using mid_join_next [OF t1(2) c(2)] by blast
    have "p' \<in> frees (A @ (g, at, sz, xs' @ (p', m', False) # ys') # B)" by (simp add: frees_fr)
    then obtain t3 where t3: "empty_insert t2 hp p' = Some t3" "mid t3 hp x (locked h) (A @ (g, at, sz, xs' @ (p', m', False) # ys') # B) {}"
      using mid_empty_insert [OF t2(3)] by auto
    have g: "concat (map (put_cell p) ps) = A @ (g, at, sz, xs' @ (p', m', False) # ys') # B"
      unfolding e if_not_P [OF False] using t1(3) t2(2) by simp
    show ?thesis
    proof (rule that [of t3])
      show "(if ?gone then release_page s1 hp p
        else do { (st, p_mem_block) \<leftarrow> join_prev s1 hp p; st \<leftarrow> join_next st hp p_mem_block; empty_insert st hp p_mem_block }) = Some t3"
        unfolding if_not_P [OF False] using t1(1) t2(1) t3(1) by simp
      show "mid t3 hp x (locked h) (concat (map (put_cell p) ps)) {}" unfolding g using t3(2) .
    qed
  qed
  obtain s3 where s3: "heap_unlock s2 hp = Some s3" "mid s3 hp x h (concat (map (put_cell p) ps)) {}"
    using mid_unlocked [OF s2(2) m(2)] by blast
  have inv3: "heap_inv s3 hp x h (concat (map (put_cell p) ps))"
    using s3(2) m c(3) calm_merge by (auto simp: heap_inv_def e)
  have "core_mm_heap_free st (p + 48) heap = Some s3"
    using s0(1) s1(1) mid_at(3,5,6) [OF s1(2)] ref s2(1) s3(1) heap_check [OF inv3]
    by (simp add: core_mm_heap_free_def hp [symmetric])
  then show ?thesis using inv3 by blast
qed

end
