(* ===== verification/MmHeapAreas.thy ===== *)
theory MmHeapAreas
  imports MmHeapFree
begin

text \<open>
  The areas that a heap has handed out: they never meet, and what an allocation and a release do to them.
\<close>

subsection \<open>Allocated areas\<close>

text \<open>\<open>areas ps\<close>: the areas handed out, each with the size the caller may use.\<close>

definition areas :: "apage list \<Rightarrow> (ptr \<times> nat) set" where
  "areas ps = {(a + 48, unat n - 48) | a n. (a, n, True) \<in> set (all_cells ps)}"

lemma areas_cong: "(\<And>a n. (a, n, True) \<in> set (all_cells qs) \<longleftrightarrow> (a, n, True) \<in> set (all_cells ps)) \<Longrightarrow> areas qs = areas ps"
  by (simp add: areas_def)

lemma merge_used: "(a, n, True) \<in> set (merge_free cs) \<longleftrightarrow> (a, n, True) \<in> set cs"
  by (induction cs rule: merge_free.induct) auto

lemma one_cell:
  assumes "distinct (map fst cs)" "(a, x) \<in> set cs" "(a, y) \<in> set cs"
  shows "x = y"
  using assms eq_key_imp_eq_value by metis

lemma nused_0: "nused cs = 0 \<longleftrightarrow> (\<forall>a n. (a, n, True) \<notin> set cs)"
  by (auto simp: nused_def filter_empty_conv)

text \<open>The bytes of two blocks of a heap never meet, header included.\<close>

lemma tiles_apart:
  assumes "tiles x cs e" "(a, n, al) \<in> set cs" "(b, m, bl) \<in> set cs" "a \<noteq> b"
  shows "{unat a ..< unat a + unat n} \<inter> {unat b ..< unat b + unat m} = {}"
  using assms
proof (induction cs arbitrary: x)
  case (Cons c cs)
  obtain q k ql where c: "c = (q, k, ql)" by (cases c)
  have "unat q + unat k \<le> unat y" if "(y, z, yl) \<in> set cs" for y z yl
    using tiles_bounds(2) [of "x + unat k" cs e y z yl] Cons.prems(1) c that by simp
  note below = this
  have apart: "{unat q ..< unat q + unat k} \<inter> {unat y ..< unat y + unat z} = {}" if "(y, z, yl) \<in> set cs" for y z yl
    using below [OF that] by auto
  consider "(a, n, al) = c" "(b, m, bl) \<in> set cs" | "(b, m, bl) = c" "(a, n, al) \<in> set cs" | "(a, n, al) \<in> set cs" "(b, m, bl) \<in> set cs"
    using Cons.prems(2-4) by auto
  then show ?case
  proof cases
    case 1
    then show ?thesis using apart [OF 1(2)] c by simp
  next
    case 2
    then show ?thesis using apart [OF 2(2)] c by (simp add: Int_commute)
  next
    case 3
    have "tiles (x + unat k) cs e" using Cons.prems(1) c by simp
    then show ?thesis using Cons.IH 3 Cons.prems(4) by blast
  qed
qed simp

lemma cells_apart:
  assumes "layout pgs d hp ps" "(a, n, al) \<in> set (all_cells ps)" "(b, m, bl) \<in> set (all_cells ps)" "a \<noteq> b"
  shows "{unat a ..< unat a + unat n} \<inter> {unat b ..< unat b + unat m} = {}"
proof -
  obtain p where p: "p \<in> set ps" "(a, n, al) \<in> set (cells p)" using assms(2) by (auto simp: all_cells_def)
  obtain q where q: "q \<in> set ps" "(b, m, bl) \<in> set (cells q)" using assms(3) by (auto simp: all_cells_def)
  obtain g at sz cs where P: "p = (g, at, sz, cs)" by (cases p)
  obtain g' at' sz' cs' where Q: "q = (g', at', sz', cs')" by (cases q)
  have ok: "page_ok p" "page_ok q" using assms(1) p(1) q(1) by (auto simp: layout_def)
  show ?thesis
  proof (cases "p = q")
    case True
    have "tiles (unat g + 32) (cells p) (unat g + unat sz)" using ok(1) P by simp
    then show ?thesis using tiles_apart p(2) q(2) assms(4) True by blast
  next
    case False
    have "apart p q \<or> apart q p" using assms(1) p(1) q(1) False by (auto simp: layout_def sorted_wrt_iff_nth_less in_set_conv_nth) (metis nat_neq_iff)
    then have "ivl p \<inter> ivl q = {}" by (auto simp: apart_def)
    moreover have "{unat a ..< unat a + unat n} \<subseteq> ivl p" using page_cells [of g at sz cs a n al] ok(1) p(2) P by auto
    moreover have "{unat b ..< unat b + unat m} \<subseteq> ivl q" using page_cells [of g' at' sz' cs' b m bl] ok(2) q(2) Q by auto
    ultimately show ?thesis by blast
  qed
qed

definition below_top :: "apage list \<Rightarrow> bool" where
  "below_top ps \<longleftrightarrow> (\<forall>(g, at, sz, cs) \<in> set ps. unat g + unat sz < 2 ^ 32)"

lemma area_bounds:
  assumes "layout pgs d hp ps" "below_top ps" "(a, n, True) \<in> set (all_cells ps)"
  shows "unat (a + 48) = unat a + 48" "unat a + unat n < 2 ^ 32" "48 \<le> unat n"
proof -
  obtain p where p: "p \<in> set ps" "(a, n, True) \<in> set (cells p)" using assms(3) by (auto simp: all_cells_def)
  obtain g at sz cs where P: "p = (g, at, sz, cs)" by (cases p)
  have "page_ok (g, at, sz, cs)" "unat g + unat sz < 2 ^ 32" using assms p(1) P by (auto simp: layout_def below_top_def)
  then show "unat a + unat n < 2 ^ 32" "48 \<le> unat n" using page_cells [of g at sz cs a n True] p(2) P by auto
  then show "unat (a + 48) = unat a + 48" by (intro unat_plus32 [of a 48, simplified]) simp
qed

lemma areas_apart:
  assumes "layout pgs d hp ps" "below_top ps" "(a, n) \<in> areas ps" "(b, m) \<in> areas ps" "(a, n) \<noteq> (b, m)"
  shows "a \<noteq> b \<and> {unat a ..< unat a + n} \<inter> {unat b ..< unat b + m} = {}"
proof -
  obtain p k where p: "a = p + 48" "n = unat k - 48" "(p, k, True) \<in> set (all_cells ps)" using assms(3) by (auto simp: areas_def)
  obtain q l where q: "b = q + 48" "m = unat l - 48" "(q, l, True) \<in> set (all_cells ps)" using assms(4) by (auto simp: areas_def)
  have "p \<noteq> q" using one_cell [OF layout_distinct [OF assms(1)], of p "(k, True)" "(l, True)"] p q assms(5) by auto
  from cells_apart [OF assms(1) p(3) q(3) this]
  have "{unat p ..< unat p + unat k} \<inter> {unat q ..< unat q + unat l} = {}" .
  moreover have "{unat a ..< unat a + n} \<subseteq> {unat p ..< unat p + unat k}" using p area_bounds [OF assms(1,2) p(3)] by auto
  moreover have "{unat b ..< unat b + m} \<subseteq> {unat q ..< unat q + unat l}" using q area_bounds [OF assms(1,2) q(3)] by auto
  ultimately have "{unat a ..< unat a + n} \<inter> {unat b ..< unat b + m} = {}" by blast
  then show ?thesis using \<open>p \<noteq> q\<close> p(1) q(1) by simp
qed

lemma area_low:
  assumes "layout pgs d hp ps" "below_top ps" "(a, n) \<in> areas ps"
  shows "a \<noteq> NULL \<and> unat a + n < 2 ^ 32"
proof -
  obtain p k where p: "a = p + 48" "n = unat k - 48" "(p, k, True) \<in> set (all_cells ps)" using assms(3) by (auto simp: areas_def)
  then have "unat a = unat p + 48" "unat a + n < 2 ^ 32" using area_bounds [OF assms(1,2) p(3)] by auto
  then show ?thesis by auto
qed

text \<open>What an allocation and a release do to the areas.\<close>

lemma areas_put:
  assumes d: "distinct (map fst (all_cells ps))" and p: "(p, n, True) \<in> set (all_cells ps)"
  shows "areas (concat (map (put_cell p) ps)) = areas ps - {(p + 48, unat n - 48)}"
proof -
  obtain A g at sz xs ys B where ps: "ps = A @ (g, at, sz, xs @ (p, n, True) # ys) # B" using all_cells_focus [OF p] by blast
  let ?rest = "all_cells A @ xs @ ys @ all_cells B"
  have n: "p \<notin> fst ` set (all_cells A)" "p \<notin> fst ` set (all_cells B)" "p \<notin> fst ` set xs" "p \<notin> fst ` set ys"
    using d by (auto simp: ps)
  have "(a, k, True) \<in> set (all_cells (concat (map (put_cell p) ps))) \<longleftrightarrow> (a, k, True) \<in> set ?rest" for a k
    unfolding ps put_cell_focus [OF n] by (cases "nused xs + nused ys = 0") (auto simp: merge_used nused_0)
  then have "areas (concat (map (put_cell p) ps)) = {(a + 48, unat k - 48) | a k. (a, k, True) \<in> set ?rest}" by (simp add: areas_def)
  moreover have "areas ps = insert (p + 48, unat n - 48) {(a + 48, unat k - 48) | a k. (a, k, True) \<in> set ?rest}"
    by (auto simp: areas_def ps)
  moreover have "(p + 48, unat n - 48) \<notin> {(a + 48, unat k - 48) | a k. (a, k, True) \<in> set ?rest}"
    using n by (auto simp: image_iff)
  ultimately show ?thesis by simp
qed

lemma carve_shape:
  "\<exists>k zs. carve p n w True = (p, k, True) # zs \<and> nused zs = 0 \<and>
     (unat w + 48 \<le> unat n \<longrightarrow> unat w + 104 < 2 ^ 32 \<longrightarrow> unat w + 48 \<le> unat k)"
  using unat_plus32 [of w 48] by (simp add: carve_def)

lemma areas_take:
  assumes d: "distinct (map fst (all_cells ps))" and p: "(p, n, False) \<in> set (all_cells ps)"
    and w: "unat w + 48 \<le> unat n" "unat w + 104 < 2 ^ 32"
  shows "\<exists>m \<ge> unat w. areas (take_cell p w ps) = insert (p + 48, m) (areas ps)" "\<forall>m. (p + 48, m) \<notin> areas ps"
proof -
  obtain A g at sz xs ys B where ps: "ps = A @ (g, at, sz, xs @ (p, n, False) # ys) # B" using all_cells_focus [OF p] by blast
  have n: "p \<notin> fst ` set (all_cells A)" "p \<notin> fst ` set (all_cells B)" "p \<notin> fst ` set xs" "p \<notin> fst ` set ys"
    using d by (auto simp: ps)
  show "\<forall>m. (p + 48, m) \<notin> areas ps" using n by (auto simp: areas_def ps image_iff)
  obtain k zs where k: "carve p n w True = (p, k, True) # zs" "nused zs = 0" "unat w + 48 \<le> unat k"
    using carve_shape w by meson
  have "areas (take_cell p w ps) = insert (p + 48, unat k - 48) (areas ps)"
    unfolding ps take_cell_focus [OF n] using k(2) by (auto simp: areas_def k(1) nused_0)
  then show "\<exists>m \<ge> unat w. areas (take_cell p w ps) = insert (p + 48, m) (areas ps)" using k(3) by (intro exI [of _ "unat k - 48"]) simp
qed

lemma below_take [simp]: "below_top (take_cell p w ps) = below_top ps"
  by (fastforce simp: below_top_def take_cell_def)

lemma below_put: "below_top ps \<Longrightarrow> below_top (concat (map (put_cell p) ps))"
  by (fastforce simp: below_top_def put_cell_def Let_def split: if_splits)

end
