(* ===== verification/MmHeapClient.thy ===== *)
theory MmHeapClient
  imports MmHeapAreas
begin

text \<open>
  The contract of a block allocator, what it gives a client, and that the kernel heap fulfils it.
\<close>

subsection \<open>The contract of a block allocator\<close>

text \<open>
  \<open>holds st M\<close>: the areas \<open>M\<close> are handed out. \<open>alloc\<close> is given what the page allocator returned, which
  is \<open>fresh\<close>; a request that \<open>fits\<close> gets \<^verbatim>\<open>NULL\<close> or a new area that is large enough.
\<close>

locale block_allocator =
  fixes holds :: "'st \<Rightarrow> (ptr \<times> nat) set \<Rightarrow> bool"
    and fits :: "u32 \<Rightarrow> bool"
    and fresh :: "'st \<Rightarrow> ptr \<Rightarrow> bool"
    and alloc :: "'st \<Rightarrow> u32 \<Rightarrow> ptr \<Rightarrow> ('st \<times> ptr) option"
    and release :: "'st \<Rightarrow> ptr \<Rightarrow> 'st option"
  assumes alloc_ok: "holds st M \<Longrightarrow> fits want \<Longrightarrow> fresh st new \<Longrightarrow>
      \<exists>st' r. alloc st want new = Some (st', r) \<and>
        (if r = NULL then holds st' M else (\<exists>n \<ge> unat want. holds st' (insert (r, n) M)) \<and> (\<forall>m. (r, m) \<notin> M))"
    and release_ok: "holds st M \<Longrightarrow> (a, n) \<in> M \<Longrightarrow> \<exists>st'. release st a = Some st' \<and> holds st' (M - {(a, n)})"
    and apart_ok: "holds st M \<Longrightarrow> (a, n) \<in> M \<Longrightarrow> (b, m) \<in> M \<Longrightarrow> (a, n) \<noteq> (b, m) \<Longrightarrow>
      a \<noteq> b \<and> {unat a ..< unat a + n} \<inter> {unat b ..< unat b + m} = {}"
    and low_ok: "holds st M \<Longrightarrow> (a, n) \<in> M \<Longrightarrow> a \<noteq> NULL \<and> unat a + n < 2 ^ 32"

datatype heap_op = Alloc u32 | Free nat

text \<open>
  A client that keeps the areas it was given, each with the size it asked for; \<open>Free k\<close> gives the \<open>k\<close>-th back.
  \<open>page i st\<close> is the answer of the page allocator during the \<open>i\<close>-th operation, in the state \<open>st\<close> reached then:
  it may differ from one operation to the next, in equal states too.
\<close>

fun heap_run ::
    "('st \<Rightarrow> u32 \<Rightarrow> ptr \<Rightarrow> ('st \<times> ptr) option) \<Rightarrow> ('st \<Rightarrow> ptr \<Rightarrow> 'st option) \<Rightarrow> (nat \<Rightarrow> 'st \<Rightarrow> ptr) \<Rightarrow>
     nat \<Rightarrow> 'st \<Rightarrow> (ptr \<times> u32) list \<Rightarrow> heap_op list \<Rightarrow> ('st \<times> (ptr \<times> u32) list) option" where
  "heap_run alloc release page i st own [] = Some (st, own)"
| "heap_run alloc release page i st own (Alloc want # ops) =
     do { (st, r) \<leftarrow> alloc st want (page i st); heap_run alloc release page (Suc i) st (if r = NULL then own else own @ [(r, want)]) ops }"
| "heap_run alloc release page i st own (Free k # ops) =
     (if k < length own
      then do { st \<leftarrow> release st (fst (own ! k)); heap_run alloc release page (Suc i) st (take k own @ drop (Suc k) own) ops }
      else heap_run alloc release page (Suc i) st own ops)"

text \<open>The areas of a client: each inside the address space, no two with a byte in common.\<close>

definition owned_apart :: "(ptr \<times> u32) list \<Rightarrow> bool" where
  "owned_apart own \<longleftrightarrow> (\<forall>(a, n) \<in> set own. a \<noteq> NULL \<and> unat a + unat n < 2 ^ 32) \<and>
     sorted_wrt (\<lambda>(a, n) (b, m). a \<noteq> b \<and> {unat a ..< unat a + unat n} \<inter> {unat b ..< unat b + unat m} = {}) own"

definition owns :: "(ptr \<times> nat) set \<Rightarrow> (ptr \<times> u32) list \<Rightarrow> bool" where
  "owns M own \<longleftrightarrow> distinct (map fst own) \<and> (\<forall>(a, n) \<in> set own. \<exists>m \<ge> unat n. (a, m) \<in> M)"

lemma owns_at: "owns M own \<Longrightarrow> (a, n) \<in> set own \<Longrightarrow> \<exists>m. unat n \<le> m \<and> (a, m) \<in> M"
  by (auto simp: owns_def)

lemma owns_less: "owns M own \<Longrightarrow> a \<notin> fst ` set own \<Longrightarrow> owns (M - {(a, m)}) own"
proof -
  assume o: "owns M own" and a: "a \<notin> fst ` set own"
  have "\<exists>k \<ge> unat n. (b, k) \<in> M - {(a, m)}" if bn: "(b, n) \<in> set own" for b n
  proof -
    have "b \<noteq> a" using bn a by force
    then show ?thesis using owns_at [OF o bn] by auto
  qed
  then show ?thesis using o by (auto simp: owns_def)
qed

lemma owns_more: "owns M own \<Longrightarrow> unat n \<le> m \<Longrightarrow> \<forall>k. (a, k) \<notin> M \<Longrightarrow> owns (insert (a, m) M) (own @ [(a, n)])"
  by (fastforce simp: owns_def)

context block_allocator
begin

lemma owns_apart: "holds st M \<Longrightarrow> owns M own \<Longrightarrow> owned_apart own"
proof -
  assume h: "holds st M" and o: "owns M own"
  have pair: "a \<noteq> b \<and> {unat a ..< unat a + unat n} \<inter> {unat b ..< unat b + unat m} = {}"
    if ab: "(a, n) \<in> set own" "(b, m) \<in> set own" "a \<noteq> b" for a n b m
  proof -
    obtain n' m' where "unat n \<le> n'" "(a, n') \<in> M" "unat m \<le> m'" "(b, m') \<in> M" using owns_at [OF o] ab(1,2) by meson
    then have "{unat a ..< unat a + n'} \<inter> {unat b ..< unat b + m'} = {}" "{unat a ..< unat a + unat n} \<subseteq> {unat a ..< unat a + n'}"
      "{unat b ..< unat b + unat m} \<subseteq> {unat b ..< unat b + m'}" using apart_ok [OF h] ab(3) by auto
    then show ?thesis using ab(3) by blast
  qed
  have "a \<noteq> NULL \<and> unat a + unat n < 2 ^ 32" if an: "(a, n) \<in> set own" for a n
  proof -
    obtain n' where "unat n \<le> n'" "(a, n') \<in> M" using owns_at [OF o an] by blast
    then show ?thesis using low_ok [OF h, of a n'] by simp
  qed
  moreover have "sorted_wrt (\<lambda>x y. fst x \<noteq> fst y) own" using o unfolding owns_def by (induction own) auto
  from this have "sorted_wrt (\<lambda>(a, n) (b, m). a \<noteq> b \<and> {unat a ..< unat a + unat n} \<inter> {unat b ..< unat b + unat m} = {}) own"
    by (rule sorted_wrt_mono_rel [rotated]) (use pair in \<open>simp only: case_prod_unfold, metis prod.collapse\<close>)
  ultimately show ?thesis by (auto simp: owned_apart_def)
qed

lemma run_owns:
  assumes page: "\<And>i st. fresh st (page i st)"
  shows "holds st M \<Longrightarrow> owns M own \<Longrightarrow> \<forall>want. Alloc want \<in> set ops \<longrightarrow> fits want \<Longrightarrow>
    \<exists>st' own'. heap_run alloc release page i st own ops = Some (st', own') \<and> owned_apart own'"
proof (induction ops arbitrary: i st M own)
  case Nil
  then show ?case using owns_apart by auto
next
  case (Cons op ops)
  show ?case
  proof (cases op)
    case (Alloc want)
    then obtain st1 r where r: "alloc st want (page i st) = Some (st1, r)"
      "if r = NULL then holds st1 M else (\<exists>n \<ge> unat want. holds st1 (insert (r, n) M)) \<and> (\<forall>m. (r, m) \<notin> M)"
      using alloc_ok [OF Cons.prems(1), of want "page i st"] page [of st i] Cons.prems(3) by auto
    show ?thesis
    proof (cases "r = NULL")
      case True
      then show ?thesis using r Alloc Cons.IH [of st1 M own "Suc i"] Cons.prems by simp
    next
      case False
      then obtain n where n: "unat want \<le> n" "holds st1 (insert (r, n) M)" "\<forall>m. (r, m) \<notin> M" using r(2) by auto
      then have "owns (insert (r, n) M) (own @ [(r, want)])" using owns_more [OF Cons.prems(2)] by blast
      then show ?thesis using r(1) Alloc Cons.IH [of st1 "insert (r, n) M" "own @ [(r, want)]" "Suc i"] Cons.prems(3) n False by simp
    qed
  next
    case (Free k)
    show ?thesis
    proof (cases "k < length own")
      case True
      let ?a = "fst (own ! k)" and ?own = "take k own @ drop (Suc k) own"
      have e: "own = take k own @ own ! k # drop (Suc k) own" using True by (simp add: id_take_nth_drop)
      then have d: "distinct (map fst (take k own @ own ! k # drop (Suc k) own))" "\<forall>(a, n) \<in> set (take k own @ own ! k # drop (Suc k) own). \<exists>m \<ge> unat n. (a, m) \<in> M"
        using Cons.prems(2) unfolding e [symmetric] owns_def by simp_all
      then obtain m where m: "(?a, m) \<in> M" by (cases "own ! k") auto
      then obtain st1 where st1: "release st ?a = Some st1" "holds st1 (M - {(?a, m)})" using release_ok [OF Cons.prems(1)] by blast
      have "?a \<notin> fst ` set ?own" "distinct (map fst ?own)" using d(1) by auto
      moreover from this have "owns M ?own" using d(2) by (auto simp: owns_def)
      ultimately have "owns (M - {(?a, m)}) ?own" using owns_less by blast
      then show ?thesis using st1 Free True Cons.IH [of st1 "M - {(?a, m)}" ?own "Suc i"] Cons.prems(3) by simp
    next
      case False
      then show ?thesis using Free Cons by simp
    qed
  qed
qed

end

subsection \<open>The kernel heap fulfils it\<close>

definition heap_holds :: "ptr \<Rightarrow> heap_t \<Rightarrow> heap_state \<Rightarrow> (ptr \<times> nat) set \<Rightarrow> bool" where
  "heap_holds hp h st M \<longleftrightarrow> (\<exists>x ps. heap_inv st hp x h ps \<and> below_top ps \<and> M = areas ps)"

text \<open>
  A block on a new page must leave room for both headers. The code only compares the request with the
  scale of the heap, so the bound is part of the contract.
\<close>

definition heap_fits :: "heap_t \<Rightarrow> u32 \<Rightarrow> bool" where
  "heap_fits h want \<longleftrightarrow> unat want + 111 < 2 ^ 32 \<and> unat want + 87 \<le> unat (ht_scale h)"

text \<open>\<^verbatim>\<open>core_mm_pg_alloc\<close> gives \<^verbatim>\<open>NULL\<close> or pages that are not in use.\<close>

definition heap_fresh :: "ptr \<Rightarrow> heap_t \<Rightarrow> heap_state \<Rightarrow> ptr \<Rightarrow> bool" where
  "heap_fresh hp h st new \<longleftrightarrow> new = NULL \<or> unat new + unat (ht_scale h) < 2 ^ 32 \<and>
     (\<forall>x ps. heap_inv st hp x h ps \<longrightarrow> fresh_page ps new (ht_scale h))"

text \<open>A heap determines where its pages lie, so pages that are free beside the pages of one view are fresh.\<close>

lemma pseg_unique:
  "pseg pgs hp pv ps NULL \<Longrightarrow> pseg pgs hp pv' qs NULL \<Longrightarrow> hd_addr ps NULL = hd_addr qs NULL \<Longrightarrow>
    \<forall>p \<in> set ps. fst p \<noteq> NULL \<Longrightarrow> \<forall>p \<in> set qs. fst p \<noteq> NULL \<Longrightarrow> map ivl ps = map ivl qs"
proof (induction ps arbitrary: pv pv' qs)
  case Nil
  then show ?case by (cases qs) (auto split: list.splits)
next
  case (Cons p ps)
  obtain g at sz cs where p: "p = (g, at, sz, cs)" by (cases p)
  obtain q qs' where q: "qs = q # qs'" using Cons.prems(3-5) p by (cases qs) auto
  obtain at' sz' cs' where q': "q = (g, at', sz', cs')" using Cons.prems(3) p q by (cases q) auto
  have e: "phdr hp pv (hd_addr ps NULL) at sz (nused cs) = phdr hp pv' (hd_addr qs' NULL) at' sz' (nused cs')"
    using Cons.prems(1,2) p q q' by simp
  have "sz = sz'" "hd_addr ps NULL = hd_addr qs' NULL" using phdr_sel(2,5) e by metis+
  moreover from this have "map ivl ps = map ivl qs'" using Cons.IH [of g g qs'] Cons.prems p q q' by simp
  ultimately show ?case using p q q' by simp
qed

lemma heap_fresh_by:
  assumes "heap_inv st hp x h ps" "fresh_page ps new (ht_scale h)" "unat new + unat (ht_scale h) < 2 ^ 32"
  shows "heap_fresh hp h st new"
proof -
  have view: "\<exists>h'. heaps st hp = Some h' \<and> p_pg_block_list h' = hd_addr qs NULL \<and> pseg (pages st) hp NULL qs NULL \<and> (\<forall>p \<in> set qs. fst p \<noteq> NULL)"
    if inv: "heap_inv st hp y h qs" for y qs
  proof -
    obtain pgs d E U h' where *: "pages st = pgs" "heaps st hp = Some h'" "no_roots h' = h\<lparr>p_pg_block_list := hd_addr qs NULL\<rparr>" "layout pgs d hp qs"
      using inv by (auto simp: heap_inv_def mid_def hs_def)
    have "p_pg_block_list (no_roots h') = hd_addr qs NULL" using *(3) by simp
    moreover have "\<forall>p \<in> set qs. fst p \<noteq> NULL" using *(4) by (auto simp: layout_def)
    ultimately show ?thesis using * by (auto simp: no_roots_def layout_def)
  qed
  have "fresh_page qs new (ht_scale h)" if "heap_inv st hp y h qs" for y qs
  proof -
    have "map ivl qs = map ivl ps" using view [OF that] view [OF assms(1)] pseg_unique [of "pages st" hp NULL qs NULL ps] by auto
    then have "ivl ` set qs = ivl ` set ps" by (metis set_map)
    then have "(\<forall>p \<in> set qs. apart p (new, 0, ht_scale h, [])) \<longleftrightarrow> (\<forall>p \<in> set ps. apart p (new, 0, ht_scale h, []))"
      unfolding apart_def by (metis (no_types, lifting) image_iff)
    then show ?thesis using assms(2) by (simp add: fresh_page_def)
  qed
  then show ?thesis using assms(3) by (auto simp: heap_fresh_def)
qed

lemma heap_holds_alloc:
  assumes h: "heap_holds hp h st M" and f: "heap_fits h want" and n: "heap_fresh hp h st new"
  shows "\<exists>st' r. core_mm_heap_alloc st want hp new = Some (st', r) \<and>
    (if r = NULL then heap_holds hp h st' M else (\<exists>n \<ge> unat want. heap_holds hp h st' (insert (r, n) M)) \<and> (\<forall>m. (r, m) \<notin> M))"
proof -
  obtain x ps where inv: "heap_inv st hp x h ps" "below_top ps" "M = areas ps" using h by (auto simp: heap_holds_def)
  then have hp: "hp \<noteq> NULL" by (simp add: heap_inv_def)
  let ?w = "round_up_8 want"
  have w: "unat want \<le> unat ?w" "unat ?w \<le> unat want + 7" using round_up_8_bounds [of want] f by (simp_all add: heap_fits_def)
  have "unat (ht_scale h - 32) = unat (ht_scale h) - 32" using f by (simp add: heap_fits_def unat_sub word_le_nat_alt)
  then have w104: "unat ?w + 104 < 2 ^ 32" and fit: "\<not> unat (ht_scale h) < unat ?w + 48" "unat ?w + 48 \<le> unat (ht_scale h - 32)"
    using f w by (auto simp: heap_fits_def)
  have new: "new = NULL \<or> fresh_page ps new (ht_scale h)" using n inv(1) by (auto simp: heap_fresh_def)
  let ?P = "(new, 0 :: u32, ht_scale h, [(new + 32, ht_scale h - 32, False)])"
  have lay: "distinct (map fst (all_cells qs))" if "heap_inv s hp y h qs" for s y qs
    using that layout_distinct by (auto simp: heap_inv_def mid_def)
  obtain st' r where r: "core_mm_heap_alloc st want hp new = Some (st', r)"
    "if \<exists>a n. (a, n, False) \<in> set (all_cells ps) \<and> unat ?w + 48 \<le> unat n
     then \<exists>p n. r = p + 48 \<and> (p, n, False) \<in> set (all_cells ps) \<and> unat ?w + 48 \<le> unat n \<and>
        (\<forall>a m. (a, m, False) \<in> set (all_cells ps) \<and> unat ?w + 48 \<le> unat m \<longrightarrow> unat n \<le> unat m) \<and>
        heap_inv st' hp x h (take_cell p ?w ps)
     else if ht_type h AND HEAP_PREALLOC \<noteq> 0 \<or> new = NULL then r = NULL \<and> heap_inv st' hp x h ps
     else r = new + 32 + 48 \<and> heap_inv st' hp x h (take_cell (new + 32) ?w (ps @ [?P]))"
    using heap_alloc_ok [OF inv(1), of hp ?w want new] hp w104 new fit(1) by auto
  have got: "(\<exists>n \<ge> unat want. heap_holds hp h st' (insert (p + 48, n) M)) \<and> (\<forall>m. (p + 48, m) \<notin> M) \<and> p + 48 \<noteq> NULL"
    if qs: "heap_inv st' hp x h (take_cell p ?w qs)" "(p, k, False) \<in> set (all_cells qs)" "unat ?w + 48 \<le> unat k"
      "distinct (map fst (all_cells qs))" "below_top qs" "areas qs = M" for p k qs
  proof -
    obtain m where m: "unat ?w \<le> m" "areas (take_cell p ?w qs) = insert (p + 48, m) M" "\<forall>m. (p + 48, m) \<notin> M"
      using areas_take [OF qs(4,2,3) w104] qs(6) by auto
    moreover obtain pgs d where "layout pgs d hp (take_cell p ?w qs)" using qs(1) by (auto simp: heap_inv_def mid_def)
    then have "p + 48 \<noteq> NULL" using area_low [of pgs d hp "take_cell p ?w qs" "p + 48" m] qs(5) m(2) by simp
    ultimately have "heap_holds hp h st' (insert (p + 48, m) M)" "unat want \<le> m"
      using w(1) qs(1,5) by (auto simp: heap_holds_def intro!: exI [of _ "take_cell p ?w qs"])
    then show ?thesis using \<open>p + 48 \<noteq> NULL\<close> \<open>\<forall>m. (p + 48, m) \<notin> M\<close> by blast
  qed
  show ?thesis
  proof (cases "\<exists>a n. (a, n, False) \<in> set (all_cells ps) \<and> unat ?w + 48 \<le> unat n")
    case True
    then obtain p k where p: "r = p + 48" "(p, k, False) \<in> set (all_cells ps)" "unat ?w + 48 \<le> unat k"
      "heap_inv st' hp x h (take_cell p ?w ps)" using r(2) by auto
    then show ?thesis using got [OF p(4,2,3) lay [OF inv(1)] inv(2) inv(3) [symmetric]] r(1) by auto
  next
    case F: False
    show ?thesis
    proof (cases "ht_type h AND HEAP_PREALLOC \<noteq> 0 \<or> new = NULL")
      case True
      then have "r = NULL" "heap_inv st' hp x h ps" using r(2) F by simp_all
      then show ?thesis using r(1) inv by (auto simp: heap_holds_def)
    next
      case False
      then have r': "r = new + 32 + 48" "heap_inv st' hp x h (take_cell (new + 32) ?w (ps @ [?P]))" using r(2) F by simp_all
      have "fresh_page ps new (ht_scale h)" "below_top [?P]" using new n False by (auto simp: heap_fresh_def below_top_def)
      moreover obtain pgs d where "layout pgs d hp ps" using inv(1) by (auto simp: heap_inv_def mid_def)
      ultimately have "distinct (map fst (all_cells (ps @ [?P])))"
        using layout_ok [of pgs d hp ps] fresh_page_ok(1) by (intro pages_distinct) (auto simp: fresh_page_def sorted_wrt_append apart_page [of _ new 0 "ht_scale h" "[(new + 32, ht_scale h - 32, False)]"])
      moreover have "below_top (ps @ [?P])" "areas (ps @ [?P]) = M" using inv(2,3) \<open>below_top [?P]\<close> by (auto simp: below_top_def areas_def)
      ultimately show ?thesis using got [OF r'(2) _ fit(2)] r(1) r'(1) by auto
    qed
  qed
qed

lemma heap_holds_free:
  assumes h: "heap_holds hp h st M" and a: "(a, n) \<in> M"
  shows "\<exists>st'. core_mm_heap_free st a hp = Some st' \<and> heap_holds hp h st' (M - {(a, n)})"
proof -
  obtain x ps where inv: "heap_inv st hp x h ps" "below_top ps" "M = areas ps" using h by (auto simp: heap_holds_def)
  then have hp: "hp \<noteq> NULL" by (simp add: heap_inv_def)
  obtain p k where p: "a = p + 48" "n = unat k - 48" "(p, k, True) \<in> set (all_cells ps)" using a inv(3) by (auto simp: areas_def)
  obtain st' where "core_mm_heap_free st (p + 48) hp = Some st'" "heap_inv st' hp x h (concat (map (put_cell p) ps))"
    using heap_free_ok [OF inv(1) _ p(3), of hp] hp by auto
  moreover have "distinct (map fst (all_cells ps))" using inv(1) layout_distinct by (auto simp: heap_inv_def mid_def)
  ultimately show ?thesis using areas_put [OF _ p(3)] below_put [OF inv(2)] p(1,2) inv(3) by (auto simp: heap_holds_def)
qed

interpretation kernel_heap: block_allocator "heap_holds hp h" "heap_fits h" "heap_fresh hp h"
    "\<lambda>st want new. core_mm_heap_alloc st want hp new" "\<lambda>st p. core_mm_heap_free st p hp" for hp h
proof
  show "\<exists>st' r. core_mm_heap_alloc st want hp new = Some (st', r) \<and>
      (if r = NULL then heap_holds hp h st' M else (\<exists>n \<ge> unat want. heap_holds hp h st' (insert (r, n) M)) \<and> (\<forall>m. (r, m) \<notin> M))"
    if "heap_holds hp h st M" "heap_fits h want" "heap_fresh hp h st new" for st M want new using heap_holds_alloc that .
  show "\<exists>st'. core_mm_heap_free st a hp = Some st' \<and> heap_holds hp h st' (M - {(a, n)})"
    if "heap_holds hp h st M" "(a, n) \<in> M" for st M a n using heap_holds_free that .
  fix st M a n
  assume "heap_holds hp h st M" and a: "(a, n) \<in> M"
  then obtain pgs d ps where *: "layout pgs d hp ps" "below_top ps" "M = areas ps" by (auto simp: heap_holds_def heap_inv_def mid_def)
  then show "a \<noteq> NULL \<and> unat a + n < 2 ^ 32" using a area_low by blast
  show "a \<noteq> b \<and> {unat a ..< unat a + n} \<inter> {unat b ..< unat b + m} = {}" if "(b, m) \<in> M" "(a, n) \<noteq> (b, m)" for b m
    using areas_apart * a that by blast
qed

end
