(* ===== verification/MmHeapSpec.thy ===== *)
theory MmHeapSpec
  imports MmHeapClient
begin

text \<open>
  The default heap, the abstract allocation, and the properties of the heap.
\<close>

subsection \<open>The default heap\<close>

definition default_pages :: "ptr \<Rightarrow> bool \<Rightarrow> apage list" where
  "default_pages g al = [(g, HEAP_PAGEBLOCK_FIX, DEFAULT_HEAP_SCALE, [(g + 32, 8160, al)])]"

lemma default_heap_inv:
  assumes "default_heap st \<noteq> NULL" "default_heap_pg_block st \<noteq> NULL" "unat (default_heap_pg_block st) + 8192 \<le> 2 ^ 32"
    "blocks st NULL = None"
  shows "heap_inv (init_default_heap st) (default_heap st) (other (init_default_heap st) (default_heap st))
    (INIT_HEAP DEFAULT_HEAP_SCALE HEAP_MULITHREAD) (default_pages (default_heap_pg_block st) False)"
proof -
  let ?st = "init_default_heap st" and ?hp = "default_heap st" and ?g = "default_heap_pg_block st"
  let ?b = "?g + 32" and ?h = "INIT_HEAP DEFAULT_HEAP_SCALE HEAP_MULITHREAD"
  have g32: "unat ?b = unat ?g + 32" using assms(3) by (intro unat_plus32 [of ?g 32, simplified]) simp
  then have b0: "?b \<noteq> NULL" by auto
  have s: "blocks ?st = (blocks st)(?b \<mapsto> hdr ?g ?hp NULL NULL 8160 False)"
    "pages ?st = (pages st)(?g \<mapsto> phdr ?hp NULL NULL HEAP_PAGEBLOCK_FIX 8192 0)"
    by (simp_all add: init_default_heap_def Let_def INIT_MEMBLOCK_hdr INIT_PG_BLOCK_phdr)
  have N: "blocks ?st NULL = None" using s(1) b0 assms(4) by simp
  have "rb_tree (links (blocks ?st)) (links (blocks ?st)) ?b (Nd ?b BLACK ?b ?b Tip Tip)"
    using b0 s(1) by (auto simp: rb_tree_def foc_def links_def hdr_def INIT_MEMBLOCK_def)
  then have t: "htree (blocks ?st) ?b (Nd ?b BLACK ?b ?b Tip Tip)" "htree (blocks ?st) NULL Tip"
    using N by (auto simp: htree_def rb_tree_def foc_def)
  then have i: "indexed (pages ?st) (blocks ?st) ?b [?b]" "indexed (pages ?st) (blocks ?st) NULL []"
    using s by (auto simp: indexed_def addrs_def rd_def sized_def intro: exI [of _ "Nd ?b BLACK ?b ?b Tip Tip"] exI [of _ Tip])
  have h: "heaps ?st ?hp = Some (?h\<lparr>p_pg_block_list := ?g, p_empty_block_tree := ?b\<rparr>)" by (simp add: init_default_heap_def Let_def)
  have "hs ?st ?hp (other ?st ?hp) (?h\<lparr>p_pg_block_list := ?g\<rparr>) (pages ?st) (D (blocks ?st)) [?b] []"
    using i h by (simp add: hs_def no_roots_def INIT_HEAP_def)
  moreover have "layout (pages ?st) (D (blocks ?st)) ?hp (default_pages ?g False)"
    using s assms(2,3) g32 by (simp add: layout_def default_pages_def D_def)
  ultimately show ?thesis using assms(1)
    by (auto simp: heap_inv_def mid_def default_pages_def frees_def useds_def INIT_HEAP_def intro!: exI)
qed

subsection \<open>The abstract allocation\<close>

text \<open>Allocation on the pages of a heap: of the free blocks that are large enough, one of the least size.\<close>

definition best_block :: "apage list \<Rightarrow> u32 \<Rightarrow> ptr \<Rightarrow> bool" where
  "best_block ps w p \<longleftrightarrow> (\<exists>n. (p, n, False) \<in> set (all_cells ps) \<and> unat w + 48 \<le> unat n \<and>
     (\<forall>a m. (a, m, False) \<in> set (all_cells ps) \<and> unat w + 48 \<le> unat m \<longrightarrow> unat n \<le> unat m))"

definition alloc_spec :: "heap_t \<Rightarrow> apage list \<Rightarrow> u32 \<Rightarrow> ptr \<Rightarrow> apage list \<Rightarrow> ptr \<Rightarrow> bool" where
  "alloc_spec h ps w new ps' r \<longleftrightarrow>
     (if unat (ht_scale h) < unat w + 48 then r = NULL \<and> ps' = ps
      else if \<exists>a n. (a, n, False) \<in> set (all_cells ps) \<and> unat w + 48 \<le> unat n
      then \<exists>p. best_block ps w p \<and> r = p + 48 \<and> ps' = take_cell p w ps
      else if ht_type h AND HEAP_PREALLOC \<noteq> 0 \<or> new = NULL then r = NULL \<and> ps' = ps
      else r = new + 80 \<and> ps' = take_cell (new + 32) w (ps @ [(new, 0, ht_scale h, [(new + 32, ht_scale h - 32, False)])]))"

lemma heap_alloc_spec:
  assumes inv: "heap_inv st hp x h ps"
    and "hp = (if heap = NULL then default_heap st else heap)" "heap \<noteq> NULL \<or> is_default_heap_ready st"
    and "w = round_up_8 want" "unat w + 104 < 2 ^ 32" and "new = NULL \<or> fresh_page ps new (ht_scale h)"
  shows "\<exists>st' r ps'. core_mm_heap_alloc st want heap new = Some (st', r) \<and> heap_inv st' hp x h ps' \<and> alloc_spec h ps w new ps' r"
proof -
  obtain st' r where "core_mm_heap_alloc st want heap new = Some (st', r)" and r: "if unat (ht_scale h) < unat w + 48 then r = NULL \<and> st' = st
     else if \<exists>a n. (a, n, False) \<in> set (all_cells ps) \<and> unat w + 48 \<le> unat n
     then \<exists>p n. r = p + 48 \<and> (p, n, False) \<in> set (all_cells ps) \<and> unat w + 48 \<le> unat n \<and>
        (\<forall>a m. (a, m, False) \<in> set (all_cells ps) \<and> unat w + 48 \<le> unat m \<longrightarrow> unat n \<le> unat m) \<and>
        heap_inv st' hp x h (take_cell p w ps)
     else if ht_type h AND HEAP_PREALLOC \<noteq> 0 \<or> new = NULL then r = NULL \<and> heap_inv st' hp x h ps
     else r = new + 32 + 48 \<and>
       heap_inv st' hp x h (take_cell (new + 32) w (ps @ [(new, 0, ht_scale h, [(new + 32, ht_scale h - 32, False)])]))"
    using heap_alloc_ok [OF assms] by blast
  moreover from r have "\<exists>ps'. heap_inv st' hp x h ps' \<and> alloc_spec h ps w new ps' r"
    unfolding alloc_spec_def best_block_def using inv by (simp add: add.assoc split: if_splits) blast+
  ultimately show ?thesis by blast
qed

text \<open>A release undoes the allocation before it, unless the page goes away.\<close>

lemma merge_carve:
  assumes "calm (xs @ (p, n, False) # ys)"
  shows "merge_free (xs @ (case carve p n w True of c # cs \<Rightarrow> (p, fst (snd c), False) # cs) @ ys) = xs @ (p, n, False) # ys"
proof -
  have c: "calm (xs @ [(p, m, False)])" "calm ((p, n, False) # ys)" for m
    using assms by (induction xs rule: calm.induct; cases ys; auto dest: calm_tl)+
  have m: "merge_free ((p, n, False) # ys) = (p, n, False) # ys" using merge_calm c(2) by blast
  show ?thesis
  proof (cases "unat w + 104 < unat n")
    case True
    then show ?thesis using merge_skip [OF c(1), of "w + 48" "(p + w + 48, n - w - 48, False) # ys"] m by (simp add: carve_def)
  next
    case False
    then show ?thesis using merge_skip [OF c(1), of n ys] m by (simp add: carve_def)
  qed
qed

lemma put_take:
  assumes d: "distinct (map fst (all_cells (take_cell p w ps)))" "distinct (map fst (all_cells ps))" and p: "(p, n, False) \<in> set (all_cells ps)"
    and c: "\<forall>P \<in> set ps. calm (cells P)" "\<forall>(g, at, sz, cs) \<in> set ps. at AND HEAP_PAGEBLOCK_FIX \<noteq> 0 \<or> nused cs \<noteq> 0"
  shows "concat (map (put_cell p) (take_cell p w ps)) = ps"
proof -
  obtain A g at sz xs ys B where ps: "ps = A @ (g, at, sz, xs @ (p, n, False) # ys) # B" using all_cells_focus [OF p] by blast
  have n: "p \<notin> fst ` set (all_cells A)" "p \<notin> fst ` set (all_cells B)" "p \<notin> fst ` set xs" "p \<notin> fst ` set ys"
    using d(2) by (auto simp: ps)
  obtain k zs where k: "carve p n w True = (p, k, True) # zs" "nused zs = 0" using carve_shape by meson
  have e: "take_cell p w ps = A @ (g, at, sz, xs @ (p, k, True) # (zs @ ys)) # B" unfolding ps take_cell_focus [OF n] by (simp add: k(1))
  have zs: "p \<notin> fst ` set (zs @ ys)" using d(1) unfolding e by auto
  have m: "merge_free (xs @ (p, k, False) # zs @ ys) = xs @ (p, n, False) # ys"
    using merge_carve [of xs p n ys w] c(1) by (auto simp: ps k(1))
  show ?thesis unfolding e put_cell_focus [OF n(1,2,3) zs] using c(2) m k(2) by (auto simp: ps)
qed

lemma heap_inv_other: "heap_inv st hp x h ps \<Longrightarrow> default_heap st = default_heap x \<and> is_default_heap_ready st = is_default_heap_ready x"
  by (auto simp: heap_inv_def mid_def hs_def other_def)

lemma heap_inv_distinct: "heap_inv st hp x h ps \<Longrightarrow> distinct (map fst (all_cells ps))"
  using layout_distinct by (auto simp: heap_inv_def mid_def)

lemma areas_append: "areas (ps @ qs) = areas ps \<union> areas qs"
  by (auto simp: areas_def)

lemma take_cell_marks:
  assumes d: "distinct (map fst (all_cells ps))" and p: "(p, n, False) \<in> set (all_cells ps)"
  shows "\<exists>k. (p, k, True) \<in> set (all_cells (take_cell p w ps))"
proof -
  obtain A g at sz xs ys B where ps: "ps = A @ (g, at, sz, xs @ (p, n, False) # ys) # B" using all_cells_focus [OF p] by blast
  have n: "p \<notin> fst ` set (all_cells A)" "p \<notin> fst ` set (all_cells B)" "p \<notin> fst ` set xs" "p \<notin> fst ` set ys"
    using d by (auto simp: ps)
  obtain k zs where "carve p n w True = (p, k, True) # zs" using carve_shape by meson
  then show ?thesis unfolding ps take_cell_focus [OF n] by auto
qed

text \<open>A kernel before its first allocation, for the witnesses.\<close>

definition boot_heap :: heap_state where
  "boot_heap = \<lparr>heaps = Map.empty, pages = Map.empty, blocks = Map.empty, is_default_heap_ready = False,
     default_heap = 0x1000, default_heap_pg_block = 0x2000, on_dbg = True\<rparr>"

definition ready_heap :: heap_state where
  "ready_heap = init_default_heap boot_heap"

definition kernel_heap_t :: heap_t where
  "kernel_heap_t = INIT_HEAP DEFAULT_HEAP_SCALE HEAP_MULITHREAD"

lemma ready_inv: "heap_inv ready_heap 0x1000 (other ready_heap 0x1000) kernel_heap_t (default_pages 0x2000 False)"
  using default_heap_inv [of boot_heap] by (simp add: boot_heap_def ready_heap_def kernel_heap_t_def)

lemma ready_sel: "default_heap ready_heap = 0x1000" "is_default_heap_ready ready_heap" "ht_scale kernel_heap_t = 8192" "ht_type kernel_heap_t = 1"
  by (simp_all add: ready_heap_def boot_heap_def init_default_heap_def Let_def kernel_heap_t_def INIT_HEAP_def)

lemma round_up_8_concrete: "round_up_8 100 = 104" "round_up_8 9000 = 9000" "round_up_8 8140 = 8144" "round_up_8 8000 = 8000"
  by (simp_all add: round_up_8_def)

subsection \<open>Properties\<close>

text \<open>
  C1. \<^verbatim>\<open>core_mm_heap_alloc\<close> refines the allocation on lists of pages: on a heap that stores the pages
  \<open>ps\<close> it returns and keeps the invariant. When the rounded request with its header of 48 bytes exceeds
  the scale of the heap, it answers \<^verbatim>\<open>NULL\<close> and changes no page. Otherwise it takes the smallest free block
  that is large enough, splitting it when the rest can hold a block; without one it takes the block of a
  new page, or answers \<^verbatim>\<open>NULL\<close> and changes no page when the heap is preallocated or no page is left. The
  request is rounded up to a multiple of 8, and is not so large that adding the headers wraps around.
\<close>

theorem core_mm_heap_alloc_refines:
  assumes "heap_inv st hp x h ps"
    and "hp = (if heap = NULL then default_heap st else heap)" "heap \<noteq> NULL \<or> is_default_heap_ready st"
    and "w = round_up_8 want" "unat w + 104 < 2 ^ 32" and "new = NULL \<or> fresh_page ps new (ht_scale h)"
  shows "\<exists>st' r ps'. core_mm_heap_alloc st want heap new = Some (st', r) \<and> heap_inv st' hp x h ps' \<and> alloc_spec h ps w new ps' r"
  using assms by (rule heap_alloc_spec)

theorem core_mm_heap_alloc_refines_witness:
  "\<exists>st' r ps'. core_mm_heap_alloc ready_heap 100 NULL NULL = Some (st', r) \<and>
     heap_inv st' 0x1000 (other ready_heap 0x1000) kernel_heap_t ps' \<and> alloc_spec kernel_heap_t (default_pages 0x2000 False) 104 NULL ps' r"
  by (rule core_mm_heap_alloc_refines [OF ready_inv]) (simp_all add: ready_sel round_up_8_concrete)

lemma ready_alloc:
  assumes "heap = NULL \<or> heap = 0x1000" "new = NULL \<or> fresh_page (default_pages 0x2000 False) new 8192"
  shows "\<exists>st'. core_mm_heap_alloc ready_heap 100 heap new = Some (st', 0x2050) \<and> heap_inv st' 0x1000 (other ready_heap 0x1000) kernel_heap_t
     [(0x2000, HEAP_PAGEBLOCK_FIX, DEFAULT_HEAP_SCALE, [(0x2020, 152, True), (0x20B8, 8008, False)])]"
proof -
  obtain st' r ps' where r: "core_mm_heap_alloc ready_heap 100 heap new = Some (st', r)"
    "heap_inv st' 0x1000 (other ready_heap 0x1000) kernel_heap_t ps'" "alloc_spec kernel_heap_t (default_pages 0x2000 False) 104 new ps' r"
    using heap_alloc_spec [OF ready_inv, of heap 104 100 new] assms by (auto simp: ready_sel round_up_8_concrete)
  have "r = 0x2050 \<and> ps' = [(0x2000, HEAP_PAGEBLOCK_FIX, DEFAULT_HEAP_SCALE, [(0x2020, 152, True), (0x20B8, 8008, False)])]"
    using r(3) by (auto simp: alloc_spec_def ready_sel default_pages_def best_block_def take_cell_def carve_def)
  then show ?thesis using r by blast
qed



text \<open>
  C3. Every client gets memory of its own: in every sequence of releases and of requests that fit a page
  (\<open>heap_fits\<close>: 87 bytes below the scale of the heap at least, see C7 for the requests above that), all calls
  return, and the areas the client holds at the end lie inside the address space, are as large as it
  asked for, and no two share a byte. During each operation the page allocator may give any answer:
  \<^verbatim>\<open>NULL\<close>, or pages that no page of the heap overlaps then and that end below the top of the address space.
\<close>

theorem core_mm_heap_clients_apart:
  assumes "heap_inv st hp x h ps" "below_top ps" and "\<forall>i st. heap_fresh hp h st (page i st)"
    and "\<forall>want. Alloc want \<in> set ops \<longrightarrow> heap_fits h want"
  shows "\<exists>st' own. heap_run (\<lambda>st want new. core_mm_heap_alloc st want hp new) (\<lambda>st p. core_mm_heap_free st p hp) page 0 st [] ops = Some (st', own) \<and>
    owned_apart own"
proof (rule kernel_heap.run_owns)
  show "heap_holds hp h st (areas ps)" using assms(1,2) by (auto simp: heap_holds_def)
qed (use assms(3,4) in \<open>simp_all add: owns_def\<close>)

lemma ready_fresh:
  "heap_inv st 0x1000 x kernel_heap_t [(0x2000, HEAP_PAGEBLOCK_FIX, DEFAULT_HEAP_SCALE, cs)] \<Longrightarrow> heap_fresh 0x1000 kernel_heap_t st 0x8000"
  by (rule heap_fresh_by) (auto simp: fresh_page_def apart_def ready_sel)

lemma second_alloc:
  assumes "heap_inv st 0x1000 x kernel_heap_t [(0x2000, HEAP_PAGEBLOCK_FIX, DEFAULT_HEAP_SCALE, [(0x2020, 152, True), (0x20B8, 8008, False)])]"
  shows "\<exists>st' ps. core_mm_heap_alloc st 8000 0x1000 0x8000 = Some (st', 0x8050) \<and> heap_inv st' 0x1000 x kernel_heap_t ps \<and> (0x2020, 152, True) \<in> set (all_cells ps)"
proof -
  obtain st' r ps where r: "core_mm_heap_alloc st 8000 0x1000 0x8000 = Some (st', r)" "heap_inv st' 0x1000 x kernel_heap_t ps"
    "alloc_spec kernel_heap_t [(0x2000, HEAP_PAGEBLOCK_FIX, DEFAULT_HEAP_SCALE, [(0x2020, 152, True), (0x20B8, 8008, False)])] 8000 0x8000 ps r"
    using heap_alloc_spec [OF assms, of "0x1000" 8000 8000 "0x8000"] by (auto simp: ready_sel round_up_8_concrete fresh_page_def apart_def)
  then have "r = 0x8050 \<and> (0x2020, 152, True) \<in> set (all_cells ps)"
    by (auto simp: alloc_spec_def ready_sel take_cell_def)
  then show ?thesis using r by blast
qed

theorem core_mm_heap_clients_apart_witness:
  "\<exists>st'. heap_run (\<lambda>st want new. core_mm_heap_alloc st want 0x1000 new) (\<lambda>st p. core_mm_heap_free st p 0x1000)
     (\<lambda>i st. if heap_fresh 0x1000 kernel_heap_t st 0x8000 \<and> i < 2 then 0x8000 else NULL)
     0 ready_heap [] [Alloc 100, Alloc 8000, Free 0] = Some (st', [(0x8050, 8000)]) \<and> owned_apart [(0x8050, 8000)]"
proof -
  let ?page = "\<lambda>i st. if heap_fresh 0x1000 kernel_heap_t st 0x8000 \<and> i < 2 then 0x8000 else NULL"
  let ?run = "heap_run (\<lambda>st want new. core_mm_heap_alloc st want 0x1000 new) (\<lambda>st p. core_mm_heap_free st p 0x1000) ?page"
  have "\<exists>st' own. ?run 0 ready_heap [] [Alloc 100, Alloc 8000, Free 0] = Some (st', own) \<and> owned_apart own"
    by (rule core_mm_heap_clients_apart [OF ready_inv]) (auto simp: below_top_def default_pages_def heap_fresh_def heap_fits_def ready_sel)
  moreover have f0: "heap_fresh 0x1000 kernel_heap_t ready_heap 0x8000" using ready_inv ready_fresh by (simp add: default_pages_def)
  obtain st1 where st1: "core_mm_heap_alloc ready_heap 100 0x1000 0x8000 = Some (st1, 0x2050)"
    "heap_inv st1 0x1000 (other ready_heap 0x1000) kernel_heap_t
       [(0x2000, HEAP_PAGEBLOCK_FIX, DEFAULT_HEAP_SCALE, [(0x2020, 152, True), (0x20B8, 8008, False)])]"
    using ready_alloc [of "0x1000" "0x8000"] by (auto simp: fresh_page_def apart_def default_pages_def)
  then obtain st2 ps where st2: "core_mm_heap_alloc st1 8000 0x1000 0x8000 = Some (st2, 0x8050)"
    "heap_inv st2 0x1000 (other ready_heap 0x1000) kernel_heap_t ps" "(0x2020, 152, True) \<in> set (all_cells ps)"
    using second_alloc by blast
  then obtain st3 where "core_mm_heap_free st2 0x2050 0x1000 = Some st3"
    using heap_free_ok [OF st2(2) _ st2(3), of "0x1000"] by auto
  then have "?run 0 ready_heap [] [Alloc 100, Alloc 8000, Free 0] = Some (st3, [(0x8050, 8000)])"
    using f0 ready_fresh [OF st1(2)] st1(1) st2(1) by simp
  ultimately show ?thesis by auto
qed

text \<open>
  C4. The consistency check of the debug builds never rejects a heap that satisfies the invariant: it
  walks every page, every block and both trees, raises nothing and leaves the state as it was.
\<close>

theorem core_mm_heap_chk_accepts:
  assumes "heap_inv st hp x h ps" and "hp = (if heap = NULL then default_heap st else heap)"
  shows "core_mm_heap_chk st heap = Some st"
  using assms mid_check [of st hp x h ps heap] by (simp add: heap_inv_def)

theorem core_mm_heap_chk_accepts_witness: "core_mm_heap_chk ready_heap NULL = Some ready_heap"
  by (rule core_mm_heap_chk_accepts [OF ready_inv]) (simp add: ready_sel)

text \<open>
  C5. The first allocation from the default heap sets the heap up: \<^verbatim>\<open>init_default_heap\<close> establishes the
  invariant, with one fixed page that has one free block, and the request is answered from it.
\<close>

theorem init_default_heap_establishes:
  assumes "default_heap st \<noteq> NULL" "default_heap_pg_block st \<noteq> NULL" "unat (default_heap_pg_block st) + 8192 \<le> 2 ^ 32"
    "blocks st NULL = None" "\<not> is_default_heap_ready st"
  shows "heap_inv (init_default_heap st) (default_heap st) (other (init_default_heap st) (default_heap st))
      (INIT_HEAP DEFAULT_HEAP_SCALE HEAP_MULITHREAD) (default_pages (default_heap_pg_block st) False) \<and>
    core_mm_heap_alloc st want NULL new = core_mm_heap_alloc (init_default_heap st) want NULL new \<and>
    is_default_heap_ready (init_default_heap st)"
  using default_heap_inv [OF assms(1-4)] assms(5) by (simp add: core_mm_heap_alloc_def init_default_heap_def Let_def)

theorem init_default_heap_establishes_witness:
  "heap_inv (init_default_heap boot_heap) 0x1000 (other (init_default_heap boot_heap) 0x1000)
     (INIT_HEAP DEFAULT_HEAP_SCALE HEAP_MULITHREAD) (default_pages 0x2000 False)"
  using init_default_heap_establishes [of boot_heap] by (simp add: boot_heap_def)

text \<open>
  C6. Giving a block back at once restores the heap: after an allocation that a free block answers and
  the release of what it returned, the heap stores exactly the pages it stored before, with the
  block whole again. (A page without any allocated block is fixed.)
\<close>

theorem core_mm_heap_alloc_free_restores:
  assumes inv: "heap_inv st hp x h ps" and hp: "hp = (if heap = NULL then default_heap st else heap)" "heap \<noteq> NULL \<or> is_default_heap_ready st"
    and w: "w = round_up_8 want" "unat w + 104 < 2 ^ 32" "unat w + 48 \<le> unat (ht_scale h)"
    and fits: "\<exists>a n. (a, n, False) \<in> set (all_cells ps) \<and> unat w + 48 \<le> unat n"
    and fixed: "\<forall>(g, at, sz, cs) \<in> set ps. at AND HEAP_PAGEBLOCK_FIX \<noteq> 0 \<or> nused cs \<noteq> 0"
  shows "\<exists>st1 r st2. core_mm_heap_alloc st want heap NULL = Some (st1, r) \<and> best_block ps w (r - 48) \<and>
    core_mm_heap_free st1 r heap = Some st2 \<and> heap_inv st2 hp x h ps"
proof -
  obtain st1 r ps1 where st1: "core_mm_heap_alloc st want heap NULL = Some (st1, r)" "heap_inv st1 hp x h ps1" "alloc_spec h ps w NULL ps1 r"
    using heap_alloc_spec [OF inv hp w(1,2), of NULL] by auto
  then obtain p where p: "best_block ps w p" "r = p + 48" "ps1 = take_cell p w ps"
    unfolding alloc_spec_def if_not_P [OF leD [OF w(3)]] if_P [OF fits] by blast
  then obtain n where n: "(p, n, False) \<in> set (all_cells ps)" by (auto simp: best_block_def)
  obtain k where k: "(p, k, True) \<in> set (all_cells ps1)"
    using take_cell_marks [OF heap_inv_distinct [OF inv] n] p(3) by blast
  have "hp = (if heap = NULL then default_heap st1 else heap)" using hp heap_inv_other [OF inv] heap_inv_other [OF st1(2)] by simp
  then obtain st2 where "core_mm_heap_free st1 (p + 48) heap = Some st2" "heap_inv st2 hp x h (concat (map (put_cell p) ps1))"
    using heap_free_ok [OF st1(2) _ k] by blast
  moreover have "concat (map (put_cell p) ps1) = ps"
    unfolding p(3) using put_take heap_inv_distinct [OF st1(2)] heap_inv_distinct [OF inv] n inv fixed p(3) by (auto simp: heap_inv_def)
  ultimately show ?thesis using st1(1) p(1,2) by auto
qed

theorem core_mm_heap_alloc_free_restores_witness:
  "\<exists>st1 r st2. core_mm_heap_alloc ready_heap 100 NULL NULL = Some (st1, r) \<and> best_block (default_pages 0x2000 False) 104 (r - 48) \<and>
    core_mm_heap_free st1 r NULL = Some st2 \<and> heap_inv st2 0x1000 (other ready_heap 0x1000) kernel_heap_t (default_pages 0x2000 False)"
  by (rule core_mm_heap_alloc_free_restores [OF ready_inv]) (auto simp: ready_sel round_up_8_concrete default_pages_def)

text \<open>
  C7. The code compares the rounded request and the header of its block with the scale of the heap and
  forgets the header of the page: a request of more than the scale less both headers (80 bytes) that
  passes the comparison and is answered from a new page gets an area smaller than it asked for. (The
  rounding does not wrap around, see C8 for the requests for which it does.)
\<close>

theorem core_mm_heap_alloc_short:
  assumes inv: "heap_inv st hp x h ps" and hp: "hp = (if heap = NULL then default_heap st else heap)" "heap \<noteq> NULL \<or> is_default_heap_ready st"
    and w: "w = round_up_8 want" "unat want + 8 \<le> 2 ^ 32" "unat w + 104 < 2 ^ 32" "unat w + 48 \<le> unat (ht_scale h)" "unat (ht_scale h) < unat want + 80"
    and none: "\<not> (\<exists>a n. (a, n, False) \<in> set (all_cells ps) \<and> unat w + 48 \<le> unat n)"
    and new: "ht_type h AND HEAP_PREALLOC = 0" "new \<noteq> NULL" "fresh_page ps new (ht_scale h)"
  shows "\<exists>st' ps' n. core_mm_heap_alloc st want heap new = Some (st', new + 80) \<and> heap_inv st' hp x h ps' \<and>
    areas ps' = insert (new + 80, n) (areas ps) \<and> n < unat want"
proof -
  let ?P = "(new, 0 :: u32, ht_scale h, [(new + 32, ht_scale h - 32, False)])"
  have "unat want \<le> unat w" using round_up_8_bounds [of want] w(1,2) by simp
  then have w80: "unat (ht_scale h) < unat w + 80" using w(5) by linarith
  obtain st' r ps' where st': "core_mm_heap_alloc st want heap new = Some (st', r)" "heap_inv st' hp x h ps'" "alloc_spec h ps w new ps' r"
    using heap_alloc_spec [OF inv hp w(1,3), of new] new(3) by auto
  then have r: "r = new + 80" "ps' = take_cell (new + 32) w (ps @ [?P])"
    using new(1,2) unfolding alloc_spec_def if_not_P [OF leD [OF w(4)]] if_not_P [OF none] by simp_all
  have pages: "\<forall>P \<in> set ps. page_ok P" using inv layout_ok unfolding heap_inv_def mid_def by blast
  have "unat (new + 32) \<in> {unat new ..< unat new + unat (ht_scale h)}" using fresh_page_ok(3) [OF new(3)] new(3) by (auto simp: fresh_page_def)
  then have "new + 32 \<notin> fst ` set (all_cells ps)" using fresh_page_out(2) [OF new(3) pages] by blast
  from take_cell_focus [of "new + 32" ps "[]" "[]" "[]" w new 0 "ht_scale h" "ht_scale h - 32" False] this
  have "ps' = ps @ [(new, 0, ht_scale h, [(new + 32, ht_scale h - 32, True)])]"
    using r(2) w80 fresh_page_ok(2) [OF new(3)] by (simp add: carve_def)
  moreover have "areas [(new, 0, ht_scale h, [(new + 32, ht_scale h - 32, True)])] = {(new + 80, unat (ht_scale h) - 80)}"
    using fresh_page_ok(2) [OF new(3)] by (simp add: areas_def add.assoc)
  ultimately have "areas ps' = insert (new + 80, unat (ht_scale h) - 80) (areas ps)" by (simp add: areas_append)
  moreover have "unat (ht_scale h) - 80 < unat want" using w(5) new(3) by (auto simp: fresh_page_def)
  ultimately show ?thesis using st'(1,2) r(1) by blast
qed

theorem core_mm_heap_alloc_short_witness:
  "\<exists>st' ps' n. core_mm_heap_alloc ready_heap 8140 NULL 0x8000 = Some (st', 0x8000 + 80) \<and>
    heap_inv st' 0x1000 (other ready_heap 0x1000) kernel_heap_t ps' \<and>
    areas ps' = insert (0x8000 + 80, n) (areas (default_pages 0x2000 False)) \<and> n < unat (8140 :: u32)"
  by (rule core_mm_heap_alloc_short [OF ready_inv])
    (auto simp: ready_sel round_up_8_concrete default_pages_def fresh_page_def apart_def)

text \<open>
  C8. A request of nearly 4 GB wraps around when it is rounded up, and is answered like a request of
  0 bytes.
\<close>

theorem core_mm_heap_alloc_wraps:
  assumes "2 ^ 32 \<le> unat want + 7"
  shows "core_mm_heap_alloc st want heap new = core_mm_heap_alloc st 0 heap new"
proof -
  have *: "4294967289 \<le> unat want" "unat want < 4294967296" using assms unat_lt_32 [of want] by simp_all
  have "unat want div 8 + 1 = 536870912" "unat want mod 8 \<noteq> 0" using * by presburger+
  then have "unat ((want div 8 + 1) * 8) = 0" "want mod 8 \<noteq> 0"
    by (simp_all add: unat_word_ariths unat_div unat_mod word_unat_eq_iff)
  then have "round_up_8 want = 0" by (simp add: round_up_8_def unat_eq_0)
  then show ?thesis by (simp add: core_mm_heap_alloc_def round_up_8_def)
qed

theorem core_mm_heap_alloc_wraps_witness:
  "core_mm_heap_alloc ready_heap 0xFFFFFFFF NULL NULL = core_mm_heap_alloc ready_heap 0 NULL NULL"
  by (rule core_mm_heap_alloc_wraps) simp

end
