(* ===== verification/SpinLockInv.thy ===== *)
theory SpinLockInv
  imports SpinLock
begin

text \<open>
  The CPUs that drew a ticket and have not passed the lock on yet stand in a queue, in the order of their
  tickets; only the head can own the lock. From this follow mutual exclusion, the order of service and,
  when every CPU keeps running, that every CPU is served.
\<close>

subsection \<open>The queue\<close>

definition owning :: "spin_pc set" where
  "owning = {Lock_save, Lock_own, Raw_own, Inside, Raw_inside, Unlock_load, Unlock_ticket, Unlock_xadd, Raw_unlock_xadd}"

definition queued :: "spin_pc set" where
  "queued = {Lock_wait, Lock_check, Raw_wait, Raw_check, Dead} \<union> owning"

definition untried :: "spin_pc set" where
  "untried = {Out, Lock_xadd, Raw_xadd, Raw_unlock_ticket} \<union> queued"

lemmas pc_sets = owning_def queued_def untried_def

fun in_line :: "(u32 \<Rightarrow> spin_cpu) \<Rightarrow> u16 \<Rightarrow> u32 list \<Rightarrow> u16 \<Rightarrow> bool" where
  "in_line f n [] m \<longleftrightarrow> m = n"
| "in_line f n (c # q) m \<longleftrightarrow> sc_ticket (f c) = n \<and> in_line f (n + 1) q m"

definition spin_inv :: "u32 set \<Rightarrow> spin_sys \<Rightarrow> u32 list \<Rightarrow> bool" where
  "spin_inv CPUS s q \<longleftrightarrow> distinct q \<and> set q = {c. cpu_pc s c \<in> queued} \<and> set q \<subseteq> CPUS \<and>
     in_line (sy_cpu s) (sl_owner (sy_lock s)) q (sl_ticket (sy_lock s)) \<and>
     (\<forall>c. cpu_pc s c \<in> owning \<longrightarrow> (\<exists>q'. q = c # q')) \<and> (\<forall>c. cpu_pc s c \<in> untried)"

lemma in_queue: "spin_inv CPUS s q \<Longrightarrow> c \<in> set q \<longleftrightarrow> cpu_pc s c \<in> queued"
  by (simp add: spin_inv_def)

lemma in_line_cong: "(\<And>c. c \<in> set q \<Longrightarrow> sc_ticket (g c) = sc_ticket (f c)) \<Longrightarrow> in_line g n q m = in_line f n q m"
  by (induction q arbitrary: n) auto

lemma in_line_upd [simp]: "c \<notin> set q \<Longrightarrow> in_line (f(c := t)) n q m = in_line f n q m"
  by (rule in_line_cong) auto

lemma in_line_snoc: "in_line f n (q @ [c]) (m + 1) \<longleftrightarrow> in_line f n q m \<and> sc_ticket (f c) = m"
  by (induction q arbitrary: n) auto

lemma in_line_nth: "in_line f n q m \<Longrightarrow> i < length q \<Longrightarrow> sc_ticket (f (q ! i)) = n + of_nat i"
proof (induction q arbitrary: n i)
  case (Cons c q)
  then show ?case by (cases i) (auto simp: algebra_simps)
qed simp

lemma in_line_head:
  assumes "in_line f n q m" "length q < 2 ^ 16" "c \<in> set q" "sc_ticket (f c) = n"
  shows "\<exists>q'. q = c # q'"
proof -
  obtain i where i: "i < length q" "c = q ! i" using assms(3) by (auto simp: in_set_conv_nth)
  then have "n + of_nat i = n" using in_line_nth [OF assms(1) i(1)] assms(4) by simp
  then have "(of_nat i :: u16) = 0" by simp
  then have "unat (of_nat i :: u16) = 0" by simp
  then have "i = 0" using i(1) assms(2) by (simp add: unat_of_nat)
  then show ?thesis using i by (cases q) auto
qed

lemma queue_short: "spin_inv CPUS s q \<Longrightarrow> card CPUS < 2 ^ 16 \<Longrightarrow> length q < 2 ^ 16"
  using card_mono [of CPUS "set q"] distinct_card [of q] unfolding spin_inv_def by (metis finite_class.finite le_less_trans)

lemma not_released_twice [simp]: "\<not> released_twice a b"
  by (simp add: released_twice_def)

lemmas spin_functions = core_pm_spnlck_lock_def core_pm_spnlck_raw_lock_def core_pm_spnlck_trylock_def
  core_pm_spnlck_raw_trylock_def core_pm_spnlck_unlock_def core_pm_spnlck_raw_unlock_def

lemma spin_inv_start: "spin_start s \<Longrightarrow> spin_inv CPUS s []"
  by (auto simp: spin_start_def spin_inv_def pc_sets core_pm_spnlck_init_def)

text \<open>A step of a CPU that stays where it is in the queue, one that joins, and one that leaves.\<close>

lemma spin_inv_stay:
  assumes inv: "spin_inv CPUS s q" and lock: "sl_owner l = sl_owner (sy_lock s)" "sl_ticket l = sl_ticket (sy_lock s)"
    and t: "sc_ticket t = sc_ticket (sy_cpu s c)" "sc_pc t \<in> queued \<longleftrightarrow> cpu_pc s c \<in> queued" "sc_pc t \<in> untried"
    "sc_pc t \<in> owning \<Longrightarrow> \<exists>q'. q = c # q'"
  shows "spin_inv CPUS \<lparr>sy_lock = l, sy_cpu = (sy_cpu s)(c := t)\<rparr> q"
proof -
  have "in_line ((sy_cpu s)(c := t)) (sl_owner l) q (sl_ticket l)"
    using inv lock t(1) in_line_cong [of q "(sy_cpu s)(c := t)" "sy_cpu s"] by (simp add: spin_inv_def)
  moreover have "{d. sc_pc (((sy_cpu s)(c := t)) d) \<in> queued} = {d. cpu_pc s d \<in> queued}" using t(2) by auto
  ultimately show ?thesis using inv t(3,4) by (auto simp: spin_inv_def)
qed

lemma spin_inv_join:
  assumes inv: "spin_inv CPUS s q" and c: "c \<in> CPUS" "cpu_pc s c \<notin> queued"
    and lock: "sl_owner l = sl_owner (sy_lock s)" "sl_ticket l = sl_ticket (sy_lock s) + 1"
    and t: "sc_ticket t = sl_ticket (sy_lock s)" "sc_pc t \<in> queued - owning"
  shows "spin_inv CPUS \<lparr>sy_lock = l, sy_cpu = (sy_cpu s)(c := t)\<rparr> (q @ [c])"
proof -
  have n: "c \<notin> set q" using inv c(2) by (simp add: spin_inv_def)
  then have "in_line ((sy_cpu s)(c := t)) (sl_owner l) (q @ [c]) (sl_ticket l)"
    using inv lock t(1) n by (simp add: spin_inv_def in_line_snoc)
  moreover have "{d. sc_pc (((sy_cpu s)(c := t)) d) \<in> queued} = insert c {d. cpu_pc s d \<in> queued}" using t(2) by auto
  ultimately show ?thesis using inv c(1) n t(2) by (auto simp: spin_inv_def untried_def)
qed

lemma spin_inv_pass:
  assumes inv: "spin_inv CPUS s (c # q)"
    and lock: "sl_owner l = sl_owner (sy_lock s) + 1" "sl_ticket l = sl_ticket (sy_lock s)"
    and t: "sc_pc t \<in> untried - queued"
  shows "spin_inv CPUS \<lparr>sy_lock = l, sy_cpu = (sy_cpu s)(c := t)\<rparr> q"
proof -
  have n: "c \<notin> set q" using inv by (simp add: spin_inv_def)
  then have "in_line ((sy_cpu s)(c := t)) (sl_owner l) q (sl_ticket l)"
    using inv lock n by (simp add: spin_inv_def)
  moreover have "{d. sc_pc (((sy_cpu s)(c := t)) d) \<in> queued} = {d. cpu_pc s d \<in> queued} - {c}" using t by auto
  moreover have "d = c" if "sc_pc (sy_cpu s d) \<in> owning" for d using inv that by (auto simp: spin_inv_def)
  ultimately show ?thesis using inv n t by (auto simp: spin_inv_def queued_def)
qed

lemma jump_eq: "jump s c pc = \<lparr>sy_lock = sy_lock s, sy_cpu = (sy_cpu s)(c := (sy_cpu s c)\<lparr>sc_pc := pc\<rparr>)\<rparr>"
  by (simp add: jump_def)

lemma spin_inv_step:
  assumes inv: "spin_inv CPUS s q" and few: "card CPUS < 2 ^ 16" and calls: "CALLS \<subseteq> {Call_lock, Call_raw_lock}"
    and c: "c \<in> CPUS" and step: "spin_step CALLS c s s'"
  shows "\<exists>q'. spin_inv CPUS s' q' \<and> (q' = q \<or> c \<notin> set q \<and> q' = q @ [c] \<or> q = c # q')"
  using step
proof cases
  case (call k)
  then have "spin_entry k = Lock_xadd \<or> spin_entry k = Raw_xadd" using calls by (cases k) auto
  then have "spin_inv CPUS s' q"
    using call(1,2) spin_inv_stay [OF inv, of "sy_lock s" "(sy_cpu s c)\<lparr>sc_pc := spin_entry k\<rparr>" c] by (auto simp: jump_eq pc_sets)
  then show ?thesis by blast
next
  case leave
  then have "\<exists>q'. q = c # q'" using inv by (simp add: spin_inv_def pc_sets)
  then have "spin_inv CPUS s' q"
    using leave spin_inv_stay [OF inv, of "sy_lock s" "(sy_cpu s c)\<lparr>sc_pc := Unlock_load\<rparr>" c] by (simp add: jump_eq pc_sets)
  then show ?thesis by blast
next
  case raw_leave
  then have "\<exists>q'. q = c # q'" using inv by (simp add: spin_inv_def pc_sets)
  then have "spin_inv CPUS s' q"
    using raw_leave spin_inv_stay [OF inv, of "sy_lock s" "(sy_cpu s c)\<lparr>sc_pc := Raw_unlock_xadd\<rparr>" c] by (simp add: jump_eq pc_sets)
  then show ?thesis by blast
next
  case (access l t)
  have head: "\<exists>q'. q = c # q'" if "cpu_pc s c \<in> queued" "sc_ticket (sy_cpu s c) = sl_owner (sy_lock s)"
    using in_line_head [of "sy_cpu s" "sl_owner (sy_lock s)" q] inv queue_short [OF inv few] that by (auto simp: spin_inv_def)
  have own: "\<exists>q'. q = c # q'" if "cpu_pc s c \<in> owning" using inv that by (simp add: spin_inv_def)
  have "cpu_pc s c \<in> untried" using inv by (simp add: spin_inv_def)
  note step = access(2)
  have "spin_access c (sy_lock s) (sy_cpu s c) \<noteq> None" using step by simp
  with \<open>cpu_pc s c \<in> untried\<close> consider "cpu_pc s c \<in> {Lock_xadd, Raw_xadd}" | "cpu_pc s c \<in> {Unlock_xadd, Raw_unlock_xadd}"
    | "cpu_pc s c \<in> {Lock_wait, Lock_check, Lock_save, Lock_own, Raw_wait, Raw_check, Raw_own, Unlock_load, Unlock_ticket, Raw_unlock_ticket}"
    by (auto simp: pc_sets spin_access_def spin_functions)
  then show ?thesis
  proof cases
    case 1
    then have n: "cpu_pc s c \<notin> queued" by (auto simp: pc_sets)
    from 1 have "sl_owner l = sl_owner (sy_lock s) \<and> sl_ticket l = sl_ticket (sy_lock s) + 1 \<and> sc_ticket t = sl_ticket (sy_lock s)"
      using step by (elim insertE emptyE; clarsimp simp: spin_access_def spin_functions raise_priority_def)
    moreover from 1 have "sc_pc t \<in> queued - owning"
      using step by (elim insertE emptyE; clarsimp simp: spin_access_def spin_functions raise_priority_def pc_sets)
    ultimately have "spin_inv CPUS s' (q @ [c])" unfolding access(1) using spin_inv_join [OF inv c n] by blast
    then show ?thesis using n in_queue [OF inv] by blast
  next
    case 2
    then obtain q' where q': "q = c # q'" using own by (auto simp: pc_sets)
    from 2 have "sl_owner l = sl_owner (sy_lock s) + 1 \<and> sl_ticket l = sl_ticket (sy_lock s)"
      using step by (elim insertE emptyE; clarsimp simp: spin_access_def spin_functions)
    moreover from 2 have "sc_pc t \<in> untried - queued"
      using step by (elim insertE emptyE; clarsimp simp: spin_access_def spin_functions pc_sets)
    ultimately have "spin_inv CPUS s' q'" unfolding access(1) using spin_inv_pass [OF inv [unfolded q']] by blast
    then show ?thesis using q' by blast
  next
    case 3
    from 3 have "sl_owner l = sl_owner (sy_lock s) \<and> sl_ticket l = sl_ticket (sy_lock s) \<and> sc_ticket t = sc_ticket (sy_cpu s c)"
      using step by (elim insertE emptyE; clarsimp simp: spin_access_def spin_functions)
    moreover from 3 have "(sc_pc t \<in> queued \<longleftrightarrow> cpu_pc s c \<in> queued) \<and> sc_pc t \<in> untried"
      using step by (elim insertE emptyE; clarsimp simp: spin_access_def spin_functions pc_sets)
    moreover from 3 have "sc_pc t \<in> owning \<longrightarrow> cpu_pc s c \<in> owning \<or> cpu_pc s c \<in> queued \<and> sc_ticket (sy_cpu s c) = sl_owner (sy_lock s)"
      using step by (elim insertE emptyE; clarsimp simp: spin_access_def spin_functions pc_sets split: if_splits)
    then have "sc_pc t \<in> owning \<Longrightarrow> \<exists>q'. q = c # q'" using head own by blast
    ultimately have "spin_inv CPUS s' q" unfolding access(1) using spin_inv_stay [OF inv] by blast
    then show ?thesis by blast
  qed
qed

lemma spin_reach_inv:
  "spin_reach CPUS CALLS s \<Longrightarrow> card CPUS < 2 ^ 16 \<Longrightarrow> CALLS \<subseteq> {Call_lock, Call_raw_lock} \<Longrightarrow> \<exists>q. spin_inv CPUS s q"
proof (induction rule: spin_reach.induct)
  case (start s)
  then show ?case using spin_inv_start by blast
next
  case (step s c s')
  then show ?case using spin_inv_step by blast
qed

end
