(* ===== verification/SpinLockLive.thy ===== *)
theory SpinLockLive
  imports SpinLockInv
begin

text \<open>
  Progress of the spinlock under a fair schedule.
\<close>

subsection \<open>Runs\<close>

definition spin_run :: "u32 set \<Rightarrow> spin_call set \<Rightarrow> (nat \<Rightarrow> u32) \<Rightarrow> (nat \<Rightarrow> spin_sys) \<Rightarrow> bool" where
  "spin_run CPUS CALLS sched \<sigma> \<longleftrightarrow> spin_reach CPUS CALLS (\<sigma> 0) \<and>
     (\<forall>i. sched i \<in> CPUS \<and> spin_step CALLS (sched i) (\<sigma> i) (\<sigma> (Suc i)))"

text \<open>A CPU inside a function or the critical section is scheduled again.\<close>

definition spin_fair :: "(nat \<Rightarrow> u32) \<Rightarrow> (nat \<Rightarrow> spin_sys) \<Rightarrow> bool" where
  "spin_fair sched \<sigma> \<longleftrightarrow> (\<forall>c i. cpu_pc (\<sigma> i) c \<noteq> Out \<longrightarrow> (\<exists>j \<ge> i. sched j = c))"

abbreviation inside :: "spin_pc set" where "inside \<equiv> {Inside, Raw_inside}"
abbreviation waiting :: "spin_pc set" where "waiting \<equiv> {Lock_wait, Lock_check, Raw_wait, Raw_check}"

definition before :: "spin_pc set" where
  "before = waiting \<union> {Lock_save, Lock_own, Raw_own}"

text \<open>How many steps of its own the head of the queue is away from passing the lock on.\<close>

fun rank :: "spin_pc \<Rightarrow> nat" where
  "rank Lock_check = 9" | "rank Lock_wait = 8" | "rank Lock_save = 7" | "rank Lock_own = 6" | "rank Inside = 5"
| "rank Unlock_load = 4" | "rank Unlock_ticket = 3" | "rank Unlock_xadd = 2"
| "rank Raw_check = 9" | "rank Raw_wait = 8" | "rank Raw_own = 7" | "rank Raw_inside = 6" | "rank Raw_unlock_xadd = 5"
| "rank _ = 0"

lemma rank_le: "rank pc \<le> 9"
  by (cases pc) simp_all

lemma spin_step_other: "spin_step CALLS d s s' \<Longrightarrow> c \<noteq> d \<Longrightarrow> sy_cpu s' c = sy_cpu s c"
  by (auto simp: jump_def elim!: spin_stepE)

lemma access_head:
  assumes "sc_ticket t = sl_owner l" "sc_pc t \<in> queued" "spin_access c l t = Some (l', t')" "sc_pc t' \<in> queued - {Dead}"
  shows "rank (sc_pc t') < rank (sc_pc t)"
  using assms(2) unfolding queued_def owning_def
  by (elim UnE insertE emptyE; use assms(1,3,4) in \<open>clarsimp simp: spin_access_def spin_functions pc_sets split: if_splits\<close>)

lemma head_step:
  assumes inv: "spin_inv CPUS s (h # q)" and step: "spin_step CALLS h s s'" and q: "cpu_pc s' h \<in> queued - {Dead}"
  shows "rank (cpu_pc s' h) < rank (cpu_pc s h)"
proof -
  have t: "sc_ticket (sy_cpu s h) = sl_owner (sy_lock s)" "cpu_pc s h \<in> queued" using inv in_queue [OF inv, of h] by (auto simp: spin_inv_def)
  from step show ?thesis
  proof cases
    case (access l t)
    then show ?thesis using access_head [of "sy_cpu s h" "sy_lock s" h l t] t q by simp
  qed (use t in \<open>auto simp: jump_def pc_sets\<close>)
qed

lemma before_step:
  assumes step: "spin_step CALLS c s s'" and b: "cpu_pc s c \<in> before" and n: "cpu_pc s' c \<notin> inside" "cpu_pc s' c \<noteq> Dead"
  shows "cpu_pc s' c \<in> before"
  using step
proof cases
  case (access l t)
  have "sc_pc t \<in> before"
    using b unfolding before_def
    by (elim UnE insertE emptyE; use access n in \<open>clarsimp simp: spin_access_def spin_functions split: if_splits\<close>)
  then show ?thesis using access by simp
qed (use b in \<open>auto simp: before_def jump_def\<close>)

lemma before_queued: "before \<subseteq> queued"
  by (auto simp: before_def pc_sets)

subsection \<open>Every CPU is served\<close>

text \<open>\<open>c\<close> waits behind the CPUs \<open>pre\<close>.\<close>

definition behind :: "u32 set \<Rightarrow> spin_sys \<Rightarrow> u32 list \<Rightarrow> u32 \<Rightarrow> bool" where
  "behind CPUS s pre c \<longleftrightarrow> (\<exists>post. spin_inv CPUS s (pre @ c # post)) \<and> cpu_pc s c \<in> before"

lemma behind_step:
  assumes b: "behind CPUS s pre c" and few: "card CPUS < 2 ^ 16" and calls: "CALLS \<subseteq> {Call_lock, Call_raw_lock}"
    and d: "d \<in> CPUS" and step: "spin_step CALLS d s s'" and n: "cpu_pc s' c \<notin> inside" "\<forall>c. cpu_pc s' c \<noteq> Dead"
  shows "\<exists>pre'. behind CPUS s' pre' c \<and> (pre = d # pre' \<or> pre' = pre \<and>
    (if d = hd (pre @ [c]) then rank (cpu_pc s' d) < rank (cpu_pc s d) else cpu_pc s' (hd (pre @ [c])) = cpu_pc s (hd (pre @ [c]))))"
proof -
  obtain post where inv: "spin_inv CPUS s (pre @ c # post)" using b by (auto simp: behind_def)
  obtain q' where q': "spin_inv CPUS s' q'" "q' = pre @ c # post \<or> d \<notin> set (pre @ c # post) \<and> q' = (pre @ c # post) @ [d] \<or> pre @ c # post = d # q'"
    using spin_inv_step [OF inv few calls d step] by blast
  have c': "cpu_pc s' c \<in> before"
  proof (cases "d = c")
    case True
    then show ?thesis using before_step [of CALLS c s s'] step b n by (auto simp: behind_def)
  next
    case False
    then show ?thesis using spin_step_other [OF step, of c] b by (auto simp: behind_def)
  qed
  then have inq: "c \<in> set q'" using in_queue [OF q'(1), of c] before_queued by blast
  let ?h = "hd (pre @ [c])"
  obtain hq where hq: "pre @ c # post = ?h # hq" by (cases pre) auto
  from q'(2) consider "pre @ c # post = d # q'" | p where "q' = pre @ c # p" by auto
  then show ?thesis
  proof cases
    case 1
    show ?thesis
    proof (cases pre)
      case Nil
      then have "d = c" "c \<notin> set q'" using 1 inv by (auto simp: spin_inv_def)
      then show ?thesis using inq by simp
    next
      case (Cons e pre')
      then have "pre = d # pre'" "q' = pre' @ c # post" using 1 by simp_all
      then show ?thesis using q'(1) c' by (auto simp: behind_def)
    qed
  next
    case 2
    have "rank (cpu_pc s' d) < rank (cpu_pc s d)" if "d = ?h"
    proof (rule head_step [OF _ step])
      show "spin_inv CPUS s (d # hq)" using inv hq that by simp
      have "d \<in> set q'" using 2 that by (cases pre) auto
      then show "cpu_pc s' d \<in> queued - {Dead}" using in_queue [OF q'(1)] n(2) by blast
    qed
    moreover have "cpu_pc s' ?h = cpu_pc s ?h" if "d \<noteq> ?h" using spin_step_other [OF step] that by simp
    ultimately have "if d = ?h then rank (cpu_pc s' d) < rank (cpu_pc s d) else cpu_pc s' ?h = cpu_pc s ?h" by simp
    moreover have "behind CPUS s' pre c" using 2 q'(1) c' by (auto simp: behind_def)
    ultimately show ?thesis by blast
  qed
qed

lemma spin_served:
  assumes run: "spin_run CPUS CALLS sched \<sigma>" and fair: "spin_fair sched \<sigma>"
    and few: "card CPUS < 2 ^ 16" and calls: "CALLS \<subseteq> {Call_lock, Call_raw_lock}"
    and alive: "\<forall>i c. cpu_pc (\<sigma> i) c \<noteq> Dead" and b: "behind CPUS (\<sigma> i) pre c"
  shows "\<exists>j \<ge> i. cpu_pc (\<sigma> j) c \<in> inside"
proof (rule ccontr)
  assume "\<not> (\<exists>j \<ge> i. cpu_pc (\<sigma> j) c \<in> inside)"
  then have never: "cpu_pc (\<sigma> j) c \<notin> inside" if "i \<le> j" for j using that by blast
  have step: "sched j \<in> CPUS" "spin_step CALLS (sched j) (\<sigma> j) (\<sigma> (Suc j))" for j using run by (auto simp: spin_run_def)
  let ?m = "\<lambda>j pre. length pre * 10 + rank (cpu_pc (\<sigma> j) (hd (pre @ [c])))"
  have moves: "\<exists>k pre'. j \<le> k \<and> behind CPUS (\<sigma> k) pre' c \<and> ?m k pre' < ?m j pre" if j: "i \<le> j" "behind CPUS (\<sigma> j) pre c" for j pre
  proof -
    let ?h = "hd (pre @ [c])"
    obtain post where inv: "spin_inv CPUS (\<sigma> j) (pre @ c # post)" using j(2) by (auto simp: behind_def)
    have "?h \<in> set (pre @ c # post)" by (cases pre) auto
    then have "cpu_pc (\<sigma> j) ?h \<noteq> Out" using in_queue [OF inv] by (auto simp: pc_sets)
    then obtain k where k: "j \<le> k" "sched k = ?h" using fair by (auto simp: spin_fair_def)
    have ind: "j + n \<le> k \<Longrightarrow> (\<exists>k pre'. j \<le> k \<and> behind CPUS (\<sigma> k) pre' c \<and> ?m k pre' < ?m j pre) \<or>
        behind CPUS (\<sigma> (j + n)) pre c \<and> cpu_pc (\<sigma> (j + n)) ?h = cpu_pc (\<sigma> j) ?h" for n
    proof (induction n)
      case (Suc n)
      show ?case
      proof (cases "\<exists>k pre'. j \<le> k \<and> behind CPUS (\<sigma> k) pre' c \<and> ?m k pre' < ?m j pre")
        case False
        then have IH: "behind CPUS (\<sigma> (j + n)) pre c" "cpu_pc (\<sigma> (j + n)) ?h = cpu_pc (\<sigma> j) ?h" using Suc by auto
        obtain pre' where pre': "behind CPUS (\<sigma> (Suc (j + n))) pre' c" "pre = sched (j + n) # pre' \<or> pre' = pre \<and>
            (if sched (j + n) = ?h then rank (cpu_pc (\<sigma> (Suc (j + n))) (sched (j + n))) < rank (cpu_pc (\<sigma> (j + n)) (sched (j + n)))
             else cpu_pc (\<sigma> (Suc (j + n))) ?h = cpu_pc (\<sigma> (j + n)) ?h)"
          using behind_step [OF IH(1) few calls step(1,2)] never [of "Suc (j + n)"] j(1) alive by auto
        have no: "\<not> ?m (Suc (j + n)) pre' < ?m j pre" using False pre'(1) by (metis add_Suc_right le_add1)
        have "pre' = pre" using pre'(2) no rank_le [of "cpu_pc (\<sigma> (Suc (j + n))) (hd (pre' @ [c]))"] by auto
        then have "cpu_pc (\<sigma> (Suc (j + n))) ?h = cpu_pc (\<sigma> (j + n)) ?h" using pre'(2) no IH(2) by (auto split: if_splits)
        then show ?thesis using pre'(1) \<open>pre' = pre\<close> IH(2) by simp
      qed simp
    qed (use j in simp)
    show ?thesis
    proof (rule ccontr)
      assume no: "\<not> ?thesis"
      then have at: "behind CPUS (\<sigma> k) pre c" "cpu_pc (\<sigma> k) ?h = cpu_pc (\<sigma> j) ?h" using ind [of "k - j"] k(1) by auto
      obtain pre' where pre': "behind CPUS (\<sigma> (Suc k)) pre' c" "pre = ?h # pre' \<or> pre' = pre \<and> rank (cpu_pc (\<sigma> (Suc k)) ?h) < rank (cpu_pc (\<sigma> k) ?h)"
        using behind_step [OF at(1) few calls step(1,2)] never [of "Suc k"] j(1) k alive by auto
      then have "length pre = Suc (length pre') \<or> pre' = pre \<and> rank (cpu_pc (\<sigma> (Suc k)) ?h) < rank (cpu_pc (\<sigma> k) ?h)" by (metis length_Cons)
      then have "?m (Suc k) pre' < ?m j pre" using at(2) rank_le [of "cpu_pc (\<sigma> (Suc k)) (hd (pre' @ [c]))"] by auto
      then show False using no pre'(1) k(1) by (meson le_SucI)
    qed
  qed
  have False if "behind CPUS (\<sigma> j) pre c" "i \<le> j" for j pre
    using that
  proof (induction "?m j pre" arbitrary: j pre rule: less_induct)
    case less
    then obtain k pre' where "j \<le> k" "behind CPUS (\<sigma> k) pre' c" "?m k pre' < ?m j pre" using moves by blast
    then show ?case using less.hyps [of pre' k] less.prems by simp
  qed
  then show False using b by blast
qed

end
