(* ===== verification/SpinLockRw.thy ===== *)
theory SpinLockRw
  imports SpinLockInv "HOL-Library.Monad_Syntax"
begin

text \<open>
  The readers-writer lock of \<^verbatim>\<open>kernel/core/pm/lock/spinlock/spnlck_rw.c\<close>: a spinlock and a count of the
  readers. The steps of a CPU are those of the spinlock function it is in, and one for each access to
  the count.
\<close>

subsection \<open>Data\<close>

record spnlck_rw =
  rw_lock :: spnlck
  rw_reader_count :: u32

datatype rw_pc =
    Rw_out | R_enter | R_locking | R_unlocking | Reading | R_leave
  | R_try_enter | R_trying | R_try_unlocking
  | W_enter | W_locking | W_wait | Writing | W_leave | W_unlocking
  | W_try_enter | W_trying | W_try_failing

text \<open>A CPU: its spinlock locals, and the priority and the status of the function it is in.\<close>

record rw_cpu =
  rc_pc :: rw_pc
  rc_spin :: spin_cpu
  rc_priority :: u32
  rc_status :: u32

definition core_pm_spnlck_rw_init :: "spnlck_rw \<Rightarrow> spnlck_rw" where
  "core_pm_spnlck_rw_init l = l\<lparr>rw_lock := core_pm_spnlck_init (rw_lock l), rw_reader_count := 0\<rparr>"

definition spin_at :: "spin_pc \<Rightarrow> rw_cpu \<Rightarrow> rw_cpu" where
  "spin_at pc t = t\<lparr>rc_spin := (rc_spin t)\<lparr>sc_pc := pc\<rparr>\<rparr>"

definition set_thrd_priority :: "u32 \<Rightarrow> rw_cpu \<Rightarrow> rw_cpu" where
  "set_thrd_priority p t = t\<lparr>rc_spin := (rc_spin t)\<lparr>sc_thrd_priority := p\<rparr>\<rparr>"

text \<open>Saving the priority of the thread in the local and raising it.\<close>

definition rw_raise_priority :: "rw_cpu \<Rightarrow> rw_cpu" where
  "rw_raise_priority t =
     (let priority = sc_thrd_priority (rc_spin t)
      in (if priority < PRIORITY_HIGHEST then set_thrd_priority PRIORITY_HIGHEST t else t)\<lparr>rc_priority := priority\<rparr>)"

text \<open>An access of the spinlock function the CPU is in.\<close>

definition rw_inner :: "u32 \<Rightarrow> spnlck_rw \<Rightarrow> rw_cpu \<Rightarrow> (spnlck_rw \<times> rw_cpu) option" where
  "rw_inner cpu l t =
     do { (k, u) \<leftarrow> spin_access cpu (rw_lock l) (rc_spin t); Some (l\<lparr>rw_lock := k\<rparr>, t\<lparr>rc_spin := u\<rparr>) }"

subsection \<open>Readers\<close>

definition core_pm_spnlck_rw_r_lock :: "u32 \<Rightarrow> spnlck_rw \<Rightarrow> rw_cpu \<Rightarrow> (spnlck_rw \<times> rw_cpu) option" where
  "core_pm_spnlck_rw_r_lock cpu l t =
     (case rc_pc t of
        R_enter \<Rightarrow> Some (l, spin_at Raw_xadd (rw_raise_priority t)\<lparr>rc_pc := R_locking\<rparr>)
      | R_locking \<Rightarrow>
          if sc_pc (rc_spin t) = Raw_inside
          then Some (l\<lparr>rw_reader_count := rw_reader_count l + 1\<rparr>, spin_at Raw_unlock_xadd t\<lparr>rc_pc := R_unlocking\<rparr>)
          else rw_inner cpu l t
      | R_unlocking \<Rightarrow> if sc_pc (rc_spin t) = Out then Some (l, t\<lparr>rc_pc := Reading\<rparr>) else rw_inner cpu l t
      | _ \<Rightarrow> None)"

definition core_pm_spnlck_rw_r_trylock :: "u32 \<Rightarrow> spnlck_rw \<Rightarrow> rw_cpu \<Rightarrow> (spnlck_rw \<times> rw_cpu) option" where
  "core_pm_spnlck_rw_r_trylock cpu l t =
     (case rc_pc t of
        R_try_enter \<Rightarrow> Some (l, spin_at Try_load (rw_raise_priority t)\<lparr>rc_pc := R_trying\<rparr>)
      | R_trying \<Rightarrow>
          if sc_pc (rc_spin t) = Out
          then Some (l, set_thrd_priority (rc_priority t) t\<lparr>rc_status := sc_status (rc_spin t), rc_pc := Rw_out\<rparr>)
          else if sc_pc (rc_spin t) = Inside
          then Some (l\<lparr>rw_reader_count := rw_reader_count l + 1\<rparr>, spin_at Unlock_load t\<lparr>rc_pc := R_try_unlocking\<rparr>)
          else rw_inner cpu l t
      | R_try_unlocking \<Rightarrow>
          if sc_pc (rc_spin t) = Out then Some (l, t\<lparr>rc_status := ESUCCESS, rc_pc := Reading\<rparr>) else rw_inner cpu l t
      | _ \<Rightarrow> None)"

definition core_pm_spnlck_rw_r_unlock :: "spnlck_rw \<Rightarrow> rw_cpu \<Rightarrow> (spnlck_rw \<times> rw_cpu) option" where
  "core_pm_spnlck_rw_r_unlock l t =
     (case rc_pc t of
        R_leave \<Rightarrow> Some (l\<lparr>rw_reader_count := rw_reader_count l - 1\<rparr>, set_thrd_priority (rc_priority t) t\<lparr>rc_pc := Rw_out\<rparr>)
      | _ \<Rightarrow> None)"

subsection \<open>Writers\<close>

definition core_pm_spnlck_rw_w_lock :: "u32 \<Rightarrow> spnlck_rw \<Rightarrow> rw_cpu \<Rightarrow> (spnlck_rw \<times> rw_cpu) option" where
  "core_pm_spnlck_rw_w_lock cpu l t =
     (case rc_pc t of
        W_enter \<Rightarrow> Some (l, spin_at Lock_xadd t\<lparr>rc_pc := W_locking\<rparr>)
      | W_locking \<Rightarrow> if sc_pc (rc_spin t) = Inside then Some (l, t\<lparr>rc_pc := W_wait\<rparr>) else rw_inner cpu l t
      | W_wait \<Rightarrow> Some (l, if rw_reader_count l > 0 then t else t\<lparr>rc_pc := Writing\<rparr>)
      | _ \<Rightarrow> None)"

definition core_pm_spnlck_rw_w_trylock :: "u32 \<Rightarrow> spnlck_rw \<Rightarrow> rw_cpu \<Rightarrow> (spnlck_rw \<times> rw_cpu) option" where
  "core_pm_spnlck_rw_w_trylock cpu l t =
     (case rc_pc t of
        W_try_enter \<Rightarrow> Some (l, spin_at Try_load t\<lparr>rc_pc := W_trying\<rparr>)
      | W_trying \<Rightarrow>
          if sc_pc (rc_spin t) = Out then Some (l, t\<lparr>rc_status := sc_status (rc_spin t), rc_pc := Rw_out\<rparr>)
          else if sc_pc (rc_spin t) = Inside
          then Some (l, if rw_reader_count l = 0 then t\<lparr>rc_status := ESUCCESS, rc_pc := Writing\<rparr>
                        else spin_at Unlock_load t\<lparr>rc_pc := W_try_failing\<rparr>)
          else rw_inner cpu l t
      | W_try_failing \<Rightarrow>
          if sc_pc (rc_spin t) = Out then Some (l, t\<lparr>rc_status := EAGAIN, rc_pc := Rw_out\<rparr>) else rw_inner cpu l t
      | _ \<Rightarrow> None)"

definition core_pm_spnlck_rw_w_unlock :: "u32 \<Rightarrow> spnlck_rw \<Rightarrow> rw_cpu \<Rightarrow> (spnlck_rw \<times> rw_cpu) option" where
  "core_pm_spnlck_rw_w_unlock cpu l t =
     (case rc_pc t of
        W_leave \<Rightarrow> Some (l, spin_at Unlock_load t\<lparr>rc_pc := W_unlocking\<rparr>)
      | W_unlocking \<Rightarrow> if sc_pc (rc_spin t) = Out then Some (l, t\<lparr>rc_pc := Rw_out\<rparr>) else rw_inner cpu l t
      | _ \<Rightarrow> None)"

subsection \<open>The CPUs together\<close>

definition rw_access :: "u32 \<Rightarrow> spnlck_rw \<Rightarrow> rw_cpu \<Rightarrow> (spnlck_rw \<times> rw_cpu) option" where
  "rw_access cpu l t =
     foldr or_else
       [core_pm_spnlck_rw_r_lock cpu l t, core_pm_spnlck_rw_r_trylock cpu l t, core_pm_spnlck_rw_r_unlock l t,
        core_pm_spnlck_rw_w_lock cpu l t, core_pm_spnlck_rw_w_trylock cpu l t, core_pm_spnlck_rw_w_unlock cpu l t] None"

datatype rw_call = Call_r_lock | Call_r_trylock | Call_w_lock | Call_w_trylock

fun rw_entry :: "rw_call \<Rightarrow> rw_pc" where
  "rw_entry Call_r_lock = R_enter"
| "rw_entry Call_r_trylock = R_try_enter"
| "rw_entry Call_w_lock = W_enter"
| "rw_entry Call_w_trylock = W_try_enter"

record rw_sys =
  ry_lock :: spnlck_rw
  ry_cpu :: "u32 \<Rightarrow> rw_cpu"

abbreviation rw_at :: "rw_sys \<Rightarrow> u32 \<Rightarrow> rw_pc" where "rw_at s c \<equiv> rc_pc (ry_cpu s c)"

definition rw_jump :: "rw_sys \<Rightarrow> u32 \<Rightarrow> rw_pc \<Rightarrow> rw_sys" where
  "rw_jump s c pc = s\<lparr>ry_cpu := (ry_cpu s)(c := (ry_cpu s c)\<lparr>rc_pc := pc\<rparr>)\<rparr>"

inductive rw_step :: "rw_call set \<Rightarrow> u32 \<Rightarrow> rw_sys \<Rightarrow> rw_sys \<Rightarrow> bool" for CALLS c where
  call: "rw_at s c = Rw_out \<Longrightarrow> k \<in> CALLS \<Longrightarrow> rw_step CALLS c s (rw_jump s c (rw_entry k))"
| access: "rw_access c (ry_lock s) (ry_cpu s c) = Some (l, t) \<Longrightarrow> rw_step CALLS c s \<lparr>ry_lock = l, ry_cpu = (ry_cpu s)(c := t)\<rparr>"
| r_leave: "rw_at s c = Reading \<Longrightarrow> rw_step CALLS c s (rw_jump s c R_leave)"
| w_leave: "rw_at s c = Writing \<Longrightarrow> rw_step CALLS c s (rw_jump s c W_leave)"

inductive_cases rw_stepE: "rw_step CALLS c s s'"

definition rw_start :: "rw_sys \<Rightarrow> bool" where
  "rw_start s \<longleftrightarrow> (\<exists>l. ry_lock s = core_pm_spnlck_rw_init l) \<and> (\<forall>c. rw_at s c = Rw_out \<and> sc_pc (rc_spin (ry_cpu s c)) = Out)"

inductive rw_reach :: "u32 set \<Rightarrow> rw_call set \<Rightarrow> rw_sys \<Rightarrow> bool" for CPUS CALLS where
  start: "rw_start s \<Longrightarrow> rw_reach CPUS CALLS s"
| step: "rw_reach CPUS CALLS s \<Longrightarrow> c \<in> CPUS \<Longrightarrow> rw_step CALLS c s s' \<Longrightarrow> rw_reach CPUS CALLS s'"

subsection \<open>Readers and writers exclude each other\<close>

text \<open>The spinlock inside, and where a CPU may be in it.\<close>

definition spin_of :: "rw_sys \<Rightarrow> spin_sys" where
  "spin_of s = \<lparr>sy_lock = rw_lock (ry_lock s), sy_cpu = \<lambda>c. rc_spin (ry_cpu s c)\<rparr>"

fun spin_places :: "rw_pc \<Rightarrow> spin_pc set" where
  "spin_places R_locking = {Raw_xadd, Raw_wait, Raw_check, Raw_own, Raw_inside, Dead}"
| "spin_places R_unlocking = {Raw_unlock_xadd, Raw_unlock_ticket, Out}"
| "spin_places W_locking = {Lock_xadd, Lock_wait, Lock_check, Lock_save, Lock_own, Inside, Dead}"
| "spin_places W_wait = {Inside}"
| "spin_places Writing = {Inside}"
| "spin_places W_leave = {Inside}"
| "spin_places W_unlocking = {Unlock_load, Unlock_ticket, Unlock_xadd, Out}"
| "spin_places R_trying = {}" | "spin_places R_try_unlocking = {}" | "spin_places R_try_enter = {}"
| "spin_places W_trying = {}" | "spin_places W_try_failing = {}" | "spin_places W_try_enter = {}"
| "spin_places _ = {Out}"

definition counted :: "rw_pc set" where
  "counted = {R_unlocking, Reading, R_leave}"

definition writing :: "rw_pc set" where
  "writing = {Writing, W_leave}"

definition rw_inv :: "u32 set \<Rightarrow> rw_sys \<Rightarrow> bool" where
  "rw_inv CPUS s \<longleftrightarrow> (\<exists>q. spin_inv CPUS (spin_of s) q) \<and> (\<forall>c. sc_pc (rc_spin (ry_cpu s c)) \<in> spin_places (rw_at s c)) \<and>
     {c. rw_at s c \<in> counted} \<subseteq> CPUS \<and> rw_reader_count (ry_lock s) = of_nat (card {c. rw_at s c \<in> counted}) \<and>
     (\<forall>c. rw_at s c \<in> writing \<longrightarrow> {d. rw_at s d \<in> counted} = {})"

lemma spin_of_upd: "spin_of \<lparr>ry_lock = l, ry_cpu = (ry_cpu s)(c := t)\<rparr> =
    \<lparr>sy_lock = rw_lock l, sy_cpu = (sy_cpu (spin_of s))(c := rc_spin t)\<rparr>"
  by (auto simp: spin_of_def)

lemma spin_of_sel [simp]: "sy_lock (spin_of s) = rw_lock (ry_lock s)" "sy_cpu (spin_of s) c = rc_spin (ry_cpu s c)"
  by (simp_all add: spin_of_def)

lemma rw_count:
  assumes "rw_inv CPUS s" "card CPUS < 2 ^ 16"
  shows "unat (rw_reader_count (ry_lock s)) = card {c. rw_at s c \<in> counted}"
proof -
  have "{c. rw_at s c \<in> counted} \<subseteq> CPUS" "rw_reader_count (ry_lock s) = of_nat (card {c. rw_at s c \<in> counted})"
    using assms(1) by (auto simp: rw_inv_def)
  moreover from this have "card {c. rw_at s c \<in> counted} < 2 ^ 32" using assms(2) card_mono [of CPUS "{c. rw_at s c \<in> counted}"] by simp
  ultimately show ?thesis using unat_of_nat_less by simp
qed

lemma readers_0:
  assumes "rw_inv CPUS s" "card CPUS < 2 ^ 16" "rw_reader_count (ry_lock s) = 0"
  shows "{c. rw_at s c \<in> counted} = {}"
proof -
  have "card {c. rw_at s c \<in> counted} = 0" using rw_count [OF assms(1,2)] assms(3) by simp
  then show ?thesis by simp
qed

text \<open>A step that leaves the readers alone, a reader that comes, a reader that goes.\<close>

lemma rw_inv_upd:
  assumes inv: "rw_inv CPUS s" and few: "card CPUS < 2 ^ 16" and c: "c \<in> CPUS"
    and s': "s' = \<lparr>ry_lock = l, ry_cpu = (ry_cpu s)(c := t)\<rparr>"
    and spin: "\<exists>q. spin_inv CPUS (spin_of s') q" and place: "sc_pc (rc_spin t) \<in> spin_places (rc_pc t)"
    and move: "(rc_pc t \<in> counted \<longleftrightarrow> rw_at s c \<in> counted) \<and> rw_reader_count l = rw_reader_count (ry_lock s) \<and>
        (rc_pc t \<in> writing \<longrightarrow> rw_at s c \<in> writing \<or> rw_reader_count (ry_lock s) = 0) \<or>
      rw_at s c \<notin> counted \<and> rc_pc t \<in> counted \<and> rw_reader_count l = rw_reader_count (ry_lock s) + 1 \<and> sc_pc (rc_spin (ry_cpu s c)) = Raw_inside \<or>
      rw_at s c \<in> counted \<and> rc_pc t \<notin> counted \<union> writing \<and> rw_reader_count l = rw_reader_count (ry_lock s) - 1"
  shows "rw_inv CPUS s'"
proof -
  let ?C = "{d. rw_at s d \<in> counted}" and ?C' = "{d. rw_at s' d \<in> counted}"
  have C: "?C \<subseteq> CPUS" "rw_reader_count (ry_lock s) = of_nat (card ?C)" "\<forall>d. rw_at s d \<in> writing \<longrightarrow> ?C = {}"
    "\<forall>d. sc_pc (rc_spin (ry_cpu s d)) \<in> spin_places (rw_at s d)" using inv by (auto simp: rw_inv_def)
  have C': "?C' = (if rc_pc t \<in> counted then insert c ?C else ?C - {c})" by (auto simp: s')
  have cw: "rc_pc t \<in> counted \<Longrightarrow> rc_pc t \<notin> writing" for t :: rw_cpu by (auto simp: counted_def writing_def)
  have one: "d = c" if d: "rw_at s d \<in> writing" "sc_pc (rc_spin (ry_cpu s c)) = Raw_inside" for d
  proof -
    obtain q where "spin_inv CPUS (spin_of s) q" using inv by (auto simp: rw_inv_def)
    moreover have "sc_pc (rc_spin (ry_cpu s d)) = Inside" using C(4) [rule_format, of d] d(1) by (auto simp: writing_def)
    then have "cpu_pc (spin_of s) d \<in> owning" "cpu_pc (spin_of s) c \<in> owning" using d(2) by (simp_all add: owning_def)
    ultimately show ?thesis unfolding spin_inv_def by (metis list.inject)
  qed
  have "?C' \<subseteq> CPUS \<and> rw_reader_count l = of_nat (card ?C') \<and> (\<forall>d. rw_at s' d \<in> writing \<longrightarrow> ?C' = {})"
    using move
  proof (elim disjE conjE)
    assume m: "rc_pc t \<in> counted \<longleftrightarrow> rw_at s c \<in> counted" "rw_reader_count l = rw_reader_count (ry_lock s)"
      "rc_pc t \<in> writing \<longrightarrow> rw_at s c \<in> writing \<or> rw_reader_count (ry_lock s) = 0"
    have e: "?C' = ?C" using m(1) C' by auto
    have "?C = {}" if "rw_at s' d \<in> writing" for d
      using that m(3) C(3) readers_0 [OF inv few] by (cases "d = c") (auto simp: s')
    then show ?thesis using C m(2) e by simp
  next
    assume m: "rw_at s c \<notin> counted" "rc_pc t \<in> counted" "rw_reader_count l = rw_reader_count (ry_lock s) + 1"
      "sc_pc (rc_spin (ry_cpu s c)) = Raw_inside"
    have "rw_at s' d \<notin> writing" for d
      using one [of d] m(2,4) cw C(4) [rule_format, of c] by (cases "d = c") (auto simp: s' writing_def)
    then show ?thesis using C c m C' by simp
  next
    assume m: "rw_at s c \<in> counted" "rc_pc t \<notin> counted \<union> writing" "rw_reader_count l = rw_reader_count (ry_lock s) - 1"
    have "card ?C = Suc (card (?C - {c}))" using m(1) by (intro card.remove) simp_all
    then have "rw_reader_count l = of_nat (card ?C')" using C(2) m C' by simp
    moreover have "rw_at s' d \<notin> writing" for d
    proof (cases "d = c")
      case True
      then show ?thesis using m(2) by (simp add: s')
    next
      case False
      moreover have "rw_at s d \<notin> writing" using C(3) m(1) by blast
      ultimately show ?thesis by (simp add: s')
    qed
    ultimately show ?thesis using C(1) C' m(2) by auto
  qed
  moreover have "sc_pc (rc_spin (ry_cpu s' d)) \<in> spin_places (rw_at s' d)" for d using C(4) place by (simp add: s')
  ultimately show ?thesis using spin by (simp add: rw_inv_def s')
qed

lemma rw_inv_start: "rw_start s \<Longrightarrow> rw_inv CPUS s"
proof -
  assume s: "rw_start s"
  then have "spin_start (spin_of s)" by (auto simp: rw_start_def spin_start_def core_pm_spnlck_rw_init_def)
  then have "spin_inv CPUS (spin_of s) []" by (rule spin_inv_start)
  then show ?thesis using s by (auto simp: rw_start_def rw_inv_def counted_def writing_def core_pm_spnlck_rw_init_def)
qed

lemmas rw_functions = core_pm_spnlck_rw_r_lock_def core_pm_spnlck_rw_r_trylock_def core_pm_spnlck_rw_r_unlock_def
  core_pm_spnlck_rw_w_lock_def core_pm_spnlck_rw_w_trylock_def core_pm_spnlck_rw_w_unlock_def

text \<open>An access of the spinlock function keeps the CPU where it may be.\<close>

lemma inner_place:
  assumes "spin_access c l u = Some (k, v)" "sc_pc u \<in> spin_places pc" "sc_pc u \<noteq> Inside" "sc_pc u \<noteq> Raw_inside" "sc_pc u \<noteq> Out"
  shows "sc_pc v \<in> spin_places pc"
  using assms(2-5)
  by (cases pc; simp; elim disjE; use assms(1) in \<open>clarsimp simp: spin_access_def spin_functions raise_priority_def split: if_splits\<close>)

lemma spin_outer:
  assumes "spin_inv CPUS (spin_of s) q" "rw_lock l = rw_lock (ry_lock s)" "sc_ticket (rc_spin t) = sc_ticket (rc_spin (ry_cpu s c))"
    "sc_pc (rc_spin t) \<in> queued \<longleftrightarrow> sc_pc (rc_spin (ry_cpu s c)) \<in> queued" "sc_pc (rc_spin t) \<in> untried"
    "sc_pc (rc_spin t) \<in> owning \<Longrightarrow> sc_pc (rc_spin (ry_cpu s c)) \<in> owning"
  shows "\<exists>q. spin_inv CPUS (spin_of \<lparr>ry_lock = l, ry_cpu = (ry_cpu s)(c := t)\<rparr>) q"
proof -
  have "\<exists>q'. q = c # q'" if "sc_pc (rc_spin t) \<in> owning" using assms(1) assms(6) [OF that] by (auto simp: spin_inv_def)
  then have "spin_inv CPUS \<lparr>sy_lock = rw_lock l, sy_cpu = (sy_cpu (spin_of s))(c := rc_spin t)\<rparr> q"
    using assms by (intro spin_inv_stay [OF assms(1)]) simp_all
  then show ?thesis by (auto simp: spin_of_upd)
qed

text \<open>Every access is one of the spinlock function inside, or one of the outer function itself.\<close>

definition rw_outer :: "spnlck_rw \<Rightarrow> rw_cpu \<Rightarrow> spnlck_rw \<Rightarrow> rw_cpu \<Rightarrow> bool" where
  "rw_outer l t l' t' \<longleftrightarrow> rw_lock l' = rw_lock l \<and> sc_ticket (rc_spin t') = sc_ticket (rc_spin t) \<and>
     (sc_pc (rc_spin t') \<in> queued \<longleftrightarrow> sc_pc (rc_spin t) \<in> queued) \<and> sc_pc (rc_spin t') \<in> untried \<and>
     (sc_pc (rc_spin t') \<in> owning \<longrightarrow> sc_pc (rc_spin t) \<in> owning) \<and> sc_pc (rc_spin t') \<in> spin_places (rc_pc t') \<and>
     ((rc_pc t' \<in> counted \<longleftrightarrow> rc_pc t \<in> counted) \<and> rw_reader_count l' = rw_reader_count l \<and>
        (rc_pc t' \<in> writing \<longrightarrow> rc_pc t \<in> writing \<or> rw_reader_count l = 0) \<or>
      rc_pc t \<notin> counted \<and> rc_pc t' \<in> counted \<and> rw_reader_count l' = rw_reader_count l + 1 \<and> sc_pc (rc_spin t) = Raw_inside \<or>
      rc_pc t \<in> counted \<and> rc_pc t' \<notin> counted \<union> writing \<and> rw_reader_count l' = rw_reader_count l - 1)"

lemmas rw_sets = counted_def writing_def pc_sets

lemma rw_access_cases:
  assumes "rw_access c l t = Some (l', t')" "sc_pc (rc_spin t) \<in> spin_places (rc_pc t)"
  shows "rw_outer l t l' t' \<or> rw_inner c l t = Some (l', t') \<and> sc_pc (rc_spin t) \<noteq> Inside \<and> sc_pc (rc_spin t) \<noteq> Raw_inside \<and> sc_pc (rc_spin t) \<noteq> Out"
proof (cases "rc_pc t")
  case R_enter
  then show ?thesis using assms
    by (auto simp: rw_access_def rw_functions rw_outer_def rw_sets spin_at_def rw_raise_priority_def set_thrd_priority_def Let_def)
next
  case R_locking
  then show ?thesis using assms
    by (cases "rw_inner c l t") (auto simp: rw_access_def rw_functions rw_outer_def rw_sets spin_at_def split: if_splits)
next
  case R_unlocking
  then show ?thesis using assms
    by (cases "rw_inner c l t") (auto simp: rw_access_def rw_functions rw_outer_def rw_sets spin_at_def split: if_splits)
next
  case R_leave
  then show ?thesis using assms
    by (auto simp: rw_access_def rw_functions rw_outer_def rw_sets spin_at_def set_thrd_priority_def)
next
  case W_locking
  then show ?thesis using assms
    by (cases "rw_inner c l t") (auto simp: rw_access_def rw_functions rw_outer_def rw_sets spin_at_def split: if_splits)
next
  case W_unlocking
  then show ?thesis using assms
    by (cases "rw_inner c l t") (auto simp: rw_access_def rw_functions rw_outer_def rw_sets spin_at_def split: if_splits)
next
  case W_enter
  then show ?thesis using assms by (auto simp: rw_access_def rw_functions rw_outer_def rw_sets spin_at_def)
next
  case W_wait
  then have "rw_access c l t = Some (l, if rw_reader_count l > 0 then t else t\<lparr>rc_pc := Writing\<rparr>)"
    by (simp add: rw_access_def rw_functions)
  then have "l' = l" "t' = (if rw_reader_count l > 0 then t else t\<lparr>rc_pc := Writing\<rparr>)" using assms(1) by simp_all
  moreover have "sc_pc (rc_spin t) = Inside" using W_wait assms(2) by simp
  moreover have "0 < rw_reader_count l \<or> rw_reader_count l = 0" by (simp add: word_gt_0)
  ultimately show ?thesis using W_wait by (cases "0 < rw_reader_count l") (simp_all add: rw_outer_def rw_sets)
next
  case W_leave
  then show ?thesis using assms by (auto simp: rw_access_def rw_functions rw_outer_def rw_sets spin_at_def)
qed (use assms in \<open>simp_all add: rw_access_def rw_functions\<close>)

lemma rw_inv_jump:
  assumes inv: "rw_inv CPUS s" and few: "card CPUS < 2 ^ 16" and c: "c \<in> CPUS"
    and pc: "spin_places pc = spin_places (rw_at s c)" "pc \<in> counted \<longleftrightarrow> rw_at s c \<in> counted" "pc \<in> writing \<longrightarrow> rw_at s c \<in> writing"
  shows "rw_inv CPUS (rw_jump s c pc)"
proof -
  have s': "rw_jump s c pc = \<lparr>ry_lock = ry_lock s, ry_cpu = (ry_cpu s)(c := (ry_cpu s c)\<lparr>rc_pc := pc\<rparr>)\<rparr>" by (simp add: rw_jump_def)
  have "spin_of (rw_jump s c pc) = spin_of s" by (auto simp: spin_of_def rw_jump_def)
  then have "\<exists>q. spin_inv CPUS (spin_of (rw_jump s c pc)) q" using inv by (simp add: rw_inv_def)
  then show ?thesis using inv pc by (intro rw_inv_upd [OF inv few c s']) (auto simp: rw_inv_def)
qed

lemma rw_inv_step:
  assumes inv: "rw_inv CPUS s" and few: "card CPUS < 2 ^ 16" and calls: "CALLS \<subseteq> {Call_r_lock, Call_w_lock}"
    and c: "c \<in> CPUS" and step: "rw_step CALLS c s s'"
  shows "rw_inv CPUS s'"
  using step
proof cases
  case (call k)
  then have "k = Call_r_lock \<or> k = Call_w_lock" using calls by blast
  then show ?thesis using call rw_inv_jump [OF inv few c, of "rw_entry k"] by (auto simp: rw_sets)
next
  case r_leave
  then show ?thesis using rw_inv_jump [OF inv few c, of R_leave] by (auto simp: rw_sets)
next
  case w_leave
  then show ?thesis using rw_inv_jump [OF inv few c, of W_leave] by (auto simp: rw_sets)
next
  case (access l t)
  have place: "sc_pc (rc_spin (ry_cpu s c)) \<in> spin_places (rw_at s c)" using inv by (simp add: rw_inv_def)
  obtain q where q: "spin_inv CPUS (spin_of s) q" using inv by (auto simp: rw_inv_def)
  from rw_access_cases [OF access(2) place] show ?thesis
  proof
    assume o: "rw_outer (ry_lock s) (ry_cpu s c) l t"
    then have "\<exists>q. spin_inv CPUS (spin_of s') q" unfolding access(1) by (intro spin_outer [OF q]) (auto simp: rw_outer_def)
    then show ?thesis using o by (intro rw_inv_upd [OF inv few c access(1)]) (auto simp: rw_outer_def)
  next
    assume i: "rw_inner c (ry_lock s) (ry_cpu s c) = Some (l, t) \<and> sc_pc (rc_spin (ry_cpu s c)) \<noteq> Inside \<and>
      sc_pc (rc_spin (ry_cpu s c)) \<noteq> Raw_inside \<and> sc_pc (rc_spin (ry_cpu s c)) \<noteq> Out"
    then obtain k v where k: "spin_access c (rw_lock (ry_lock s)) (rc_spin (ry_cpu s c)) = Some (k, v)" "l = (ry_lock s)\<lparr>rw_lock := k\<rparr>"
      "t = (ry_cpu s c)\<lparr>rc_spin := v\<rparr>" by (auto simp: rw_inner_def bind_eq_Some_conv)
    then have "spin_step {} c (spin_of s) (spin_of s')"
      unfolding access(1) spin_of_upd using spin_step.access [of c "spin_of s" k v "{}"] by simp
    from spin_inv_step [OF q few empty_subsetI c this] have "\<exists>q. spin_inv CPUS (spin_of s') q" by (elim exE conjE) (rule exI)
    moreover have "sc_pc v \<in> spin_places (rw_at s c)" using inner_place [OF k(1) place] i by blast
    ultimately show ?thesis using k by (intro rw_inv_upd [OF inv few c access(1)]) auto
  qed
qed

lemma rw_reach_inv:
  "rw_reach CPUS CALLS s \<Longrightarrow> card CPUS < 2 ^ 16 \<Longrightarrow> CALLS \<subseteq> {Call_r_lock, Call_w_lock} \<Longrightarrow> rw_inv CPUS s"
proof (induction rule: rw_reach.induct)
  case (start s)
  then show ?case using rw_inv_start by blast
next
  case (step s c s')
  then show ?case using rw_inv_step by blast
qed

end
