(* ===== verification/SpinLockSpec.thy ===== *)
theory SpinLockSpec
  imports SpinLockLive SpinLockRw
begin

text \<open>
  The properties of the spinlock and of the readers-writer lock, with the steps in executable form for
  the schedules of the witnesses.
\<close>

subsection \<open>Executable schedules\<close>

text \<open>The next step of a CPU; \<open>k\<close> is what it calls when it is outside.\<close>

definition spin_next :: "u32 \<Rightarrow> spin_call \<Rightarrow> spin_sys \<Rightarrow> spin_sys option" where
  "spin_next c k s =
     (case cpu_pc s c of
        Out \<Rightarrow> Some (jump s c (spin_entry k))
      | Inside \<Rightarrow> Some (jump s c Unlock_load)
      | Raw_inside \<Rightarrow> Some (jump s c Raw_unlock_xadd)
      | _ \<Rightarrow> map_option (\<lambda>(l, t). \<lparr>sy_lock = l, sy_cpu = (sy_cpu s)(c := t)\<rparr>) (spin_access c (sy_lock s) (sy_cpu s c)))"

fun spin_play :: "(u32 \<times> spin_call) list \<Rightarrow> spin_sys \<Rightarrow> spin_sys option" where
  "spin_play [] s = Some s"
| "spin_play ((c, k) # ms) s = (case spin_next c k s of Some s' \<Rightarrow> spin_play ms s' | None \<Rightarrow> None)"

lemma spin_next_step: "spin_next c k s = Some s' \<Longrightarrow> k \<in> CALLS \<Longrightarrow> spin_step CALLS c s s'"
  by (cases "cpu_pc s c") (auto simp: spin_next_def intro: spin_step.intros)

lemma spin_play_reach:
  "spin_reach CPUS CALLS s \<Longrightarrow> spin_play ms s = Some s' \<Longrightarrow> set ms \<subseteq> CPUS \<times> CALLS \<Longrightarrow> spin_reach CPUS CALLS s'"
proof (induction ms arbitrary: s)
  case (Cons m ms)
  obtain c k where "m = (c, k)" by (cases m)
  then obtain s1 where "c \<in> CPUS" "k \<in> CALLS" "spin_next c k s = Some s1" "spin_play ms s1 = Some s'" "set ms \<subseteq> CPUS \<times> CALLS"
    using Cons.prems by (auto split: option.splits)
  then show ?case using Cons.IH [of s1] Cons.prems(1) spin_next_step [of c k s s1] by (blast intro: spin_reach.step)
qed simp

lemma spin_play_other: "spin_play ms s = Some s' \<Longrightarrow> c \<notin> fst ` set ms \<Longrightarrow> sy_cpu s' c = sy_cpu s c"
proof (induction ms arbitrary: s)
  case (Cons m ms)
  obtain d k where m: "m = (d, k)" by (cases m)
  then obtain s1 where "c \<noteq> d" "spin_next d k s = Some s1" "spin_play ms s1 = Some s'" "c \<notin> fst ` set ms"
    using Cons.prems by (auto split: option.splits)
  then show ?case using Cons.IH [of s1] spin_step_other [OF spin_next_step [of d k s s1 UNIV]] by simp
qed simp

declare spin_play.simps [simp del]

definition spin_idle :: spin_cpu where
  "spin_idle = \<lparr>sc_pc = Out, sc_ticket = 0, sc_priority = 0, sc_old_lock = 0, sc_seen = 0, sc_inc_val = 0, sc_thrd_priority = 0x30, sc_status = 0\<rparr>"

definition spin_boot :: spin_sys where
  "spin_boot = \<lparr>sy_lock = core_pm_spnlck_init \<lparr>sl_ticket = 7, sl_owner = 5, sl_priority = 3, sl_cpu_index = 9\<rparr>, sy_cpu = \<lambda>_. spin_idle\<rparr>"

lemma spin_boot_start: "spin_reach CPUS CALLS spin_boot"
  by (rule spin_reach.start) (auto simp: spin_start_def spin_boot_def spin_idle_def)

text \<open>Where two CPUs are after a schedule.\<close>

definition spin_places_after :: "(u32 \<times> spin_call) list \<Rightarrow> u32 \<Rightarrow> u32 \<Rightarrow> (spin_pc \<times> spin_pc) option" where
  "spin_places_after ms c d = map_option (\<lambda>s. (cpu_pc s c, cpu_pc s d)) (spin_play ms spin_boot)"

lemmas spin_eval = spin_next_def spin_boot_def spin_idle_def core_pm_spnlck_init_def jump_def spin_access_def spin_functions raise_priority_def
  lock_word_def set_lock_word_def inc_low_half_def

text \<open>A CPU alone takes and releases the lock for ever.\<close>

definition alone :: "spin_sys \<Rightarrow> bool" where
  "alone s \<longleftrightarrow> (\<forall>c. c \<noteq> 1 \<longrightarrow> cpu_pc s c = Out) \<and>
     (cpu_pc s 1 \<in> {Out, Lock_xadd} \<and> sl_ticket (sy_lock s) = sl_owner (sy_lock s) \<or>
      cpu_pc s 1 \<in> {Lock_wait, Lock_save, Lock_own, Inside, Unlock_load, Unlock_ticket, Unlock_xadd} \<and>
      sc_ticket (sy_cpu s 1) = sl_owner (sy_lock s) \<and> sl_ticket (sy_lock s) = sl_owner (sy_lock s) + 1)"

lemma alone_step: "alone s \<Longrightarrow> \<exists>s'. spin_next 1 Call_lock s = Some s' \<and> alone s'"
  unfolding alone_def
  by (elim conjE disjE insertE emptyE; clarsimp simp: spin_next_def jump_def spin_access_def spin_functions raise_priority_def)

fun alone_run :: "nat \<Rightarrow> spin_sys" where
  "alone_run 0 = spin_boot"
| "alone_run (Suc i) = the (spin_next 1 Call_lock (alone_run i))"

lemma alone_run: "alone (alone_run i) \<and> spin_next 1 Call_lock (alone_run i) = Some (alone_run (Suc i))"
proof (induction i)
  case 0
  have "alone spin_boot" by (simp add: alone_def spin_boot_def spin_idle_def core_pm_spnlck_init_def)
  then show ?case using alone_step by force
next
  case (Suc i)
  then have "alone (alone_run (Suc i))" using alone_step [of "alone_run i"] by auto
  then show ?case using alone_step by force
qed

subsection \<open>Properties of the spinlock\<close>

text \<open>
  C22. Mutual exclusion: however fewer than 65536 CPUs interleave calls of \<^verbatim>\<open>core_pm_spnlck_lock\<close>,
  \<^verbatim>\<open>core_pm_spnlck_raw_lock\<close> and the releases, no two of them are at the same time between the test of
  the owner that let them in and the increment that passes the lock on, the wrap-around of the
  16-bit tickets included.
\<close>

theorem core_pm_spnlck_mutual_exclusion:
  assumes "spin_reach CPUS CALLS s" "card CPUS < 2 ^ 16" "CALLS \<subseteq> {Call_lock, Call_raw_lock}"
    and "cpu_pc s c \<in> owning" "cpu_pc s d \<in> owning"
  shows "c = d"
proof -
  obtain q where "spin_inv CPUS s q" using spin_reach_inv [OF assms(1-3)] by blast
  then show ?thesis using assms(4,5) unfolding spin_inv_def by (metis list.inject)
qed

theorem core_pm_spnlck_mutual_exclusion_witness:
  "\<exists>s. spin_play [(1, Call_lock), (1, Call_lock), (1, Call_lock), (1, Call_lock), (1, Call_lock), (2, Call_lock), (2, Call_lock)] spin_boot = Some s \<and>
     cpu_pc s 1 = Inside \<and> (\<forall>d. cpu_pc s d \<in> owning \<longrightarrow> d = 1)"
proof -
  have "spin_places_after [(1, Call_lock), (1, Call_lock), (1, Call_lock), (1, Call_lock), (1, Call_lock), (2, Call_lock), (2, Call_lock)] 1 2 =
      Some (Inside, Lock_wait)" by code_simp
  then obtain s where s: "spin_play [(1, Call_lock), (1, Call_lock), (1, Call_lock), (1, Call_lock), (1, Call_lock), (2, Call_lock), (2, Call_lock)] spin_boot = Some s"
    "cpu_pc s 1 = Inside" by (auto simp: spin_places_after_def)
  then have "spin_reach {1, 2} {Call_lock} s" using spin_play_reach [OF spin_boot_start] by fastforce
  from core_pm_spnlck_mutual_exclusion [OF this, of _ 1] s show ?thesis by (auto simp: owning_def)
qed

text \<open>
  C23. First come, first served: the spinlock implements a queue of CPUs. In every state that fewer than 65536
  CPUs reach with \<^verbatim>\<open>core_pm_spnlck_lock\<close>, \<^verbatim>\<open>core_pm_spnlck_raw_lock\<close> and the releases, the CPUs that wait or
  own stand in a queue with the owner at its head, and a step of a CPU leaves the queue as it is, appends
  the CPU (drawing a ticket), or removes it from the head (passing the lock on).
\<close>

theorem core_pm_spnlck_fifo:
  assumes "spin_reach CPUS CALLS s" "card CPUS < 2 ^ 16" "CALLS \<subseteq> {Call_lock, Call_raw_lock}"
  shows "\<exists>q. spin_inv CPUS s q \<and> (\<forall>c \<in> CPUS. \<forall>s'. spin_step CALLS c s s' \<longrightarrow>
    (\<exists>q'. spin_inv CPUS s' q' \<and> (q' = q \<or> c \<notin> set q \<and> q' = q @ [c] \<or> q = c # q')))"
proof -
  obtain q where q: "spin_inv CPUS s q" using spin_reach_inv [OF assms] by blast
  have "\<exists>q'. spin_inv CPUS s' q' \<and> (q' = q \<or> c \<notin> set q \<and> q' = q @ [c] \<or> q = c # q')" if "c \<in> CPUS" "spin_step CALLS c s s'" for c s'
    using spin_inv_step [OF q assms(2,3) that] .
  then show ?thesis using q by blast
qed

theorem core_pm_spnlck_fifo_witness:
  "\<exists>q. spin_inv {1, 2} spin_boot q \<and> (\<forall>c \<in> {1, 2}. \<forall>s'. spin_step {Call_lock} c spin_boot s' \<longrightarrow>
    (\<exists>q'. spin_inv {1, 2} s' q' \<and> (q' = q \<or> c \<notin> set q \<and> q' = q @ [c] \<or> q = c # q')))"
  by (rule core_pm_spnlck_fifo [OF spin_boot_start]) auto

text \<open>
  C24. Every CPU is served: in every run of fewer than 65536 CPUs with \<^verbatim>\<open>core_pm_spnlck_lock\<close>,
  \<^verbatim>\<open>core_pm_spnlck_raw_lock\<close> and the releases in which each CPU that is in a function or in the critical
  section gets to run again and again, and no CPU raises \<^verbatim>\<open>EDEADLOCK\<close>, a CPU that waits for the lock is
  inside the critical section later.
\<close>

theorem core_pm_spnlck_lock_served:
  assumes "spin_run CPUS CALLS sched \<sigma>" "spin_fair sched \<sigma>" "card CPUS < 2 ^ 16" "CALLS \<subseteq> {Call_lock, Call_raw_lock}"
    and "\<forall>i c. cpu_pc (\<sigma> i) c \<noteq> Dead" and "cpu_pc (\<sigma> i) c \<in> waiting"
  shows "\<exists>j \<ge> i. cpu_pc (\<sigma> j) c \<in> inside"
proof -
  have step: "sched j \<in> CPUS" "spin_step CALLS (sched j) (\<sigma> j) (\<sigma> (Suc j))" for j using assms(1) by (auto simp: spin_run_def)
  have reach: "spin_reach CPUS CALLS (\<sigma> j)" for j
  proof (induction j)
    case 0
    then show ?case using assms(1) by (simp add: spin_run_def)
  next
    case (Suc j)
    then show ?case using step [of j] by (auto intro: spin_reach.step)
  qed
  obtain q where q: "spin_inv CPUS (\<sigma> i) q" using spin_reach_inv [OF reach assms(3,4)] by blast
  have b: "cpu_pc (\<sigma> i) c \<in> before" using assms(6) by (auto simp: before_def)
  then have "c \<in> set q" using in_queue [OF q] before_queued by blast
  then obtain pre post where "q = pre @ c # post" by (auto simp: in_set_conv_decomp)
  then have "behind CPUS (\<sigma> i) pre c" using q b by (auto simp: behind_def)
  then show ?thesis using spin_served [OF assms(1-5)] by blast
qed

theorem core_pm_spnlck_lock_served_witness: "\<exists>j \<ge> 2. cpu_pc (alone_run j) 1 \<in> inside"
proof (rule core_pm_spnlck_lock_served)
  have "spin_step {Call_lock} 1 (alone_run i) (alone_run (Suc i))" for i using spin_next_step [of 1 Call_lock "alone_run i"] alone_run [of i] by (simp del: alone_run.simps)
  then show "spin_run {1} {Call_lock} (\<lambda>_. 1) alone_run" using spin_boot_start by (simp add: spin_run_def)
  have "cpu_pc (alone_run i) c = Out \<or> c = 1 \<and> cpu_pc (alone_run i) c \<noteq> Dead" for i c using alone_run [of i] by (cases "c = 1") (auto simp: alone_def)
  then show "\<forall>i c. cpu_pc (alone_run i) c \<noteq> Dead" "spin_fair (\<lambda>_. 1) alone_run" by (metis spin_pc.distinct(1), auto simp: spin_fair_def)
  show "cpu_pc (alone_run 2) 1 \<in> waiting" by (simp add: numeral_2_eq_2 spin_eval)
qed auto

text \<open>
  C26. \<^verbatim>\<open>core_pm_spnlck_trylock\<close> takes a lock that another CPU holds: it never compares the ticket with the
  owner, so two CPUs can be in the critical section together.
\<close>

theorem core_pm_spnlck_trylock_breaks_in:
  "\<exists>s. spin_reach {1, 2} {Call_lock, Call_trylock} s \<and> cpu_pc s 1 = Inside \<and> cpu_pc s 2 = Inside"
proof -
  let ?ms = "[(1, Call_lock), (1, Call_lock), (1, Call_lock), (1, Call_lock), (1, Call_lock),
      (2, Call_trylock), (2, Call_trylock), (2, Call_trylock), (2, Call_trylock), (2, Call_trylock)]"
  have "spin_places_after ?ms 1 2 = Some (Inside, Inside)" by code_simp
  then obtain s where s: "spin_play ?ms spin_boot = Some s" "cpu_pc s 1 = Inside" "cpu_pc s 2 = Inside" by (auto simp: spin_places_after_def)
  then have "spin_reach {1, 2} {Call_lock, Call_trylock} s" using spin_play_reach [OF spin_boot_start] by fastforce
  then show ?thesis using s by blast
qed

text \<open>
  C27. \<^verbatim>\<open>core_pm_spnlck_lock\<close> can raise \<^verbatim>\<open>EDEADLOCK\<close> on a CPU that does not hold the lock: \<^verbatim>\<open>cpu_index\<close> still names
  the last owner when the next CPU has its turn but has not entered yet.
\<close>

theorem core_pm_spnlck_lock_false_deadlock:
  "\<exists>s. spin_reach {1, 2} {Call_lock} s \<and> cpu_pc s 1 = Dead \<and> (\<forall>c. cpu_pc s c \<notin> owning)"
proof -
  let ?ms = "replicate 9 (1, Call_lock) @ [(2, Call_lock), (2, Call_lock)] @ replicate 4 (1, Call_lock)"
  have "spin_places_after ?ms 1 2 = Some (Dead, Lock_wait)" by code_simp
  then obtain s where s: "spin_play ?ms spin_boot = Some s" "cpu_pc s 1 = Dead" "cpu_pc s 2 = Lock_wait" by (auto simp: spin_places_after_def)
  have "cpu_pc s c = Out" if "c \<noteq> 1" "c \<noteq> 2" for c
    using spin_play_other [OF s(1), of c] that by (simp add: spin_boot_def spin_idle_def)
  then have "cpu_pc s c \<notin> owning" for c using s(2,3) by (cases "c = 1"; cases "c = 2") (auto simp: owning_def)
  moreover have "spin_reach {1, 2} {Call_lock} s" using s(1) by (rule spin_play_reach [OF spin_boot_start]) auto
  ultimately show ?thesis using s(2) by blast
qed

subsection \<open>The readers-writer lock\<close>

definition rw_next :: "u32 \<Rightarrow> rw_call \<Rightarrow> rw_sys \<Rightarrow> rw_sys option" where
  "rw_next c k s =
     (case rw_at s c of
        Rw_out \<Rightarrow> Some (rw_jump s c (rw_entry k))
      | Reading \<Rightarrow> Some (rw_jump s c R_leave)
      | Writing \<Rightarrow> Some (rw_jump s c W_leave)
      | _ \<Rightarrow> map_option (\<lambda>(l, t). \<lparr>ry_lock = l, ry_cpu = (ry_cpu s)(c := t)\<rparr>) (rw_access c (ry_lock s) (ry_cpu s c)))"

fun rw_play :: "(u32 \<times> rw_call) list \<Rightarrow> rw_sys \<Rightarrow> rw_sys option" where
  "rw_play [] s = Some s"
| "rw_play ((c, k) # ms) s = (case rw_next c k s of Some s' \<Rightarrow> rw_play ms s' | None \<Rightarrow> None)"

lemma rw_next_step: "rw_next c k s = Some s' \<Longrightarrow> k \<in> CALLS \<Longrightarrow> rw_step CALLS c s s'"
  by (cases "rw_at s c") (auto simp: rw_next_def intro: rw_step.intros)

lemma rw_play_reach:
  "rw_reach CPUS CALLS s \<Longrightarrow> rw_play ms s = Some s' \<Longrightarrow> set ms \<subseteq> CPUS \<times> CALLS \<Longrightarrow> rw_reach CPUS CALLS s'"
proof (induction ms arbitrary: s)
  case (Cons m ms)
  obtain c k where "m = (c, k)" by (cases m)
  then obtain s1 where "c \<in> CPUS" "k \<in> CALLS" "rw_next c k s = Some s1" "rw_play ms s1 = Some s'" "set ms \<subseteq> CPUS \<times> CALLS"
    using Cons.prems by (auto split: option.splits)
  then show ?case using Cons.IH [of s1] Cons.prems(1) rw_next_step [of c k s s1] by (blast intro: rw_reach.step)
qed simp

declare rw_play.simps [simp del]

definition rw_boot :: rw_sys where
  "rw_boot = \<lparr>ry_lock = core_pm_spnlck_rw_init \<lparr>rw_lock = sy_lock spin_boot, rw_reader_count = 4\<rparr>,
     ry_cpu = \<lambda>_. \<lparr>rc_pc = Rw_out, rc_spin = spin_idle, rc_priority = 0, rc_status = 0\<rparr>\<rparr>"

lemma rw_boot_start: "rw_reach CPUS CALLS rw_boot"
  by (rule rw_reach.start) (auto simp: rw_start_def rw_boot_def spin_idle_def)

text \<open>
  C25. The readers-writer lock: in every state that fewer than 65536 CPUs reach with
  \<^verbatim>\<open>core_pm_spnlck_rw_r_lock\<close>, \<^verbatim>\<open>core_pm_spnlck_rw_w_lock\<close> and the releases, the reader count is the number of the
  CPUs that have counted themselves in the read lock and not yet in the read unlock, and while a CPU writes
  no other CPU writes, no CPU reads and the count is 0.
\<close>

theorem core_pm_spnlck_rw_excludes:
  assumes "rw_reach CPUS CALLS s" "card CPUS < 2 ^ 16" "CALLS \<subseteq> {Call_r_lock, Call_w_lock}"
  shows "unat (rw_reader_count (ry_lock s)) = card {d. rw_at s d \<in> {R_unlocking, Reading, R_leave}} \<and>
    (\<forall>c. rw_at s c = Writing \<longrightarrow>
      (\<forall>d. rw_at s d = Writing \<longrightarrow> d = c) \<and> (\<forall>d. rw_at s d \<noteq> Reading) \<and> rw_reader_count (ry_lock s) = 0)"
proof (intro conjI allI impI)
  have inv: "rw_inv CPUS s" using rw_reach_inv [OF assms(1-3)] .
  show "unat (rw_reader_count (ry_lock s)) = card {d. rw_at s d \<in> {R_unlocking, Reading, R_leave}}"
    using rw_count [OF inv assms(2)] by (simp add: counted_def)
  fix c
  assume w: "rw_at s c = Writing"
  from inv obtain q where q: "spin_inv CPUS (spin_of s) q" by (auto simp: rw_inv_def)
  have "cpu_pc (spin_of s) d \<in> owning" if "rw_at s d = Writing" for d
    using inv that by (simp add: rw_inv_def owning_def) (metis singletonD spin_places.simps(5))
  then show "d = c" if "rw_at s d = Writing" for d using q that w unfolding spin_inv_def by (metis list.inject)
  have "{d. rw_at s d \<in> counted} = {}" using inv w by (auto simp: rw_inv_def writing_def)
  then show "rw_at s d \<noteq> Reading" "rw_reader_count (ry_lock s) = 0" for d using inv by (auto simp: rw_inv_def counted_def)
qed

theorem core_pm_spnlck_rw_excludes_witness:
  "\<exists>s. rw_play (replicate 8 (1, Call_w_lock) @ replicate 3 (2, Call_r_lock)) rw_boot = Some s \<and> rw_at s 1 = Writing \<and> (\<forall>d. rw_at s d \<noteq> Reading) \<and>
    card {d. rw_at s d \<in> {R_unlocking, Reading, R_leave}} = 0"
proof -
  let ?ms = "replicate 8 (1, Call_w_lock) @ replicate 3 (2, Call_r_lock)"
  have "map_option (\<lambda>s. rw_at s 1) (rw_play ?ms rw_boot) = Some Writing" by code_simp
  then obtain s where s: "rw_play ?ms rw_boot = Some s" "rw_at s 1 = Writing" by auto
  have "rw_reach {1, 2} {Call_r_lock, Call_w_lock} s" using s(1) by (rule rw_play_reach [OF rw_boot_start]) auto
  from core_pm_spnlck_rw_excludes [OF this] s show ?thesis by auto
qed

end
