(* ===== verification/Spec2Isabelle.thy ===== *)
theory Spec2Isabelle
  imports HalMath ByteMem RtlMem RtlMemScan RtlMemCopy RtlStr RtlStrProofs RtlConv RtlList RtlListProofs
    RtlListSort RtlQueue RtlMap RtlMapHeap RtlMapInsert RtlMapTree RtlMapRebalance RtlMapRemove RtlMapOps RtlMapSpec
    RtlArray RtlArrayProofs SchedThread Sched SchedOps SchedModel SchedRefine
    SchedNext SchedTick SchedInv SchedSpec SchedFaults
    MmHeap MmHeapOps MmHeapTree MmHeapSwap MmHeapIndex MmHeapFit MmHeapState MmHeapLayout
    MmHeapSteps MmHeapPages MmHeapInv MmHeapAlloc MmHeapFree MmHeapAreas MmHeapClient MmHeapSpec
    SpinLock SpinLockInv SpinLockLive SpinLockRw SpinLockSpec
begin

text \<open>
  A verification library for the Sandnix kernel (\<^verbatim>\<open>src/src/sandnix/kernel\<close>; the paths below are relative
  to it), a small multiprocessor kernel in C for x86 and ARM, both with 32-bit addresses.

  \<^bold>\<open>The program.\<close> The hardware layer \<^verbatim>\<open>hal\<close> has division routines (the compiler's are not linked), the
  string instructions, the page tables, the physical page map and the interrupts. The core stands on it:
  \<^verbatim>\<open>core/rtl\<close> is the runtime library (memory, strings, lists, queues, stacks, maps, arrays), \<^verbatim>\<open>core/mm\<close>
  the heap and the paging, \<^verbatim>\<open>core/pm\<close> locks, threads and processes. The containers keep their nodes in a
  heap; the heap keeps its free and used blocks in red-black trees of its own and takes its lock, a ticket
  spinlock, around every operation.

  \<^bold>\<open>How the code is modelled.\<close> A pointer is a 32-bit word and \<^verbatim>\<open>NULL\<close> is 0; integers have their width and
  wrap. Raw memory is a function from addresses to bytes. Structures that are linked by pointers live in
  stores, partial functions from addresses to records with the fields of the \<^verbatim>\<open>struct\<close>; an access to an
  address without a live object is \<open>None\<close>, so a result \<open>Some\<close> includes memory safety. A loop that need not
  end is a \<^verbatim>\<open>partial_function (option)\<close>, so \<open>Some\<close> also says that the code returns. Callbacks that are pure
  (comparison, search) are arguments, callbacks that free are given by the trace of their calls; the result
  of a comparison has 32 bits in quicksort, which negates it, and is an integer in the maps, which only test
  its sign. What an
  allocator returns is an argument, \<^verbatim>\<open>NULL\<close> or an address that is not in use. Functions are translated
  one by one and keep their names; a loop of a function is a definition next to it.

  \<^bold>\<open>The theories.\<close>
  \<^item> \<open>Prelude\<close>: machine types, words as numbers, masks, reading and writing fields of objects in a store.
  \<^item> \<open>HalMath\<close>: \<^verbatim>\<open>hal/rtl/math/math.c\<close>; the shift-and-subtract loop computes quotient and remainder.
  \<^item> \<open>ByteMem\<close>: \<^verbatim>\<open>hal/rtl/string/x86/string.h\<close>, the string instructions; when they are block copies.
  \<^item> \<open>RtlMem\<close>, \<open>RtlMemScan\<close>, \<open>RtlMemCopy\<close>, \<open>RtlStr\<close>, \<open>RtlStrProofs\<close>, \<open>RtlConv\<close>: \<^verbatim>\<open>core/rtl/string/string.c\<close>. The
    routines that work a word at a time with bit tricks equal the byte-wise scans, copies are exact when
    the blocks overlap, the number conversions are inverse to each other.
  \<^item> \<open>RtlList\<close>, \<open>RtlListProofs\<close>, \<open>RtlListSort\<close>: \<^verbatim>\<open>core/rtl/container/list\<close>. Every operation on the circular doubly
    linked list is an operation on the list of its items and leaves other nodes alone; quicksort sorts.
  \<^item> \<open>ItemCompare\<close>: the contract of the comparison callbacks, as a locale.
  \<^item> \<open>RtlQueue\<close>: \<^verbatim>\<open>core/rtl/container/queue\<close> and \<^verbatim>\<open>stack\<close>, each an interpretation of the locale of a container.
  \<^item> \<open>RtlMap\<close> to \<open>RtlMapSpec\<close>: \<^verbatim>\<open>core/rtl/container/map\<close>, a red-black tree with parent pointers. \<open>RtlMapHeap\<close>
    relates the pointers to a tree seen at a focus, \<open>RtlMapInsert\<close>, \<open>RtlMapRebalance\<close> and \<open>RtlMapRemove\<close> follow the
    repairs case by case, \<open>RtlMapTree\<close> and \<open>RtlMapOps\<close> lift them to ordered association lists, \<open>RtlMapSpec\<close>
    has the contract of a finite map as a locale and its interpretation.
  \<^item> \<open>RtlArray\<close>, \<open>RtlArrayProofs\<close>: \<^verbatim>\<open>core/rtl/container/array\<close>, the sparse array of thread, process and page tables.
  \<^item> \<open>MmHeap\<close>, \<open>MmHeapOps\<close>: \<^verbatim>\<open>core/mm/heap/heap.c\<close>. \<open>MmHeapTree\<close> and \<open>MmHeapSwap\<close> show that its trees are the trees of
    the map, \<open>MmHeapIndex\<close> and \<open>MmHeapFit\<close> that they are sorted indexes with best fit, \<open>MmHeapState\<close> and
    \<open>MmHeapLayout\<close> describe a heap as pages that are tiled by blocks, \<open>MmHeapSteps\<close>, \<open>MmHeapPages\<close>, \<open>MmHeapAlloc\<close> and
    \<open>MmHeapFree\<close> follow the operations, \<open>MmHeapInv\<close> has the invariant and the check, \<open>MmHeapAreas\<close> and
    \<open>MmHeapClient\<close> the contract of a block allocator towards its clients, \<open>MmHeapSpec\<close> the properties.
  \<^item> \<open>SpinLock\<close> to \<open>SpinLockSpec\<close>: \<^verbatim>\<open>core/pm/lock/spinlock\<close>, the ticket lock and the readers-writer lock as step
    relations of CPUs that interleave at every access to the lock: mutual exclusion, order, progress.
  \<^item> \<open>SchedThread\<close>, \<open>Sched\<close>, \<open>SchedOps\<close>: the scheduler of \<^verbatim>\<open>core/pm/thread/thread.c\<close> on the thread objects of
    \<^verbatim>\<open>thread_obj.c\<close>; its lists are those of \<open>RtlList\<close>, its thread table is the one of \<open>RtlArray\<close>. \<open>SchedModel\<close> relates the
    stores to a queue of threads for every priority, \<open>SchedRefine\<close> and \<open>SchedNext\<close> follow \<^verbatim>\<open>next_task\<close> loop by loop to
    a function on the queues, \<open>SchedTick\<close> lifts it to the tick interrupt, \<open>SchedInv\<close> has the invariant between two
    ticks, \<open>SchedSpec\<close> what the scheduler guarantees, \<open>SchedFaults\<close> where the operations on threads and the
    scheduler do not fit.

  \<^bold>\<open>Bounds.\<close> There is no fuel. The ticket lock is proved for fewer than 65536 CPUs, since tickets have 16
  bits; the refinement of an allocation holds for requests below 2 to the 32 less the size of the headers,
  and two theorems show what happens beyond; array operations hold for the indexes below its size. The theorems on
  the scheduler are about one CPU between two ticks; \<^verbatim>\<open>sched_lock\<close> makes the choice of a thread one step.

  \<^bold>\<open>Not modelled.\<close> Page tables, interrupts, contexts and devices (\<^verbatim>\<open>hal/mmu/paging\<close>, \<^verbatim>\<open>hal/io\<close>, \<^verbatim>\<open>hal/cpu\<close>) are
  assembly and device registers. Threads are scheduled here but not created, joined or buried: that part of
  \<^verbatim>\<open>thread.c\<close> is about stacks, contexts and reference-counted objects. The rest of the core that is listed as
  not modelled in the manifest (paging, processes, exceptions, messages, signals) is within reach of the same
  technique but is not covered here.
\<close>

end
